(* ===== verification/Duro_Prelude.thy ===== *)
theory Duro_Prelude
  imports Main "HOL-Library.Word"
begin

text \<open>
  Vocabulary shared by all components: the C heap as far as the code can observe it
  (an allocation either fails or yields a fresh address), the error values that
  \<^verbatim>\<open>obj/excontext.c\<close> raises, the return codes of the functions that have no
  execution context, the fault monad, and generic facts on lists and options.
\<close>

section \<open>Machine types\<close>

type_synonym u8 = "8 word"
type_synonym u32 = "32 word"
type_synonym u64 = "64 word"
type_synonym i32 = "32 word"
type_synonym bytes = "u8 list"

section \<open>The allocator\<close>

text \<open>
  \<^verbatim>\<open>malloc\<close> returns either \<^verbatim>\<open>NULL\<close> or the address of a block no live
  pointer refers to.  The list \<open>fails\<close> says which of the coming calls fail; once it is
  used up, every call succeeds.  Addresses are never handed out twice.
\<close>

record mem =
  fails :: "bool list"
  next_addr :: nat

definition malloc :: "mem \<Rightarrow> nat option \<times> mem" where
  "malloc m =
     (case fails m of
        [] \<Rightarrow> (Some (next_addr m), m\<lparr>next_addr := Suc (next_addr m)\<rparr>)
      | False # fs \<Rightarrow> (Some (next_addr m), m\<lparr>fails := fs, next_addr := Suc (next_addr m)\<rparr>)
      | True # fs \<Rightarrow> (None, m\<lparr>fails := fs\<rparr>))"

definition mem_ok :: mem where
  "mem_ok = \<lparr>fails = [], next_addr = 1\<rparr>"

section \<open>Errors and faults\<close>

text \<open>The error types an \<^verbatim>\<open>RDB_raise_...\<close> function can leave in the context.\<close>

datatype rdb_error_type =
    NO_RUNNING_TX_ERROR | INVALID_ARGUMENT_ERROR | TYPE_MISMATCH_ERROR | NOT_FOUND_ERROR
  | OPERATOR_NOT_FOUND_ERROR | TYPE_NOT_FOUND_ERROR | NAME_ERROR | ELEMENT_EXISTS_ERROR
  | TYPE_CONSTRAINT_VIOLATION_ERROR | KEY_VIOLATION_ERROR | PREDICATE_VIOLATION_ERROR
  | AGGREGATE_UNDEFINED_ERROR | VERSION_MISMATCH_ERROR | NOT_SUPPORTED_ERROR | NO_MEMORY_ERROR
  | IN_USE_ERROR | SYSTEM_ERROR | RESOURCE_NOT_FOUND_ERROR | INTERNAL_ERROR | CONCURRENCY_ERROR
  | DEADLOCK_ERROR | DATA_CORRUPTED_ERROR | RUN_RECOVERY_ERROR | SYNTAX_ERROR | CONNECTION_ERROR

datatype rdb_error = RdbError (err_type: rdb_error_type) (err_msg: string)

text \<open>
  What a call can end with beside a value: an error in the execution context, an error
  return that leaves no error there, an access outside of the allocated memory (a null
  pointer among them), a trap or a failed assertion, or a loop that is never left.
  \<open>Unmodelled\<close> marks the branches on tables, which the model leaves out.
\<close>

datatype fault = Raised rdb_error | Silent | Segfault | Crash | Diverges | Unmodelled

type_synonym 'a result = "fault + 'a"

text \<open>Return codes of the functions that report no error object.\<close>

datatype errcode = RDB_OK | ENOMEM | EINVAL | ENOENT | RDB_RECORD_CORRUPTED | Errno int

fun has_type :: "rdb_error_type \<Rightarrow> fault \<Rightarrow> bool" where
  "has_type t (Raised e) \<longleftrightarrow> err_type e = t"
| "has_type t _ \<longleftrightarrow> False"

fun failed :: "'a result \<Rightarrow> bool" where
  "failed (Inl _) \<longleftrightarrow> True"
| "failed (Inr _) \<longleftrightarrow> False"

lemma has_type_iff: "has_type t f \<longleftrightarrow> (\<exists>msg. f = Raised (RdbError t msg))"
  by (cases "(t, f)" rule: has_type.cases) (auto, metis rdb_error.collapse)

lemma failed_iff: "failed r \<longleftrightarrow> (\<exists>e. r = Inl e)"
  by (cases r) auto

abbreviation raise_err :: "rdb_error_type \<Rightarrow> string \<Rightarrow> 'a result" where
  "raise_err t msg \<equiv> Inl (Raised (RdbError t msg))"

abbreviation NO_MEM :: "'a result" where
  "NO_MEM \<equiv> raise_err NO_MEMORY_ERROR ''''"

text \<open>Sequencing of two calls, the second of which is made only if the first returns.\<close>

fun rbind :: "'a result \<Rightarrow> ('a \<Rightarrow> 'b result) \<Rightarrow> 'b result" where
  "rbind (Inl f) g = Inl f"
| "rbind (Inr x) g = g x"

lemma rbind_Inr_iff [simp]: "rbind x g = Inr y \<longleftrightarrow> (\<exists>v. x = Inr v \<and> g v = Inr y)"
  by (cases x) auto

lemma rbind_cong [fundef_cong]:
  "x = y \<Longrightarrow> (\<And>v. y = Inr v \<Longrightarrow> f v = g v) \<Longrightarrow> rbind x f = rbind y g"
  by (cases y) auto

text \<open>Conversions of the C code between \<^verbatim>\<open>int\<close> and \<^verbatim>\<open>size_t\<close>.\<close>

definition to_int :: "int \<Rightarrow> int" where
  "to_int x = sint (word_of_int x :: i32)"

definition to_size :: "int \<Rightarrow> nat" where
  "to_size x = unat (word_of_int x :: u64)"

lemma to_int_id: "- (2 ^ 31) \<le> x \<Longrightarrow> x < 2 ^ 31 \<Longrightarrow> to_int x = x"
  unfolding to_int_def by (simp add: sint_sbintrunc' signed_take_bit_int_eq_self)

lemma to_size_id: "0 \<le> x \<Longrightarrow> x < 2 ^ 64 \<Longrightarrow> to_size x = nat x"
  unfolding to_size_def by (simp add: unat_eq_nat_uint uint_word_of_int)

lemma to_size_le: "0 \<le> x \<Longrightarrow> int (to_size x) \<le> x"
  by (simp add: to_size_def unat_eq_nat_uint uint_word_of_int zmod_le_nonneg_dividend)

lemma to_int_shift: "to_int x = (x + 2 ^ 31) mod 2 ^ 32 - 2 ^ 31"
  by (simp add: to_int_def sint_sbintrunc' signed_take_bit_eq_take_bit_shift take_bit_eq_mod)

lemma to_int_above: "2 ^ 31 \<le> x \<Longrightarrow> x < 2 ^ 32 + 2 ^ 31 \<Longrightarrow> to_int x = x - 2 ^ 32"
proof -
  assume "2 ^ 31 \<le> x" "x < 2 ^ 32 + 2 ^ 31"
  then have "(x + 2 ^ 31 - 2 ^ 32) mod 2 ^ 32 = x + 2 ^ 31 - 2 ^ 32" by (intro mod_pos_pos_trivial) simp_all
  then show ?thesis unfolding to_int_shift minus_mod_self2 by simp
qed

lemma to_size_neg: "- (2 ^ 64) \<le> x \<Longrightarrow> x < 0 \<Longrightarrow> to_size x = nat (x + 2 ^ 64)"
proof -
  assume "- (2 ^ 64) \<le> x" "x < 0"
  then have "x mod 2 ^ 64 = x + 2 ^ 64"
    using mod_pos_pos_trivial[of "x + 2 ^ 64" "2 ^ 64"] by simp
  then show ?thesis by (simp add: to_size_def unat_eq_nat_uint uint_word_of_int)
qed

text \<open>Writing and reading a part of a memory block; outside of it the access is a fault.\<close>

definition write_at :: "'a list \<Rightarrow> int \<Rightarrow> 'a list \<Rightarrow> 'a list result" where
  "write_at d offs bs =
     (if bs = [] then Inr d
      else if 0 \<le> offs \<and> nat offs + length bs \<le> length d
      then Inr (take (nat offs) d @ bs @ drop (nat offs + length bs) d)
      else Inl Segfault)"

definition read_at :: "'a list \<Rightarrow> int \<Rightarrow> nat \<Rightarrow> 'a list result" where
  "read_at d offs n =
     (if n = 0 then Inr []
      else if 0 \<le> offs \<and> nat offs + n \<le> length d then Inr (take n (drop (nat offs) d))
      else Inl Segfault)"

lemma write_at_append:
  "offs = int (length xs) \<Longrightarrow> length ys = length bs
    \<Longrightarrow> write_at (xs @ ys @ zs) offs bs = Inr (xs @ bs @ zs)"
  by (auto simp: write_at_def)

lemma read_at_append:
  "offs = int (length xs) \<Longrightarrow> n = length ys \<Longrightarrow> read_at (xs @ ys @ zs) offs n = Inr ys"
  by (auto simp: read_at_def)

section \<open>Generic lemmas\<close>

named_theorems mem_simps "evaluation of the allocator"

lemma malloc_cases [case_names null block]:
  assumes "malloc m = (r, m')"
  obtains "r = None" "next_addr m' = next_addr m"
        | a where "r = Some a" "a = next_addr m" "next_addr m' = Suc a"
  using assms by (auto simp: malloc_def split: list.splits bool.splits)

lemma malloc_ok [mem_simps]:
  "fails m = [] \<Longrightarrow> malloc m = (Some (next_addr m), m\<lparr>next_addr := Suc (next_addr m)\<rparr>)"
  by (simp add: malloc_def)

lemma malloc_fail [mem_simps]: "fails m = True # fs \<Longrightarrow> malloc m = (None, m\<lparr>fails := fs\<rparr>)"
  by (simp add: malloc_def)

lemma fails_mem_ok [simp]: "fails mem_ok = []"
  by (simp add: mem_ok_def)

lemma option_eqI: "(\<And>x. a = Some x \<longleftrightarrow> b = Some x) \<Longrightarrow> a = b"
  by (cases a; cases b) auto

lemma map_option_inj_None [simp]: "(None = map_option f x) = (x = None)"
  by (cases x) auto

text \<open>What every call does to the allocator.\<close>

definition mem_le :: "mem \<Rightarrow> mem \<Rightarrow> bool" where
  "mem_le m m' \<longleftrightarrow> next_addr m \<le> next_addr m' \<and> (fails m = [] \<longrightarrow> fails m' = [])"

lemma mem_le_refl [simp]: "mem_le m m"
  by (simp add: mem_le_def)

lemma mem_le_trans [trans]: "mem_le a b \<Longrightarrow> mem_le b c \<Longrightarrow> mem_le a c"
  by (auto simp: mem_le_def)

lemma mem_le_fails: "mem_le m m' \<Longrightarrow> fails m' \<noteq> [] \<Longrightarrow> fails m \<noteq> []"
  by (auto simp: mem_le_def)

lemma malloc_mem_le: "malloc m = (r, m') \<Longrightarrow> mem_le m m'"
  by (auto simp: malloc_def mem_le_def split: list.splits bool.splits)

lemma malloc_None_fails: "malloc m = (None, m') \<Longrightarrow> fails m \<noteq> []"
  by (auto simp: malloc_def split: list.splits bool.splits)

end
