(* ===== verification/C_Strings.thy ===== *)
theory C_Strings
  imports Duro_Prelude
begin

text \<open>
  \<^verbatim>\<open>gen/strfns.c\<close>.  A C string is the \<open>string\<close> of its characters before the
  terminating null, so the strings of the model contain no null character; \<^verbatim>\<open>strcmp\<close>
  is equality where the code only tests its result against zero.
\<close>

unbundle bit_operations_syntax

section \<open>Duplicating and searching\<close>

definition RDB_dup_str :: "string \<Rightarrow> mem \<Rightarrow> string option \<times> mem" where
  "RDB_dup_str s m = (case malloc m of (None, m') \<Rightarrow> (None, m') | (Some _, m') \<Rightarrow> (Some s, m'))"

text \<open>The copy loop of \<^verbatim>\<open>RDB_dup_strvec\<close>; it gives up at the first failing copy.\<close>

fun dup_strs :: "string list \<Rightarrow> mem \<Rightarrow> string list option \<times> mem" where
  "dup_strs [] m = (Some [], m)"
| "dup_strs (s # ss) m =
     (case RDB_dup_str s m of
        (None, m') \<Rightarrow> (None, m')
      | (Some d, m') \<Rightarrow>
          (case dup_strs ss m' of
             (None, m'') \<Rightarrow> (None, m'')
           | (Some ds, m'') \<Rightarrow> (Some (d # ds), m'')))"

definition RDB_dup_strvec :: "string list \<Rightarrow> mem \<Rightarrow> string list option \<times> mem" where
  "RDB_dup_strvec srcv m =
     (case malloc m of (None, m') \<Rightarrow> (None, m') | (Some _, m') \<Rightarrow> dup_strs srcv m')"

fun find_str_from :: "int \<Rightarrow> string list \<Rightarrow> string \<Rightarrow> int" where
  "find_str_from i [] str = -1"
| "find_str_from i (s # strv) str = (if s = str then i else find_str_from (i + 1) strv str)"

definition RDB_find_str :: "string list \<Rightarrow> string \<Rightarrow> int" where
  "RDB_find_str strv str = find_str_from 0 strv str"

section \<open>Comparing\<close>

text \<open>\<^verbatim>\<open>strcmp\<close> compares the characters as unsigned bytes.\<close>

fun strcmp :: "string \<Rightarrow> string \<Rightarrow> int" where
  "strcmp [] [] = 0"
| "strcmp [] (d # ds) = -1"
| "strcmp (c # cs) [] = 1"
| "strcmp (c # cs) (d # ds) = (if c = d then strcmp cs ds else of_char c - of_char d)"

section \<open>Hashing\<close>

text \<open>\<^verbatim>\<open>char\<close> is signed: a character above 127 is read as a negative number.\<close>

definition signed_char :: "char \<Rightarrow> int" where
  "signed_char c = (let n = of_char c in if n \<ge> 128 then n - 256 else n)"

fun hash_loop :: "u32 \<Rightarrow> string \<Rightarrow> u32" where
  "hash_loop hash [] = hash"
| "hash_loop hash (c # str) = hash_loop ((hash * 33) XOR word_of_int (signed_char c)) str"

definition RDB_hash_str :: "string \<Rightarrow> u32" where
  "RDB_hash_str str = hash_loop 5381 str"

section \<open>Facts\<close>

lemma dup_str_result: "RDB_dup_str s m = (r, m') \<Longrightarrow> r = None \<or> r = Some s"
  by (auto simp: RDB_dup_str_def split: option.splits prod.splits)

lemma dup_strs_result: "dup_strs ss m = (r, m') \<Longrightarrow> r = None \<or> r = Some ss"
  by (induction ss arbitrary: m r m')
     (auto split: option.splits prod.splits dest: dup_str_result)

lemma dup_strvec_result: "RDB_dup_strvec ss m = (r, m') \<Longrightarrow> r = None \<or> r = Some ss"
  by (auto simp: RDB_dup_strvec_def split: option.splits prod.splits dest: dup_strs_result)

lemma find_str_from_ge: "find_str_from i strv str = -1 \<or> i \<le> find_str_from i strv str"
  by (induction strv arbitrary: i) (auto, smt (verit))

lemma find_str_from_None: "0 \<le> i \<Longrightarrow> find_str_from i strv str = -1 \<longleftrightarrow> str \<notin> set strv"
  by (induction strv arbitrary: i) auto

lemma find_str_from_Some:
  "0 \<le> i \<Longrightarrow> find_str_from i strv str = j \<Longrightarrow> j \<noteq> -1 \<Longrightarrow>
     i \<le> j \<and> nat (j - i) < length strv \<and> strv ! nat (j - i) = str"
proof (induction strv arbitrary: i)
  case (Cons s strv)
  show ?case
  proof (cases "s = str")
    case True
    with Cons.prems show ?thesis by auto
  next
    case False
    then have "i + 1 \<le> j \<and> nat (j - (i + 1)) < length strv \<and> strv ! nat (j - (i + 1)) = str"
      using Cons.IH[of "i + 1"] Cons.prems by simp
    moreover from this have "nat (j - i) = Suc (nat (j - (i + 1)))" by linarith
    ultimately show ?thesis by simp
  qed
qed simp

lemma find_str_None [simp]: "RDB_find_str strv str = -1 \<longleftrightarrow> str \<notin> set strv"
  by (simp add: RDB_find_str_def find_str_from_None)

lemma find_str_Some:
  "RDB_find_str strv str = j \<Longrightarrow> j \<noteq> -1 \<Longrightarrow> 0 \<le> j \<and> nat j < length strv \<and> strv ! nat j = str"
  using find_str_from_Some[of 0 strv str j] by (simp add: RDB_find_str_def)

end
