(* ===== verification/Actions.thy ===== *)
theory Actions
  imports C_Strings
begin

text \<open>
  Calls that allocate.  A C function that takes memory, and can give up at any point with
  an error in the execution context, is an \<open>action\<close>; a loop that gives up at the first
  failing step is \<open>each\<close>.  \<open>computes f r\<close> says that \<open>f\<close> ends with \<open>r\<close> or, when
  memory is short, with the out-of-memory error: it is the contract by which the
  allocating functions of \<^verbatim>\<open>obj/\<close> refine functions without a heap.
\<close>

type_synonym 'a action = "mem \<Rightarrow> 'a result \<times> mem"

definition done_with :: "'a \<Rightarrow> 'a action" where
  "done_with x m = (Inr x, m)"

definition end_with :: "'a result \<Rightarrow> 'a action" where
  "end_with r m = (r, m)"

definition and_then :: "'a action \<Rightarrow> ('a \<Rightarrow> 'b action) \<Rightarrow> 'b action" where
  "and_then f g m = (case f m of (Inl e, m') \<Rightarrow> (Inl e, m') | (Inr x, m') \<Rightarrow> g x m')"

fun each :: "('a \<Rightarrow> 'b action) \<Rightarrow> 'a list \<Rightarrow> 'b list action" where
  "each f [] = done_with []"
| "each f (x # xs) = and_then (f x) (\<lambda>y. and_then (each f xs) (\<lambda>ys. done_with (y # ys)))"

text \<open>\<^verbatim>\<open>RDB_alloc\<close> of \<^verbatim>\<open>obj/object.c\<close>, and the copy of a name with its check.\<close>

definition RDB_alloc :: "nat action" where
  "RDB_alloc m = (case malloc m of (None, m') \<Rightarrow> (NO_MEM, m') | (Some a, m') \<Rightarrow> (Inr a, m'))"

definition RDB_realloc :: "nat action" where
  "RDB_realloc m = (case malloc m of (None, m') \<Rightarrow> (NO_MEM, m') | (Some a, m') \<Rightarrow> (Inr a, m'))"

definition dup_name :: "string \<Rightarrow> string action" where
  "dup_name s m = (case RDB_dup_str s m of (None, m') \<Rightarrow> (NO_MEM, m') | (Some d, m') \<Rightarrow> (Inr d, m'))"

text \<open>
  Raising an error with a message copies the message; if that fails the error is the
  out-of-memory error, as in \<^verbatim>\<open>raise_msg_err\<close>.
\<close>

definition raise_error :: "rdb_error_type \<Rightarrow> string \<Rightarrow> 'a action" where
  "raise_error t msg m = (case malloc m of (None, m') \<Rightarrow> (NO_MEM, m') | (Some _, m') \<Rightarrow> (raise_err t msg, m'))"

lemma and_then_simps [simp]:
  "and_then (done_with x) g = g x" "and_then (end_with (Inr x)) g = g x"
  "and_then (end_with (Inl e)) g = end_with (Inl e)"
  by (simp_all add: fun_eq_iff and_then_def done_with_def end_with_def)

section \<open>Congruence for recursion through actions\<close>

lemma and_then_cong [fundef_cong]:
  "f = f' \<Longrightarrow> (\<And>x. g x = g' x) \<Longrightarrow> and_then f g = and_then f' g'"
  by (rule arg_cong2[where f = and_then]) auto

lemma each_cong [fundef_cong]:
  assumes "xs = ys" "\<And>x. x \<in> set ys \<Longrightarrow> f x = g x"
  shows "each f xs = each g ys"
  unfolding assms(1) using assms(2)
proof (induction ys)
  case (Cons y ys)
  then have "f y = g y" "each f ys = each g ys" by simp_all
  then show ?case by simp
qed simp

section \<open>Actions that compute a result\<close>

text \<open>
  \<open>E\<close> holds what may happen beside the out-of-memory error when an allocation fails; for
  code with a sound clean-up it is empty.
\<close>

definition computes :: "fault set \<Rightarrow> 'a action \<Rightarrow> 'a result \<Rightarrow> bool" where
  "computes E f r \<longleftrightarrow> (\<forall>m. mem_le m (snd (f m))
     \<and> (fst (f m) = r \<or> fails m \<noteq> [] \<and> (fst (f m) = NO_MEM \<or> (\<exists>e \<in> E. fst (f m) = Inl e))))"

named_theorems computing "actions that compute a result"

lemma computesD:
  assumes "computes E f r" "f m = (x, m')"
  shows "mem_le m m'" "x = r \<or> fails m \<noteq> [] \<and> (x = NO_MEM \<or> (\<exists>e \<in> E. x = Inl e))"
  using assms by (metis computes_def fst_conv snd_conv)+

lemma computes_run:
  assumes "computes E f r" "fails m = []"
  shows "fst (f m) = r" "fails (snd (f m)) = []"
  using assms by (auto simp: computes_def mem_le_def)

lemma computes_mono: "computes E f r \<Longrightarrow> E \<subseteq> E' \<Longrightarrow> computes E' f r"
  by (fastforce simp: computes_def)

lemma computes_done [computing]: "computes E (done_with x) (Inr x)"
  by (simp add: computes_def done_with_def)

lemma computes_end [computing]: "computes E (end_with r) r"
  by (simp add: computes_def end_with_def)

text \<open>The step all rules for sequences share: a first call that gave \<open>v\<close>, then another one.\<close>

lemma computes_step:
  assumes "f m = (Inr v, k)" "mem_le m k" "computes E (g v) s"
  shows "mem_le m (snd (and_then f g m))
    \<and> (fst (and_then f g m) = s
      \<or> fails m \<noteq> [] \<and> (fst (and_then f g m) = NO_MEM \<or> (\<exists>e \<in> E. fst (and_then f g m) = Inl e)))"
proof -
  obtain x k' where run: "g v k = (x, k')" by fastforce
  have "fails k \<noteq> [] \<longrightarrow> fails m \<noteq> []" using assms(2) by (auto simp: mem_le_def)
  then show ?thesis
    using computesD[OF assms(3) run] assms(1) run mem_le_trans[OF assms(2)] by (auto simp: and_then_def)
qed

lemma computes_and_then:
  assumes "computes E f r" and "\<And>x. r = Inr x \<Longrightarrow> computes E (g x) (s x)"
  shows "computes E (and_then f g) (rbind r s)"
  unfolding computes_def
proof
  fix m
  obtain x k where run: "f m = (x, k)" by fastforce
  note le = computesD[OF assms(1) run]
  show "mem_le m (snd (and_then f g m))
    \<and> (fst (and_then f g m) = rbind r s
      \<or> fails m \<noteq> [] \<and> (fst (and_then f g m) = NO_MEM \<or> (\<exists>e \<in> E. fst (and_then f g m) = Inl e)))"
  proof (cases x)
    case (Inl e)
    then show ?thesis using le run by (auto simp: and_then_def)
  next
    case (Inr v)
    then have "r = Inr v" using le(2) by auto
    then have "computes E (g v) (rbind r s)" using assms(2)[of v] by simp
    with run Inr le(1) show ?thesis by (intro computes_step[where v = v and k = k]) simp_all
  qed
qed

lemma computes_and_thenI [computing]:
  "computes E f (Inr x) \<Longrightarrow> computes E (g x) s \<Longrightarrow> computes E (and_then f g) s"
  using computes_and_then[of E f "Inr x" g "\<lambda>_. s"] by simp

lemma computes_and_then_Inl: "computes E f (Inl e) \<Longrightarrow> computes E (and_then f g) (Inl e)"
  using computes_and_then[of E f "Inl e" g undefined] by simp

text \<open>An allocation whose address is not used.\<close>

lemma computes_after_alloc [computing]:
  assumes "\<And>a. computes E (g a) r"
  shows "computes E (and_then RDB_alloc g) r" "computes E (and_then RDB_realloc g) r"
proof -
  have *: "mem_le m (snd (and_then A g m))
      \<and> (fst (and_then A g m) = r
        \<or> fails m \<noteq> [] \<and> (fst (and_then A g m) = NO_MEM \<or> (\<exists>e \<in> E. fst (and_then A g m) = Inl e)))"
    if A: "A m = (case malloc m of (None, m') \<Rightarrow> (NO_MEM, m') | (Some a, m') \<Rightarrow> (Inr a, m'))" for A m
  proof (cases "malloc m")
    case (Pair x k)
    note le = malloc_mem_le[OF Pair]
    show ?thesis
    proof (cases x)
      case None
      then show ?thesis using le Pair malloc_None_fails A by (auto simp: and_then_def)
    next
      case (Some a)
      then have "A m = (Inr a, k)" using A Pair by simp
      with le assms show ?thesis by (intro computes_step[where v = a and k = k]) simp_all
    qed
  qed
  show "computes E (and_then RDB_alloc g) r" "computes E (and_then RDB_realloc g) r"
    unfolding computes_def by (intro allI * RDB_alloc_def RDB_realloc_def)+
qed

lemma computes_maybe_alloc [computing]:
  assumes "\<And>a. computes E (g a) r"
  shows "computes E (and_then (if c then RDB_alloc else done_with a) g) r"
    "computes E (and_then (if c then RDB_realloc else done_with a) g) r"
  using computes_after_alloc[OF assms] assms by simp_all

lemma computes_dup_name [computing]: "computes E (dup_name s) (Inr s)"
  by (auto simp: computes_def dup_name_def RDB_dup_str_def malloc_mem_le malloc_None_fails
      split: prod.splits option.splits)

lemma computes_raise [computing]: "computes E (raise_error t msg) (raise_err t msg)"
  by (auto simp: computes_def raise_error_def malloc_mem_le malloc_None_fails split: prod.splits option.splits)

text \<open>The pure counterpart of \<open>each\<close>: the first error ends the loop.\<close>

fun each_r :: "('a \<Rightarrow> 'b result) \<Rightarrow> 'a list \<Rightarrow> 'b list result" where
  "each_r f [] = Inr []"
| "each_r f (x # xs) = rbind (f x) (\<lambda>y. rbind (each_r f xs) (\<lambda>ys. Inr (y # ys)))"

lemma each_r_cong [fundef_cong]:
  assumes "xs = ys" "\<And>x. x \<in> set ys \<Longrightarrow> f x = g x"
  shows "each_r f xs = each_r g ys"
  unfolding assms(1) using assms(2)
proof (induction ys)
  case (Cons y ys)
  then have "f y = g y" "each_r f ys = each_r g ys" by simp_all
  then show ?case by simp
qed simp

lemma each_r_map: "(\<And>x. x \<in> set xs \<Longrightarrow> f x = Inr (g x)) \<Longrightarrow> each_r f xs = Inr (map g xs)"
  by (induction xs) auto

lemma computes_each: "(\<And>x. x \<in> set xs \<Longrightarrow> computes E (f x) (g x)) \<Longrightarrow> computes E (each f xs) (each_r g xs)"
proof (induction xs)
  case Nil
  then show ?case by (simp add: computes_done)
next
  case (Cons x xs)
  have "computes E (and_then (f x) (\<lambda>y. and_then (each f xs) (\<lambda>ys. done_with (y # ys)))) (each_r g (x # xs))"
    unfolding each_r.simps by (intro computes_and_then computes_done Cons) simp_all
  then show ?case by simp
qed

lemma computes_each_map [computing]:
  "(\<And>x. x \<in> set xs \<Longrightarrow> computes E (f x) (Inr (g x))) \<Longrightarrow> computes E (each f xs) (Inr (map g xs))"
  using computes_each[of xs E f "\<lambda>x. Inr (g x)"] each_r_map[of xs "\<lambda>x. Inr (g x)" g] by simp

text \<open>What holds of code whose result depends on a failing allocation in other ways.\<close>

definition runs :: "'a action \<Rightarrow> 'a result \<Rightarrow> bool" where
  "runs f r \<longleftrightarrow> (\<forall>m. fails m = [] \<longrightarrow> fst (f m) = r \<and> fails (snd (f m)) = [])"

lemma runs_computes: "computes E f r \<Longrightarrow> runs f r"
  by (simp add: runs_def computes_run)

lemma runs_and_then:
  assumes "runs f r" and "\<And>x. r = Inr x \<Longrightarrow> runs (g x) (s x)"
  shows "runs (and_then f g) (rbind r s)"
proof -
  have "fst (and_then f g m) = rbind r s \<and> fails (snd (and_then f g m)) = []" if m: "fails m = []" for m
  proof -
    obtain x k where run: "f m = (x, k)" by fastforce
    then have "x = r" "fails k = []" using assms(1) m by (auto simp: runs_def)
    then show ?thesis using assms(2) run by (cases r) (auto simp: and_then_def runs_def)
  qed
  then show ?thesis by (simp add: runs_def)
qed

lemma runs_and_thenI: "runs f (Inr x) \<Longrightarrow> runs (g x) s \<Longrightarrow> runs (and_then f g) s"
  using runs_and_then[of f "Inr x" g "\<lambda>_. s"] by simp

lemma runs_after_alloc:
  assumes "\<And>a. runs (g a) r"
  shows "runs (and_then RDB_alloc g) r" "runs (and_then RDB_realloc g) r"
    "runs (and_then (if c then RDB_realloc else done_with a) g) r"
  using assms by (auto simp: runs_def and_then_def RDB_alloc_def RDB_realloc_def malloc_ok done_with_def)

lemma runs_each:
  "(\<And>x. x \<in> set xs \<Longrightarrow> runs (f x) (Inr (g x))) \<Longrightarrow> runs (each f xs) (Inr (map g xs))"
proof (induction xs)
  case (Cons x xs)
  then show ?case
    by (auto intro!: runs_and_thenI[where x = "g x"] runs_and_thenI[where x = "map g xs"] runs_computes[OF computes_done])
qed (simp add: runs_computes[OF computes_done])

section \<open>Tests that can fault\<close>

fun forall_r :: "('a \<Rightarrow> bool result) \<Rightarrow> 'a list \<Rightarrow> bool result" where
  "forall_r p [] = Inr True"
| "forall_r p (x # xs) = rbind (p x) (\<lambda>b. if b then forall_r p xs else Inr False)"

fun exists_r :: "('a \<Rightarrow> bool result) \<Rightarrow> 'a list \<Rightarrow> bool result" where
  "exists_r p [] = Inr False"
| "exists_r p (x # xs) = rbind (p x) (\<lambda>b. if b then Inr True else exists_r p xs)"

lemma forall_r_cong [fundef_cong]:
  assumes "xs = ys" "\<And>x. x \<in> set ys \<Longrightarrow> f x = g x"
  shows "forall_r f xs = forall_r g ys"
  unfolding assms(1) using assms(2)
proof (induction ys)
  case (Cons y ys)
  then have "f y = g y" "forall_r f ys = forall_r g ys" by simp_all
  then show ?case by (simp cong: if_cong)
qed simp

lemma exists_r_cong [fundef_cong]:
  assumes "xs = ys" "\<And>x. x \<in> set ys \<Longrightarrow> f x = g x"
  shows "exists_r f xs = exists_r g ys"
  unfolding assms(1) using assms(2)
proof (induction ys)
  case (Cons y ys)
  then have "f y = g y" "exists_r f ys = exists_r g ys" by simp_all
  then show ?case by (simp cong: if_cong)
qed simp

lemma forall_r_total: "(\<And>x. x \<in> set xs \<Longrightarrow> p x = Inr (q x)) \<Longrightarrow> forall_r p xs = Inr (list_all q xs)"
  by (induction xs) auto

lemma exists_r_total: "(\<And>x. x \<in> set xs \<Longrightarrow> p x = Inr (q x)) \<Longrightarrow> exists_r p xs = Inr (list_ex q xs)"
  by (induction xs) auto

section \<open>Calls that do not go wrong\<close>

definition safe :: "'a action \<Rightarrow> ('a \<Rightarrow> bool) \<Rightarrow> bool" where
  "safe f Q \<longleftrightarrow> (\<forall>m. case fst (f m) of Inr v \<Rightarrow> Q v | Inl e \<Rightarrow> \<exists>x. e = Raised x)"

named_theorems safety "calls that end with a value or an error"

lemma safe_done [safety]: "Q x \<Longrightarrow> safe (done_with x) Q"
  by (simp add: safe_def done_with_def)

lemma safe_end [safety]: "Q x \<Longrightarrow> safe (end_with (Inr x)) Q"
  by (simp add: safe_def end_with_def)

lemma safe_raise [safety]: "safe (raise_error t msg) Q" "safe (end_with (raise_err t msg)) Q"
  by (auto simp: safe_def raise_error_def end_with_def split: prod.splits option.splits)

lemma safe_and_then: "safe f R \<Longrightarrow> (\<And>x. R x \<Longrightarrow> safe (g x) Q) \<Longrightarrow> safe (and_then f g) Q"
proof -
  assume f: "safe f R" and g: "\<And>x. R x \<Longrightarrow> safe (g x) Q"
  have "case fst (and_then f g m) of Inr v \<Rightarrow> Q v | Inl e \<Rightarrow> \<exists>x. e = Raised x" for m
    using f g by (cases "f m"; cases "fst (f m)") (auto simp: safe_def and_then_def dest: spec[of _ m])
  then show ?thesis by (simp add: safe_def)
qed

lemma safe_alloc [safety]: "(\<And>a. Q a) \<Longrightarrow> safe RDB_alloc Q" "(\<And>a. Q a) \<Longrightarrow> safe RDB_realloc Q"
  by (auto simp: safe_def RDB_alloc_def RDB_realloc_def split: prod.splits option.splits)

lemma safe_if [safety]: "(c \<Longrightarrow> safe f Q) \<Longrightarrow> (\<not> c \<Longrightarrow> safe g Q) \<Longrightarrow> safe (if c then f else g) Q"
  by simp

lemma safe_mono: "safe f R \<Longrightarrow> (\<And>x. R x \<Longrightarrow> Q x) \<Longrightarrow> safe f Q"
  by (fastforce simp: safe_def split: sum.splits)

end
