(* ===== verification/Rdb_Types.thy ===== *)
theory Rdb_Types
  imports Actions
begin

text \<open>
  The types of \<^verbatim>\<open>obj/type.c\<close>: scalar types with their possible representations and
  supertypes, and the tuple, relation and array types built from them; equality, subtyping
  and matching of types, and the types of the relational operators.
\<close>

section \<open>Data\<close>

text \<open>
  A scalar type is known by its name.  An attribute of a tuple type is its name and type;
  \<open>None\<close> is the entry whose name is \<^verbatim>\<open>NULL\<close>, which makes a type generic.  The fields
  for the initial value, the constraint and the clean-up function, which these functions do
  not use, are left out.
\<close>

record scalar_info =
  ireplen :: int
  compare_op :: bool
  builtin :: bool
  sysimpl :: bool
  ordered :: bool
  locked :: bool

datatype rdb_type =
    Scalar (sname: string) (sinfo: scalar_info) (repv: "(string \<times> (string \<times> rdb_type) list) list")
      (arep: "rdb_type option") (supertypev: "rdb_type list")
  | Tuple (attrv: "(string \<times> rdb_type) option list")
  | Relation (basetyp: rdb_type)
  | Array (basetyp: rdb_type)

type_synonym rdb_attr = "(string \<times> rdb_type) option"
type_synonym possrep = "string \<times> (string \<times> rdb_type) list"

definition RDB_NOT_IMPLEMENTED :: int where "RDB_NOT_IMPLEMENTED = -2"

definition builtin_info :: "int \<Rightarrow> bool \<Rightarrow> scalar_info" where
  "builtin_info len ord =
     \<lparr>ireplen = len, compare_op = ord, builtin = True, sysimpl = False, ordered = ord, locked = False\<rparr>"

definition RDB_BOOLEAN :: rdb_type where "RDB_BOOLEAN = Scalar ''boolean'' (builtin_info 1 False) [] None []"
definition RDB_INTEGER :: rdb_type where "RDB_INTEGER = Scalar ''integer'' (builtin_info 4 True) [] None []"
definition RDB_FLOAT :: rdb_type where "RDB_FLOAT = Scalar ''float'' (builtin_info 8 True) [] None []"
definition RDB_STRING :: rdb_type where "RDB_STRING = Scalar ''string'' (builtin_info (-1) True) [] None []"
definition RDB_BINARY :: rdb_type where "RDB_BINARY = Scalar ''binary'' (builtin_info (-1) False) [] None []"

definition datetime_rep :: possrep where
  "datetime_rep = (''datetime'', map (\<lambda>c. (c, RDB_INTEGER)) [''year'', ''month'', ''day'', ''hour'', ''minute'', ''second''])"

definition RDB_DATETIME :: rdb_type where
  "RDB_DATETIME = Scalar ''datetime'' (builtin_info 8 True) [datetime_rep] None []"

lemmas builtin_type_defs = RDB_BOOLEAN_def RDB_INTEGER_def RDB_FLOAT_def RDB_STRING_def RDB_BINARY_def RDB_DATETIME_def

section \<open>Kinds of types\<close>

fun RDB_type_is_scalar :: "rdb_type \<Rightarrow> bool" where
  "RDB_type_is_scalar (Scalar _ _ _ _ _) = True" | "RDB_type_is_scalar _ = False"

fun RDB_type_is_relation :: "rdb_type \<Rightarrow> bool" where
  "RDB_type_is_relation (Relation _) = True" | "RDB_type_is_relation _ = False"

fun RDB_type_is_tuple :: "rdb_type \<Rightarrow> bool" where
  "RDB_type_is_tuple (Tuple _) = True" | "RDB_type_is_tuple _ = False"

fun RDB_type_is_array :: "rdb_type \<Rightarrow> bool" where
  "RDB_type_is_array (Array _) = True" | "RDB_type_is_array _ = False"

fun RDB_base_type :: "rdb_type \<Rightarrow> rdb_type option" where
  "RDB_base_type (Array b) = Some b" | "RDB_base_type (Relation b) = Some b" | "RDB_base_type _ = None"

fun RDB_type_name :: "rdb_type \<Rightarrow> string option" where
  "RDB_type_name (Scalar n _ _ _ _) = Some n" | "RDB_type_name _ = None"

text \<open>Comparing pointers to the built-in types is comparing with these constants.\<close>

definition RDB_type_is_numeric :: "rdb_type \<Rightarrow> bool" where
  "RDB_type_is_numeric typ \<longleftrightarrow> typ = RDB_INTEGER \<or> typ = RDB_FLOAT"

fun RDB_type_is_ordered :: "rdb_type \<Rightarrow> bool" where
  "RDB_type_is_ordered (Scalar _ i _ _ _) = ordered i" | "RDB_type_is_ordered _ = False"

fun RDB_type_is_dummy :: "rdb_type \<Rightarrow> bool" where
  "RDB_type_is_dummy (Scalar _ i reps _ _) \<longleftrightarrow> \<not> builtin i \<and> length reps = 0" | "RDB_type_is_dummy _ = False"

definition RDB_type_is_union :: "rdb_type \<Rightarrow> bool" where
  "RDB_type_is_union typ = RDB_type_is_dummy typ"

text \<open>The \<open>None\<close> entries have no type; following that pointer is a fault.\<close>

fun RDB_type_is_valid :: "rdb_type \<Rightarrow> bool result" where
  "RDB_type_is_valid (Tuple as) =
     forall_r (\<lambda>a. case a of None \<Rightarrow> Inl Segfault | Some (n, t) \<Rightarrow> RDB_type_is_valid t) as"
| "RDB_type_is_valid (Relation b) = RDB_type_is_valid b"
| "RDB_type_is_valid (Array b) = RDB_type_is_valid b"
| "RDB_type_is_valid (Scalar n i reps ar sups) =
     (if length reps > 1 \<and> ordered i \<and> \<not> compare_op i then Inr False
      else if RDB_type_is_union (Scalar n i reps ar sups) then Inr True
      else Inr (ireplen i \<noteq> RDB_NOT_IMPLEMENTED))"

fun RDB_type_is_generic :: "rdb_type \<Rightarrow> bool" where
  "RDB_type_is_generic (Tuple as) \<longleftrightarrow> None \<in> set as"
| "RDB_type_is_generic (Relation b) = RDB_type_is_generic b"
| "RDB_type_is_generic _ = False"

fun RDB_type_has_possreps :: "rdb_type \<Rightarrow> bool" where
  "RDB_type_has_possreps (Scalar _ _ reps _ _) \<longleftrightarrow> length reps > 0" | "RDB_type_has_possreps _ = False"

fun RDB_type_possreps :: "rdb_type \<Rightarrow> possrep list option" where
  "RDB_type_possreps (Scalar _ _ reps _ _) = (if length reps = 0 then None else Some reps)"
| "RDB_type_possreps _ = None"

text \<open>Reading the scalar part of another type is a fault.\<close>

fun RDB_comp_possrep :: "rdb_type \<Rightarrow> string \<Rightarrow> possrep option result" where
  "RDB_comp_possrep (Scalar _ _ reps _ _) name = Inr (List.find (\<lambda>rep. name \<in> fst ` set (snd rep)) reps)"
| "RDB_comp_possrep _ name = Inl Segfault"

fun find_comp :: "possrep list \<Rightarrow> string \<Rightarrow> (string \<times> rdb_type) option" where
  "find_comp [] name = None"
| "find_comp (rep # reps) name =
     (case List.find (\<lambda>c. fst c = name) (snd rep) of Some c \<Rightarrow> Some c | None \<Rightarrow> find_comp reps name)"

fun RDB_prop_attr :: "rdb_type \<Rightarrow> string \<Rightarrow> (string \<times> rdb_type) option result" where
  "RDB_prop_attr (Scalar _ _ reps _ _) propname = Inr (find_comp reps propname)"
| "RDB_prop_attr _ propname = Inl Segfault"

fun RDB_type_property :: "rdb_type \<Rightarrow> string \<Rightarrow> (string \<times> rdb_type) option" where
  "RDB_type_property (Scalar _ _ reps _ _) propname = find_comp reps propname"
| "RDB_type_property _ propname = None"

section \<open>Attributes\<close>

fun find_attr :: "rdb_attr list \<Rightarrow> string \<Rightarrow> (string \<times> rdb_type) option result" where
  "find_attr [] attrname = Inr None"
| "find_attr (None # as) attrname = Inl Segfault"
| "find_attr (Some (n, t) # as) attrname = (if n = attrname then Inr (Some (n, t)) else find_attr as attrname)"

fun RDB_tuple_type_attr :: "rdb_type \<Rightarrow> string \<Rightarrow> (string \<times> rdb_type) option result" where
  "RDB_tuple_type_attr (Tuple as) attrname = find_attr as attrname"
| "RDB_tuple_type_attr _ attrname = Inl Segfault"

fun RDB_type_attr_type :: "rdb_type \<Rightarrow> string \<Rightarrow> rdb_type option result" where
  "RDB_type_attr_type (Relation b) name = rbind (RDB_tuple_type_attr b name) (\<lambda>a. Inr (map_option snd a))"
| "RDB_type_attr_type (Tuple as) name = rbind (find_attr as name) (\<lambda>a. Inr (map_option snd a))"
| "RDB_type_attr_type _ name = Inr None"

fun RDB_type_attrs :: "rdb_type \<Rightarrow> rdb_attr list option" where
  "RDB_type_attrs (Relation (Tuple as)) = Some as"
| "RDB_type_attrs (Tuple as) = Some as"
| "RDB_type_attrs _ = None"

lemma attr_size [termination_simp]:
  "Some (n, t) \<in> set as \<Longrightarrow> size t < Suc (size_list (size_option (size_prod (\<lambda>x. 0) size)) as)"
  by (induction as) (auto simp: less_Suc_eq)

lemma comp_size [termination_simp]:
  "(n, t) \<in> set cs \<Longrightarrow> (r, cs) \<in> set reps
    \<Longrightarrow> size t < Suc (size_list (size_prod (\<lambda>x. 0) (size_list (size_prod (\<lambda>x. 0) size))) reps + k)"
proof (induction reps)
  case (Cons rep reps)
  have "size t < Suc (size_list (size_prod (\<lambda>x. 0) size) cs)"
    using Cons.prems(1) by (induction cs) (auto simp: less_Suc_eq)
  then show ?case using Cons by auto
qed simp

fun RDB_type_equals :: "(rdb_type \<Rightarrow> rdb_type \<Rightarrow> bool) \<Rightarrow> rdb_type \<Rightarrow> rdb_type \<Rightarrow> bool result" where
  "RDB_type_equals same typ1 typ2 =
     (if same typ1 typ2 then Inr True
      else case typ1 of
        Scalar n1 _ _ _ _ \<Rightarrow> (case typ2 of Scalar n2 _ _ _ _ \<Rightarrow> Inr (n1 = n2) | _ \<Rightarrow> Inr False)
      | Relation b1 \<Rightarrow> (case typ2 of Relation b2 \<Rightarrow> RDB_type_equals same b1 b2 | _ \<Rightarrow> Inr False)
      | Array b1 \<Rightarrow> (case typ2 of Array b2 \<Rightarrow> RDB_type_equals same b1 b2 | _ \<Rightarrow> Inr False)
      | Tuple as1 \<Rightarrow>
         (case typ2 of
            Tuple as2 \<Rightarrow>
              if length as1 \<noteq> length as2 then Inr False
              else forall_r (\<lambda>a1. case a1 of None \<Rightarrow> Inl Segfault | Some (n1, t1) \<Rightarrow>
                     exists_r (\<lambda>a2. case a2 of None \<Rightarrow> Inl Segfault | Some (n2, t2) \<Rightarrow>
                       rbind (RDB_type_equals same t1 t2) (\<lambda>b. Inr (b \<and> n1 = n2))) as2) as1
          | _ \<Rightarrow> Inr False))"

declare RDB_type_equals.simps [simp del]

fun RDB_is_subtype :: "(rdb_type \<Rightarrow> rdb_type \<Rightarrow> bool) \<Rightarrow> rdb_type \<Rightarrow> rdb_type \<Rightarrow> bool result" where
  "RDB_is_subtype same typ1 typ2 =
     rbind (RDB_type_equals same typ1 typ2) (\<lambda>eq.
       if eq then Inr True
       else case typ1 of
         Scalar _ _ _ _ sups \<Rightarrow>
           (case typ2 of Scalar _ _ _ _ _ \<Rightarrow> exists_r (\<lambda>sup. RDB_is_subtype same sup typ2) sups | _ \<Rightarrow> Inr False)
       | Tuple as1 \<Rightarrow>
          (case typ2 of
             Tuple as2 \<Rightarrow>
               if length as1 \<noteq> length as2 then Inr False
               else forall_r (\<lambda>a1. case a1 of None \<Rightarrow> Inl Segfault | Some (n1, t1) \<Rightarrow>
                      rbind (RDB_tuple_type_attr typ2 n1) (\<lambda>a2.
                        case a2 of None \<Rightarrow> Inr False | Some (n2, t2) \<Rightarrow> RDB_is_subtype same t1 t2)) as1
           | _ \<Rightarrow> Inr False)
       | Relation b1 \<Rightarrow> (case typ2 of Relation b2 \<Rightarrow> RDB_is_subtype same b1 b2 | _ \<Rightarrow> Inr False)
       | Array b1 \<Rightarrow> (case typ2 of Array b2 \<Rightarrow> RDB_is_subtype same b1 b2 | _ \<Rightarrow> Inr False))"

declare RDB_is_subtype.simps [simp del]

text \<open>A tuple type is matched by any that has its named attributes when it is generic.\<close>

fun match_attr :: "(rdb_type \<Rightarrow> rdb_type \<Rightarrow> bool) \<Rightarrow> rdb_type \<Rightarrow> rdb_attr \<Rightarrow> bool result" where
  "match_attr same typ1 None = Inr True"
| "match_attr same typ1 (Some (n, t)) =
     rbind (RDB_type_attr_type typ1 n) (\<lambda>atyp.
       case atyp of None \<Rightarrow> Inr False | Some u \<Rightarrow> RDB_type_equals same t u)"

fun RDB_type_matches :: "(rdb_type \<Rightarrow> rdb_type \<Rightarrow> bool) \<Rightarrow> rdb_type \<Rightarrow> rdb_type \<Rightarrow> bool result" where
  "RDB_type_matches same typ1 typ2 =
     (if RDB_type_is_generic typ2 then
        (case typ2 of
           Relation b2 \<Rightarrow> (case typ1 of Relation b1 \<Rightarrow> RDB_type_matches same b1 b2 | _ \<Rightarrow> Inr False)
         | Tuple as2 \<Rightarrow> (case typ1 of Tuple as1 \<Rightarrow> forall_r (match_attr same typ1) as2 | _ \<Rightarrow> Inr False)
         | _ \<Rightarrow> Inr False)
      else RDB_is_subtype same typ1 typ2)"

declare RDB_type_matches.simps [simp del]

text \<open>Whether \<open>typ\<close> is built from \<open>dtyp\<close>, or from a subtype of it.\<close>

fun RDB_type_depends_type :: "(rdb_type \<Rightarrow> rdb_type \<Rightarrow> bool) \<Rightarrow> rdb_type \<Rightarrow> rdb_type \<Rightarrow> bool result" where
  "RDB_type_depends_type same (Tuple as) dtyp =
     exists_r (\<lambda>a. case a of None \<Rightarrow> Inl Segfault | Some (n, t) \<Rightarrow> RDB_type_depends_type same t dtyp) as"
| "RDB_type_depends_type same (Relation b) dtyp = RDB_type_depends_type same b dtyp"
| "RDB_type_depends_type same (Array b) dtyp = RDB_type_depends_type same b dtyp"
| "RDB_type_depends_type same (Scalar n i reps ar sups) dtyp =
     rbind (RDB_is_subtype same (Scalar n i reps ar sups) dtyp) (\<lambda>b.
       if b then Inr True
       else exists_r (\<lambda>(rn, comps). exists_r (\<lambda>(cn, t). RDB_type_depends_type same t dtyp) comps) reps)"

section \<open>Constructors\<close>

text \<open>
  The copy of a non-scalar type and the construction of a tuple type call each other; the
  loop over the attributes checks each name against the names that follow.
\<close>

definition attr_names :: "rdb_attr list \<Rightarrow> string list" where
  "attr_names as = map fst (List.map_filter id as)"

function RDB_dup_nonscalar_type :: "rdb_type \<Rightarrow> rdb_type action"
  and RDB_new_tuple_type :: "rdb_attr list \<Rightarrow> rdb_type action"
  and new_attrs :: "rdb_attr list \<Rightarrow> rdb_attr list action" where
  "RDB_dup_nonscalar_type (Relation b) =
     and_then RDB_alloc (\<lambda>_. and_then (RDB_dup_nonscalar_type b) (\<lambda>b'. done_with (Relation b')))"
| "RDB_dup_nonscalar_type (Array b) =
     and_then RDB_alloc (\<lambda>_. and_then (RDB_dup_nonscalar_type b) (\<lambda>b'. done_with (Array b')))"
| "RDB_dup_nonscalar_type (Tuple as) = RDB_new_tuple_type as"
| "RDB_dup_nonscalar_type (Scalar n i reps ar sups) = done_with (Scalar n i reps ar sups)"
| "RDB_new_tuple_type as =
     and_then RDB_alloc (\<lambda>_.
     and_then (if length as > 0 then RDB_alloc else done_with 0) (\<lambda>_.
     and_then (new_attrs as) (\<lambda>as'. done_with (Tuple as'))))"
| "new_attrs [] = done_with []"
| "new_attrs (None # as) = and_then (new_attrs as) (\<lambda>as'. done_with (None # as'))"
| "new_attrs (Some (n, t) # as) =
     (if n \<in> set (attr_names as) then raise_error INVALID_ARGUMENT_ERROR ''duplicate attribute name''
      else and_then (RDB_dup_nonscalar_type t) (\<lambda>t'.
           and_then (dup_name n) (\<lambda>n'.
           and_then (new_attrs as) (\<lambda>as'. done_with (Some (n', t') # as')))))"
  by pat_completeness auto
termination
  by (relation "measure (\<lambda>x. case x of Inl t \<Rightarrow> 2 * size t
        | Inr (Inl as) \<Rightarrow> Suc (2 * size_list (size_option (size_prod (\<lambda>x. 0) size)) as)
        | Inr (Inr as) \<Rightarrow> 2 * size_list (size_option (size_prod (\<lambda>x. 0) size)) as)") auto

definition RDB_new_relation_type_from_base :: "rdb_type \<Rightarrow> rdb_type action" where
  "RDB_new_relation_type_from_base tpltyp = and_then RDB_alloc (\<lambda>_. done_with (Relation tpltyp))"

definition RDB_new_relation_type :: "rdb_attr list \<Rightarrow> rdb_type action" where
  "RDB_new_relation_type as = and_then (RDB_new_tuple_type as) RDB_new_relation_type_from_base"

definition RDB_new_array_type :: "rdb_type \<Rightarrow> rdb_type action" where
  "RDB_new_array_type b = and_then RDB_alloc (\<lambda>_. done_with (Array b))"

definition RDB_new_scalar_type :: "string \<Rightarrow> int \<Rightarrow> bool \<Rightarrow> bool \<Rightarrow> rdb_type action" where
  "RDB_new_scalar_type name len sys ord =
     and_then RDB_alloc (\<lambda>_. and_then (dup_name name) (\<lambda>n.
       done_with (Scalar n \<lparr>ireplen = len, compare_op = False, builtin = False, sysimpl = sys, ordered = ord,
         locked = False\<rparr> [] None [])))"

section \<open>The types of the relational operators\<close>

definition tuple_attrs :: "rdb_type \<Rightarrow> rdb_attr list action" where
  "tuple_attrs typ = end_with (case typ of Tuple as \<Rightarrow> Inr as | _ \<Rightarrow> Inl Segfault)"

definition base_of :: "rdb_type \<Rightarrow> rdb_type action" where
  "base_of typ = end_with (case typ of Relation b \<Rightarrow> Inr b | Array b \<Rightarrow> Inr b | _ \<Rightarrow> Inl Segfault)"

text \<open>Copying the name and the type of an attribute, in the two orders the code uses.\<close>

fun copy_attr :: "rdb_attr \<Rightarrow> rdb_attr action" where
  "copy_attr None = end_with (Inl Segfault)"
| "copy_attr (Some (n, t)) =
     and_then (dup_name n) (\<lambda>n'. and_then (RDB_dup_nonscalar_type t) (\<lambda>t'. done_with (Some (n', t'))))"

text \<open>
  The clean-up of \<^verbatim>\<open>RDB_extend_tuple_type\<close> looks at the types of all attributes of the
  original, also at those that have not been set.
\<close>

definition unsound_cleanup :: "bool \<Rightarrow> 'a action \<Rightarrow> 'a action" where
  "unsound_cleanup c f m =
     (case f m of (Inl (Raised e), m') \<Rightarrow> (if c then Inl Segfault else Inl (Raised e), m') | (r, m') \<Rightarrow> (r, m'))"

definition RDB_extend_tuple_type :: "rdb_type \<Rightarrow> rdb_attr list \<Rightarrow> rdb_type action" where
  "RDB_extend_tuple_type typ new =
     and_then RDB_alloc (\<lambda>_.
     and_then (tuple_attrs typ) (\<lambda>as.
     and_then RDB_alloc (\<lambda>_.
     and_then (unsound_cleanup True (each copy_attr as)) (\<lambda>as'.
     and_then (each (\<lambda>a. case a of None \<Rightarrow> end_with (Inl Segfault) | Some (n, t) \<Rightarrow>
         and_then (end_with (find_attr as n)) (\<lambda>old.
           if old \<noteq> None then raise_error INVALID_ARGUMENT_ERROR ''attribute exists'' else copy_attr a)) new) (\<lambda>new'.
     done_with (Tuple (as' @ new')))))))"

definition RDB_extend_relation_type :: "rdb_type \<Rightarrow> rdb_attr list \<Rightarrow> rdb_type action" where
  "RDB_extend_relation_type typ new =
     and_then (base_of typ) (\<lambda>b. and_then (RDB_extend_tuple_type b new) RDB_new_relation_type_from_base)"

text \<open>\<^verbatim>\<open>RDB_union_tuple_types\<close> does not look at the result of \<^verbatim>\<open>RDB_dup_str\<close>.\<close>

fun copy_attr_unchecked :: "rdb_attr \<Rightarrow> rdb_attr action" where
  "copy_attr_unchecked None m = (Inl Segfault, m)"
| "copy_attr_unchecked (Some (n, t)) m =
     (case RDB_dup_str n m of (n', m') \<Rightarrow>
        and_then (RDB_dup_nonscalar_type t) (\<lambda>t'. done_with (map_option (\<lambda>n''. (n'', t')) n')) m')"

fun union_attrs :: "(rdb_type \<Rightarrow> rdb_type \<Rightarrow> bool) \<Rightarrow> rdb_attr list \<Rightarrow> rdb_attr list \<Rightarrow> rdb_attr list action" where
  "union_attrs same as1 [] = done_with []"
| "union_attrs same as1 (None # as2) = end_with (Inl Segfault)"
| "union_attrs same as1 (Some (n, t) # as2) =
     and_then (end_with (find_attr as1 n)) (\<lambda>a1. case a1 of
         None \<Rightarrow> and_then (copy_attr_unchecked (Some (n, t))) (\<lambda>a. and_then (union_attrs same as1 as2) (\<lambda>as. done_with (a # as)))
       | Some (n1, t1) \<Rightarrow> and_then (end_with (RDB_type_equals same t t1)) (\<lambda>eq.
           if eq then union_attrs same as1 as2
           else raise_error TYPE_MISMATCH_ERROR ''JOIN attribute types do not match''))"

definition RDB_union_tuple_types :: "(rdb_type \<Rightarrow> rdb_type \<Rightarrow> bool) \<Rightarrow> rdb_type \<Rightarrow> rdb_type \<Rightarrow> rdb_type action" where
  "RDB_union_tuple_types same typ1 typ2 =
     and_then RDB_alloc (\<lambda>_.
     and_then (tuple_attrs typ1) (\<lambda>as1.
     and_then (tuple_attrs typ2) (\<lambda>as2.
     and_then RDB_alloc (\<lambda>_.
     and_then (each copy_attr_unchecked as1) (\<lambda>as1'.
     and_then (union_attrs same as1 as2) (\<lambda>as2'.
     and_then (if length (as1' @ as2') < length as1 + length as2 then RDB_realloc else done_with 0) (\<lambda>_.
     done_with (Tuple (as1' @ as2')))))))))"

definition RDB_join_relation_types :: "(rdb_type \<Rightarrow> rdb_type \<Rightarrow> bool) \<Rightarrow> rdb_type \<Rightarrow> rdb_type \<Rightarrow> rdb_type action" where
  "RDB_join_relation_types same typ1 typ2 =
     and_then (base_of typ1) (\<lambda>b1. and_then (base_of typ2) (\<lambda>b2.
       and_then (RDB_union_tuple_types same b1 b2) RDB_new_relation_type_from_base))"

definition RDB_project_tuple_type :: "rdb_type \<Rightarrow> string list \<Rightarrow> rdb_type action" where
  "RDB_project_tuple_type typ names =
     and_then RDB_alloc (\<lambda>_.
     and_then (if length names > 0 then RDB_alloc else done_with 0) (\<lambda>_.
     and_then (each (\<lambda>name.
         and_then (dup_name name) (\<lambda>n.
         and_then (end_with (RDB_tuple_type_attr typ n)) (\<lambda>a. case a of
             None \<Rightarrow> raise_error NAME_ERROR n
           | Some (n', t) \<Rightarrow> and_then (RDB_dup_nonscalar_type t) (\<lambda>t'. done_with (Some (n, t')))))) names) (\<lambda>as.
     done_with (Tuple as))))"

definition RDB_project_relation_type :: "rdb_type \<Rightarrow> string list \<Rightarrow> rdb_type action" where
  "RDB_project_relation_type typ names =
     and_then (base_of typ) (\<lambda>b. and_then (RDB_project_tuple_type b names) RDB_new_relation_type_from_base)"

text \<open>A renaming is the pair of the old and the new name.\<close>

fun RDB_find_rename_from :: "(string \<times> string) list \<Rightarrow> string \<Rightarrow> int" where
  "RDB_find_rename_from [] name = -1"
| "RDB_find_rename_from ((from, to) # renv) name =
     (if from = name then 0
      else let i = RDB_find_rename_from renv name in if i = -1 then -1 else i + 1)"

fun check_renames :: "rdb_type \<Rightarrow> (string \<times> string) list \<Rightarrow> unit action" where
  "check_renames typ [] = done_with ()"
| "check_renames typ ((from, to) # renv) =
     and_then (end_with (RDB_tuple_type_attr typ from)) (\<lambda>src.
       if src = None then raise_error NAME_ERROR from
       else and_then (end_with (RDB_tuple_type_attr typ to)) (\<lambda>dst.
         if dst \<noteq> None then raise_error NAME_ERROR to
         else if list_ex (\<lambda>(from', to'). from = from' \<or> to = to') renv
           then raise_error INVALID_ARGUMENT_ERROR ''invalid RENAME arguments''
         else check_renames typ renv))"

definition renamed :: "(string \<times> string) list \<Rightarrow> string \<Rightarrow> string" where
  "renamed renv n = (let ai = RDB_find_rename_from renv n in if ai \<ge> 0 then snd (renv ! nat ai) else n)"

definition RDB_rename_tuple_type :: "rdb_type \<Rightarrow> (string \<times> string) list \<Rightarrow> rdb_type action" where
  "RDB_rename_tuple_type typ renv =
     and_then (check_renames typ renv) (\<lambda>_.
     and_then RDB_alloc (\<lambda>_.
     and_then (tuple_attrs typ) (\<lambda>as.
     and_then RDB_alloc (\<lambda>_.
     and_then (each (\<lambda>a. case a of None \<Rightarrow> end_with (Inl Segfault) | Some (n, t) \<Rightarrow>
         and_then (RDB_dup_nonscalar_type t) (\<lambda>t'.
         and_then (dup_name (renamed renv n)) (\<lambda>n'. done_with (Some (n', t'))))) as) (\<lambda>as'.
     done_with (Tuple as'))))))"

definition RDB_rename_relation_type :: "rdb_type \<Rightarrow> (string \<times> string) list \<Rightarrow> rdb_type action" where
  "RDB_rename_relation_type typ renv =
     and_then (base_of typ) (\<lambda>b. and_then (RDB_rename_tuple_type b renv) RDB_new_relation_type_from_base)"

text \<open>
  The loop that copies the attributes a test keeps to the next places of an array of
  \<open>cap\<close> attributes, of which \<open>k\<close> are used; a write beyond the array is a fault.
\<close>

fun copy_kept :: "(string \<Rightarrow> bool) \<Rightarrow> int \<Rightarrow> int \<Rightarrow> rdb_attr list \<Rightarrow> rdb_attr list action" where
  "copy_kept p cap k [] = done_with []"
| "copy_kept p cap k (None # as) = end_with (Inl Segfault)"
| "copy_kept p cap k (Some (n, t) # as) =
     (if \<not> p n then copy_kept p cap k as
      else if k \<ge> cap then end_with (Inl Segfault)
      else and_then (copy_attr (Some (n, t))) (\<lambda>a. and_then (copy_kept p cap (k + 1) as) (\<lambda>as'. done_with (a # as'))))"

text \<open>Memory for an array of attributes; the size of a negative number of them is too large.\<close>

definition alloc_attrs :: "int \<Rightarrow> nat action" where
  "alloc_attrs n = (if n < 0 then end_with NO_MEM else RDB_alloc)"

text \<open>A wrapping is the list of the wrapped attributes with the name of the new one.\<close>

definition find_or_raise :: "rdb_attr list \<Rightarrow> string \<Rightarrow> (string \<times> rdb_type) action" where
  "find_or_raise as n =
     and_then (end_with (find_attr as n)) (\<lambda>a. case a of None \<Rightarrow> raise_error NAME_ERROR n | Some a' \<Rightarrow> done_with a')"

definition dup_silently :: "string \<Rightarrow> string action" where
  "dup_silently s m = (case RDB_dup_str s m of (None, m') \<Rightarrow> (Inl Silent, m') | (Some d, m') \<Rightarrow> (Inr d, m'))"

fun wrap_tuples :: "rdb_attr list \<Rightarrow> int \<Rightarrow> int \<Rightarrow> (string list \<times> string) list \<Rightarrow> rdb_attr list action" where
  "wrap_tuples as cap i [] = done_with []"
| "wrap_tuples as cap i ((names, name) # wrapv) =
     and_then RDB_alloc (\<lambda>_.
     and_then RDB_alloc (\<lambda>_.
     and_then (each (\<lambda>n. and_then (find_or_raise as n) (\<lambda>a. copy_attr (Some a))) names) (\<lambda>tas.
     if i \<ge> cap then end_with (Inl Segfault)
     else and_then (dup_silently name) (\<lambda>name'.
          and_then (wrap_tuples as cap (i + 1) wrapv) (\<lambda>as'. done_with (Some (name', Tuple tas) # as'))))))"

definition RDB_wrap_tuple_type :: "rdb_type \<Rightarrow> (string list \<times> string) list \<Rightarrow> rdb_type action" where
  "RDB_wrap_tuple_type typ wrapv =
     and_then (tuple_attrs typ) (\<lambda>as.
     let cap = int (length as) + (\<Sum>w \<leftarrow> wrapv. 1 - int (length (fst w))) in
     and_then RDB_alloc (\<lambda>_.
     and_then (alloc_attrs cap) (\<lambda>_.
     and_then (wrap_tuples as cap 0 wrapv) (\<lambda>was.
     and_then (copy_kept (\<lambda>n. \<not> list_ex (\<lambda>w. RDB_find_str (fst w) n \<noteq> -1) wrapv) cap (int (length wrapv)) as) (\<lambda>rest.
     if int (length was + length rest) \<noteq> cap then raise_error INVALID_ARGUMENT_ERROR ''invalid WRAP''
     else done_with (Tuple (was @ rest)))))))"

definition RDB_wrap_relation_type :: "rdb_type \<Rightarrow> (string list \<times> string) list \<Rightarrow> rdb_type action" where
  "RDB_wrap_relation_type typ wrapv =
     and_then (base_of typ) (\<lambda>b. and_then (RDB_wrap_tuple_type b wrapv) RDB_new_relation_type_from_base)"

text \<open>
  The clean-up of \<^verbatim>\<open>RDB_unwrap_tuple_type\<close> goes over as many attributes as were to be
  unwrapped, which can be more than there are.
\<close>

definition inner_attrs :: "rdb_attr list \<Rightarrow> string \<Rightarrow> rdb_attr list action" where
  "inner_attrs as n = and_then (find_or_raise as n) (\<lambda>a.
     case snd a of Tuple bs \<Rightarrow> done_with bs | _ \<Rightarrow> raise_error INVALID_ARGUMENT_ERROR ''not a tuple'')"

definition RDB_unwrap_tuple_type :: "rdb_type \<Rightarrow> string list \<Rightarrow> rdb_type action" where
  "RDB_unwrap_tuple_type typ names =
     and_then (tuple_attrs typ) (\<lambda>as.
     and_then (each (inner_attrs as) names) (\<lambda>bss.
     let cap = int (length as) + (\<Sum>bs \<leftarrow> bss. int (length bs) - 1) in
     and_then RDB_alloc (\<lambda>_.
     and_then (alloc_attrs cap) (\<lambda>_.
     unsound_cleanup (int (length names) > cap)
       (and_then (copy_kept (\<lambda>_. True) cap 0 (concat bss)) (\<lambda>as1.
        and_then (copy_kept (\<lambda>n. RDB_find_str names n = -1) cap (int (length as1)) as) (\<lambda>as2.
        if int (length as1 + length as2) \<noteq> cap then raise_error INVALID_ARGUMENT_ERROR ''invalid UNWRAP''
        else done_with (Tuple (as1 @ as2)))))))))"

definition RDB_unwrap_relation_type :: "rdb_type \<Rightarrow> string list \<Rightarrow> rdb_type action" where
  "RDB_unwrap_relation_type typ names =
     and_then (base_of typ) (\<lambda>b. and_then (RDB_unwrap_tuple_type b names) RDB_new_relation_type_from_base)"

text \<open>Entries of an array that are not written keep the name \<^verbatim>\<open>NULL\<close>.\<close>

definition filled :: "int \<Rightarrow> rdb_attr list \<Rightarrow> rdb_attr list" where
  "filled cap as = as @ replicate (nat (cap - int (length as))) None"

fun group_rest :: "(string \<Rightarrow> bool) \<Rightarrow> string \<Rightarrow> int \<Rightarrow> int \<Rightarrow> rdb_attr list \<Rightarrow> rdb_attr list action" where
  "group_rest p gattr cap k [] = done_with []"
| "group_rest p gattr cap k (None # as) = end_with (Inl Segfault)"
| "group_rest p gattr cap k (Some (n, t) # as) =
     (if \<not> p n then group_rest p gattr cap k as
      else if n = gattr then raise_error INVALID_ARGUMENT_ERROR ''invalid GROUP''
      else if k \<ge> cap then end_with (Inl Segfault)
      else and_then (copy_attr (Some (n, t))) (\<lambda>a. and_then (group_rest p gattr cap (k + 1) as) (\<lambda>as'. done_with (a # as'))))"

definition RDB_group_type :: "rdb_type \<Rightarrow> string list \<Rightarrow> string \<Rightarrow> rdb_type action" where
  "RDB_group_type typ names gattr =
     and_then RDB_alloc (\<lambda>_.
     and_then (base_of typ) (\<lambda>b.
     and_then (tuple_attrs b) (\<lambda>as.
     and_then (each (find_or_raise as) names) (\<lambda>gas.
     and_then (RDB_new_relation_type (map Some gas)) (\<lambda>gattrtyp.
     and_then RDB_alloc (\<lambda>_.
     let cap = int (length as) + 1 - int (length names); rest = (\<lambda>n. n \<notin> fst ` set gas) in
     and_then (alloc_attrs cap) (\<lambda>_.
     and_then (group_rest rest gattr cap 0 as) (\<lambda>as'.
     if int (length as') \<ge> cap then end_with (Inl Segfault)
     else and_then (dup_name gattr) (\<lambda>g.
          and_then RDB_alloc (\<lambda>_.
          done_with (Relation (Tuple (filled cap (as' @ [Some (g, gattrtyp)]))))))))))))))"

definition RDB_ungroup_type :: "rdb_type \<Rightarrow> string \<Rightarrow> rdb_type action" where
  "RDB_ungroup_type typ attr =
     and_then (base_of typ) (\<lambda>b.
     and_then (tuple_attrs b) (\<lambda>as.
     and_then (find_or_raise as attr) (\<lambda>relattr.
     and_then (case snd relattr of Relation rb \<Rightarrow> done_with rb
               | _ \<Rightarrow> raise_error INVALID_ARGUMENT_ERROR ''attribute is not a relation'') (\<lambda>rb.
     and_then RDB_alloc (\<lambda>_.
     and_then (tuple_attrs rb) (\<lambda>bs.
     let cap = int (length as) + int (length bs) - 1 in
     and_then (alloc_attrs cap) (\<lambda>_.
     and_then (copy_kept (\<lambda>n. n \<noteq> attr) cap 0 as) (\<lambda>as1.
     and_then (each (\<lambda>a. case a of None \<Rightarrow> end_with (Inl Segfault) | Some (n, t) \<Rightarrow>
         and_then (if n \<noteq> attr then end_with (find_attr as n) else done_with None) (\<lambda>clash.
           if clash \<noteq> None then raise_error INVALID_ARGUMENT_ERROR ''invalid UNGROUP'' else copy_attr a)) bs) (\<lambda>as2.
     and_then RDB_alloc (\<lambda>_.
     done_with (Relation (Tuple (filled cap (as1 @ as2))))))))))))))"

section \<open>Attributes in alphabetical order\<close>

definition name_or_empty :: "rdb_attr \<Rightarrow> string" where
  "name_or_empty a = (case a of None \<Rightarrow> [] | Some (n, t) \<Rightarrow> n)"

fun next_attr_loop :: "rdb_attr list \<Rightarrow> string option \<Rightarrow> rdb_attr list \<Rightarrow> int \<Rightarrow> int \<Rightarrow> int" where
  "next_attr_loop all lastname [] i attridx = attridx"
| "next_attr_loop all lastname (a # as) i attridx =
     next_attr_loop all lastname as (i + 1)
       (if (case lastname of None \<Rightarrow> True | Some l \<Rightarrow> strcmp (name_or_empty a) l > 0)
           \<and> (attridx = -1 \<or> strcmp (name_or_empty a) (name_or_empty (all ! nat attridx)) < 0)
        then i else attridx)"

definition RDB_next_attr_sorted :: "rdb_attr list \<Rightarrow> string option \<Rightarrow> int" where
  "RDB_next_attr_sorted as lastname = next_attr_loop as lastname as 0 (-1)"

end
