(* ===== verification/Type_Specs.thy ===== *)
theory Type_Specs
  imports Rdb_Types "HOL-Library.Finite_Map"
begin

text \<open>
  The abstract view of types: a tuple type is a finite map from attribute names to types.
  Equality of types decides equality of the abstract types, and the functions that make the
  types of the relational operators refine operations on such maps.
\<close>


section \<open>Types as maps from attribute names\<close>

text \<open>
  What a type is for a client: a scalar type is its name, a tuple type is a finite map from
  attribute names to types.  The order of the attributes in the array is not part of it.
\<close>

datatype type_spec =
    SScalar string | STuple "(string, type_spec) fmap" | SRelation type_spec | SArray type_spec

primrec spec_of :: "rdb_type \<Rightarrow> type_spec" where
  "spec_of (Scalar n i reps ar sups) = SScalar n"
| "spec_of (Tuple as) = STuple (fmap_of_list (List.map_filter id (map (map_option (map_prod id spec_of)) as)))"
| "spec_of (Relation b) = SRelation (spec_of b)"
| "spec_of (Array b) = SArray (spec_of b)"

text \<open>
  Well-formed types: no two attributes of a tuple type have the same name, all have one, and
  a relation type is over a tuple type.
\<close>

fun type_wf :: "rdb_type \<Rightarrow> bool" where
  "type_wf (Scalar n i reps ar sups) \<longleftrightarrow> True"
| "type_wf (Tuple as) \<longleftrightarrow> None \<notin> set as \<and> distinct (attr_names as)
     \<and> list_all (\<lambda>a. case a of None \<Rightarrow> True | Some (n, t) \<Rightarrow> type_wf t) as"
| "type_wf (Relation b) \<longleftrightarrow> RDB_type_is_tuple b \<and> type_wf b"
| "type_wf (Array b) \<longleftrightarrow> type_wf b"

lemma map_filter_Some [simp]: "List.map_filter id (map Some xs) = xs"
  by (induction xs) auto

lemma attr_names_Some [simp]: "attr_names (map Some xs) = map fst xs"
  by (simp add: attr_names_def)

lemma no_None_map: "None \<notin> set as \<longleftrightarrow> (\<exists>xs. as = map Some xs)"
proof
  assume "None \<notin> set as"
  then have "as = map Some (map the as)" by (induction as) auto
  then show "\<exists>xs. as = map Some xs" by blast
qed auto

lemma type_wf_Tuple:
  "type_wf (Tuple as) \<longleftrightarrow> (\<exists>xs. as = map Some xs \<and> distinct (map fst xs) \<and> (\<forall>(n, t) \<in> set xs. type_wf t))"
  using no_None_map[of as] by (auto simp: list_all_iff split: option.splits prod.splits)

lemma type_wf_tuple [simp]:
  "type_wf (Tuple (map Some xs)) \<longleftrightarrow> distinct (map fst xs) \<and> (\<forall>(n, t) \<in> set xs. type_wf t)"
  by (auto simp: list_all_iff split: prod.splits)

declare type_wf.simps(2) [simp del]

lemma spec_of_tuple [simp]: "spec_of (Tuple (map Some xs)) = STuple (fmap_of_list (map (map_prod id spec_of) xs))"
proof -
  have "map (map_option (map_prod id spec_of)) (map Some xs) = map Some (map (map_prod id spec_of) xs)" by simp
  then show ?thesis by (simp only: spec_of.simps map_filter_Some)
qed

declare spec_of.simps(2) [simp del]

lemma spec_lookup: "map_of (map (map_prod id spec_of) xs) = map_option spec_of \<circ> map_of xs"
  by (induction xs) auto

lemma spec_of_tuple_eq:
  "spec_of (Tuple (map Some xs)) = spec_of (Tuple (map Some ys))
    \<longleftrightarrow> (\<forall>n. map_option spec_of (map_of xs n) = map_option spec_of (map_of ys n))"
  by (auto simp: fmap_ext fmlookup_of_list spec_lookup fmap.fmlookup_inject[symmetric] fun_eq_iff)

text \<open>A list with distinct names that is covered by another one of the same length has the same entries.\<close>

lemma covered_same_names:
  assumes "distinct (map fst xs)" "length xs = length ys" "fst ` set xs \<subseteq> fst ` set ys"
  shows "fst ` set xs = fst ` set ys"
proof -
  have "card (fst ` set xs) = length xs" using distinct_card[OF assms(1)] by simp
  moreover have "card (fst ` set ys) \<le> length ys"
    by (metis card_length length_map list.set_map)
  moreover have "card (fst ` set xs) \<le> card (fst ` set ys)" by (rule card_mono) (use assms(3) in auto)
  ultimately show ?thesis using assms(2,3) by (intro card_subset_eq) auto
qed

lemma tuple_equality:
  fixes eq :: "rdb_type \<Rightarrow> rdb_type \<Rightarrow> bool"
  assumes "distinct (map fst xs)" "distinct (map fst ys)"
  shows "length xs = length ys \<and> list_all (\<lambda>(n1, t1). list_ex (\<lambda>(n2, t2). spec_of t1 = spec_of t2 \<and> n1 = n2) ys) xs
    \<longleftrightarrow> spec_of (Tuple (map Some xs)) = spec_of (Tuple (map Some ys))"
proof
  assume *: "length xs = length ys \<and> list_all (\<lambda>(n1, t1). list_ex (\<lambda>(n2, t2). spec_of t1 = spec_of t2 \<and> n1 = n2) ys) xs"
  then have mem: "\<exists>u. (n, u) \<in> set ys \<and> spec_of t = spec_of u" if "(n, t) \<in> set xs" for n t
    using that by (fastforce simp: list_all_iff list_ex_iff)
  then have "fst ` set xs \<subseteq> fst ` set ys" by force
  then have names: "fst ` set xs = fst ` set ys" using covered_same_names[OF assms(1)] * by blast
  have "map_option spec_of (map_of xs n) = map_option spec_of (map_of ys n)" for n
  proof (cases "map_of xs n")
    case None
    then have "map_of ys n = None" using names by (metis map_of_eq_None_iff)
    then show ?thesis using None by simp
  next
    case (Some t)
    then obtain u where "(n, u) \<in> set ys" "spec_of t = spec_of u" using mem map_of_SomeD by fastforce
    then show ?thesis using Some assms(2) by simp
  qed
  then show "spec_of (Tuple (map Some xs)) = spec_of (Tuple (map Some ys))" unfolding spec_of_tuple_eq by blast
next
  assume "spec_of (Tuple (map Some xs)) = spec_of (Tuple (map Some ys))"
  then have eq: "map_option spec_of (map_of xs n) = map_option spec_of (map_of ys n)" for n
    unfolding spec_of_tuple_eq by blast
  have "fst ` set xs = fst ` set ys"
    using eq by (metis (no_types) dom_map_of_conv_image_fst domIff option.map_disc_iff set_eqI)
  then have "length xs = length ys"
    using distinct_card[OF assms(1)] distinct_card[OF assms(2)] by simp
  moreover have "\<exists>u. (n, u) \<in> set ys \<and> spec_of t = spec_of u" if "(n, t) \<in> set xs" for n t
  proof -
    have "map_of xs n = Some t" using that assms(1) by simp
    then obtain u where "map_of ys n = Some u" "spec_of u = spec_of t" using eq[of n] by (cases "map_of ys n") auto
    then show ?thesis using map_of_SomeD by fastforce
  qed
  ultimately show "length xs = length ys \<and> list_all (\<lambda>(n1, t1). list_ex (\<lambda>(n2, t2). spec_of t1 = spec_of t2 \<and> n1 = n2) ys) xs"
    by (fastforce simp: list_all_iff list_ex_iff)
qed

lemma wf_attr: "type_wf (Tuple (map Some xs)) \<Longrightarrow> (n, t) \<in> set xs \<Longrightarrow> type_wf t"
  by auto

lemma forall_r_Some: "forall_r p (map Some xs) = forall_r (\<lambda>x. p (Some x)) xs"
  by (induction xs) (auto cong: if_cong)

lemma exists_r_Some: "exists_r p (map Some xs) = exists_r (\<lambda>x. p (Some x)) xs"
  by (induction xs) (auto cong: if_cong)

lemma type_equals_spec:
  assumes "\<And>t u. same t u \<Longrightarrow> t = u"
  shows "type_wf t \<Longrightarrow> type_wf u \<Longrightarrow> RDB_type_equals same t u = Inr (spec_of t = spec_of u)"
proof (induction t arbitrary: u rule: measure_induct_rule[where f = size])
  case (less t)
  show ?case
  proof (cases "same t u")
    case True
    then show ?thesis using assms[OF True] by (simp add: RDB_type_equals.simps)
  next
    case False
    note run = RDB_type_equals.simps[of same t u] False
    show ?thesis
    proof (cases t)
      case (Scalar n i reps ar sups)
      then show ?thesis using run by (cases u) (simp_all add: spec_of.simps(2))
    next
      case (Relation b)
      then show ?thesis using run less by (cases u) (simp_all add: spec_of.simps(2))
    next
      case (Array b)
      then show ?thesis using run less by (cases u) (simp_all add: spec_of.simps(2))
    next
      case (Tuple as)
      then obtain xs where xs: "t = Tuple (map Some xs)" "distinct (map fst xs)"
        using less.prems(1) by (auto simp: type_wf_Tuple)
      show ?thesis
      proof (cases u)
        case (Tuple bs)
        then obtain ys where ys: "u = Tuple (map Some ys)" "distinct (map fst ys)"
          using less.prems(2) by (auto simp: type_wf_Tuple)
        have "RDB_type_equals same t1 t2 = Inr (spec_of t1 = spec_of t2)"
          if "(n1, t1) \<in> set xs" "(n2, t2) \<in> set ys" for n1 t1 n2 t2
        proof (rule less.IH)
          show "size t1 < size t" using attr_size[of n1 t1 "map Some xs"] that(1) xs(1) by simp
          show "type_wf t1" "type_wf t2" using less.prems that xs(1) ys(1) by (auto dest: wf_attr)
        qed
        then have "forall_r (\<lambda>(n1, t1). exists_r (\<lambda>(n2, t2). rbind (RDB_type_equals same t1 t2) (\<lambda>b. Inr (b \<and> n1 = n2))) ys) xs
            = Inr (list_all (\<lambda>(n1, t1). list_ex (\<lambda>(n2, t2). spec_of t1 = spec_of t2 \<and> n1 = n2) ys) xs)"
          by (intro forall_r_total) (auto intro!: exists_r_total split: prod.split)
        then show ?thesis
          using run tuple_equality[OF xs(2) ys(2)] by (auto simp: xs(1) ys(1) forall_r_Some exists_r_Some)
      qed (use run xs in \<open>simp_all add: spec_of.simps(2)\<close>)
    qed
  qed
qed

section \<open>What the constructors compute\<close>

lemma dup_computes:
  fixes t :: rdb_type and as :: "rdb_attr list" and bs :: "rdb_attr list"
  shows "type_wf t \<Longrightarrow> computes E (RDB_dup_nonscalar_type t) (Inr t)"
    and "type_wf (Tuple as) \<Longrightarrow> computes E (RDB_new_tuple_type as) (Inr (Tuple as))"
    and "type_wf (Tuple bs) \<Longrightarrow> computes E (new_attrs bs) (Inr bs)"
proof (induction t and as and bs rule: RDB_dup_nonscalar_type_RDB_new_tuple_type_new_attrs.induct)
  case (5 as)
  then show ?case by (auto intro!: computing intro: computes_and_thenI[where x = 0])
next
  case (8 n t as)
  then obtain xs where xs: "as = map Some xs" "n \<notin> fst ` set xs" "distinct (map fst xs)" "type_wf t"
      "\<forall>(n, t) \<in> set xs. type_wf t"
    by (auto simp: type_wf_Tuple Cons_eq_map_conv)
  then show ?case using 8
    by (auto intro!: computing)
qed (auto intro!: computing simp: type_wf_Tuple)

lemma find_attr_Some [simp]:
  "find_attr (map Some xs) n = Inr (map_option (Pair n) (map_of xs n))"
  by (induction xs) auto

lemma copy_attr_computes [computing]: "type_wf t \<Longrightarrow> computes E (copy_attr (Some (n, t))) (Inr (Some (n, t)))"
  by (auto intro!: computing dup_computes)

declare copy_attr.simps [simp del]

lemma map_of_None: "map_of xs n = None \<longleftrightarrow> n \<notin> fst ` set xs"
  by (rule map_of_eq_None_iff)

text \<open>Extension.\<close>

lemma computes_cleanup [computing]:
  assumes "computes E f (Inr x)" "Segfault \<in> E"
  shows "computes E (unsound_cleanup c f) (Inr x)"
  unfolding computes_def
proof
  fix m
  obtain y k where run: "f m = (y, k)" by fastforce
  show "mem_le m (snd (unsound_cleanup c f m)) \<and> (fst (unsound_cleanup c f m) = Inr x
      \<or> fails m \<noteq> [] \<and> (fst (unsound_cleanup c f m) = NO_MEM \<or> (\<exists>e \<in> E. fst (unsound_cleanup c f m) = Inl e)))"
    using computesD[OF assms(1) run] assms(2) run
    by (cases y) (auto simp: unsound_cleanup_def split: fault.split)
qed

lemma computes_if [computing]:
  "(c \<Longrightarrow> computes E f r) \<Longrightarrow> (\<not> c \<Longrightarrow> computes E g s) \<Longrightarrow> computes E (if c then f else g) (if c then r else s)"
  by simp

lemma tuple_attrs_computes [computing]: "computes E (tuple_attrs (Tuple as)) (Inr as)"
  by (simp add: tuple_attrs_def computes_end)

lemma base_of_computes [computing]: "computes E (base_of (Relation b)) (Inr b)"
  by (simp add: base_of_def computes_end)

lemma from_base_computes [computing]: "computes E (RDB_new_relation_type_from_base b) (Inr (Relation b))"
  unfolding RDB_new_relation_type_from_base_def by (intro computing)

lemma each_copy_computes [computing]:
  "\<forall>(n, t) \<in> set xs. type_wf t \<Longrightarrow> computes E (each copy_attr (map Some xs)) (Inr (map Some xs))"
  using computes_each_map[of "map Some xs" E copy_attr id] copy_attr_computes by fastforce

definition extension :: "(string \<times> rdb_type) list \<Rightarrow> (string \<times> rdb_type) list \<Rightarrow> rdb_type result" where
  "extension xs ys =
     (if \<exists>y \<in> set ys. fst y \<in> fst ` set xs then raise_err INVALID_ARGUMENT_ERROR ''attribute exists''
      else Inr (Tuple (map Some (xs @ ys))))"

lemma extend_computes:
  assumes "\<forall>(n, t) \<in> set xs. type_wf t" "\<forall>(n, t) \<in> set ys. type_wf t"
  shows "computes {Segfault} (RDB_extend_tuple_type (Tuple (map Some xs)) (map Some ys)) (extension xs ys)"
proof -
  let ?f = "\<lambda>a. case a of None \<Rightarrow> end_with (Inl Segfault) | Some (n, t) \<Rightarrow>
     and_then (end_with (find_attr (map Some xs) n)) (\<lambda>old.
       if old \<noteq> None then raise_error INVALID_ARGUMENT_ERROR ''attribute exists'' else copy_attr a)"
  let ?g = "\<lambda>a. if fst (the a) \<in> fst ` set xs then raise_err INVALID_ARGUMENT_ERROR ''attribute exists'' else Inr a"
  have step: "computes {Segfault} (?f a) (?g a)" if "a \<in> set (map Some ys)" for a
  proof -
    obtain n t where a: "a = Some (n, t)" "type_wf t" using \<open>a \<in> _\<close> assms(2) by auto
    show ?thesis unfolding a(1) option.case prod.case
      by (rule computes_and_thenI[where x = "map_option (Pair n) (map_of xs n)"])
         (auto simp: map_of_None intro!: computing copy_attr_computes a(2))
  qed
  have eq: "each_r ?g (map Some ys) = (if \<exists>y \<in> set ys. fst y \<in> fst ` set xs
      then raise_err INVALID_ARGUMENT_ERROR ''attribute exists'' else Inr (map Some ys))"
    by (induction ys) auto
  have "computes {Segfault} (each ?f (map Some ys)) (each_r ?g (map Some ys))"
    by (rule computes_each) (rule step)
  then have loop: "computes {Segfault} (each ?f (map Some ys)) (if \<exists>y \<in> set ys. fst y \<in> fst ` set xs
      then raise_err INVALID_ARGUMENT_ERROR ''attribute exists'' else Inr (map Some ys))"
    unfolding eq .
  have ext: "extension xs ys = rbind (if \<exists>y \<in> set ys. fst y \<in> fst ` set xs
      then raise_err INVALID_ARGUMENT_ERROR ''attribute exists'' else Inr (map Some ys)) (\<lambda>new. Inr (Tuple (map Some xs @ new)))"
    by (simp add: extension_def)
  show ?thesis
    unfolding RDB_extend_tuple_type_def ext
    by (intro computes_after_alloc computes_and_thenI[OF tuple_attrs_computes]
        computes_and_thenI[OF computes_cleanup[OF each_copy_computes[OF assms(1)]]] computes_and_then[OF loop] computes_done) simp
qed

text \<open>Projection.\<close>

definition projection :: "(string \<times> rdb_type) list \<Rightarrow> string list \<Rightarrow> rdb_type result" where
  "projection xs names =
     (case List.find (\<lambda>n. n \<notin> fst ` set xs) names of
        Some n \<Rightarrow> raise_err NAME_ERROR n
      | None \<Rightarrow> Inr (Tuple (map (\<lambda>n. Some (n, the (map_of xs n))) names)))"

lemma project_computes:
  assumes "\<forall>(n, t) \<in> set xs. type_wf t"
  shows "computes E (RDB_project_tuple_type (Tuple (map Some xs)) names) (projection xs names)"
proof -
  let ?f = "\<lambda>name. and_then (dup_name name) (\<lambda>n.
         and_then (end_with (RDB_tuple_type_attr (Tuple (map Some xs)) n)) (\<lambda>a. case a of
             None \<Rightarrow> raise_error NAME_ERROR n
           | Some (n', t) \<Rightarrow> and_then (RDB_dup_nonscalar_type t) (\<lambda>t'. done_with (Some (n, t')))))"
  let ?g = "\<lambda>n. if n \<notin> fst ` set xs then raise_err NAME_ERROR n else Inr (Some (n, the (map_of xs n)))"
  have step: "computes E (?f n) (?g n)" for n
  proof (rule computes_and_thenI[OF computes_dup_name computes_and_thenI[where x = "map_option (Pair n) (map_of xs n)"]])
    show "computes E (case map_option (Pair n) (map_of xs n) of None \<Rightarrow> raise_error NAME_ERROR n
        | Some (n', t) \<Rightarrow> and_then (RDB_dup_nonscalar_type t) (\<lambda>t'. done_with (Some (n, t')))) (?g n)"
    proof (cases "map_of xs n")
      case (Some t)
      then have "(n, t) \<in> set xs" by (rule map_of_SomeD)
      then have "n \<in> fst ` set xs" "type_wf t" using assms by force+
      then show ?thesis using Some by (auto intro!: computing dup_computes)
    next
      case None
      then have "n \<notin> fst ` set xs" using map_of_None[of xs n] by blast
      then show ?thesis using None by (auto intro!: computing)
    qed
  qed (simp add: computes_end)
  have eq: "rbind (each_r ?g names) (\<lambda>as. Inr (Tuple as)) = projection xs names"
  proof -
    have "each_r ?g names = (case List.find (\<lambda>n. n \<notin> fst ` set xs) names of
        Some n \<Rightarrow> raise_err NAME_ERROR n | None \<Rightarrow> Inr (map (\<lambda>n. Some (n, the (map_of xs n))) names))"
      by (induction names) (auto split: option.splits)
    then show ?thesis by (auto simp: projection_def split: option.splits)
  qed
  have loop: "computes E (each ?f names) (each_r ?g names)" by (rule computes_each) (rule step)
  show ?thesis
    unfolding RDB_project_tuple_type_def eq[symmetric]
    by (intro computes_after_alloc computes_maybe_alloc computes_and_then[OF loop] computes_done)
qed

text \<open>Renaming.\<close>

lemma find_rename_from:
  "(if RDB_find_rename_from renv n \<ge> 0 then Some (snd (renv ! nat (RDB_find_rename_from renv n))) else None)
    = map_of renv n \<and> RDB_find_rename_from renv n \<ge> -1"
  by (induction renv n rule: RDB_find_rename_from.induct) (auto simp: Let_def nat_add_distrib split: if_splits)

lemma renamed_map: "renamed renv n = (case map_of renv n of None \<Rightarrow> n | Some to \<Rightarrow> to)"
  using find_rename_from[of renv n] by (auto simp: renamed_def Let_def split: if_splits option.splits)

definition rename_ok :: "string set \<Rightarrow> (string \<times> string) list \<Rightarrow> bool" where
  "rename_ok names renv \<longleftrightarrow> distinct (map fst renv) \<and> distinct (map snd renv)
     \<and> fst ` set renv \<subseteq> names \<and> snd ` set renv \<inter> names = {}"

lemma check_renames_computes:
  "\<exists>r. computes E (check_renames (Tuple (map Some xs)) renv) r
     \<and> (if rename_ok (fst ` set xs) renv then r = Inr () else r \<in> {raise_err NAME_ERROR n | n. True} \<union> {raise_err INVALID_ARGUMENT_ERROR ''invalid RENAME arguments''})"
proof (induction renv)
  case Nil
  then show ?case by (intro exI[of _ "Inr ()"]) (simp add: rename_ok_def computes_done)
next
  case (Cons r renv)
  obtain src dst where r: "r = (src, dst)" by fastforce
  obtain rest where rest: "computes E (check_renames (Tuple (map Some xs)) renv) rest"
    "if rename_ok (fst ` set xs) renv then rest = Inr () else rest \<in> {raise_err NAME_ERROR n | n. True} \<union> {raise_err INVALID_ARGUMENT_ERROR ''invalid RENAME arguments''}"
    using Cons by blast
  let ?r = "if map_of xs src = None then raise_err NAME_ERROR src
     else if map_of xs dst \<noteq> None then raise_err NAME_ERROR dst
     else if list_ex (\<lambda>(s', d'). src = s' \<or> dst = d') renv
       then raise_err INVALID_ARGUMENT_ERROR ''invalid RENAME arguments'' else rest"
  have "computes E (check_renames (Tuple (map Some xs)) (r # renv)) ?r"
    using rest(1) by (auto simp: r intro!: computing)
  moreover have "rename_ok (fst ` set xs) (r # renv) \<longleftrightarrow> src \<in> fst ` set xs \<and> dst \<notin> fst ` set xs
      \<and> \<not> list_ex (\<lambda>(s', d'). src = s' \<or> dst = d') renv \<and> rename_ok (fst ` set xs) renv"
    unfolding r by (fastforce simp: rename_ok_def list_ex_iff image_iff)
  ultimately show ?case using rest(2) map_of_None[of xs] by (intro exI[of _ ?r]) auto
qed


lemma rename_computes:
  assumes "\<forall>(n, t) \<in> set xs. type_wf t" "rename_ok (fst ` set xs) renv"
  shows "computes E (RDB_rename_tuple_type (Tuple (map Some xs)) renv)
    (Inr (Tuple (map Some (map (\<lambda>(n, t). (case map_of renv n of None \<Rightarrow> n | Some d \<Rightarrow> d, t)) xs))))"
proof -
  let ?f = "\<lambda>a. case a of None \<Rightarrow> end_with (Inl Segfault) | Some (n, t) \<Rightarrow>
         and_then (RDB_dup_nonscalar_type t) (\<lambda>t'.
         and_then (dup_name (renamed renv n)) (\<lambda>n'. done_with (Some (n', t'))))"
  let ?h = "\<lambda>(n, t). (case map_of renv n of None \<Rightarrow> n | Some d \<Rightarrow> d, t)"
  have "computes E (?f a) (Inr (map_option ?h a))" if a: "a \<in> set (map Some xs)" for a
  proof -
    obtain n t where "a = Some (n, t)" "type_wf t" using a assms(1) by auto
    then show ?thesis
      by (simp add: renamed_map) (intro computes_and_thenI[OF dup_computes(1)] computes_and_thenI[OF computes_dup_name] computes_done)
  qed
  then have loop: "computes E (each ?f (map Some xs)) (Inr (map (map_option ?h) (map Some xs)))"
    by (rule computes_each_map)
  obtain r where "computes E (check_renames (Tuple (map Some xs)) renv) r" "r = Inr ()"
    using check_renames_computes[of E xs renv] assms(2) by auto
  then have check: "computes E (check_renames (Tuple (map Some xs)) renv) (Inr ())" by simp
  show ?thesis
    unfolding RDB_rename_tuple_type_def
    by (intro computes_and_thenI[OF check] computes_after_alloc computes_and_thenI[OF tuple_attrs_computes]
        computes_and_thenI[OF loop]) (simp add: comp_def computes_done)
qed

lemma rename_refused:
  assumes "\<not> rename_ok (fst ` set xs) renv"
  shows "\<exists>t msg. t \<in> {NAME_ERROR, INVALID_ARGUMENT_ERROR}
    \<and> computes E (RDB_rename_tuple_type (Tuple (map Some xs)) renv) (raise_err t msg)"
  using check_renames_computes[of E xs renv] assms computes_and_then_Inl
  unfolding RDB_rename_tuple_type_def by fastforce

text \<open>The loop that copies the remaining attributes, with the bound of the array.\<close>

lemma copy_kept_computes:
  assumes "\<forall>(n, t) \<in> set xs. type_wf t" "k \<le> cap"
  shows "computes E (copy_kept p cap k (map Some xs))
    (if k + int (length (filter (\<lambda>x. p (fst x)) xs)) \<le> cap then Inr (map Some (filter (\<lambda>x. p (fst x)) xs)) else Inl Segfault)"
  using assms
proof (induction xs arbitrary: k)
  case (Cons x xs)
  obtain n t where x: "x = (n, t)" "type_wf t" using Cons.prems by fastforce
  show ?case
  proof (cases "p n")
    case False
    then show ?thesis using Cons.IH[of k] Cons.prems x by (simp split: if_splits)
  next
    case True
    show ?thesis
    proof (cases "k \<ge> cap")
      case True
      then show ?thesis using \<open>p n\<close> x by (simp add: computes_end)
    next
      case False
      let ?r = "if k + 1 + int (length (filter (\<lambda>x. p (fst x)) xs)) \<le> cap then Inr (map Some (filter (\<lambda>x. p (fst x)) xs)) else Inl Segfault"
      have "computes E (copy_kept p cap (k + 1) (map Some xs)) ?r"
        using Cons.IH[of "k + 1"] Cons.prems False by simp
      then have "computes E (and_then (copy_attr (Some (n, t))) (\<lambda>a. and_then (copy_kept p cap (k + 1) (map Some xs)) (\<lambda>as'. done_with (a # as'))))
          (rbind ?r (\<lambda>as'. Inr (Some (n, t) # as')))"
        by (intro computes_and_thenI[OF copy_attr_computes[OF x(2)]] computes_and_then computes_done)
      then show ?thesis using \<open>p n\<close> False x by (simp add: add.assoc split: if_splits)
    qed
  qed
qed (simp add: computes_done)

lemma copy_kept_fits:
  assumes "\<forall>(n, t) \<in> set xs. type_wf t" "k + int (length (filter (\<lambda>x. p (fst x)) xs)) \<le> cap"
  shows "computes E (copy_kept p cap k (map Some xs)) (Inr (map Some (filter (\<lambda>x. p (fst x)) xs)))"
  using copy_kept_computes[OF assms(1), of k cap E p] assms(2) by simp

lemma group_rest_computes:
  assumes "\<forall>(n, t) \<in> set xs. type_wf t" "k + int (length (filter (\<lambda>x. p (fst x)) xs)) \<le> cap"
    and "g \<notin> fst ` set (filter (\<lambda>x. p (fst x)) xs)"
  shows "computes E (group_rest p g cap k (map Some xs)) (Inr (map Some (filter (\<lambda>x. p (fst x)) xs)))"
  using assms
proof (induction xs arbitrary: k)
  case (Cons x xs)
  obtain n t where x: "x = (n, t)" "type_wf t" using Cons.prems by fastforce
  have rest: "computes E (group_rest p g cap (if p n then k + 1 else k) (map Some xs)) (Inr (map Some (filter (\<lambda>x. p (fst x)) xs)))"
    by (rule Cons.IH) (use Cons.prems x in \<open>auto split: if_splits\<close>)
  show ?case
    using rest Cons.prems x by (auto intro!: computing copy_attr_computes)
qed (simp add: computes_done)

lemma alloc_attrs_computes [computing]:
  "0 \<le> n \<Longrightarrow> (\<And>a. computes E (g a) r) \<Longrightarrow> computes E (and_then (alloc_attrs n) g) r"
  by (simp add: alloc_attrs_def computes_after_alloc)

lemma find_or_raise_computes [computing]:
  "map_of xs n = Some t \<Longrightarrow> computes E (find_or_raise (map Some xs) n) (Inr (n, t))"
  by (simp add: find_or_raise_def computes_done)

lemma dup_silently_computes: "computes {Silent} (dup_silently s) (Inr s)"
  by (auto simp: computes_def dup_silently_def RDB_dup_str_def malloc_mem_le malloc_None_fails
      split: prod.splits option.splits)

lemma find_each_computes:
  assumes "set names \<subseteq> fst ` set xs"
  shows "computes E (each (find_or_raise (map Some xs)) names) (Inr (map (\<lambda>n. (n, the (map_of xs n))) names))"
proof (rule computes_each_map)
  fix n assume "n \<in> set names"
  then obtain t where "map_of xs n = Some t" using assms map_of_None[of xs n] by blast
  then show "computes E (find_or_raise (map Some xs) n) (Inr (n, the (map_of xs n)))" by (simp add: find_or_raise_computes)
qed

lemma map_of_wf:
  assumes "\<forall>(n, t) \<in> set xs. type_wf t" "n \<in> fst ` set xs"
  obtains t where "map_of xs n = Some t" "type_wf t" "(n, t) \<in> set xs"
proof -
  obtain t where t: "map_of xs n = Some t" using assms(2) map_of_None[of xs n] by blast
  then have "(n, t) \<in> set xs" by (rule map_of_SomeD)
  then show thesis using that t assms(1) by blast
qed

definition selected :: "(string \<times> rdb_type) list \<Rightarrow> string list \<Rightarrow> (string \<times> rdb_type) list" where
  "selected xs names = map (\<lambda>n. (n, the (map_of xs n))) names"

lemma selected_wf:
  assumes "\<forall>(n, t) \<in> set xs. type_wf t" "set names \<subseteq> fst ` set xs" "distinct names"
  shows "type_wf (Tuple (map Some (selected xs names)))" "\<forall>(n, t) \<in> set (selected xs names). type_wf t"
    "map fst (selected xs names) = names"
proof -
  show *: "\<forall>(n, t) \<in> set (selected xs names). type_wf t"
    using assms(1,2) by (auto simp: selected_def elim!: map_of_wf dest!: subsetD)
  show names: "map fst (selected xs names) = names" by (simp add: selected_def comp_def)
  show "type_wf (Tuple (map Some (selected xs names)))" using * names assms(3) by simp
qed

text \<open>Dropping the attributes of a list of distinct names that occur leaves the others.\<close>

lemma filter_count:
  assumes "distinct (map fst xs)" "distinct names" "set names \<subseteq> fst ` set xs"
  shows "length (filter (\<lambda>x. fst x \<notin> set names) xs) = length xs - length names"
proof -
  have "length (filter (\<lambda>x. fst x \<in> set names) xs) = card (fst ` set (filter (\<lambda>x. fst x \<in> set names) xs))"
    using distinct_card[of "map fst (filter (\<lambda>x. fst x \<in> set names) xs)"] assms(1)
    by (simp add: distinct_map_filter)
  also have "fst ` set (filter (\<lambda>x. fst x \<in> set names) xs) = set names" using assms(3) by auto
  finally have "length (filter (\<lambda>x. fst x \<in> set names) xs) = length names"
    using distinct_card[OF assms(2)] by simp
  then show ?thesis using sum_length_filter_compl[of "\<lambda>x. fst x \<in> set names" xs] by simp
qed

lemma names_le:
  assumes "distinct (map fst xs)" "distinct names" "set names \<subseteq> fst ` set xs"
  shows "length names \<le> length xs"
proof -
  have "card (set names) \<le> card (fst ` set xs)" by (rule card_mono) (use assms(3) in auto)
  then show ?thesis using distinct_card[OF assms(1)] distinct_card[OF assms(2)] by simp
qed

section \<open>Grouping and wrapping\<close>

definition remaining :: "(string \<times> rdb_type) list \<Rightarrow> string list \<Rightarrow> (string \<times> rdb_type) list" where
  "remaining xs names = filter (\<lambda>x. fst x \<notin> set names) xs"

lemma remaining_simps:
  "fst ` set (remaining xs names) = fst ` set xs - set names"
  "distinct (map fst xs) \<Longrightarrow> distinct (map fst (remaining xs names))"
  "\<forall>(n, t) \<in> set xs. type_wf t \<Longrightarrow> \<forall>(n, t) \<in> set (remaining xs names). type_wf t"
  by (auto simp: remaining_def distinct_map_filter)

definition grouped :: "(string \<times> rdb_type) list \<Rightarrow> string list \<Rightarrow> string \<Rightarrow> (string \<times> rdb_type) list" where
  "grouped xs names g = remaining xs names @ [(g, Relation (Tuple (map Some (selected xs names))))]"

lemma remaining_count:
  assumes "distinct (map fst xs)" "distinct names" "set names \<subseteq> fst ` set xs"
  shows "length (remaining xs names) = length xs - length names" "length names \<le> length xs"
  using filter_count[OF assms] names_le[OF assms] by (simp_all add: remaining_def)

lemma group_computes:
  assumes wf: "type_wf (Tuple (map Some xs))" and names: "distinct names" "set names \<subseteq> fst ` set xs"
    and g: "g \<notin> fst ` set (remaining xs names)"
  shows "computes E (RDB_group_type (Relation (Tuple (map Some xs))) names g)
    (Inr (Relation (Tuple (map Some (grouped xs names g)))))"
proof -
  have dist: "distinct (map fst xs)" and types: "\<forall>(n, t) \<in> set xs. type_wf t" using wf by auto
  note sel = selected_wf[OF types names(2,1)] and count = remaining_count[OF dist names]
  let ?cap = "int (length (map Some xs)) + 1 - int (length names)"
  have new: "computes E (RDB_new_relation_type (map Some (selected xs names))) (Inr (Relation (Tuple (map Some (selected xs names)))))"
    unfolding RDB_new_relation_type_def by (intro computes_and_thenI[OF dup_computes(2)[OF sel(1)]] computing)
  have "fst ` set (selected xs names) = set names" using sel(3) by (metis list.set_map)
  then have rest: "computes E (group_rest (\<lambda>n. n \<notin> fst ` set (selected xs names)) g ?cap 0 (map Some xs)) (Inr (map Some (remaining xs names)))"
    using group_rest_computes[OF types, of 0 "\<lambda>n. n \<notin> fst ` set (selected xs names)" ?cap g E] g count
    by (simp add: remaining_def)
  have find: "computes E (each (find_or_raise (map Some xs)) names) (Inr (selected xs names))"
    using find_each_computes[OF names(2)] by (simp add: selected_def)
  have out: "computes E (if int (length (map Some (remaining xs names))) \<ge> ?cap then end_with (Inl Segfault)
     else and_then (dup_name g) (\<lambda>g'. and_then RDB_alloc (\<lambda>_.
          done_with (Relation (Tuple (filled ?cap (map Some (remaining xs names) @ [Some (g', Relation (Tuple (map Some (selected xs names))))])))))))
     (Inr (Relation (Tuple (map Some (grouped xs names g)))))"
    using count by (auto simp: filled_def grouped_def intro!: computing)
  show ?thesis
    unfolding RDB_group_type_def Let_def
    by (intro computes_after_alloc computes_and_thenI[OF base_of_computes] computes_and_thenI[OF tuple_attrs_computes]
        computes_and_thenI[OF find] computes_and_thenI[OF new] alloc_attrs_computes computes_and_thenI[OF rest] out)
      (use count in auto)
qed

lemma ungroup_computes:
  assumes "type_wf (Tuple (map Some (ys @ [(g, Relation (Tuple (map Some zs)))])))"
    and "fst ` set ys \<inter> fst ` set zs = {}"
  shows "computes E (RDB_ungroup_type (Relation (Tuple (map Some (ys @ [(g, Relation (Tuple (map Some zs)))])))) g)
    (Inr (Relation (Tuple (map Some (ys @ zs)))))"
proof -
  let ?xs = "ys @ [(g, Relation (Tuple (map Some zs)))]"
  let ?cap = "int (length (map Some ?xs)) + int (length (map Some zs)) - 1"
  have types: "\<forall>(n, t) \<in> set ?xs. type_wf t" "\<forall>(n, t) \<in> set zs. type_wf t" and g: "g \<notin> fst ` set ys"
    using assms(1) unfolding type_wf_tuple by auto
  have "map_of ?xs g = Some (Relation (Tuple (map Some zs)))"
    using g by (simp add: map_add_def map_of_None[symmetric] split: option.split)
  then have find: "computes E (find_or_raise (map Some ?xs) g) (Inr (g, Relation (Tuple (map Some zs))))"
    by (rule find_or_raise_computes)
  have kept: "filter (\<lambda>x. fst x \<noteq> g) ?xs = ys" using g by (auto simp: filter_id_conv)
  have keep: "computes E (copy_kept (\<lambda>n. n \<noteq> g) ?cap 0 (map Some ?xs)) (Inr (map Some ys))"
    using copy_kept_fits[OF types(1), of 0 "\<lambda>n. n \<noteq> g" ?cap E] unfolding kept by simp
  let ?f = "\<lambda>a. case a of None \<Rightarrow> end_with (Inl Segfault) | Some (n, t) \<Rightarrow>
         and_then (if n \<noteq> g then end_with (find_attr (map Some ?xs) n) else done_with None) (\<lambda>clash.
           if clash \<noteq> None then raise_error INVALID_ARGUMENT_ERROR ''invalid UNGROUP'' else copy_attr a)"
  have step: "computes E (?f a) (Inr a)" if a: "a \<in> set (map Some zs)" for a
  proof -
    obtain n t where n: "a = Some (n, t)" "type_wf t" "(n, t) \<in> set zs" using a types(2) by auto
    then have "n \<notin> fst ` set ys" using assms(2) by force
    then have "n \<noteq> g \<Longrightarrow> map_of ?xs n = None" unfolding map_of_None by simp
    then have "n \<noteq> g \<Longrightarrow> find_attr (map Some ?xs) n = Inr None" unfolding find_attr_Some by simp
    then show ?thesis using n(1,2)
      by (cases "n = g") (simp_all add: copy_attr_computes)
  qed
  have inner: "computes E (each ?f (map Some zs)) (Inr (map Some zs))"
    using computes_each_map[of "map Some zs" E ?f id] step by simp
  have out: "computes E (and_then RDB_alloc (\<lambda>_. done_with (Relation (Tuple (filled ?cap (map Some ys @ map Some zs))))))
     (Inr (Relation (Tuple (map Some (ys @ zs)))))"
    by (auto simp: filled_def intro!: computing)
  have rel: "computes E (case snd (g, Relation (Tuple (map Some zs))) of Relation rb \<Rightarrow> done_with rb
      | _ \<Rightarrow> raise_error INVALID_ARGUMENT_ERROR ''attribute is not a relation'') (Inr (Tuple (map Some zs)))"
    by (simp add: computes_done)
  show ?thesis
    unfolding RDB_ungroup_type_def Let_def
    by (intro computes_and_thenI[OF base_of_computes] computes_and_thenI[OF tuple_attrs_computes] computes_and_thenI[OF find]
        computes_and_thenI[OF rel] computes_after_alloc alloc_attrs_computes computes_and_thenI[OF keep] computes_and_thenI[OF inner] out) auto
qed


definition wrapped :: "(string \<times> rdb_type) list \<Rightarrow> (string list \<times> string) list \<Rightarrow> (string \<times> rdb_type) list" where
  "wrapped xs wrapv = map (\<lambda>(names, name). (name, Tuple (map Some (selected xs names)))) wrapv"

lemma wrap_inner_computes:
  assumes "\<forall>(n, t) \<in> set xs. type_wf t" "set names \<subseteq> fst ` set xs"
  shows "computes E (each (\<lambda>n. and_then (find_or_raise (map Some xs) n) (\<lambda>a. copy_attr (Some a))) names)
    (Inr (map Some (selected xs names)))"
proof -
  have "computes E (and_then (find_or_raise (map Some xs) n) (\<lambda>a. copy_attr (Some a))) (Inr (Some (n, the (map_of xs n))))"
    if n: "n \<in> set names" for n
  proof -
    have "n \<in> fst ` set xs" using n assms(2) by auto
    then obtain t where "map_of xs n = Some t" "type_wf t" using map_of_wf[OF assms(1)] by metis
    then have "map_of xs n = Some t" "computes E (copy_attr (Some (n, t))) (Inr (Some (n, the (map_of xs n))))"
      by (simp_all add: copy_attr_computes)
    then show ?thesis by (intro computes_and_thenI[OF find_or_raise_computes])
  qed
  then show ?thesis
    using computes_each_map[of names E _ "\<lambda>n. Some (n, the (map_of xs n))"] by (simp add: selected_def comp_def)
qed

lemma wrap_tuples_computes:
  assumes "\<forall>(n, t) \<in> set xs. type_wf t" "set (concat (map fst wrapv)) \<subseteq> fst ` set xs" "i + int (length wrapv) \<le> cap"
  shows "computes {Silent} (wrap_tuples (map Some xs) cap i wrapv) (Inr (map Some (wrapped xs wrapv)))"
  using assms(2,3)
proof (induction wrapv arbitrary: i)
  case (Cons w wrapv)
  obtain names name where w: "w = (names, name)" by fastforce
  have each: "computes {Silent} (each (\<lambda>n. and_then (find_or_raise (map Some xs) n) (\<lambda>a. copy_attr (Some a))) names)
      (Inr (map Some (selected xs names)))"
    by (rule wrap_inner_computes[OF assms(1)]) (use Cons.prems w in auto)
  have rest: "computes {Silent} (wrap_tuples (map Some xs) cap (i + 1) wrapv) (Inr (map Some (wrapped xs wrapv)))"
    by (rule Cons.IH) (use Cons.prems w in auto)
  have "\<not> i \<ge> cap" using Cons.prems(2) by simp
  then show ?case
    unfolding w wrap_tuples.simps
    by (intro computes_after_alloc computes_and_thenI[OF each])
       (auto simp: wrapped_def w intro!: computes_and_thenI[OF dup_silently_computes] computes_and_thenI[OF rest[unfolded wrapped_def]] computes_done)
qed (simp add: wrapped_def computes_done)

lemma wrap_computes:
  assumes wf: "type_wf (Tuple (map Some xs))"
    and names: "distinct (concat (map fst wrapv))" "set (concat (map fst wrapv)) \<subseteq> fst ` set xs"
  shows "computes {Silent} (RDB_wrap_tuple_type (Tuple (map Some xs)) wrapv)
    (Inr (Tuple (map Some (wrapped xs wrapv @ remaining xs (concat (map fst wrapv))))))"
proof -
  have dist: "distinct (map fst xs)" and types: "\<forall>(n, t) \<in> set xs. type_wf t" using wf by auto
  note count = remaining_count[OF dist names]
  define cap where "cap = int (length (map Some xs)) + (\<Sum>w \<leftarrow> wrapv. 1 - int (length (fst w)))"
  have "(\<Sum>w \<leftarrow> wrapv. 1 - int (length (fst w))) = int (length wrapv) - int (length (concat (map fst wrapv)))" for wrapv :: "(string list \<times> string) list"
    by (induction wrapv) auto
  then have cap: "cap = int (length wrapv) + int (length (remaining xs (concat (map fst wrapv))))"
    using count by (simp add: cap_def)
  have wraps: "computes {Silent} (wrap_tuples (map Some xs) cap 0 wrapv) (Inr (map Some (wrapped xs wrapv)))"
    by (rule wrap_tuples_computes[OF types names(2)]) (simp add: cap)
  have test: "(\<lambda>n. \<not> list_ex (\<lambda>w. RDB_find_str (fst w) n \<noteq> -1) wrapv) = (\<lambda>n. n \<notin> set (concat (map fst wrapv)))"
    by (auto simp: list_ex_iff)
  have rest: "computes {Silent} (copy_kept (\<lambda>n. n \<notin> set (concat (map fst wrapv))) cap (int (length wrapv)) (map Some xs))
      (Inr (map Some (remaining xs (concat (map fst wrapv)))))"
    unfolding remaining_def by (rule copy_kept_fits[OF types]) (simp add: cap remaining_def)
  show ?thesis
    unfolding RDB_wrap_tuple_type_def
    by (rule computes_and_thenI[OF tuple_attrs_computes], unfold Let_def cap_def[symmetric] test,
        intro computes_after_alloc alloc_attrs_computes computes_and_thenI[OF wraps] computes_and_thenI[OF rest])
      (auto simp: cap wrapped_def computes_done)
qed

definition tuple_attr :: "string \<times> (string \<times> rdb_type) list \<Rightarrow> string \<times> rdb_type" where
  "tuple_attr y = (fst y, Tuple (map Some (snd y)))"

lemma each_pairs:
  "(\<And>y. y \<in> set ys \<Longrightarrow> computes E (f (fst y)) (Inr (h (snd y))))
    \<Longrightarrow> computes E (each f (map fst ys)) (Inr (map h (map snd ys)))"
proof (induction ys)
  case (Cons y ys)
  then show ?case
    by (auto intro!: computes_and_thenI[where x = "h (snd y)"] computes_and_thenI[where x = "map h (map snd ys)"] computes_done)
qed (simp add: computes_done)

lemma unwrap_computes:
  assumes wf: "type_wf (Tuple (map Some (map tuple_attr ys @ zs)))"
  shows "computes {Segfault} (RDB_unwrap_tuple_type (Tuple (map Some (map tuple_attr ys @ zs))) (map fst ys))
    (Inr (Tuple (map Some (concat (map snd ys) @ zs))))"
proof -
  let ?xs = "map tuple_attr ys @ zs"
  have dist: "distinct (map fst ?xs)" and types: "\<forall>(n, t) \<in> set ?xs. type_wf t" using wf unfolding type_wf_tuple by blast+
  have inner_types: "\<forall>(n, t) \<in> set (concat (map snd ys)). type_wf t"
  proof safe
    fix n t assume "(n, t) \<in> set (concat (map snd ys))"
    then obtain y where y: "y \<in> set ys" "(n, t) \<in> set (snd y)" by auto
    then have "(fst y, Tuple (map Some (snd y))) \<in> set ?xs" by (auto simp: tuple_attr_def intro!: image_eqI[of _ _ y])
    then have "type_wf (Tuple (map Some (snd y)))" using types by blast
    then show "type_wf t" using y(2) by (rule wf_attr)
  qed
  define cap where "cap = int (length (map Some ?xs)) + (\<Sum>bs \<leftarrow> map (map Some) (map snd ys). int (length bs) - 1)"
  have "(\<Sum>bs \<leftarrow> map (map Some) (map snd ys). int (length bs) - 1) = int (length (concat (map snd ys))) - int (length ys)"
    for ys :: "(string \<times> (string \<times> rdb_type) list) list"
    by (induction ys) auto
  then have cap: "cap = int (length (concat (map snd ys))) + int (length zs)" by (simp add: cap_def)
  have "computes {Segfault} (inner_attrs (map Some ?xs) (fst y)) (Inr (map Some (snd y)))" if y: "y \<in> set ys" for y
  proof -
    have "map_of ?xs (fst y) = Some (Tuple (map Some (snd y)))"
      by (rule map_of_is_SomeI[OF dist]) (use y in \<open>auto simp: tuple_attr_def intro!: image_eqI[of _ _ y]\<close>)
    from find_or_raise_computes[OF this] show ?thesis
      unfolding inner_attrs_def by (rule computes_and_thenI) (simp add: computes_done)
  qed
  then have inner: "computes {Segfault} (each (inner_attrs (map Some ?xs)) (map fst ys)) (Inr (map (map Some) (map snd ys)))"
    by (rule each_pairs)
  have all: "computes {Segfault} (copy_kept (\<lambda>_. True) cap 0 (concat (map (map Some) (map snd ys)))) (Inr (map Some (concat (map snd ys))))"
    using copy_kept_fits[OF inner_types, of 0 "\<lambda>_. True" cap] cap by (simp add: map_concat comp_def)
  have test: "(\<lambda>n. RDB_find_str (map fst ys) n = -1) = (\<lambda>n. n \<notin> set (map fst ys))" by simp
  have others: "filter (\<lambda>x. fst x \<notin> set (map fst ys)) ?xs = zs"
  proof -
    have "filter (\<lambda>x. fst x \<notin> set (map fst ys)) (map tuple_attr ys) = []"
      by (auto simp: filter_empty_conv tuple_attr_def)
    moreover have "filter (\<lambda>x. fst x \<notin> set (map fst ys)) zs = zs"
      using dist by (auto simp: filter_id_conv tuple_attr_def comp_def)
    ultimately show ?thesis by simp
  qed
  have rest: "computes {Segfault} (copy_kept (\<lambda>n. n \<notin> set (map fst ys)) cap (int (length (map Some (concat (map snd ys))))) (map Some ?xs))
      (Inr (map Some zs))"
    using copy_kept_fits[OF types, of "int (length (map Some (concat (map snd ys))))" "\<lambda>n. n \<notin> set (map fst ys)" cap] cap
    unfolding others by simp
  show ?thesis
    unfolding RDB_unwrap_tuple_type_def
    by (rule computes_and_thenI[OF tuple_attrs_computes], rule computes_and_thenI[OF inner],
        unfold Let_def cap_def[symmetric] test,
        intro computes_after_alloc alloc_attrs_computes computes_cleanup computes_and_thenI[OF all] computes_and_thenI[OF rest])
      (auto simp: cap computes_done)
qed

section \<open>Joining\<close>

lemma runs_copy_unchecked:
  assumes "type_wf t"
  shows "runs (copy_attr_unchecked (Some (n, t))) (Inr (Some (n, t)))"
proof -
  have "runs (and_then (RDB_dup_nonscalar_type t) (\<lambda>t'. done_with (Some (n, t')))) (Inr (Some (n, t)))"
    by (intro runs_and_thenI[OF runs_computes[OF dup_computes(1)[OF assms]]] runs_computes[OF computes_done])
  then show ?thesis by (auto simp: runs_def RDB_dup_str_def malloc_ok)
qed

definition agree :: "(string \<times> rdb_type) list \<Rightarrow> (string \<times> rdb_type) list \<Rightarrow> bool" where
  "agree xs ys \<longleftrightarrow> (\<forall>(n, t) \<in> set ys. \<forall>u. map_of xs n = Some u \<longrightarrow> spec_of t = spec_of u)"

lemma union_attrs_runs:
  assumes "\<And>t u. same t u \<Longrightarrow> t = u" "\<forall>(n, t) \<in> set xs. type_wf t" "\<forall>(n, t) \<in> set ys. type_wf t"
  shows "runs (union_attrs same (map Some xs) (map Some ys))
    (if agree xs ys then Inr (map Some (remaining ys (map fst xs)))
     else raise_err TYPE_MISMATCH_ERROR ''JOIN attribute types do not match'')"
  using assms(3)
proof (induction ys)
  case Nil
  then show ?case by (simp add: agree_def remaining_def runs_computes[OF computes_done])
next
  case (Cons y ys)
  obtain n t where y: "y = (n, t)" "type_wf t" using Cons.prems by fastforce
  have IH: "runs (union_attrs same (map Some xs) (map Some ys))
    (if agree xs ys then Inr (map Some (remaining ys (map fst xs)))
     else raise_err TYPE_MISMATCH_ERROR ''JOIN attribute types do not match'')"
    using Cons by auto
  show ?case
  proof (cases "map_of xs n")
    case None
    then have n: "n \<notin> fst ` set xs" by (rule map_of_None[THEN iffD1])
    have "runs (and_then (copy_attr_unchecked (Some (n, t))) (\<lambda>a. and_then (union_attrs same (map Some xs) (map Some ys)) (\<lambda>as. done_with (a # as))))
       (rbind (if agree xs ys then Inr (map Some (remaining ys (map fst xs)))
         else raise_err TYPE_MISMATCH_ERROR ''JOIN attribute types do not match'') (\<lambda>as. Inr (Some (n, t) # as)))"
      by (intro runs_and_thenI[OF runs_copy_unchecked[OF y(2)]] runs_and_then[OF IH] runs_computes[OF computes_done])
    moreover have "agree xs (y # ys) = agree xs ys" using None y by (simp add: agree_def)
    moreover have "remaining (y # ys) (map fst xs) = (n, t) # remaining ys (map fst xs)" using n y by (simp add: remaining_def)
    ultimately show ?thesis using None y by (simp add: split: if_splits)
  next
    case (Some u)
    then have "(n, u) \<in> set xs" by (rule map_of_SomeD)
    then have n: "n \<in> fst ` set xs" and u: "type_wf u" using assms(2) by (auto simp: image_iff) force
    have "RDB_type_equals same t u = Inr (spec_of t = spec_of u)" by (rule type_equals_spec[OF assms(1) y(2) u])
    moreover have "agree xs (y # ys) \<longleftrightarrow> spec_of t = spec_of u \<and> agree xs ys" using Some y by (auto simp: agree_def)
    moreover have "remaining (y # ys) (map fst xs) = remaining ys (map fst xs)" using n y by (simp add: remaining_def)
    ultimately show ?thesis using Some y IH by (auto simp: runs_computes[OF computes_raise] split: if_splits)
  qed
qed

lemma union_runs:
  assumes "\<And>t u. same t u \<Longrightarrow> t = u" "\<forall>(n, t) \<in> set xs. type_wf t" "\<forall>(n, t) \<in> set ys. type_wf t"
  shows "runs (RDB_union_tuple_types same (Tuple (map Some xs)) (Tuple (map Some ys)))
    (if agree xs ys then Inr (Tuple (map Some (xs @ remaining ys (map fst xs))))
     else raise_err TYPE_MISMATCH_ERROR ''JOIN attribute types do not match'')"
proof -
  have first: "runs (each copy_attr_unchecked (map Some xs)) (Inr (map Some xs))"
    using runs_each[of "map Some xs" copy_attr_unchecked id] assms(2) runs_copy_unchecked by fastforce
  have eq: "(if agree xs ys then Inr (Tuple (map Some (xs @ remaining ys (map fst xs))))
     else raise_err TYPE_MISMATCH_ERROR ''JOIN attribute types do not match'')
    = rbind (if agree xs ys then Inr (map Some (remaining ys (map fst xs)))
     else raise_err TYPE_MISMATCH_ERROR ''JOIN attribute types do not match'') (\<lambda>as. Inr (Tuple (map Some xs @ as)))"
    by simp
  show ?thesis
    unfolding RDB_union_tuple_types_def eq
    by (intro runs_after_alloc runs_and_thenI[OF runs_computes[OF tuple_attrs_computes]] runs_and_thenI[OF first]
        runs_and_then[OF union_attrs_runs[OF assms]] runs_computes[OF computes_done])
qed

section \<open>Properties\<close>

definition sample_attrs :: "(string \<times> rdb_type) list" where
  "sample_attrs = [(''id'', RDB_INTEGER), (''name'', RDB_STRING), (''price'', RDB_FLOAT)]"

lemma sample_attrs_wf: "type_wf (Tuple (map Some sample_attrs))"
  by (simp add: sample_attrs_def builtin_type_defs type_wf.simps(2) attr_names_def)

text \<open>
  C15: the equality of types that the code tests, whatever shortcut it takes for equal pointers,
  is the equality of the abstract types: names of scalar types, and attribute names with
  their types whatever their order.
\<close>

theorem type_equality:
  assumes "\<And>t u. same t u \<Longrightarrow> t = u" "type_wf t" "type_wf u"
  shows "RDB_type_equals same t u = Inr (spec_of t = spec_of u)"
  by (rule type_equals_spec[OF assms])

theorem type_equality_witness:
  "RDB_type_equals (\<lambda>_ _. False) (Relation (Tuple (map Some sample_attrs))) (Relation (Tuple (map Some (rev sample_attrs)))) = Inr True"
proof -
  have wf: "type_wf (Relation (Tuple (map Some sample_attrs)))" "type_wf (Relation (Tuple (map Some (rev sample_attrs))))"
    by (simp_all add: sample_attrs_def builtin_type_defs type_wf.simps(2) attr_names_def)
  have "spec_of (Tuple (map Some sample_attrs)) = spec_of (Tuple (map Some (rev sample_attrs)))"
    unfolding spec_of_tuple_eq by (simp add: sample_attrs_def)
  then have "spec_of (Relation (Tuple (map Some sample_attrs))) = spec_of (Relation (Tuple (map Some (rev sample_attrs))))"
    by (simp only: spec_of.simps)
  then show ?thesis using type_equality[of "\<lambda>_ _. False", OF _ wf] by simp
qed

definition heading :: "(string \<times> rdb_type) list \<Rightarrow> (string, type_spec) fmap" where
  "heading xs = fmap_of_list (map (map_prod id spec_of) xs)"

lemma spec_of_heading: "spec_of (Tuple (map Some xs)) = STuple (heading xs)"
  by (simp add: heading_def)

lemma heading_lookup [simp]: "fmlookup (heading xs) n = map_option spec_of (map_of xs n)"
  by (simp add: heading_def fmlookup_of_list spec_lookup)

lemma heading_dom [simp]: "n |\<in>| fmdom (heading xs) \<longleftrightarrow> map_of xs n \<noteq> None"
  by (auto simp: fmlookup_dom_iff)

declare spec_of_tuple [simp del] spec_of_heading [simp]

lemma heading_eq: "heading xs = heading ys \<longleftrightarrow> (\<forall>n. map_option spec_of (map_of xs n) = map_option spec_of (map_of ys n))"
  using spec_of_tuple_eq[of xs ys] unfolding spec_of_heading by (simp del: heading_lookup)

lemma map_of_remaining: "map_of (remaining xs names) n = (if n \<in> set names then None else map_of xs n)"
  by (induction xs) (auto simp: remaining_def)

lemma agree_heading:
  assumes "distinct (map fst ys)"
  shows "agree xs ys \<longleftrightarrow> (\<forall>n \<in> fset (fmdom (heading xs)) \<inter> fset (fmdom (heading ys)). fmlookup (heading xs) n = fmlookup (heading ys) n)"
    (is "_ \<longleftrightarrow> ?r")
proof
  assume *: "agree xs ys"
  show ?r
  proof safe
    fix n assume "n |\<in>| fmdom (heading xs)" "n |\<in>| fmdom (heading ys)"
    then obtain t u where "map_of xs n = Some u" "map_of ys n = Some t" by (auto simp: fmlookup_dom_iff)
    then show "fmlookup (heading xs) n = fmlookup (heading ys) n"
      using * map_of_SomeD[of ys n t] by (fastforce simp: agree_def)
  qed
next
  assume *: ?r
  show "agree xs ys"
    unfolding agree_def
  proof safe
    fix n t u assume "(n, t) \<in> set ys" "map_of xs n = Some u"
    then have "map_of ys n = Some t" using assms by simp
    then have "fmlookup (heading xs) n = fmlookup (heading ys) n"
      using * \<open>map_of xs n = Some u\<close> by (simp del: heading_lookup)
    then show "spec_of t = spec_of u" using \<open>map_of xs n = Some u\<close> \<open>map_of ys n = Some t\<close> by simp
  qed
qed

lemma heading_join:
  assumes "agree xs ys" "distinct (map fst ys)"
  shows "heading (xs @ remaining ys (map fst xs)) = fmadd (heading xs) (heading ys)"
proof (rule fmap_ext)
  fix n
  show "fmlookup (heading (xs @ remaining ys (map fst xs))) n = fmlookup (fmadd (heading xs) (heading ys)) n"
  proof (cases "map_of xs n")
    case None
    then show ?thesis
      using map_of_None[of xs n] by (cases "map_of ys n") (auto simp: map_of_remaining map_add_def)
  next
    case (Some u)
    then have "n \<in> fst ` set xs" using map_of_None[of xs n] by auto
    moreover have "spec_of t = spec_of u" if "map_of ys n = Some t" for t
      using assms(1) Some map_of_SomeD[OF that] by (auto simp: agree_def)
    ultimately show ?thesis using Some
      by (cases "map_of ys n") (auto simp: map_of_remaining map_add_def)
  qed
qed



lemma map_of_selected: "n \<in> set names \<Longrightarrow> set names \<subseteq> fst ` set xs \<Longrightarrow> map_of (selected xs names) n = map_of xs n"
proof (induction names)
  case (Cons a names)
  then obtain t where "a = n \<longrightarrow> map_of xs n = Some t" using map_of_None[of xs n] by fastforce
  then show ?case using Cons by (auto simp: selected_def)
qed simp

lemma map_of_selected_None: "n \<notin> set names \<Longrightarrow> map_of (selected xs names) n = None"
  by (induction names) (auto simp: selected_def)

lemma selected_heading:
  assumes "set names \<subseteq> fst ` set xs"
  shows "heading (remaining xs names @ selected xs names) = heading xs"
    "heading (selected xs names @ remaining xs names) = heading xs"
  using assms map_of_selected[of _ names xs] map_of_selected_None[of _ names xs]
  by (auto simp: heading_eq map_of_remaining map_add_def split: option.splits)

text \<open>
  C13: grouping attributes of a relation type and ungrouping the result gives a type equal to
  the original one.
\<close>

theorem group_ungroup:
  assumes "type_wf (Relation (Tuple as))" "distinct names" "set names \<subseteq> set (attr_names as)"
    and "g \<notin> set (attr_names as) - set names" "fails m = []"
  shows "\<exists>r m' r' m''. RDB_group_type (Relation (Tuple as)) names g m = (Inr r, m') \<and> type_wf r
    \<and> RDB_ungroup_type r g m' = (Inr r', m'') \<and> spec_of r' = spec_of (Relation (Tuple as))"
proof -
  obtain xs where as: "as = map Some xs" and dist: "distinct (map fst xs)" and types: "\<forall>(n, t) \<in> set xs. type_wf t"
    using assms(1) by (auto simp: type_wf_Tuple)
  have names: "set names \<subseteq> fst ` set xs" and g: "g \<notin> fst ` set (remaining xs names)"
    using assms(3,4) by (auto simp: as remaining_simps)
  note sel = selected_wf[OF types names assms(2)]
  let ?g = "Relation (Tuple (map Some (grouped xs names g)))"
  have disj: "fst ` set (remaining xs names) \<inter> fst ` set (selected xs names) = {}"
    using sel(3) by (metis Diff_disjoint inf_commute list.set_map remaining_simps(1))
  have wf: "type_wf (Tuple (map Some (grouped xs names g)))"
    unfolding type_wf_tuple using sel(1) g dist remaining_simps(2,3)[of xs names] types by (auto simp: grouped_def)
  obtain m' where m': "RDB_group_type (Relation (Tuple as)) names g m = (Inr ?g, m')" "fails m' = []"
    using computes_run[OF group_computes[of xs names g "{}"] assms(5)] assms(1,2) names g
    unfolding as by (metis prod.collapse type_wf.simps(3))
  obtain m'' where "RDB_ungroup_type ?g g m' = (Inr (Relation (Tuple (map Some (remaining xs names @ selected xs names)))), m'')"
    using computes_run(1)[OF ungroup_computes[OF wf[unfolded grouped_def] disj, of "{}"] m'(2)]
    unfolding grouped_def by (metis prod.collapse)
  moreover have "spec_of (Relation (Tuple (map Some (remaining xs names @ selected xs names)))) = spec_of (Relation (Tuple as))"
    unfolding as spec_of.simps(3) spec_of_heading using selected_heading(1)[OF names] by simp
  ultimately show ?thesis using m'(1) wf by (auto simp: grouped_def)
qed

theorem group_ungroup_witness:
  "\<exists>r m' r' m''. RDB_group_type (Relation (Tuple (map Some sample_attrs))) [''price'', ''name''] ''item'' mem_ok = (Inr r, m')
     \<and> RDB_ungroup_type r ''item'' m' = (Inr r', m'') \<and> spec_of r' = spec_of (Relation (Tuple (map Some sample_attrs)))"
proof -
  have "type_wf (Relation (Tuple (map Some sample_attrs)))" using sample_attrs_wf by simp
  from group_ungroup[OF this, of "[''price'', ''name'']" "''item''" mem_ok] show ?thesis
    by (fastforce simp: sample_attrs_def attr_names_def)
qed

text \<open>
  Wrapping attributes of a tuple type and unwrapping the new attributes gives a type equal
  to the original one, when no attribute is wrapped twice and the new names are new.
\<close>

theorem wrap_unwrap:
  assumes "type_wf (Tuple as)" "distinct (concat (map fst wrapv))" "set (concat (map fst wrapv)) \<subseteq> set (attr_names as)"
    and "distinct (map snd wrapv)" "set (map snd wrapv) \<inter> (set (attr_names as) - set (concat (map fst wrapv))) = {}"
    and "fails m = []"
  shows "\<exists>r m' r' m''. RDB_wrap_tuple_type (Tuple as) wrapv m = (Inr r, m') \<and> type_wf r
    \<and> RDB_unwrap_tuple_type r (map snd wrapv) m' = (Inr r', m'') \<and> spec_of r' = spec_of (Tuple as)"
proof -
  obtain xs where as: "as = map Some xs" and dist: "distinct (map fst xs)" and types: "\<forall>(n, t) \<in> set xs. type_wf t"
    using assms(1) by (auto simp: type_wf_Tuple)
  let ?all = "concat (map fst wrapv)"
  let ?ys = "map (\<lambda>w. (snd w, selected xs (fst w))) wrapv"
  have names: "set ?all \<subseteq> fst ` set xs" using assms(3) by (auto simp: as)
  have ys: "map tuple_attr ?ys = wrapped xs wrapv" by (simp add: tuple_attr_def wrapped_def case_prod_unfold)
  have inner: "concat (map snd ?ys) = selected xs ?all" by (simp add: selected_def map_concat comp_def)
  have "type_wf (Tuple (map Some (selected xs (fst w))))" if "w \<in> set wrapv" for w
    by (rule selected_wf(1)[OF types]) (use that names assms(2) in \<open>auto simp: distinct_concat_iff\<close>)
  then have wt: "\<forall>(n, t) \<in> set (wrapped xs wrapv). type_wf t" by (auto simp: wrapped_def)
  have wn: "map fst (wrapped xs wrapv) = map snd wrapv" by (simp add: wrapped_def comp_def case_prod_unfold)
  have new: "set (map snd wrapv) \<inter> set (map fst (remaining xs ?all)) = {}"
    using assms(5) remaining_simps(1)[of xs ?all] by (simp add: as)
  have "distinct (map snd wrapv @ map fst (remaining xs ?all))"
    using assms(4) new remaining_simps(2)[OF dist] by (simp only: distinct_append)
  then have wf: "type_wf (Tuple (map Some (wrapped xs wrapv @ remaining xs ?all)))"
    using wt remaining_simps(3)[OF types, of ?all]
    by (simp only: type_wf_tuple map_append[of fst] wn) auto
  obtain m' where m': "RDB_wrap_tuple_type (Tuple as) wrapv m = (Inr (Tuple (map Some (wrapped xs wrapv @ remaining xs ?all))), m')" "fails m' = []"
    using computes_run[OF wrap_computes[OF assms(1)[unfolded as] assms(2) names] assms(6)] unfolding as by (metis prod.collapse)
  obtain m'' where "RDB_unwrap_tuple_type (Tuple (map Some (wrapped xs wrapv @ remaining xs ?all))) (map snd wrapv) m'
      = (Inr (Tuple (map Some (selected xs ?all @ remaining xs ?all))), m'')"
    using computes_run(1)[OF unwrap_computes[of ?ys "remaining xs ?all"] m'(2)] wf
    unfolding ys inner by (simp add: comp_def) (metis prod.collapse)
  moreover have "spec_of (Tuple (map Some (selected xs ?all @ remaining xs ?all))) = spec_of (Tuple as)"
    unfolding as spec_of_heading using selected_heading(2)[OF names] by simp
  ultimately show ?thesis using m'(1) wf by blast
qed

theorem wrap_unwrap_witness:
  "\<exists>r m' r' m''. RDB_wrap_tuple_type (Tuple (map Some sample_attrs)) [([''price'', ''id''], ''p''), ([''name''], ''id'')] mem_ok = (Inr r, m')
     \<and> RDB_unwrap_tuple_type r [''p'', ''id''] m' = (Inr r', m'') \<and> spec_of r' = spec_of (Tuple (map Some sample_attrs))"
  using wrap_unwrap[OF sample_attrs_wf, of "[([''price'', ''id''], ''p''), ([''name''], ''id'')]" mem_ok]
  by (fastforce simp: sample_attrs_def attr_names_def)

lemma wrap_tuples_bound:
  assumes "\<forall>(n, t) \<in> set xs. type_wf t" "set (concat (map fst wrapv)) \<subseteq> fst ` set xs" "i + int (length wrapv) > cap"
    "wrapv \<noteq> []"
  shows "computes {Silent} (wrap_tuples (map Some xs) cap i wrapv) (Inl Segfault)"
  using assms(2-)
proof (induction wrapv arbitrary: i)
  case (Cons w wrapv)
  obtain names name where w: "w = (names, name)" by fastforce
  have each: "computes {Silent} (each (\<lambda>n. and_then (find_or_raise (map Some xs) n) (\<lambda>a. copy_attr (Some a))) names)
      (Inr (map Some (selected xs names)))"
    by (rule wrap_inner_computes[OF assms(1)]) (use Cons.prems w in auto)
  show ?case
  proof (cases "i \<ge> cap")
    case True
    then show ?thesis unfolding w wrap_tuples.simps
      by (intro computes_after_alloc computes_and_thenI[OF each]) (simp add: computes_end)
  next
    case False
    then have "wrapv \<noteq> []" using Cons.prems(2) by auto
    then have rest: "computes {Silent} (wrap_tuples (map Some xs) cap (i + 1) wrapv) (Inl Segfault)"
      by (intro Cons.IH) (use Cons.prems w in auto)
    show ?thesis unfolding w wrap_tuples.simps
      using False by (intro computes_after_alloc computes_and_thenI[OF each])
        (auto intro!: computes_and_thenI[OF dup_silently_computes] computes_and_then_Inl[OF rest])
  qed
qed simp

lemma remaining_at_least:
  assumes "distinct (map fst xs)" "set names \<subseteq> fst ` set xs"
  shows "length xs - length (remdups names) = length (remaining xs names)"
  using remaining_count[OF assms(1), of "remdups names"] assms(2) by (simp add: remaining_def)

text \<open>
  When an attribute occurs twice in a wrapping, in two tuples or in one, the array for the new
  attributes is too small, and the call writes beyond its end, unless its size is negative.
\<close>

theorem wrap_twice_overflows:
  assumes "type_wf (Tuple as)" "set (concat (map fst wrapv)) \<subseteq> set (attr_names as)" "\<not> distinct (concat (map fst wrapv))"
    and "fails m = []"
  shows "fst (RDB_wrap_tuple_type (Tuple as) wrapv m) \<in> {Inl Segfault, NO_MEM}"
proof -
  obtain xs where as: "as = map Some xs" and dist: "distinct (map fst xs)" and types: "\<forall>(n, t) \<in> set xs. type_wf t"
    using assms(1) by (auto simp: type_wf_Tuple)
  let ?all = "concat (map fst wrapv)"
  have names: "set ?all \<subseteq> fst ` set xs" using assms(2) by (auto simp: as)
  define cap where "cap = int (length (map Some xs)) + (\<Sum>w \<leftarrow> wrapv. 1 - int (length (fst w)))"
  have "(\<Sum>w \<leftarrow> wrapv. 1 - int (length (fst w))) = int (length wrapv) - int (length (concat (map fst wrapv)))" for wrapv :: "(string list \<times> string) list"
    by (induction wrapv) auto
  moreover have "length (remdups ?all) < length ?all"
    using assms(3) by (metis length_remdups_eq length_remdups_leq le_neq_implies_less remdups_id_iff_distinct)
  moreover have "length (remdups ?all) \<le> length xs"
    using names_le[OF dist, of "remdups ?all"] names by simp
  ultimately have cap: "cap < int (length wrapv) + int (length (remaining xs ?all))"
    using remaining_at_least[OF dist names] by (simp add: cap_def)
  have ne: "wrapv \<noteq> []" using assms(3) by auto
  let ?tail = "and_then (wrap_tuples (map Some xs) cap 0 wrapv) (\<lambda>was.
     and_then (copy_kept (\<lambda>n. n \<notin> set ?all) cap (int (length wrapv)) (map Some xs)) (\<lambda>rest.
     if int (length was + length rest) \<noteq> cap then raise_error INVALID_ARGUMENT_ERROR ''invalid WRAP''
     else done_with (Tuple (was @ rest))))"
  have tail: "computes {Silent} ?tail (Inl Segfault)"
  proof (cases "int (length wrapv) > cap")
    case True
    then show ?thesis using wrap_tuples_bound[OF types names _ ne, of cap 0] by (intro computes_and_then_Inl) simp
  next
    case False
    have wraps: "computes {Silent} (wrap_tuples (map Some xs) cap 0 wrapv) (Inr (map Some (wrapped xs wrapv)))"
      by (rule wrap_tuples_computes[OF types names]) (use False in simp)
    have "computes {Silent} (copy_kept (\<lambda>n. n \<notin> set ?all) cap (int (length wrapv)) (map Some xs)) (Inl Segfault)"
      using copy_kept_computes[OF types, of "int (length wrapv)" cap "{Silent}" "\<lambda>n. n \<notin> set ?all"] False cap
      by (simp add: remaining_def)
    then show ?thesis by (intro computes_and_thenI[OF wraps] computes_and_then_Inl)
  qed
  have test: "(\<lambda>n. \<not> list_ex (\<lambda>w. RDB_find_str (fst w) n \<noteq> -1) wrapv) = (\<lambda>n. n \<notin> set ?all)"
    by (auto simp: list_ex_iff)
  have "computes {Silent} (RDB_wrap_tuple_type (Tuple (map Some xs)) wrapv) (if cap < 0 then NO_MEM else Inl Segfault)"
    unfolding RDB_wrap_tuple_type_def
    by (rule computes_and_thenI[OF tuple_attrs_computes], unfold Let_def cap_def[symmetric] test, intro computes_after_alloc)
      (auto simp: alloc_attrs_def intro!: computes_after_alloc tail computes_end simp del: set_concat of_nat_add)
  then show ?thesis using computes_run(1)[OF _ assms(4)] unfolding as by (auto split: if_splits)
qed

theorem wrap_twice_overflows_witness:
  "fst (RDB_wrap_tuple_type (Tuple (map Some sample_attrs)) [([''id''], ''a''), ([''id''], ''b'')] mem_ok) \<in> {Inl Segfault, NO_MEM}"
  by (rule wrap_twice_overflows[OF sample_attrs_wf]) (auto simp: sample_attrs_def attr_names_def)

end
