(* ===== verification/Subtypes.thy ===== *)
theory Subtypes
  imports Type_Specs
begin

text \<open>
  The subtype relation of \<^verbatim>\<open>RDB_is_subtype\<close>: the code decides it, and on the types of a
  system in which scalar types are known by their names it is an order.
\<close>


section \<open>Type systems\<close>

text \<open>
  The scalar types of a program are known by their names, and the supertypes of a scalar type
  are scalar types.
\<close>

fun in_system :: "(string \<Rightarrow> rdb_type) \<Rightarrow> rdb_type \<Rightarrow> bool" where
  "in_system known (Scalar n i reps ar sups) \<longleftrightarrow> known n = Scalar n i reps ar sups
     \<and> list_all (\<lambda>s. RDB_type_is_scalar s \<and> in_system known s) sups"
| "in_system known (Tuple as) \<longleftrightarrow> None \<notin> set as \<and> distinct (attr_names as)
     \<and> list_all (\<lambda>a. case a of None \<Rightarrow> True | Some (n, t) \<Rightarrow> in_system known t) as"
| "in_system known (Relation b) \<longleftrightarrow> RDB_type_is_tuple b \<and> in_system known b"
| "in_system known (Array b) \<longleftrightarrow> in_system known b"

lemma in_system_Tuple:
  "in_system known (Tuple as) \<longleftrightarrow> (\<exists>xs. as = map Some xs \<and> distinct (map fst xs) \<and> (\<forall>(n, t) \<in> set xs. in_system known t))"
  using no_None_map[of as] by (auto simp: list_all_iff split: option.splits prod.splits)

lemma in_system_tuple [simp]:
  "in_system known (Tuple (map Some xs)) \<longleftrightarrow> distinct (map fst xs) \<and> (\<forall>(n, t) \<in> set xs. in_system known t)"
  by (auto simp: list_all_iff split: prod.splits)

declare in_system.simps(2) [simp del]

lemma in_system_wf: "in_system known t \<Longrightarrow> type_wf t"
proof (induction t rule: measure_induct_rule[where f = size])
  case (less t)
  show ?case
  proof (cases t)
    case (Tuple as)
    then obtain xs where xs: "as = map Some xs" "distinct (map fst xs)" "\<forall>(n, t) \<in> set xs. in_system known t"
      using less.prems by (auto simp: in_system_Tuple)
    have "type_wf u" if "(n, u) \<in> set xs" for n u
      by (rule less.IH) (use that xs Tuple attr_size[of n u as] in auto)
    then show ?thesis using xs Tuple by auto
  qed (use less in auto)
qed

text \<open>A scalar type is a subtype of itself and of the subtypes its supertypes are; the others go by component.\<close>

inductive subtype :: "rdb_type \<Rightarrow> rdb_type \<Rightarrow> bool" where
  same: "spec_of t = spec_of u \<Longrightarrow> subtype t u"
| up: "s \<in> set sups \<Longrightarrow> subtype s (Scalar n' i' reps' ar' sups')
    \<Longrightarrow> subtype (Scalar n i reps ar sups) (Scalar n' i' reps' ar' sups')"
| tuple: "length xs = length ys \<Longrightarrow> (\<And>n t. (n, t) \<in> set xs \<Longrightarrow> \<exists>u. map_of ys n = Some u \<and> subtype t u)
    \<Longrightarrow> subtype (Tuple (map Some xs)) (Tuple (map Some ys))"
| relation: "subtype b c \<Longrightarrow> subtype (Relation b) (Relation c)"
| array: "subtype b c \<Longrightarrow> subtype (Array b) (Array c)"

inductive_cases subtype_scalarE: "subtype (Scalar n i reps ar sups) u"
inductive_cases subtype_tupleE: "subtype (Tuple as) u"
inductive_cases subtype_relationE: "subtype (Relation b) u"
inductive_cases subtype_arrayE: "subtype (Array b) u"

inductive_simps subtype_kinds [simp]:
  "subtype (Scalar n i reps ar sups) (Tuple as)" "subtype (Scalar n i reps ar sups) (Relation b)"
  "subtype (Scalar n i reps ar sups) (Array b)"
  "subtype (Tuple as) (Scalar n i reps ar sups)" "subtype (Tuple as) (Relation b)" "subtype (Tuple as) (Array b)"
  "subtype (Relation b) (Scalar n i reps ar sups)" "subtype (Relation b) (Tuple as)" "subtype (Relation b) (Array c)"
  "subtype (Array b) (Scalar n i reps ar sups)" "subtype (Array b) (Tuple as)" "subtype (Array b) (Relation c)"

lemma subtype_scalar:
  "subtype (Scalar n i reps ar sups) (Scalar n' i' reps' ar' sups')
    \<longleftrightarrow> n = n' \<or> (\<exists>s \<in> set sups. subtype s (Scalar n' i' reps' ar' sups'))"
  by (auto elim: subtype_scalarE intro: subtype.intros)

lemma subtype_relation [simp]: "subtype (Relation b) (Relation c) \<longleftrightarrow> subtype b c"
  by (auto elim!: subtype_relationE intro: subtype.same subtype.relation)

lemma subtype_array [simp]: "subtype (Array b) (Array c) \<longleftrightarrow> subtype b c"
  by (auto elim!: subtype_arrayE intro: subtype.same subtype.array)

text \<open>Also equal tuple types are compared by component.\<close>

lemma subtype_tuple:
  assumes "distinct (map fst xs)" "distinct (map fst ys)"
  shows "subtype (Tuple (map Some xs)) (Tuple (map Some ys))
    \<longleftrightarrow> length xs = length ys \<and> (\<forall>(n, t) \<in> set xs. \<exists>u. map_of ys n = Some u \<and> subtype t u)" (is "?l \<longleftrightarrow> ?r")
proof
  assume ?l
  then show ?r
  proof (rule subtype_tupleE)
    assume eq: "spec_of (Tuple (map Some xs)) = spec_of (Tuple (map Some ys))"
    then have len: "length xs = length ys" using tuple_equality[OF assms] by blast
    have "\<exists>u. map_of ys n = Some u \<and> subtype t u" if "(n, t) \<in> set xs" for n t
    proof -
      have "map_of xs n = Some t" using that assms(1) by simp
      then obtain u where "map_of ys n = Some u" "spec_of u = spec_of t"
        using eq unfolding spec_of_tuple_eq by (metis option.map_disc_iff option.map(2) option.inject not_Some_eq)
      then show ?thesis using subtype.same[of t u] by auto
    qed
    with len show ?r by blast
  next
    fix xs' ys' assume "map Some xs = map Some xs'" "Tuple (map Some ys) = Tuple (map Some ys')" "length xs' = length ys'"
      "\<And>n t. (n, t) \<in> set xs' \<Longrightarrow> \<exists>u. map_of ys' n = Some u \<and> subtype t u"
    then show ?r by (auto simp: inj_map_eq_map)
  qed
next
  assume ?r
  then show ?l by (intro subtype.tuple) auto
qed

lemma in_system_attr:
  "in_system known (Tuple (map Some xs)) \<Longrightarrow> (n, t) \<in> set xs \<Longrightarrow> in_system known t \<and> size t < size (Tuple (map Some xs))"
  using attr_size[of n t "map Some xs"] by auto

lemma scalar_by_name:
  "in_system known (Scalar n i reps ar sups) \<Longrightarrow> in_system known (Scalar n i' reps' ar' sups')
    \<Longrightarrow> Scalar n i reps ar sups = Scalar n i' reps' ar' sups'"
  by simp

lemma supertype_in_system:
  "in_system known (Scalar n i reps ar sups) \<Longrightarrow> s \<in> set sups \<Longrightarrow> in_system known s \<and> RDB_type_is_scalar s
    \<and> size s < size (Scalar n i reps ar sups)"
  by (auto simp: list_all_iff dest!: size_list_estimation'[of s sups "size s" size, OF _ order_refl])

text \<open>The code decides the relation.\<close>

lemma is_subtype_decides:
  assumes "\<And>t u. same t u \<Longrightarrow> t = u"
  shows "in_system known t \<Longrightarrow> in_system known u \<Longrightarrow> RDB_is_subtype same t u = Inr (subtype t u)"
proof (induction t arbitrary: u rule: measure_induct_rule[where f = size])
  case (less t)
  have eq: "RDB_type_equals same t u = Inr (spec_of t = spec_of u)"
    using less.prems by (intro type_equals_spec[OF assms]) (auto dest: in_system_wf)
  show ?case
  proof (cases "spec_of t = spec_of u")
    case True
    then show ?thesis using eq by (simp add: RDB_is_subtype.simps subtype.same)
  next
    case False
    note run = RDB_is_subtype.simps[of same t u] eq False
    show ?thesis
    proof (cases t)
      case (Scalar n i reps ar sups)
      have "RDB_is_subtype same s u = Inr (subtype s u)" if "s \<in> set sups" for s
        by (rule less.IH) (use supertype_in_system[of known n i reps ar sups s] less.prems that Scalar in auto)
      then show ?thesis using run Scalar exists_r_total[of sups "\<lambda>s. RDB_is_subtype same s u" "\<lambda>s. subtype s u"]
        by (cases u) (auto simp: subtype_scalar list_ex_iff)
    next
      case (Relation b)
      then show ?thesis using run less by (cases u) (simp_all add: spec_of.simps(2))
    next
      case (Array b)
      then show ?thesis using run less by (cases u) (simp_all add: spec_of.simps(2))
    next
      case (Tuple as)
      then obtain xs where xs: "t = Tuple (map Some xs)" "distinct (map fst xs)"
        using less.prems(1) by (auto simp: in_system_Tuple)
      show ?thesis
      proof (cases u)
        case (Tuple bs)
        then obtain ys where ys: "u = Tuple (map Some ys)" "distinct (map fst ys)"
          using less.prems(2) by (auto simp: in_system_Tuple)
        have "rbind (find_attr (map Some ys) n) (\<lambda>a2. case a2 of None \<Rightarrow> Inr False | Some (n2, t2) \<Rightarrow> RDB_is_subtype same t1 t2)
            = Inr (\<exists>u. map_of ys n = Some u \<and> subtype t1 u)" if mem: "(n, t1) \<in> set xs" for n t1
        proof (cases "map_of ys n")
          case (Some t2)
          then have "(n, t2) \<in> set ys" by (rule map_of_SomeD)
          then have "RDB_is_subtype same t1 t2 = Inr (subtype t1 t2)"
            using less.IH[of t1 t2] in_system_attr[of known xs n t1] in_system_attr[of known ys n t2] less.prems mem xs(1) ys(1) by blast
          then show ?thesis using Some by simp
        qed simp
        then have "forall_r (\<lambda>(n, t1). rbind (find_attr (map Some ys) n) (\<lambda>a2. case a2 of None \<Rightarrow> Inr False
              | Some (n2, t2) \<Rightarrow> RDB_is_subtype same t1 t2)) xs
            = Inr (list_all (\<lambda>(n, t1). \<exists>u. map_of ys n = Some u \<and> subtype t1 u) xs)"
          by (intro forall_r_total) (auto split: prod.split simp del: find_attr_Some)
        then show ?thesis
          using run subtype_tuple[OF xs(2) ys(2)]
          by (auto simp: xs(1) ys(1) forall_r_Some list_all_iff simp del: find_attr_Some spec_of_heading)
      qed (use run xs in \<open>simp_all add: spec_of.simps(2)\<close>)
    qed
  qed
qed

section \<open>The order\<close>

lemma subtype_spec_left:
  "spec_of t = spec_of u \<Longrightarrow> in_system known t \<Longrightarrow> in_system known u \<Longrightarrow> subtype u v \<Longrightarrow> in_system known v \<Longrightarrow> subtype t v"
proof (induction t arbitrary: u v rule: measure_induct_rule[where f = size])
  case (less t)
  show ?case
  proof (cases t)
    case (Scalar n i reps ar sups)
    then obtain i' reps' ar' sups' where "u = Scalar n i' reps' ar' sups'"
      using less.prems(1) by (cases u) (auto simp: spec_of.simps(2))
    then have "t = u" using scalar_by_name less.prems(2,3) Scalar by metis
    then show ?thesis using less.prems(4) by simp
  next
    case (Relation b)
    then obtain c where "u = Relation c" "spec_of b = spec_of c"
      using less.prems(1) by (cases u) (auto simp: spec_of.simps(2))
    then show ?thesis using less.prems less.IH[of b c] Relation by (cases v) auto
  next
    case (Array b)
    then obtain c where "u = Array c" "spec_of b = spec_of c"
      using less.prems(1) by (cases u) (auto simp: spec_of.simps(2))
    then show ?thesis using less.prems less.IH[of b c] Array by (cases v) auto
  next
    case (Tuple as)
    then obtain bs where "u = Tuple bs" using less.prems(1) by (cases u) (auto simp: spec_of.simps(2))
    then obtain xs ys where xs: "t = Tuple (map Some xs)" "distinct (map fst xs)" "u = Tuple (map Some ys)" "distinct (map fst ys)"
      using less.prems(2,3) Tuple by (auto simp: in_system_Tuple)
    then have sim: "subtype (Tuple (map Some xs)) (Tuple (map Some ys))" using less.prems(1) by (simp add: subtype.same)
    show ?thesis
    proof (cases v)
      case (Tuple cs)
      then obtain zs where zs: "v = Tuple (map Some zs)" "distinct (map fst zs)" using less.prems(5) by (auto simp: in_system_Tuple)
      note yz = less.prems(4)[unfolded xs(3) zs(1) subtype_tuple[OF xs(4) zs(2)]]
      have "\<exists>w. map_of zs n = Some w \<and> subtype t1 w" if mem: "(n, t1) \<in> set xs" for n t1
      proof -
        have "map_of xs n = Some t1" using mem xs(2) by simp
        then obtain t2 where t2: "map_of ys n = Some t2" "spec_of t1 = spec_of t2"
          using less.prems(1)[unfolded xs(1,3) spec_of_tuple_eq] by (metis option.map_disc_iff option.map(2) option.inject not_Some_eq)
        then have mem2: "(n, t2) \<in> set ys" by (auto dest: map_of_SomeD)
        then obtain w where w: "map_of zs n = Some w" "subtype t2 w" using yz by blast
        then have "(n, w) \<in> set zs" by (auto dest: map_of_SomeD)
        then show ?thesis
          using less.IH[of t1 t2 w] t2(2) w in_system_attr[of known xs n t1] in_system_attr[of known ys n t2]
            in_system_attr[of known zs n w] mem mem2 less.prems(2,3,5) xs(1,3) zs(1) by blast
      qed
      then show ?thesis using yz sim[unfolded subtype_tuple[OF xs(2,4)]] unfolding xs(1) zs(1) subtype_tuple[OF xs(2) zs(2)]
        by auto
    qed (use less.prems(4) xs in auto)
  qed
qed

lemma subtype_trans:
  "subtype t u \<Longrightarrow> subtype u v \<Longrightarrow> in_system known t \<Longrightarrow> in_system known u \<Longrightarrow> in_system known v \<Longrightarrow> subtype t v"
proof (induction arbitrary: v rule: subtype.induct)
  case (same t u)
  then show ?case using subtype_spec_left by blast
next
  case (up s sups n' i' reps' ar' sups' n i reps ar)
  have "subtype s v" using up.IH[OF up.prems(1)] supertype_in_system[OF up.prems(2) up.hyps(1)] up.prems(3,4) by blast
  then show ?case using up.hyps(1) up.prems(1) by (cases v) (auto intro: subtype.up simp: spec_of.simps(2))
next
  case (tuple xs ys)
  show ?case
  proof (cases v)
    case (Tuple cs)
    then obtain zs where zs: "v = Tuple (map Some zs)" "distinct (map fst zs)" using tuple.prems(4) by (auto simp: in_system_Tuple)
    have d: "distinct (map fst xs)" "distinct (map fst ys)" using tuple.prems(2,3) by auto
    note yz = tuple.prems(1)[unfolded zs(1) subtype_tuple[OF d(2) zs(2)]]
    have "\<exists>w. map_of zs n = Some w \<and> subtype t w" if mem: "(n, t) \<in> set xs" for n t
    proof -
      obtain u where u: "map_of ys n = Some u" "\<forall>v. subtype u v \<longrightarrow> in_system known t \<longrightarrow> in_system known u \<longrightarrow> in_system known v \<longrightarrow> subtype t v"
        using tuple.IH[OF mem] by blast
      then have mem2: "(n, u) \<in> set ys" by (auto dest: map_of_SomeD)
      then obtain w where w: "map_of zs n = Some w" "subtype u w" using yz by blast
      then have "(n, w) \<in> set zs" by (auto dest: map_of_SomeD)
      then show ?thesis
        using u(2) w in_system_attr[of known xs n t] in_system_attr[of known ys n u]
          in_system_attr[of known zs n w] mem mem2 tuple.prems(2-4) zs(1) by blast
    qed
    then show ?thesis using yz tuple.hyps unfolding zs(1) subtype_tuple[OF d(1) zs(2)] by auto
  qed (use tuple.prems(1) in auto)
next
  case (relation b c)
  then show ?case by (cases v) (auto simp: spec_of.simps(2))
next
  case (array b c)
  then show ?case by (cases v) (auto simp: spec_of.simps(2))
qed

lemma subtype_smaller:
  "subtype t u \<Longrightarrow> in_system known t \<Longrightarrow> in_system known u \<Longrightarrow> RDB_type_is_scalar t \<Longrightarrow> t = u \<or> size u < size t"
proof (induction rule: subtype.induct)
  case (same t u)
  then show ?case by (cases t; cases u) (auto simp: spec_of.simps(2))
next
  case (up s sups n' i' reps' ar' sups' n i reps ar)
  then show ?case using supertype_in_system[OF up.prems(1) up.hyps(1)] by fastforce
qed simp_all

lemma subtype_antisym:
  "subtype t u \<Longrightarrow> subtype u t \<Longrightarrow> in_system known t \<Longrightarrow> in_system known u \<Longrightarrow> spec_of t = spec_of u"
proof (induction rule: subtype.induct)
  case (up s sups n' i' reps' ar' sups' n i reps ar)
  let ?t = "Scalar n i reps ar sups" and ?u = "Scalar n' i' reps' ar' sups'"
  have "subtype ?t ?u" using up by (auto intro: subtype.up)
  then have "?t = ?u" using subtype_smaller[of ?t ?u known] subtype_smaller[of ?u ?t known] up.prems by fastforce
  then show ?case by simp
next
  case (tuple xs ys)
  have d: "distinct (map fst xs)" "distinct (map fst ys)" using tuple.prems(2,3) by auto
  note yx = tuple.prems(1)[unfolded subtype_tuple[OF d(2,1)]]
  have "list_ex (\<lambda>(n2, t2). spec_of t = spec_of t2 \<and> n = n2) ys" if mem: "(n, t) \<in> set xs" for n t
  proof -
    obtain u where u: "map_of ys n = Some u" "subtype u t \<longrightarrow> in_system known t \<longrightarrow> in_system known u \<longrightarrow> spec_of t = spec_of u"
      using tuple.IH[OF mem] by blast
    then have mem2: "(n, u) \<in> set ys" by (auto dest: map_of_SomeD)
    then have "subtype u t" using yx mem d(1) by fastforce
    then have "spec_of t = spec_of u"
      using u(2) in_system_attr[of known xs n t] in_system_attr[of known ys n u] mem mem2 tuple.prems(2,3) by blast
    then show ?thesis using mem2 by (auto simp: list_ex_iff)
  qed
  then show ?case using tuple.hyps tuple_equality[OF d] by (auto simp: list_all_iff simp del: spec_of_heading)
qed auto

text \<open>
  C14: on the types of a system, the subtype test always gives an answer, and its relation is an
  order up to equality of types: reflexive, transitive, and antisymmetric.
\<close>

theorem subtype_order:
  assumes "\<And>t u. same t u \<Longrightarrow> t = u" "in_system known t" "in_system known u" "in_system known v"
  shows "RDB_is_subtype same t t = Inr True \<and> (\<exists>b. RDB_is_subtype same t u = Inr b)
    \<and> (RDB_is_subtype same t u = Inr True \<longrightarrow> RDB_is_subtype same u v = Inr True \<longrightarrow> RDB_is_subtype same t v = Inr True)
    \<and> (RDB_is_subtype same t u = Inr True \<longrightarrow> RDB_is_subtype same u t = Inr True \<longrightarrow> RDB_type_equals same t u = Inr True)"
proof -
  have dec: "RDB_is_subtype same x y = Inr (subtype x y)" if "x \<in> {t, u, v}" "y \<in> {t, u, v}" for x y
    by (rule is_subtype_decides[OF assms(1)]) (use that assms(2-4) in auto)
  have "RDB_type_equals same t u = Inr (spec_of t = spec_of u)"
    by (rule type_equals_spec[OF assms(1)]) (use assms(2,3) in_system_wf in auto)
  then show ?thesis
    using dec subtype_trans[of t u v known] subtype_antisym[of t u known] assms(2-4) by (auto intro: subtype.same)
qed

definition scalar_type :: "string \<Rightarrow> rdb_type list \<Rightarrow> rdb_type" where
  "scalar_type n sups = Scalar n (builtin_info 8 True) [] None sups"

definition shapes :: "string \<Rightarrow> rdb_type" where
  "shapes n = (if n = ''square'' then scalar_type n [scalar_type ''rectangle'' [scalar_type ''shape'' []]]
     else if n = ''rectangle'' then scalar_type n [scalar_type ''shape'' []] else scalar_type n [])"

theorem subtype_order_witness:
  "RDB_is_subtype (\<lambda>_ _. False) (Array (shapes ''square'')) (Array (shapes ''shape'')) = Inr True"
proof -
  have sys: "in_system shapes (Array (shapes ''square''))" "in_system shapes (Array (shapes ''rectangle''))"
    "in_system shapes (Array (shapes ''shape''))"
    by (simp_all add: shapes_def scalar_type_def)
  have "subtype (shapes ''square'') (shapes ''rectangle'')" "subtype (shapes ''rectangle'') (shapes ''shape'')"
    by (auto simp: shapes_def scalar_type_def subtype_scalar)
  then have "RDB_is_subtype (\<lambda>_ _. False) (Array (shapes ''square'')) (Array (shapes ''rectangle'')) = Inr True"
    "RDB_is_subtype (\<lambda>_ _. False) (Array (shapes ''rectangle'')) (Array (shapes ''shape'')) = Inr True"
    using is_subtype_decides[of "\<lambda>_ _. False" shapes] sys by simp_all
  then show ?thesis using subtype_order[of "\<lambda>_ _. False", OF _ sys] by blast
qed

end
