(* ===== verification/Keys.thy ===== *)
theory Keys
  imports Type_Specs
begin

text \<open>
  The candidate keys of relations, \<^verbatim>\<open>obj/key.c\<close>.  A key is the list of the names of its attributes, a
  set of keys a list of keys.
\<close>

section \<open>Checking keys\<close>

definition strvec_is_subset :: "string list \<Rightarrow> string list \<Rightarrow> bool" where
  "strvec_is_subset v1 v2 \<longleftrightarrow> list_all (\<lambda>s. RDB_find_str v2 s \<noteq> -1) v1"

fun key_attrs_known :: "rdb_type \<Rightarrow> string list \<Rightarrow> unit action" where
  "key_attrs_known tpltyp [] = done_with ()"
| "key_attrs_known tpltyp (a # as) =
     and_then (end_with (RDB_tuple_type_attr tpltyp a)) (\<lambda>attr.
       if attr = None then raise_error INVALID_ARGUMENT_ERROR ''invalid key'' else key_attrs_known tpltyp as)"

fun no_attr_twice :: "string list \<Rightarrow> unit action" where
  "no_attr_twice [] = done_with ()"
| "no_attr_twice (a # as) =
     (if RDB_find_str as a \<noteq> -1 then raise_error INVALID_ARGUMENT_ERROR ''invalid key'' else no_attr_twice as)"

fun check_each_key :: "rdb_type \<Rightarrow> string list list \<Rightarrow> unit action" where
  "check_each_key tpltyp [] = done_with ()"
| "check_each_key tpltyp (key # keyv) =
     and_then (key_attrs_known tpltyp key) (\<lambda>_. and_then (no_attr_twice key) (\<lambda>_. check_each_key tpltyp keyv))"

fun check_against :: "string list \<Rightarrow> string list list \<Rightarrow> unit action" where
  "check_against key [] = done_with ()"
| "check_against key (k # ks) =
     (if (if length key \<le> length k then strvec_is_subset key k else strvec_is_subset k key)
      then raise_error INVALID_ARGUMENT_ERROR ''invalid key'' else check_against key ks)"

fun check_subsets :: "string list list \<Rightarrow> unit action" where
  "check_subsets [] = done_with ()"
| "check_subsets (key # keyv) = and_then (check_against key keyv) (\<lambda>_. check_subsets keyv)"

definition RDB_check_keys :: "rdb_type \<Rightarrow> string list list \<Rightarrow> unit action" where
  "RDB_check_keys reltyp keyv =
     (if keyv = [] then raise_error INVALID_ARGUMENT_ERROR ''key is required''
      else and_then (case reltyp of Relation b \<Rightarrow> done_with b | Array b \<Rightarrow> done_with b | _ \<Rightarrow> end_with (Inl Segfault)) (\<lambda>b.
           and_then (check_each_key b keyv) (\<lambda>_. check_subsets keyv)))"

definition RDB_all_key :: "rdb_attr list \<Rightarrow> string option list action" where
  "RDB_all_key as = and_then RDB_alloc (\<lambda>_. done_with (map (map_option fst) as))"

section \<open>Comparing keys\<close>

fun find_key_from :: "int \<Rightarrow> string list \<Rightarrow> string list list \<Rightarrow> int" where
  "find_key_from i key [] = -1"
| "find_key_from i key (k # keyv) =
     (if length key = length k \<and> strvec_is_subset key k then i else find_key_from (i + 1) key keyv)"

definition find_key :: "string list \<Rightarrow> string list list \<Rightarrow> int" where
  "find_key key keyv = find_key_from 0 key keyv"

definition RDB_keys_equal :: "string list list \<Rightarrow> string list list \<Rightarrow> bool" where
  "RDB_keys_equal keyv1 keyv2 \<longleftrightarrow>
     length keyv1 = length keyv2 \<and> list_all (\<lambda>k. find_key k keyv2 \<noteq> -1) keyv1"

section \<open>Sets of keys\<close>

text \<open>What makes a list of keys a set of candidate keys of a relation with the given attributes.\<close>

definition candidate_keys :: "string set \<Rightarrow> string list list \<Rightarrow> bool" where
  "candidate_keys A keyv \<longleftrightarrow> keyv \<noteq> [] \<and> (\<forall>k \<in> set keyv. set k \<subseteq> A \<and> distinct k)
     \<and> (\<forall>i < length keyv. \<forall>j < length keyv. i \<noteq> j \<longrightarrow> \<not> set (keyv ! i) \<subseteq> set (keyv ! j))"

lemma strvec_subset [simp]: "strvec_is_subset v1 v2 \<longleftrightarrow> set v1 \<subseteq> set v2"
  by (auto simp: strvec_is_subset_def list_all_iff)

text \<open>Every check succeeds or raises the same error.\<close>

definition checks :: "bool \<Rightarrow> unit action \<Rightarrow> bool" where
  "checks b f \<longleftrightarrow> computes {} f (if b then Inr () else raise_err INVALID_ARGUMENT_ERROR ''invalid key'')"

lemma checks_simps [simp]:
  "checks True (done_with ())" "checks False (raise_error INVALID_ARGUMENT_ERROR ''invalid key'')"
  by (simp_all add: checks_def computing)

lemma checks_and_then:
  assumes "checks b f" "b \<Longrightarrow> checks c g"
  shows "checks (b \<and> c) (and_then f (\<lambda>_. g))"
proof (cases b)
  case True
  then show ?thesis using assms by (auto simp: checks_def intro: computes_and_thenI)
next
  case False
  then show ?thesis using assms(1) by (auto simp: checks_def intro: computes_and_then_Inl)
qed

lemma attrs_known_checks:
  "checks (set key \<subseteq> fst ` set xs) (key_attrs_known (Tuple (map Some xs)) key)"
proof (induction key)
  case (Cons a key)
  have "map_of xs a = None \<longleftrightarrow> a \<notin> fst ` set xs" by (simp add: map_of_eq_None_iff)
  then show ?case using Cons by auto
qed simp

lemma no_attr_twice_checks: "checks (distinct key) (no_attr_twice key)"
  by (induction key) auto

lemma each_key_checks:
  "checks (\<forall>k \<in> set keyv. set k \<subseteq> fst ` set xs \<and> distinct k) (check_each_key (Tuple (map Some xs)) keyv)"
proof (induction keyv)
  case (Cons k keyv)
  have "checks (set k \<subseteq> fst ` set xs \<and> distinct k \<and> (\<forall>k \<in> set keyv. set k \<subseteq> fst ` set xs \<and> distinct k))
    (check_each_key (Tuple (map Some xs)) (k # keyv))"
    unfolding check_each_key.simps by (intro checks_and_then attrs_known_checks no_attr_twice_checks Cons.IH)
  then show ?case by (simp add: conj_assoc)
qed simp

lemma against_checks:
  assumes "distinct key" "\<forall>k \<in> set ks. distinct k"
  shows "checks (\<forall>k \<in> set ks. \<not> set key \<subseteq> set k \<and> \<not> set k \<subseteq> set key) (check_against key ks)"
  using assms(2)
proof (induction ks)
  case (Cons k ks)
  have "(if length key \<le> length k then set key \<subseteq> set k else set k \<subseteq> set key) \<longleftrightarrow> set key \<subseteq> set k \<or> set k \<subseteq> set key"
  proof -
    have card: "card (set key) = length key" "card (set k) = length k" using assms(1) Cons.prems by (simp_all add: distinct_card)
    have "length k \<le> length key" if "set k \<subseteq> set key" using card_mono[OF _ that] card by simp
    moreover have "length key \<le> length k" if "set key \<subseteq> set k" using card_mono[OF _ that] card by simp
    moreover have "set k = set key" if "set k \<subseteq> set key" "length key \<le> length k"
      using card_seteq[OF _ that(1)] that(2) card by simp
    ultimately show ?thesis by auto
  qed
  note cond = this
  show ?case
  proof (cases "set key \<subseteq> set k \<or> set k \<subseteq> set key")
    case True
    then have "check_against key (k # ks) = raise_error INVALID_ARGUMENT_ERROR ''invalid key''" using cond by simp
    moreover have "(\<forall>l \<in> set (k # ks). \<not> set key \<subseteq> set l \<and> \<not> set l \<subseteq> set key) = False" using True by auto
    ultimately show ?thesis by (simp only: checks_simps)
  next
    case False
    then have "check_against key (k # ks) = check_against key ks" using cond by simp
    then show ?thesis using False Cons by simp
  qed
qed simp

lemma subsets_check:
  "\<forall>k \<in> set keyv. distinct k \<Longrightarrow> checks (sorted_wrt (\<lambda>k l. \<not> set k \<subseteq> set l \<and> \<not> set l \<subseteq> set k) keyv) (check_subsets keyv)"
proof (induction keyv)
  case (Cons k keyv)
  then have "checks ((\<forall>l \<in> set keyv. \<not> set k \<subseteq> set l \<and> \<not> set l \<subseteq> set k)
      \<and> sorted_wrt (\<lambda>k l. \<not> set k \<subseteq> set l \<and> \<not> set l \<subseteq> set k) keyv) (check_subsets (k # keyv))"
    unfolding check_subsets.simps by (intro checks_and_then against_checks Cons.IH) simp_all
  then show ?case by simp
qed simp

lemma pairwise_iff:
  "(\<forall>i < length xs. \<forall>j < length xs. i \<noteq> j \<longrightarrow> \<not> R (xs ! i) (xs ! j)) \<longleftrightarrow> sorted_wrt (\<lambda>x y. \<not> R x y \<and> \<not> R y x) xs"
proof
  assume "sorted_wrt (\<lambda>x y. \<not> R x y \<and> \<not> R y x) xs"
  then have less: "i < j \<Longrightarrow> j < length xs \<Longrightarrow> \<not> R (xs ! i) (xs ! j) \<and> \<not> R (xs ! j) (xs ! i)" for i j
    by (simp add: sorted_wrt_iff_nth_less)
  show "\<forall>i < length xs. \<forall>j < length xs. i \<noteq> j \<longrightarrow> \<not> R (xs ! i) (xs ! j)"
  proof (intro allI impI)
    fix i j assume "i < length xs" "j < length xs" "i \<noteq> j"
    then show "\<not> R (xs ! i) (xs ! j)" using less[of i j] less[of j i] by (cases "i < j") auto
  qed
qed (simp add: sorted_wrt_iff_nth_less)

lemma check_keys_computes:
  assumes "keyv \<noteq> []"
  shows "checks (candidate_keys (fst ` set xs) keyv) (RDB_check_keys (Relation (Tuple (map Some xs))) keyv)"
proof -
  let ?p = "\<forall>k \<in> set keyv. set k \<subseteq> fst ` set xs \<and> distinct k"
  have "checks (?p \<and> sorted_wrt (\<lambda>k l. \<not> set k \<subseteq> set l \<and> \<not> set l \<subseteq> set k) keyv)
     (and_then (check_each_key (Tuple (map Some xs)) keyv) (\<lambda>_. check_subsets keyv))"
    by (intro checks_and_then each_key_checks subsets_check) simp
  then show ?thesis
    using assms by (simp add: RDB_check_keys_def candidate_keys_def pairwise_iff[of keyv "\<lambda>k l. set k \<subseteq> set l"])
qed

section \<open>Equal sets of keys\<close>

lemma find_key_from_None: "0 \<le> i \<Longrightarrow> find_key_from i key keyv = -1 \<longleftrightarrow> (\<forall>k \<in> set keyv. length key = length k \<longrightarrow> \<not> set key \<subseteq> set k)"
  by (induction i key keyv rule: find_key_from.induct) auto

lemma find_key_iff:
  assumes "distinct key" "\<forall>k \<in> set keyv. distinct k"
  shows "find_key key keyv \<noteq> -1 \<longleftrightarrow> set key \<in> set ` set keyv"
proof -
  have "length key = length k \<and> set key \<subseteq> set k \<longleftrightarrow> set key = set k" if "k \<in> set keyv" for k
    using that assms by (metis List.finite_set card_subset_eq distinct_card subset_refl)
  then have "find_key key keyv = -1 \<longleftrightarrow> (\<forall>k \<in> set keyv. set key \<noteq> set k)" unfolding find_key_def find_key_from_None[OF order_refl] by blast
  then show ?thesis by auto
qed

lemma candidate_keys_inj: "candidate_keys A keyv \<Longrightarrow> card (set ` set keyv) = length keyv"
proof -
  assume keys: "candidate_keys A keyv"
  have "distinct (map set keyv)"
    unfolding distinct_conv_nth using keys by (simp add: candidate_keys_def) (metis order_refl)
  then show ?thesis by (metis distinct_card length_map set_map)
qed

section \<open>Properties\<close>

text \<open>
  C28: The check of the candidate keys of a new relation succeeds exactly when there is a key, every key is a set
  of attributes of the relation without repetitions and no key contains another; otherwise it raises an
  invalid-argument error.
\<close>

theorem check_keys_iff:
  assumes "type_wf (Relation (Tuple as))" "fails m = []"
  shows "\<exists>m'. RDB_check_keys (Relation (Tuple as)) keyv m
     = (if candidate_keys (set (attr_names as)) keyv then Inr ()
        else raise_err INVALID_ARGUMENT_ERROR (if keyv = [] then ''key is required'' else ''invalid key''), m')"
proof -
  obtain xs where xs: "as = map Some xs" using assms(1) by (auto simp: type_wf.simps no_None_map)
  have "computes {} (RDB_check_keys (Relation (Tuple as)) keyv) (if candidate_keys (set (attr_names as)) keyv then Inr ()
        else raise_err INVALID_ARGUMENT_ERROR (if keyv = [] then ''key is required'' else ''invalid key''))"
  proof (cases "keyv = []")
    case True
    then show ?thesis by (simp add: RDB_check_keys_def candidate_keys_def computing)
  next
    case False
    have "set (attr_names as) = fst ` set xs" by (simp add: xs)
    then show ?thesis using check_keys_computes[OF False, of xs] False unfolding checks_def xs by (simp only: if_False)
  qed
  from computes_run(1)[OF this assms(2)] show ?thesis by (intro exI[of _ "snd (RDB_check_keys (Relation (Tuple as)) keyv m)"] prod_eqI) simp_all
qed

lemma check_keys_iff_witness:
  "\<exists>m'. RDB_check_keys (Relation (Tuple (map Some sample_attrs))) [[fst (hd sample_attrs)]] mem_ok = (Inr (), m')"
proof -
  have "candidate_keys (set (attr_names (map Some sample_attrs))) [[fst (hd sample_attrs)]]"
    unfolding attr_names_Some by (simp add: candidate_keys_def sample_attrs_def)
  then show ?thesis using check_keys_iff[OF _ fails_mem_ok, of "map Some sample_attrs" "[[fst (hd sample_attrs)]]"] sample_attrs_wf by (simp only: if_True type_wf.simps RDB_type_is_tuple.simps simp_thms)
qed

text \<open>
  C29: For sets of candidate keys, the test for equality, which looks in one direction only, is the equality of the
  sets, whatever the order of the keys and of the attributes in them.
\<close>

theorem keys_equal_iff:
  assumes "candidate_keys A keyv1" "candidate_keys B keyv2"
  shows "RDB_keys_equal keyv1 keyv2 \<longleftrightarrow> set ` set keyv1 = set ` set keyv2"
proof -
  have "find_key k keyv2 \<noteq> -1 \<longleftrightarrow> set k \<in> set ` set keyv2" if "k \<in> set keyv1" for k
    using that assms by (intro find_key_iff) (auto simp: candidate_keys_def)
  then have "RDB_keys_equal keyv1 keyv2 \<longleftrightarrow> length keyv1 = length keyv2 \<and> set ` set keyv1 \<subseteq> set ` set keyv2"
    by (auto simp: RDB_keys_equal_def list_all_iff)
  also have "\<dots> \<longleftrightarrow> set ` set keyv1 = set ` set keyv2"
    using candidate_keys_inj[OF assms(1)] candidate_keys_inj[OF assms(2)] by (metis List.finite_set card_subset_eq finite_imageI order_refl)
  finally show ?thesis .
qed

lemma keys_equal_iff_witness:
  "RDB_keys_equal [[''A'', ''B''], [''C'']] [[''C''], [''B'', ''A'']]"
proof -
  have all: "(\<forall>i < (2::nat). P i) \<longleftrightarrow> P 0 \<and> P 1" for P by (auto simp: less_2_cases_iff)
  have "candidate_keys {''A'', ''B'', ''C''} [[''A'', ''B''], [''C'']]" "candidate_keys {''A'', ''B'', ''C''} [[''C''], [''B'', ''A'']]"
    by (simp_all add: candidate_keys_def all numeral_2_eq_2[symmetric])
  from keys_equal_iff[OF this] show ?thesis by auto
qed

lemma all_key_valid:
  assumes "type_wf (Relation (Tuple as))" "fails m = []"
  shows "\<exists>m'. RDB_all_key as m = (Inr (map Some (attr_names as)), m') \<and> candidate_keys (set (attr_names as)) [attr_names as]"
proof -
  obtain xs where xs: "as = map Some xs" "distinct (map fst xs)" using assms(1) by (auto simp: type_wf.simps no_None_map)
  have "computes {} (RDB_all_key as) (Inr (map (map_option fst) as))" by (auto simp: RDB_all_key_def intro!: computing)
  from computes_run(1)[OF this assms(2)] show ?thesis using xs
    by (cases "RDB_all_key as m") (auto simp: candidate_keys_def comp_def)
qed

end
