(* ===== verification/Floats.thy ===== *)
theory Floats
  imports Duro_Prelude
begin

text \<open>
  The type \<^verbatim>\<open>RDB_float\<close>, the C type \<^verbatim>\<open>double\<close>: binary floating-point numbers of 64 bits, with
  the arithmetic of IEEE 754 that the C implementations use.  A finite number is its sign,
  its significand below \<open>2 ^ 53\<close> and its exponent; results are rounded to nearest, ties to
  even.
\<close>

section \<open>Numbers\<close>

datatype double = Finite bool nat int | Infinite bool | NaN

fun isfinite :: "double \<Rightarrow> bool" where
  "isfinite (Finite s m e) = True" | "isfinite _ = False"

section \<open>Rounding\<close>

fun bit_length :: "nat \<Rightarrow> nat" where
  "bit_length n = (if n = 0 then 0 else Suc (bit_length (n div 2)))"

declare bit_length.simps [simp del]

text \<open>The quotient of \<open>n / d\<close> by \<open>2 ^ e\<close>, its remainder and its divisor.\<close>

definition scaled_div :: "nat \<Rightarrow> nat \<Rightarrow> int \<Rightarrow> nat \<times> nat \<times> nat" where
  "scaled_div n d e =
     (let a = (if e \<ge> 0 then n else n * 2 ^ nat (- e)); b = (if e \<ge> 0 then d * 2 ^ nat e else d)
      in (a div b, a mod b, b))"

definition exponent :: "nat \<Rightarrow> nat \<Rightarrow> int" where
  "exponent n d =
     (let e = int (bit_length n) - int (bit_length d) - 53
      in max (- 1074) (if fst (scaled_div n d e) \<ge> 2 ^ 53 then e + 1 else e))"

text \<open>The number nearest to \<open>n / d\<close>, with the given sign.\<close>

definition nearest :: "bool \<Rightarrow> nat \<Rightarrow> nat \<Rightarrow> double" where
  "nearest s n d =
     (if n = 0 then Finite s 0 (- 1074)
      else let e = exponent n d; (q, r, b) = scaled_div n d e;
               q' = (if 2 * r > b \<or> 2 * r = b \<and> odd q then q + 1 else q);
               (m, f) = (if q' = 2 ^ 53 then (2 ^ 52, e + 1) else (q', e))
           in if f > 971 then Infinite s else Finite s m f)"

definition nearest_scaled :: "bool \<Rightarrow> nat \<Rightarrow> int \<Rightarrow> double" where
  "nearest_scaled s n e = (if e \<ge> 0 then nearest s (n * 2 ^ nat e) 1 else nearest s n (2 ^ nat (- e)))"

section \<open>Arithmetic\<close>

definition signed_by :: "bool \<Rightarrow> nat \<Rightarrow> int" where
  "signed_by s m = (if s then - int m else int m)"

definition aligned :: "bool \<Rightarrow> nat \<Rightarrow> int \<Rightarrow> int \<Rightarrow> int" where
  "aligned s m e k = signed_by s m * 2 ^ nat (e - k)"

fun fneg :: "double \<Rightarrow> double" where
  "fneg (Finite s m e) = Finite (\<not> s) m e"
| "fneg (Infinite s) = Infinite (\<not> s)"
| "fneg NaN = NaN"

fun fabs :: "double \<Rightarrow> double" where
  "fabs (Finite s m e) = Finite False m e"
| "fabs (Infinite s) = Infinite False"
| "fabs NaN = NaN"

fun fadd :: "double \<Rightarrow> double \<Rightarrow> double" where
  "fadd (Finite s m e) (Finite t n f) =
     (let k = min e f; sum = aligned s m e k + aligned t n f k
      in if sum = 0 then Finite (s \<and> t) 0 (- 1074) else nearest_scaled (sum < 0) (nat \<bar>sum\<bar>) k)"
| "fadd (Infinite s) (Infinite t) = (if s = t then Infinite s else NaN)"
| "fadd (Infinite s) (Finite _ _ _) = Infinite s"
| "fadd (Finite _ _ _) (Infinite t) = Infinite t"
| "fadd _ _ = NaN"

definition fsub :: "double \<Rightarrow> double \<Rightarrow> double" where
  "fsub x y = fadd x (fneg y)"

fun fmul :: "double \<Rightarrow> double \<Rightarrow> double" where
  "fmul (Finite s m e) (Finite t n f) = nearest_scaled (s \<noteq> t) (m * n) (e + f)"
| "fmul (Infinite s) (Infinite t) = Infinite (s \<noteq> t)"
| "fmul (Infinite s) (Finite t n f) = (if n = 0 then NaN else Infinite (s \<noteq> t))"
| "fmul (Finite s m e) (Infinite t) = (if m = 0 then NaN else Infinite (s \<noteq> t))"
| "fmul _ _ = NaN"

fun fdiv :: "double \<Rightarrow> double \<Rightarrow> double" where
  "fdiv (Finite s m e) (Finite t n f) =
     (if n = 0 then if m = 0 then NaN else Infinite (s \<noteq> t)
      else nearest (s \<noteq> t) (m * 2 ^ nat (e - min e f)) (n * 2 ^ nat (f - min e f)))"
| "fdiv (Infinite s) (Finite t _ _) = Infinite (s \<noteq> t)"
| "fdiv (Finite s _ _) (Infinite t) = Finite (s \<noteq> t) 0 (- 1074)"
| "fdiv _ _ = NaN"

fun fless :: "double \<Rightarrow> double \<Rightarrow> bool" where
  "fless (Finite s m e) (Finite t n f) \<longleftrightarrow> (let k = min e f in aligned s m e k < aligned t n f k)"
| "fless (Infinite s) (Infinite t) \<longleftrightarrow> s \<and> \<not> t"
| "fless (Infinite s) (Finite _ _ _) \<longleftrightarrow> s"
| "fless (Finite _ _ _) (Infinite t) \<longleftrightarrow> \<not> t"
| "fless _ _ \<longleftrightarrow> False"

section \<open>Conversions\<close>

definition float_of_int :: "int \<Rightarrow> double" where
  "float_of_int i = nearest_scaled (i < 0) (nat \<bar>i\<bar>) 0"

text \<open>Conversion to an integer type drops the fraction.\<close>

fun trunc :: "double \<Rightarrow> int option" where
  "trunc (Finite s m e) = Some (signed_by s (if e \<ge> 0 then m * 2 ^ nat e else m div 2 ^ nat (- e)))"
| "trunc _ = None"

section \<open>Integers are represented exactly\<close>

lemma bit_length_0 [simp]: "bit_length 0 = 0" "bit_length (Suc 0) = 1"
  by (subst bit_length.simps, simp add: bit_length.simps[of 0])+

lemma bit_length_bounds:
  "0 < n \<Longrightarrow> 2 ^ (bit_length n - 1) \<le> n \<and> n < 2 ^ bit_length n \<and> 0 < bit_length n"
proof (induction n rule: bit_length.induct)
  case (1 n)
  show ?case
  proof (cases "n = 1")
    case False
    with 1 have h: "2 ^ (bit_length (n div 2) - 1) \<le> n div 2" "n div 2 < 2 ^ bit_length (n div 2)"
      "0 < bit_length (n div 2)" by auto
    obtain k where k: "bit_length (n div 2) = Suc k" using h(3) by (cases "bit_length (n div 2)") auto
    then have "bit_length n = Suc (Suc k)" using 1(2) by (subst bit_length.simps) simp
    then show ?thesis using h(1,2) k by simp linarith
  qed simp
qed

lemma bit_length_le: "n < 2 ^ k \<Longrightarrow> bit_length n \<le> k"
proof (cases "n = 0")
  case False
  assume "n < 2 ^ k"
  moreover have bounds: "2 ^ (bit_length n - 1) \<le> n" "0 < bit_length n"
    using False bit_length_bounds[of n] by auto
  ultimately have "(2::nat) ^ (bit_length n - 1) < 2 ^ k" by linarith
  then have "bit_length n - 1 < k" by simp
  with bounds show ?thesis by simp
qed simp

lemma nearest_int:
  assumes "0 < n" "n < 2 ^ 53"
  shows "nearest s n 1 = Finite s (n * 2 ^ (53 - bit_length n)) (int (bit_length n) - 53)"
proof -
  let ?b = "bit_length n"
  have b: "?b \<le> 53" "0 < ?b" "2 ^ (?b - 1) \<le> n" "n < 2 ^ ?b"
    using assms bit_length_le bit_length_bounds by auto
  have shift: "nat (54 - int ?b) = 54 - ?b" "nat (53 - int ?b) = 53 - ?b" using b by auto
  have "(2::nat) ^ 53 = 2 ^ (?b - 1) * 2 ^ (54 - ?b)"
    using b by (simp flip: power_add)
  then have ge: "2 ^ 53 \<le> n * 2 ^ (54 - ?b)" using b(3) by (metis mult_le_mono1)
  have "(2::nat) ^ 53 = 2 ^ ?b * 2 ^ (53 - ?b)" using b by (simp flip: power_add)
  then have lt: "n * 2 ^ (53 - ?b) < 2 ^ 53" using b(4) by (metis mult_less_mono1 zero_less_numeral zero_less_power)
  have e: "exponent n 1 = int ?b - 53"
    using b ge shift(1) by (simp add: exponent_def scaled_div_def Let_def)
  have d: "scaled_div n 1 (int ?b - 53) = (n * 2 ^ (53 - ?b), 0, 1)"
    using b by (cases "?b = 53") (simp_all add: scaled_div_def shift(2))
  show ?thesis
    using assms lt b(1) unfolding nearest_def e Let_def d by simp
qed

lemma trunc_of_int:
  assumes "\<bar>i\<bar> < 2 ^ 53"
  shows "trunc (float_of_int i) = Some i" "isfinite (float_of_int i)"
proof -
  let ?n = "nat \<bar>i\<bar>"
  have "float_of_int i = (if ?n = 0 then Finite False 0 (- 1074)
      else Finite (i < 0) (?n * 2 ^ (53 - bit_length ?n)) (int (bit_length ?n) - 53))"
    using nearest_int[of ?n "i < 0"] assms by (auto simp: float_of_int_def nearest_scaled_def nearest_def)
  moreover have "bit_length ?n \<le> 53" using assms by (intro bit_length_le) auto
  moreover from this have "nat (53 - int (bit_length ?n)) = 53 - bit_length ?n" by auto
  ultimately show "trunc (float_of_int i) = Some i" "isfinite (float_of_int i)"
    by (auto simp: signed_by_def)
qed

end
