(* ===== verification/Objects.thy ===== *)
theory Objects
  imports Rdb_Types Floats
begin

text \<open>
  The values of \<^verbatim>\<open>obj/object.c\<close>: what an \<^verbatim>\<open>RDB_object\<close> holds, how it is set and read, and the
  strings and byte blocks with their buffers.  What the code takes from the C library and
  depends on the platform or the locale is the record \<open>platform\<close>.
\<close>

section \<open>Values\<close>

text \<open>
  An \<^verbatim>\<open>RDB_object\<close> has a type, if it is known, an implemented type that is used when the type
  is a dummy type, and a value.  A string or binary value is its buffer; a string ends with
  the first null character of its buffer, which can be longer.  A tuple is its hash table:
  the slots, the capacity and the number of entries.  An array has its length, its capacity
  and the allocated elements, and a table is an address.
  The field \<^verbatim>\<open>store_typ\<close>, which only the conversion to stored records uses, is left out.
\<close>

datatype rdb_obj = Obj (typ_of: "rdb_type option") (impl_of: "rdb_type option") (val_of: rdb_val)
and rdb_val =
    Initial | BoolV bool | IntV i32 | FloatV double
  | TimeV "16 word" u8 u8 u8 u8 u8
  | BinV string
  | TupleV "(string \<times> rdb_obj) option list option" nat nat
  | ArrayV i32 int "rdb_obj list"
  | TableV nat

datatype obj_kind =
    RDB_OB_INITIAL | RDB_OB_BOOL | RDB_OB_INT | RDB_OB_FLOAT | RDB_OB_BIN | RDB_OB_TABLE
  | RDB_OB_TUPLE | RDB_OB_ARRAY | RDB_OB_TIME

fun kind_of :: "rdb_val \<Rightarrow> obj_kind" where
  "kind_of Initial = RDB_OB_INITIAL" | "kind_of (BoolV _) = RDB_OB_BOOL" | "kind_of (IntV _) = RDB_OB_INT"
| "kind_of (FloatV _) = RDB_OB_FLOAT" | "kind_of (TimeV _ _ _ _ _ _) = RDB_OB_TIME" | "kind_of (BinV _) = RDB_OB_BIN"
| "kind_of (TupleV _ _ _) = RDB_OB_TUPLE" | "kind_of (ArrayV _ _ _) = RDB_OB_ARRAY" | "kind_of (TableV _) = RDB_OB_TABLE"

section \<open>The platform\<close>

text \<open>
  \<open>fresh a i\<close> is the byte that happens to be at offset \<open>i\<close> of the new block at address \<open>a\<close>.
  A wide character is a number; the functions on characters and patterns, the conversions
  between floating-point numbers and text and the transcendental functions are those of the
  C library in the current locale.  \<open>stale 0\<close> and \<open>stale 1\<close> are what the length and the capacity of
  an array happen to be before they are set.  \<open>user_cmp\<close> gives the comparison operators of types that
  are not built in.
\<close>

record platform =
  fresh :: "nat \<Rightarrow> nat \<Rightarrow> char"
  mb_cur_max :: nat
  mblen :: "string \<Rightarrow> int"
  mbstowcs :: "string \<Rightarrow> nat list option"
  wcstombs :: "nat list \<Rightarrow> string option"
  towlower :: "nat \<Rightarrow> nat"
  towupper :: "nat \<Rightarrow> nat"
  strcoll :: "string \<Rightarrow> string \<Rightarrow> i32"
  fnmatch :: "string \<Rightarrow> string \<Rightarrow> int"
  regcomp :: "string \<Rightarrow> (string \<Rightarrow> bool) option"
  snprintf_int :: "string \<Rightarrow> int \<Rightarrow> string option"
  snprintf_str :: "string \<Rightarrow> string \<Rightarrow> string option"
  snprintf_float :: "string \<Rightarrow> double \<Rightarrow> string option"
  strtod :: "string \<Rightarrow> double \<times> string"
  libm :: "string \<Rightarrow> double \<Rightarrow> double"
  libm2 :: "string \<Rightarrow> double \<Rightarrow> double \<Rightarrow> double"
  stale :: "nat \<Rightarrow> i32"
  user_cmp :: "rdb_type \<Rightarrow> (rdb_obj list \<Rightarrow> rdb_obj \<Rightarrow> rdb_obj action) option"

section \<open>C strings\<close>

abbreviation NUL :: char where "NUL \<equiv> CHR 0x00"

definition c_str :: "string \<Rightarrow> string result" where
  "c_str buf = (if NUL \<in> set buf then Inr (takeWhile (\<lambda>c. c \<noteq> NUL) buf) else Inl Segfault)"

text \<open>The bytes that \<^verbatim>\<open>strncpy\<close> writes for the source that starts at \<open>src\<close>.\<close>

definition strncpy_bytes :: "string \<Rightarrow> nat \<Rightarrow> string result" where
  "strncpy_bytes src n =
     (let s = takeWhile (\<lambda>c. c \<noteq> NUL) (take n src)
      in if length s < n \<and> length src \<le> length s then Inl Segfault else Inr (s @ replicate (n - length s) NUL))"

text \<open>What \<^verbatim>\<open>sprintf\<close> writes for \<^verbatim>\<open>%d\<close>.\<close>

fun print_nat :: "nat \<Rightarrow> string" where
  "print_nat n = (if n < 10 then [char_of (48 + n)] else print_nat (n div 10) @ [char_of (48 + n mod 10)])"

declare print_nat.simps [simp del]

definition print_int :: "int \<Rightarrow> string" where
  "print_int i = (if i < 0 then CHR ''-'' # print_nat (nat (- i)) else print_nat (nat i))"

section \<open>Setting values\<close>

text \<open>The implemented type is not set in C; it is read only after it was set with a dummy type.\<close>

definition RDB_init_obj :: rdb_obj where
  "RDB_init_obj = Obj None None Initial"

text \<open>The three functions assert that the object is new or of the type.\<close>

definition set_scalar :: "rdb_type \<Rightarrow> rdb_val \<Rightarrow> rdb_obj \<Rightarrow> rdb_obj action" where
  "set_scalar t v objp =
     (if val_of objp = Initial \<or> typ_of objp = Some t then done_with (Obj (Some t) (impl_of objp) v)
      else end_with (Inl Crash))"

definition RDB_bool_to_obj :: "rdb_obj \<Rightarrow> bool \<Rightarrow> rdb_obj action" where
  "RDB_bool_to_obj valp v = set_scalar RDB_BOOLEAN (BoolV v) valp"

definition RDB_int_to_obj :: "rdb_obj \<Rightarrow> i32 \<Rightarrow> rdb_obj action" where
  "RDB_int_to_obj valp v = set_scalar RDB_INTEGER (IntV v) valp"

definition RDB_float_to_obj :: "rdb_obj \<Rightarrow> double \<Rightarrow> rdb_obj action" where
  "RDB_float_to_obj valp v = set_scalar RDB_FLOAT (FloatV v) valp"

record tm =
  tm_year :: i32
  tm_mon :: i32
  tm_mday :: i32
  tm_hour :: i32
  tm_min :: i32
  tm_sec :: i32
  tm_isdst :: i32

definition RDB_tm_to_obj :: "rdb_obj \<Rightarrow> tm \<Rightarrow> rdb_obj action" where
  "RDB_tm_to_obj objp t =
     set_scalar RDB_DATETIME
       (TimeV (ucast (scast (ucast (tm_year t) :: 16 word) + 1900 :: i32)) (ucast (tm_mon t + 1)) (ucast (tm_mday t))
         (ucast (tm_hour t)) (ucast (tm_min t)) (ucast (tm_sec t))) objp"

text \<open>
  A new block holds what was there before, a resized one keeps its content.  Values are
  strings only if they have a buffer.
\<close>

definition new_block :: "platform \<Rightarrow> nat \<Rightarrow> string \<Rightarrow> nat \<Rightarrow> string" where
  "new_block P a old len = take len old @ map (fresh P a) [length old ..< len]"

definition RDB_set_str_obj_len :: "platform \<Rightarrow> rdb_obj \<Rightarrow> nat \<Rightarrow> rdb_obj action" where
  "RDB_set_str_obj_len P objp len =
     (if val_of objp \<noteq> Initial \<and> typ_of objp \<noteq> Some RDB_STRING then raise_error TYPE_MISMATCH_ERROR ''not a string''
      else case val_of objp of
         Initial \<Rightarrow> and_then RDB_alloc (\<lambda>a. done_with (Obj (Some RDB_STRING) (impl_of objp) (BinV (new_block P a [] len))))
       | BinV d \<Rightarrow> and_then RDB_realloc (\<lambda>a. done_with (Obj (typ_of objp) (impl_of objp) (BinV (new_block P a d len))))
       | _ \<Rightarrow> end_with (Inl Segfault))"

definition RDB_obj_bin :: "rdb_obj \<Rightarrow> string result" where
  "RDB_obj_bin objp = (case val_of objp of BinV d \<Rightarrow> Inr d | _ \<Rightarrow> Inl Segfault)"

text \<open>Writing bytes to the buffer of a value.\<close>

definition store_at :: "rdb_obj \<Rightarrow> nat \<Rightarrow> string \<Rightarrow> rdb_obj action" where
  "store_at objp offs bs =
     end_with (rbind (RDB_obj_bin objp) (\<lambda>d. rbind (write_at d (int offs) bs) (\<lambda>d'.
       Inr (Obj (typ_of objp) (impl_of objp) (BinV d')))))"

definition RDB_string_to_obj :: "platform \<Rightarrow> rdb_obj \<Rightarrow> string \<Rightarrow> rdb_obj action" where
  "RDB_string_to_obj P valp str =
     and_then (RDB_set_str_obj_len P valp (length str + 1)) (\<lambda>v. store_at v 0 (str @ [NUL]))"

text \<open>The source is given by the bytes from the pointer to the end of its block.\<close>

definition RDB_string_n_to_obj :: "platform \<Rightarrow> rdb_obj \<Rightarrow> string \<Rightarrow> nat \<Rightarrow> rdb_obj action" where
  "RDB_string_n_to_obj P valp src n =
     and_then (RDB_set_str_obj_len P valp (n + 1)) (\<lambda>v.
     and_then (end_with (strncpy_bytes src n)) (\<lambda>bs.
     and_then (store_at v 0 bs) (\<lambda>v'. store_at v' n [NUL])))"

definition STR_BUF_INC :: nat where "STR_BUF_INC = 64"

definition append_room :: "platform \<Rightarrow> rdb_obj \<Rightarrow> nat \<Rightarrow> nat \<Rightarrow> rdb_obj action" where
  "append_room P objp len n =
     (if n > len then RDB_set_str_obj_len P objp (if len + STR_BUF_INC > n then len + STR_BUF_INC else n)
      else done_with objp)"

definition RDB_append_string :: "platform \<Rightarrow> rdb_obj \<Rightarrow> string \<Rightarrow> rdb_obj action" where
  "RDB_append_string P objp str =
     and_then (end_with (RDB_obj_bin objp)) (\<lambda>d.
     and_then (end_with (c_str d)) (\<lambda>s.
     let olen = length s; len = olen + length str in
     and_then (append_room P objp (length d) (len + 1)) (\<lambda>v. store_at v olen (str @ [NUL]))))"

definition RDB_append_char :: "platform \<Rightarrow> rdb_obj \<Rightarrow> char \<Rightarrow> rdb_obj action" where
  "RDB_append_char P objp ch =
     and_then (end_with (RDB_obj_bin objp)) (\<lambda>d.
     and_then (end_with (c_str d)) (\<lambda>s.
     let olen = length s in
     and_then (append_room P objp (length d) (olen + 2)) (\<lambda>v.
     and_then (store_at v olen [ch]) (\<lambda>v'. store_at v' (olen + 1) [NUL]))))"

section \<open>Reading values\<close>

text \<open>Reading a member of the union that is not the one in use is a fault.\<close>

definition RDB_obj_bool :: "rdb_obj \<Rightarrow> bool result" where
  "RDB_obj_bool valp = (case val_of valp of BoolV b \<Rightarrow> Inr b | _ \<Rightarrow> Inl Segfault)"

definition RDB_obj_int :: "rdb_obj \<Rightarrow> i32 result" where
  "RDB_obj_int valp = (case val_of valp of IntV i \<Rightarrow> Inr i | _ \<Rightarrow> Inl Segfault)"

definition RDB_obj_float :: "rdb_obj \<Rightarrow> double result" where
  "RDB_obj_float valp = (case val_of valp of FloatV x \<Rightarrow> Inr x | _ \<Rightarrow> Inl Segfault)"

definition RDB_obj_string :: "rdb_obj \<Rightarrow> string result" where
  "RDB_obj_string valp = rbind (RDB_obj_bin valp) c_str"

definition RDB_datetime_to_tm :: "rdb_obj \<Rightarrow> tm result" where
  "RDB_datetime_to_tm dt =
     (case val_of dt of
        TimeV y mo d h mi s \<Rightarrow>
          Inr \<lparr>tm_year = scast y - 1900, tm_mon = ucast mo - 1, tm_mday = ucast d, tm_hour = ucast h, tm_min = ucast mi,
            tm_sec = ucast s, tm_isdst = -1\<rparr>
      | _ \<Rightarrow> Inl Segfault)"

section \<open>Byte blocks\<close>

text \<open>The pointer of an empty block is not set.\<close>

definition binary_init :: "platform \<Rightarrow> rdb_obj \<Rightarrow> nat \<Rightarrow> rdb_obj action" where
  "binary_init P valp n =
     (if val_of valp = Initial
      then and_then (if n > 0 then RDB_alloc else done_with 0) (\<lambda>a.
             done_with (Obj (Some RDB_BINARY) (impl_of valp) (BinV (new_block P a [] n))))
      else done_with valp)"

definition binary_grow :: "platform \<Rightarrow> rdb_obj \<Rightarrow> nat \<Rightarrow> rdb_obj action" where
  "binary_grow P valp n =
     and_then (end_with (RDB_obj_bin valp)) (\<lambda>d.
       if length d < n
       then and_then (if length d > 0 then RDB_realloc else RDB_alloc) (\<lambda>a.
              done_with (Obj (typ_of valp) (impl_of valp) (BinV (new_block P a d n))))
       else done_with valp)"

definition RDB_binary_set :: "platform \<Rightarrow> rdb_obj \<Rightarrow> nat \<Rightarrow> string \<Rightarrow> rdb_obj action" where
  "RDB_binary_set P valp pos bs =
     (if val_of valp \<noteq> Initial \<and> typ_of valp \<noteq> Some RDB_BINARY
      then raise_error INVALID_ARGUMENT_ERROR ''cannot turn RDB_object into binary''
      else and_then (binary_init P valp (pos + length bs)) (\<lambda>v.
           and_then (binary_grow P v (pos + length bs)) (\<lambda>v'. store_at v' pos bs)))"

definition RDB_binary_get :: "rdb_obj \<Rightarrow> nat \<Rightarrow> nat \<Rightarrow> (nat \<times> nat) action" where
  "RDB_binary_get objp pos len =
     and_then (end_with (RDB_obj_bin objp)) (\<lambda>d.
       if pos > length d then raise_error INVALID_ARGUMENT_ERROR ''index out of range''
       else done_with (pos, if pos + len > length d then length d - pos else len))"

definition RDB_binary_length :: "rdb_obj \<Rightarrow> nat result" where
  "RDB_binary_length objp = rbind (RDB_obj_bin objp) (\<lambda>d. Inr (length d))"

definition RDB_binary_resize :: "platform \<Rightarrow> rdb_obj \<Rightarrow> nat \<Rightarrow> rdb_obj action" where
  "RDB_binary_resize P objp len =
     and_then (end_with (RDB_obj_bin objp)) (\<lambda>d.
       if d = [] then end_with (Inl Segfault)
       else if len > 0 then and_then RDB_realloc (\<lambda>a. done_with (Obj (typ_of objp) (impl_of objp) (BinV (new_block P a d len))))
       else done_with (Obj (typ_of objp) (impl_of objp) (BinV [])))"

section \<open>Types of values\<close>

definition RDB_obj_type :: "rdb_obj \<Rightarrow> rdb_type option" where
  "RDB_obj_type objp = typ_of objp"

definition RDB_obj_set_typeinfo :: "rdb_obj \<Rightarrow> rdb_type \<Rightarrow> rdb_obj" where
  "RDB_obj_set_typeinfo objp typ =
     Obj (Some typ)
       (case typ_of objp of
          Some t \<Rightarrow> if RDB_type_is_dummy typ \<and> RDB_type_is_scalar t \<and> \<not> RDB_type_is_dummy t then Some t else impl_of objp
        | None \<Rightarrow> impl_of objp)
       (val_of objp)"

definition RDB_obj_impl_type :: "rdb_obj \<Rightarrow> rdb_type option" where
  "RDB_obj_impl_type objp =
     (case typ_of objp of None \<Rightarrow> None | Some t \<Rightarrow> if RDB_type_is_dummy t then impl_of objp else Some t)"

fun RDB_val_kind :: "rdb_type \<Rightarrow> obj_kind" where
  "RDB_val_kind (Scalar n i reps ar sups) =
     (if Scalar n i reps ar sups = RDB_BOOLEAN then RDB_OB_BOOL
      else if Scalar n i reps ar sups = RDB_INTEGER then RDB_OB_INT
      else if Scalar n i reps ar sups = RDB_FLOAT then RDB_OB_FLOAT
      else if Scalar n i reps ar sups = RDB_DATETIME then RDB_OB_TIME
      else case ar of Some t \<Rightarrow> RDB_val_kind t | None \<Rightarrow> RDB_OB_BIN)"
| "RDB_val_kind (Tuple _) = RDB_OB_TUPLE"
| "RDB_val_kind (Relation _) = RDB_OB_TABLE"
| "RDB_val_kind (Array _) = RDB_OB_ARRAY"

definition RDB_irep_is_string :: "rdb_type \<Rightarrow> bool" where
  "RDB_irep_is_string typ \<longleftrightarrow>
     typ = RDB_STRING \<or> (case typ of Scalar _ _ _ ar _ \<Rightarrow> ar = Some RDB_STRING | _ \<Rightarrow> False)"

section \<open>Conversion to a string\<close>

definition dfloat_to_str :: "platform \<Rightarrow> double \<Rightarrow> string result" where
  "dfloat_to_str P f =
     (case snprintf_float P ''%.15g'' f of
        None \<Rightarrow> Inl Segfault
      | Some s \<Rightarrow> Inr (if CHR ''.'' \<notin> set s \<and> CHR ''e'' \<notin> set s then s @ ''.0'' else s))"

definition RDB_obj_to_string :: "platform \<Rightarrow> rdb_obj \<Rightarrow> rdb_obj \<Rightarrow> rdb_obj action" where
  "RDB_obj_to_string P dstp srcp =
     (if typ_of srcp = Some RDB_INTEGER then
        and_then (end_with (RDB_obj_int srcp)) (\<lambda>i. RDB_string_to_obj P dstp (print_int (sint i)))
      else if typ_of srcp = Some RDB_BOOLEAN then
        and_then (end_with (RDB_obj_bool srcp)) (\<lambda>b. RDB_string_to_obj P dstp (if b then ''TRUE'' else ''FALSE''))
      else if typ_of srcp = Some RDB_FLOAT then
        and_then (end_with (RDB_obj_float srcp)) (\<lambda>f. and_then (end_with (dfloat_to_str P f)) (RDB_string_to_obj P dstp))
      else if typ_of srcp = Some RDB_STRING then
        and_then (end_with (RDB_obj_string srcp)) (RDB_string_to_obj P dstp)
      else if typ_of srcp = Some RDB_BINARY then
        and_then (end_with (RDB_obj_bin srcp)) (\<lambda>d. RDB_string_n_to_obj P dstp d (length d))
      else raise_error INVALID_ARGUMENT_ERROR ''type cannot be converted to string'')"

end
