(* ===== verification/Hashtable.thy ===== *)
theory Hashtable
  imports Duro_Prelude
begin

text \<open>
  The open-addressing hash table of \<^verbatim>\<open>gen/hashtable.c\<close> and its iterator
  \<^verbatim>\<open>gen/hashtabit.c\<close>.  A table stores pointers to entries; \<open>None\<close> in a slot is
  \<^verbatim>\<open>NULL\<close>, and \<open>entries = None\<close> is a table whose array is not allocated.  The
  hash and equality functions are fields of the table, as in the C struct.
\<close>

section \<open>The table and its operations\<close>

record ('e, 'a) hashtable =
  entries :: "'e option list option"
  capacity :: nat
  entry_count :: nat
  hfnp :: "'e \<Rightarrow> 'a \<Rightarrow> u32"
  efnp :: "'e \<Rightarrow> 'e \<Rightarrow> 'a \<Rightarrow> bool"

definition RDB_init_hashtable ::
  "nat \<Rightarrow> ('e \<Rightarrow> 'a \<Rightarrow> u32) \<Rightarrow> ('e \<Rightarrow> 'e \<Rightarrow> 'a \<Rightarrow> bool) \<Rightarrow> ('e, 'a) hashtable" where
  "RDB_init_hashtable cap hfp efp =
     \<lparr>entries = None, capacity = cap, entry_count = 0, hfnp = hfp, efnp = efp\<rparr>"

definition alloc_map :: "('e, 'a) hashtable \<Rightarrow> mem \<Rightarrow> ('e, 'a) hashtable \<times> mem" where
  "alloc_map t m =
     (case malloc m of
        (None, m') \<Rightarrow> (t\<lparr>entries := None\<rparr>, m')
      | (Some _, m') \<Rightarrow> (t\<lparr>entries := Some (replicate (capacity t) None)\<rparr>, m'))"

definition hash_slot :: "('e, 'a) hashtable \<Rightarrow> 'e \<Rightarrow> 'a \<Rightarrow> nat" where
  "hash_slot t e arg = unat (hfnp t e arg) mod capacity t"

definition next_slot :: "nat \<Rightarrow> nat \<Rightarrow> nat" where
  "next_slot cap idx = (if Suc idx \<ge> cap then 0 else Suc idx)"

text \<open>
  The probing loop: visit slots from \<open>idx\<close> on, wrapping at the capacity, until one is
  empty or satisfies \<open>p\<close>.  \<open>None\<close>: \<open>n\<close> slots were visited and none stopped the
  loop.  With \<open>n\<close> the capacity, the C loop without a counter would go round for ever.
\<close>

fun probe :: "('e \<Rightarrow> bool) \<Rightarrow> 'e option list \<Rightarrow> nat \<Rightarrow> nat \<Rightarrow> nat \<Rightarrow> nat option" where
  "probe p es cap 0 idx = None"
| "probe p es cap (Suc n) idx =
     (case es ! idx of
        None \<Rightarrow> Some idx
      | Some e \<Rightarrow> if p e then Some idx else probe p es cap n (next_slot cap idx))"

text \<open>The copy loop of a rehash; \<open>None\<close> when a probing loop in it does not end.\<close>

fun rehash :: "('e \<Rightarrow> nat) \<Rightarrow> nat \<Rightarrow> 'e option list \<Rightarrow> 'e option list \<Rightarrow> 'e option list option" where
  "rehash h cap [] es = Some es"
| "rehash h cap (None # old) es = rehash h cap old es"
| "rehash h cap (Some e # old) es =
     (case probe (\<lambda>_. False) es cap cap (h e) of
        None \<Rightarrow> None
      | Some i \<Rightarrow> rehash h cap old (es[i := Some e]))"

definition put_entry ::
  "('e, 'a) hashtable \<Rightarrow> 'e option list \<Rightarrow> 'e \<Rightarrow> 'a \<Rightarrow> mem \<Rightarrow>
     (errcode \<times> ('e, 'a) hashtable \<times> mem) option" where
  "put_entry t es e arg m =
     (case probe (\<lambda>f. efnp t f e arg) es (capacity t) (capacity t) (hash_slot t e arg) of
        None \<Rightarrow> None
      | Some i \<Rightarrow>
          Some (RDB_OK,
                t\<lparr>entries := Some (es[i := Some e]),
                  entry_count := (if es ! i = None then Suc (entry_count t) else entry_count t)\<rparr>,
                m))"

text \<open>\<open>None\<close> is a call that does not return.\<close>

definition RDB_hashtable_put ::
  "('e, 'a) hashtable \<Rightarrow> 'e \<Rightarrow> 'a \<Rightarrow> mem \<Rightarrow> (errcode \<times> ('e, 'a) hashtable \<times> mem) option" where
  "RDB_hashtable_put t0 e arg m0 =
     (let (t, m) = (if entries t0 = None then alloc_map t0 m0 else (t0, m0)) in
      case entries t of
        None \<Rightarrow> Some (ENOMEM, t, m)
      | Some oldtab \<Rightarrow>
          if entry_count t * 16 div capacity t \<ge> 10 then
            (let t' = t\<lparr>capacity := capacity t * 2\<rparr> in
             case malloc m of
               (None, m') \<Rightarrow> Some (ENOMEM, t'\<lparr>entries := None\<rparr>, m')
             | (Some _, m') \<Rightarrow>
                 (case rehash (\<lambda>f. hash_slot t' f arg) (capacity t') oldtab
                         (replicate (capacity t') None) of
                    None \<Rightarrow> None
                  | Some es \<Rightarrow> put_entry (t'\<lparr>entries := Some es\<rparr>) es e arg m'))
          else put_entry t oldtab e arg m)"

text \<open>
  The slot a search stops at.  \<^verbatim>\<open>RDB_hashtable_get\<close> counts the slots it has visited and
  gives up after \<open>capacity\<close> of them, so it always returns.  The slots of a table are as many as
  its capacity, so that a slot outside of them is never reached.
\<close>

definition hashtable_find :: "('e, 'a) hashtable \<Rightarrow> 'e \<Rightarrow> 'a \<Rightarrow> nat option" where
  "hashtable_find t e arg =
     (case entries t of
        None \<Rightarrow> None
      | Some es \<Rightarrow> probe (\<lambda>f. efnp t f e arg) es (capacity t) (capacity t) (hash_slot t e arg))"

definition RDB_hashtable_get :: "('e, 'a) hashtable \<Rightarrow> 'e \<Rightarrow> 'a \<Rightarrow> 'e option" where
  "RDB_hashtable_get t e arg =
     (case entries t of
        None \<Rightarrow> None
      | Some es \<Rightarrow> (case hashtable_find t e arg of None \<Rightarrow> None | Some i \<Rightarrow> if i < length es then es ! i else None))"

definition RDB_hashtable_size :: "('e, 'a) hashtable \<Rightarrow> nat" where
  "RDB_hashtable_size t = entry_count t"

definition RDB_clear_hashtable :: "('e, 'a) hashtable \<Rightarrow> ('e, 'a) hashtable" where
  "RDB_clear_hashtable t = t\<lparr>entries := None, entry_count := 0\<rparr>"

section \<open>Iterators\<close>

record ('e, 'a) hashtable_iter =
  hp :: "('e, 'a) hashtable"
  pos :: nat

definition RDB_init_hashtable_iter :: "('e, 'a) hashtable \<Rightarrow> ('e, 'a) hashtable_iter" where
  "RDB_init_hashtable_iter t = \<lparr>hp = t, pos = 0\<rparr>"

text \<open>The loop that moves \<open>pos\<close> to the next used slot.\<close>

function skip_empty :: "'e option list \<Rightarrow> nat \<Rightarrow> nat \<Rightarrow> nat" where
  "skip_empty es cap i = (if i < cap \<and> es ! i = None then skip_empty es cap (Suc i) else i)"
  by pat_completeness auto
termination
  by (relation "measure (\<lambda>(es, cap, i). cap - i)") auto

declare skip_empty.simps [simp del]

definition RDB_hashtable_next ::
  "('e, 'a) hashtable_iter \<Rightarrow> ('e option \<times> ('e, 'a) hashtable_iter) result" where
  "RDB_hashtable_next it =
     (if entry_count (hp it) = 0 then Inr (None, it)
      else case entries (hp it) of
        None \<Rightarrow> if pos it < capacity (hp it) then Inl Segfault else Inr (None, it)
      | Some es \<Rightarrow>
          (let i = skip_empty es (capacity (hp it)) (pos it) in
           if i \<ge> capacity (hp it) then Inr (None, it\<lparr>pos := i\<rparr>)
           else Inr (es ! i, it\<lparr>pos := Suc i\<rparr>)))"

text \<open>
  Draining an iterator: what a \<^verbatim>\<open>while ((entryp = RDB_hashtable_next(&it)) != NULL)\<close>
  loop sees, with \<open>n\<close> bounding the number of rounds.
\<close>

fun drain :: "nat \<Rightarrow> ('e, 'a) hashtable_iter \<Rightarrow> 'e list result" where
  "drain 0 it = Inl Diverges"
| "drain (Suc n) it =
     (case RDB_hashtable_next it of
        Inl f \<Rightarrow> Inl f
      | Inr (None, _) \<Rightarrow> Inr []
      | Inr (Some e, it') \<Rightarrow> (case drain n it' of Inl f \<Rightarrow> Inl f | Inr es \<Rightarrow> Inr (e # es)))"

definition hashtable_entries :: "('e, 'a) hashtable \<Rightarrow> 'e list result" where
  "hashtable_entries t = drain (Suc (capacity t)) (RDB_init_hashtable_iter t)"

text \<open>Writing through the pointer that a search returned.\<close>

definition write_slot :: "('e, 'a) hashtable \<Rightarrow> nat \<Rightarrow> 'e \<Rightarrow> ('e, 'a) hashtable" where
  "write_slot t i e = t\<lparr>entries := map_option (\<lambda>es. es[i := Some e]) (entries t)\<rparr>"

section \<open>Probing\<close>

lemma next_slot_mod: "idx < cap \<Longrightarrow> next_slot cap idx = Suc idx mod cap"
  by (auto simp: next_slot_def mod_Suc)

lemma next_slot_less: "idx < cap \<Longrightarrow> next_slot cap idx < cap"
  by (simp add: next_slot_mod)

lemma next_slot_shift: "idx < cap \<Longrightarrow> (next_slot cap idx + k) mod cap = (idx + Suc k) mod cap"
  by (simp add: next_slot_mod mod_simps)

text \<open>A slot that stops the probing loop.\<close>

definition stops :: "('e \<Rightarrow> bool) \<Rightarrow> 'e option \<Rightarrow> bool" where
  "stops p s = (case s of None \<Rightarrow> True | Some e \<Rightarrow> p e)"

lemma stops_simps [simp]: "stops p None" "stops p (Some e) = p e"
  by (simp_all add: stops_def)

lemma probe_unfold:
  "probe p es cap (Suc n) idx =
     (if stops p (es ! idx) then Some idx else probe p es cap n (next_slot cap idx))"
  by (cases "es ! idx") auto

lemma probe_None:
  "idx < cap \<Longrightarrow> probe p es cap n idx = None \<longleftrightarrow> (\<forall>k<n. \<not> stops p (es ! ((idx + k) mod cap)))"
proof (induction n arbitrary: idx)
  case 0
  show ?case by simp
next
  case (Suc n)
  have "probe p es cap n (next_slot cap idx) = None
        \<longleftrightarrow> (\<forall>k<n. \<not> stops p (es ! ((idx + Suc k) mod cap)))"
    using Suc by (simp add: next_slot_shift next_slot_less)
  then show ?case
    using Suc.prems by (simp add: probe_unfold All_less_Suc2 del: probe.simps)
qed

lemma probe_Some:
  "idx < cap \<Longrightarrow> probe p es cap n idx = Some i \<longleftrightarrow>
     (\<exists>k<n. i = (idx + k) mod cap \<and> stops p (es ! i)
        \<and> (\<forall>j<k. \<not> stops p (es ! ((idx + j) mod cap))))"
proof (induction n arbitrary: idx)
  case 0
  show ?case by simp
next
  case (Suc n)
  have IH: "probe p es cap n (next_slot cap idx) = Some i \<longleftrightarrow>
     (\<exists>k<n. i = (idx + Suc k) mod cap \<and> stops p (es ! i)
        \<and> (\<forall>j<k. \<not> stops p (es ! ((idx + Suc j) mod cap))))"
    using Suc by (simp add: next_slot_shift next_slot_less)
  show ?case
    using Suc.prems
    by (auto simp add: probe_unfold IH Ex_less_Suc2 All_less_Suc2 simp del: probe.simps)
qed

lemma mod_shift_inj_le:
  "(a + j) mod c = (a + k) mod c \<Longrightarrow> k < c \<Longrightarrow> j \<le> k \<Longrightarrow> j = (k :: nat)"
proof -
  assume a: "(a + j) mod c = (a + k) mod c" "k < c" "j \<le> k"
  then have "c dvd (a + k) - (a + j)"
    using mod_eq_dvd_iff_nat[of "a + j" "a + k" c] by simp
  then have "c dvd k - j" by simp
  moreover have "k - j < c" using a by simp
  ultimately have "k - j = 0" by (meson dvd_imp_le gr0I linorder_not_le)
  with a show "j = k" by simp
qed

lemma mod_shift_inj:
  "(a + j) mod c = (a + k) mod c \<Longrightarrow> j < c \<Longrightarrow> k < c \<Longrightarrow> j = (k :: nat)"
  using mod_shift_inj_le[of a j c k] mod_shift_inj_le[of a k c j] by (cases "j \<le> k") auto

lemma probe_free:
  assumes "i < length es" "es ! i = None" "idx < length es"
  shows "\<exists>j. probe p es (length es) (length es) idx = Some j"
proof -
  define k where "k = (i + (length es - idx)) mod length es"
  have "k < length es" using assms by (auto simp: k_def intro: mod_less_divisor)
  moreover have "(idx + k) mod length es = i"
    using assms by (simp add: k_def mod_simps)
  ultimately have "probe p es (length es) (length es) idx \<noteq> None"
    using assms probe_None[of idx "length es" p es "length es"] by auto
  then show ?thesis by auto
qed

section \<open>Well-formed slot arrays\<close>

definition path_ok :: "('e \<Rightarrow> nat) \<Rightarrow> 'e option list \<Rightarrow> bool" where
  "path_ok h es \<longleftrightarrow>
     (\<forall>i e. i < length es \<longrightarrow> es ! i = Some e \<longrightarrow>
        (\<exists>k<length es. i = (h e + k) mod length es
           \<and> (\<forall>j<k. es ! ((h e + j) mod length es) \<noteq> None)))"

definition slots_uniq :: "('e \<Rightarrow> 'e \<Rightarrow> bool) \<Rightarrow> 'e option list \<Rightarrow> bool" where
  "slots_uniq eq es \<longleftrightarrow>
     (\<forall>i j e f. i < length es \<longrightarrow> j < length es \<longrightarrow> es ! i = Some e \<longrightarrow> es ! j = Some f
        \<longrightarrow> eq e f \<longrightarrow> i = j)"

definition slots_used :: "'e option list \<Rightarrow> nat" where
  "slots_used es = length (filter (\<lambda>s. s \<noteq> None) es)"

lemma path_okD:
  assumes "path_ok h es" "i < length es" "es ! i = Some e"
  obtains k where "k < length es" "i = (h e + k) mod length es"
    "\<And>j. j < k \<Longrightarrow> es ! ((h e + j) mod length es) \<noteq> None"
  using assms by (auto simp: path_ok_def)

lemma slots_uniqD:
  "slots_uniq eq es \<Longrightarrow> i < length es \<Longrightarrow> j < length es \<Longrightarrow> es ! i = Some e \<Longrightarrow> es ! j = Some f
    \<Longrightarrow> eq e f \<Longrightarrow> i = j"
  by (simp add: slots_uniq_def)

lemma slots_used_le: "slots_used es \<le> length es"
  by (simp add: slots_used_def)

lemma slots_used_free: "slots_used es < length es \<Longrightarrow> \<exists>i<length es. es ! i = None"
proof (rule ccontr)
  assume "slots_used es < length es" "\<not> (\<exists>i<length es. es ! i = None)"
  then have "filter (\<lambda>s. s \<noteq> None) es = es"
    by (auto simp: filter_id_conv in_set_conv_nth)
  with \<open>slots_used es < length es\<close> show False
    by (simp add: slots_used_def)
qed

lemma slots_used_update:
  "i < length es \<Longrightarrow>
   slots_used (es[i := Some e]) = (if es ! i = None then Suc (slots_used es) else slots_used es)"
proof (induction es arbitrary: i)
  case (Cons s es)
  then show ?case by (cases i) (auto simp: slots_used_def)
qed simp

lemma slots_used_replicate [simp]: "slots_used (replicate n None) = 0"
  by (simp add: slots_used_def)

lemma path_ok_replicate [simp]: "path_ok h (replicate n None)"
  by (simp add: path_ok_def)

lemma slots_uniq_replicate [simp]: "slots_uniq eq (replicate n None)"
  by (simp add: slots_uniq_def)

lemma path_ok_update:
  assumes "path_ok h es" and "h e < length es"
    and pr: "probe p es (length es) (length es) (h e) = Some i"
  shows "path_ok h (es[i := Some e])"
proof -
  obtain k where k: "k < length es" "i = (h e + k) mod length es"
    "\<And>j. j < k \<Longrightarrow> \<not> stops p (es ! ((h e + j) mod length es))"
    using pr probe_Some[OF assms(2)] by blast
  have keep: "es ! j \<noteq> None \<Longrightarrow> es[i := Some e] ! j \<noteq> None" for j
    by (cases "i < length es"; cases "j = i") (auto simp: not_less list_update_beyond)
  have new: "\<exists>k<length es. i = (h e + k) mod length es
      \<and> (\<forall>j<k. es[i := Some e] ! ((h e + j) mod length es) \<noteq> None)"
  proof (intro exI[of _ k] conjI allI impI)
    fix j assume "j < k"
    then have "es ! ((h e + j) mod length es) \<noteq> None"
      using k(3)[of j] by (metis stops_simps(1))
    then show "es[i := Some e] ! ((h e + j) mod length es) \<noteq> None" by (rule keep)
  qed (use k in auto)
  have old: "\<exists>k<length es. i' = (h f + k) mod length es
      \<and> (\<forall>j<k. es[i := Some e] ! ((h f + j) mod length es) \<noteq> None)"
    if f: "i' < length es" "es ! i' = Some f" for i' f
  proof -
    obtain k' where "k' < length es" "i' = (h f + k') mod length es"
      "\<And>j. j < k' \<Longrightarrow> es ! ((h f + j) mod length es) \<noteq> None"
      using path_okD[OF assms(1) f] by blast
    then show ?thesis using keep by blast
  qed
  show ?thesis
    unfolding path_ok_def
  proof (intro allI impI)
    fix i' f
    assume "i' < length (es[i := Some e])" "es[i := Some e] ! i' = Some f"
    then show "\<exists>k<length (es[i := Some e]). i' = (h f + k) mod length (es[i := Some e])
        \<and> (\<forall>j<k. es[i := Some e] ! ((h f + j) mod length (es[i := Some e])) \<noteq> None)"
      using old[of i' f] new by (cases "i' = i") auto
  qed
qed


lemma slots_uniq_update:
  assumes "slots_uniq eq es" "i < length es"
    and "\<And>j f. j < length es \<Longrightarrow> j \<noteq> i \<Longrightarrow> es ! j = Some f \<Longrightarrow> \<not> eq f e \<and> \<not> eq e f"
  shows "slots_uniq eq (es[i := Some e])"
  unfolding slots_uniq_def
proof (intro allI impI)
  fix a b x y
  assume "a < length (es[i := Some e])" "b < length (es[i := Some e])"
    "es[i := Some e] ! a = Some x" "es[i := Some e] ! b = Some y" "eq x y"
  with assms show "a = b"
    by (cases "a = i"; cases "b = i") (auto dest: slots_uniqD)
qed

text \<open>The entries a slot array holds.\<close>

definition slot_set :: "'e option list \<Rightarrow> 'e set" where
  "slot_set es = {e. Some e \<in> set es}"

lemma slot_set_nth: "e \<in> slot_set es \<longleftrightarrow> (\<exists>i<length es. es ! i = Some e)"
  by (auto simp: slot_set_def in_set_conv_nth)

lemma slot_set_simps [simp]:
  "slot_set (replicate n None) = {}" "slot_set [] = {}"
  "slot_set (None # es) = slot_set es" "slot_set (Some e # es) = insert e (slot_set es)"
  by (auto simp: slot_set_def)

definition hashtable_set :: "('e, 'a) hashtable \<Rightarrow> 'e set" where
  "hashtable_set t = (case entries t of None \<Rightarrow> {} | Some es \<Rightarrow> slot_set es)"

text \<open>The functions stored in a table, at the argument its caller passes on.\<close>

definition uses_functions ::
  "('e \<Rightarrow> u32) \<Rightarrow> ('e \<Rightarrow> 'e \<Rightarrow> bool) \<Rightarrow> 'a \<Rightarrow> ('e, 'a) hashtable \<Rightarrow> bool" where
  "uses_functions hf eq arg t \<longleftrightarrow> (\<forall>e. hfnp t e arg = hf e) \<and> (\<forall>e f. efnp t e f arg = eq e f)"

definition slots_inv :: "('e \<Rightarrow> u32) \<Rightarrow> ('e \<Rightarrow> 'e \<Rightarrow> bool) \<Rightarrow> 'e option list \<Rightarrow> bool" where
  "slots_inv hf eq es \<longleftrightarrow>
     0 < length es \<and> path_ok (\<lambda>e. unat (hf e) mod length es) es \<and> slots_uniq eq es"

definition hashtable_inv ::
  "('e \<Rightarrow> u32) \<Rightarrow> ('e \<Rightarrow> 'e \<Rightarrow> bool) \<Rightarrow> ('e, 'a) hashtable \<Rightarrow> bool" where
  "hashtable_inv hf eq t \<longleftrightarrow> 0 < capacity t \<and>
     (case entries t of
        None \<Rightarrow> entry_count t = 0
      | Some es \<Rightarrow> length es = capacity t \<and> entry_count t = slots_used es \<and> slots_inv hf eq es)"

lemma probe_cong:
  assumes "\<And>f. f \<in> slot_set es \<Longrightarrow> p f = q f" "idx < length es"
  shows "probe p es (length es) n idx = probe q es (length es) n idx"
  using assms(2)
proof (induction n arbitrary: idx)
  case (Suc n)
  have "stops p (es ! idx) = stops q (es ! idx)"
    using assms(1) Suc.prems by (auto simp: stops_def slot_set_nth split: option.splits)
  then show ?case
    using Suc by (simp add: probe_unfold next_slot_less del: probe.simps)
qed simp

lemma slots_uniq_tail: "slots_uniq eq (s # es) \<Longrightarrow> slots_uniq eq es"
  unfolding slots_uniq_def
  by (metis Suc_less_eq length_Cons nat.inject nth_Cons_Suc)

lemma slots_uniq_head: "slots_uniq eq (Some e # es) \<Longrightarrow> f \<in> slot_set es \<Longrightarrow> \<not> eq e f"
  unfolding slots_uniq_def slot_set_nth
  by (metis Suc_less_eq length_Cons nat.distinct(1) nth_Cons_0 nth_Cons_Suc zero_less_Suc)

section \<open>The contract of a hash table\<close>

text \<open>A put uses memory in order; without failing allocations it leaves none to fail.\<close>

lemma hashtable_put_mem: "RDB_hashtable_put t e arg m = Some (c, t', m') \<Longrightarrow> mem_le m m'"
  by (auto simp: RDB_hashtable_put_def put_entry_def alloc_map_def Let_def
      split: if_splits option.splits prod.splits dest!: malloc_mem_le intro: mem_le_trans)

text \<open>
  A client supplies a hash function and an equivalence that the hash function respects;
  under these two laws the table is a set of entries modulo the equivalence.
\<close>

locale hash_key =
  fixes hf :: "'e \<Rightarrow> u32" and eq :: "'e \<Rightarrow> 'e \<Rightarrow> bool"
  assumes eq_refl: "eq e e"
    and eq_sym: "eq e f \<Longrightarrow> eq f e"
    and eq_trans: "eq e f \<Longrightarrow> eq f g \<Longrightarrow> eq e g"
    and hash_eq: "eq e f \<Longrightarrow> hf e = hf f"
begin

lemma slots_inv_replicate: "0 < n \<Longrightarrow> slots_inv hf eq (replicate n None)"
  by (simp add: slots_inv_def)

lemma hashtable_inv_init: "0 < n \<Longrightarrow> hashtable_inv hf eq (RDB_init_hashtable n h f)"
  by (simp add: hashtable_inv_def RDB_init_hashtable_def)

lemma hashtable_inv_clear: "hashtable_inv hf eq t \<Longrightarrow> hashtable_inv hf eq (RDB_clear_hashtable t)"
  by (simp add: hashtable_inv_def RDB_clear_hashtable_def)

text \<open>The slot a search for \<open>x\<close> stops at is the slot of its equal entry, if there is one.\<close>

lemma probe_finds:
  assumes inv: "slots_inv hf eq es" and i: "i < length es" "es ! i = Some e" and "eq e x"
  shows "probe (\<lambda>f. eq f x) es (length es) (length es) (unat (hf x) mod length es) = Some i"
proof -
  define h where "h = unat (hf x) mod length es"
  have he: "unat (hf e) mod length es = h" using hash_eq[OF \<open>eq e x\<close>] by (simp add: h_def)
  have hl: "h < length es" using i by (auto simp: h_def intro: mod_less_divisor)
  obtain k where k: "k < length es" "i = (h + k) mod length es"
    "\<And>j. j < k \<Longrightarrow> es ! ((h + j) mod length es) \<noteq> None"
  proof -
    have p: "path_ok (\<lambda>e. unat (hf e) mod length es) es" using inv by (simp add: slots_inv_def)
    show thesis by (rule path_okD[OF p i]) (rule that, simp_all add: he)
  qed
  have "\<not> stops (\<lambda>f. eq f x) (es ! ((h + j) mod length es))" if jk: "j < k" for j
  proof
    assume "stops (\<lambda>f. eq f x) (es ! ((h + j) mod length es))"
    then obtain f where f: "es ! ((h + j) mod length es) = Some f" "eq f x"
      using k(3)[OF jk] by (auto simp: stops_def split: option.splits)
    then have "eq f e" using eq_sym[OF \<open>eq e x\<close>] eq_trans by blast
    then have "(h + j) mod length es = i"
      using slots_uniqD[OF _ _ i(1) f(1) i(2)] inv i(1)
      by (auto simp: slots_inv_def intro: mod_less_divisor)
    then show False using mod_shift_inj[of h j "length es" k] k jk by simp
  qed
  then show ?thesis
    unfolding h_def[symmetric] probe_Some[OF hl] using k i \<open>eq e x\<close> by auto
qed

lemma probe_stops_at:
  assumes "slots_inv hf eq es"
    and "probe (\<lambda>f. eq f x) es (length es) (length es) (unat (hf x) mod length es) = Some i"
  shows "i < length es \<and> (case es ! i of
           None \<Rightarrow> \<not> (\<exists>e \<in> slot_set es. eq e x)
         | Some e \<Rightarrow> eq e x)"
proof -
  have hl: "unat (hf x) mod length es < length es"
    using assms(1) by (simp add: slots_inv_def)
  have i: "i < length es" and st: "stops (\<lambda>f. eq f x) (es ! i)"
    using assms(2) hl unfolding probe_Some[OF hl] by (auto intro: mod_less_divisor)
  have "\<not> (\<exists>e \<in> slot_set es. eq e x)" if "es ! i = None"
  proof
    assume "\<exists>e \<in> slot_set es. eq e x"
    then obtain j e where "j < length es" "es ! j = Some e" "eq e x"
      by (auto simp: slot_set_nth)
    then show False using probe_finds[OF assms(1)] assms(2) that by fastforce
  qed
  with i st show ?thesis by (auto split: option.splits)
qed

lemma slots_inv_update:
  assumes inv: "slots_inv hf eq es"
    and pr: "probe (\<lambda>f. eq f e) es (length es) (length es) (unat (hf e) mod length es) = Some i"
  shows "slots_inv hf eq (es[i := Some e])"
    and "slot_set (es[i := Some e]) = insert e {f \<in> slot_set es. \<not> eq f e}"
proof -
  note at = probe_stops_at[OF inv pr]
  have i: "i < length es" using at by simp
  have other: "\<not> eq f e" if "j < length es" "j \<noteq> i" "es ! j = Some f" for j f
    using probe_finds[OF inv that(1,3)] pr that(2) by force
  then have "slots_uniq eq (es[i := Some e])"
    using slots_uniq_update[of eq es i e] inv i eq_sym by (auto simp: slots_inv_def)
  moreover have "path_ok (\<lambda>e. unat (hf e) mod length es) (es[i := Some e])"
    using path_ok_update[of _ es e _ i] inv pr by (auto simp: slots_inv_def)
  ultimately show "slots_inv hf eq (es[i := Some e])"
    using inv by (simp add: slots_inv_def)
  have "f \<in> slot_set (es[i := Some e]) \<longleftrightarrow> f \<in> insert e {f \<in> slot_set es. \<not> eq f e}" for f
  proof
    assume "f \<in> slot_set (es[i := Some e])"
    then obtain j where "j < length es" "es[i := Some e] ! j = Some f"
      by (auto simp: slot_set_nth)
    then show "f \<in> insert e {f \<in> slot_set es. \<not> eq f e}"
      using other[of j f] by (cases "j = i") (auto simp: slot_set_nth)
  next
    assume "f \<in> insert e {f \<in> slot_set es. \<not> eq f e}"
    then consider "f = e" | j where "j < length es" "es ! j = Some f" "\<not> eq f e"
      by (auto simp: slot_set_nth)
    then show "f \<in> slot_set (es[i := Some e])"
    proof cases
      case 1 then show ?thesis using i by (auto simp: slot_set_nth intro!: exI[of _ i])
    next
      case 2
      then have "j \<noteq> i" using at by auto
      with 2 show ?thesis by (auto simp: slot_set_nth intro!: exI[of _ j])
    qed
  qed
  then show "slot_set (es[i := Some e]) = insert e {f \<in> slot_set es. \<not> eq f e}" by blast
qed

lemma get_iff:
  assumes "hashtable_inv hf eq t" "uses_functions hf eq arg t"
  shows "RDB_hashtable_get t x arg = Some e \<longleftrightarrow> e \<in> hashtable_set t \<and> eq e x"
proof (cases "entries t")
  case None
  then show ?thesis by (simp add: RDB_hashtable_get_def hashtable_set_def)
next
  case (Some es)
  have inv: "slots_inv hf eq es" and len: "capacity t = length es"
    using assms(1) Some by (auto simp: hashtable_inv_def)
  have find: "hashtable_find t x arg =
      probe (\<lambda>f. eq f x) es (length es) (length es) (unat (hf x) mod length es)"
    using assms(2) Some len by (simp add: hashtable_find_def hash_slot_def uses_functions_def)
  show ?thesis
  proof
    assume "RDB_hashtable_get t x arg = Some e"
    then obtain i where i: "hashtable_find t x arg = Some i" "es ! i = Some e"
      using Some by (auto simp: RDB_hashtable_get_def split: option.splits if_splits)
    with probe_stops_at[OF inv i(1)[unfolded find]] show "e \<in> hashtable_set t \<and> eq e x"
      using Some by (auto simp: hashtable_set_def slot_set_nth)
  next
    assume e: "e \<in> hashtable_set t \<and> eq e x"
    then obtain i where i: "i < length es" "es ! i = Some e"
      using Some by (auto simp: hashtable_set_def slot_set_nth)
    with probe_finds[OF inv i] e find show "RDB_hashtable_get t x arg = Some e"
      using Some by (simp add: RDB_hashtable_get_def)
  qed
qed

lemma get_None:
  assumes "hashtable_inv hf eq t" "uses_functions hf eq arg t"
  shows "RDB_hashtable_get t x arg = None \<longleftrightarrow> (\<forall>e \<in> hashtable_set t. \<not> eq e x)"
  using get_iff[OF assms] by (metis not_Some_eq)

lemma rehash_correct:
  assumes "slots_inv hf eq es" "slots_uniq eq old"
    and "slots_used es + slots_used old < length es"
    and "\<And>e f. e \<in> slot_set es \<Longrightarrow> f \<in> slot_set old \<Longrightarrow> \<not> eq e f"
  shows "\<exists>es'. rehash (\<lambda>f. unat (hf f) mod length es) (length es) old es = Some es'
     \<and> slots_inv hf eq es' \<and> length es' = length es
     \<and> slot_set es' = slot_set es \<union> slot_set old
     \<and> slots_used es' = slots_used es + slots_used old"
  using assms
proof (induction old arbitrary: es)
  case Nil
  then show ?case by (simp add: slots_used_def)
next
  case (Cons s old)
  show ?case
  proof (cases s)
    case None
    then show ?thesis
      using Cons.IH[OF Cons.prems(1) slots_uniq_tail[OF Cons.prems(2)]] Cons.prems
      by (simp add: slots_used_def)
  next
    case (Some e)
    let ?h = "unat (hf e) mod length es"
    have hl: "?h < length es" using Cons.prems(1) by (simp add: slots_inv_def)
    obtain i0 where free: "i0 < length es" "es ! i0 = None"
      using Cons.prems(3) slots_used_free[of es] by auto
    then obtain i where p0: "probe (\<lambda>_. False) es (length es) (length es) ?h = Some i"
      using probe_free[OF free hl] by blast
    have p: "probe (\<lambda>f. eq f e) es (length es) (length es) ?h = Some i"
      using p0 probe_cong[OF _ hl, of "\<lambda>f. eq f e" "\<lambda>_. False"] Cons.prems(4) Some by simp
    have i: "i < length es" "es ! i = None"
    proof -
      have "0 < length es" using free(1) by linarith
      then show "i < length es" "es ! i = None"
        using p0 by (auto simp: probe_Some[OF hl] stops_def split: option.splits)
    qed
    let ?es = "es[i := Some e]"
    note upd = slots_inv_update[OF Cons.prems(1) p]
    have set: "slot_set ?es = insert e (slot_set es)"
      using upd(2) Cons.prems(4) Some by auto
    have used: "slots_used ?es = Suc (slots_used es)" using i by (simp add: slots_used_update)
    have "\<exists>es'. rehash (\<lambda>f. unat (hf f) mod length ?es) (length ?es) old ?es = Some es'
       \<and> slots_inv hf eq es' \<and> length es' = length ?es
       \<and> slot_set es' = slot_set ?es \<union> slot_set old
       \<and> slots_used es' = slots_used ?es + slots_used old"
    proof (rule Cons.IH[OF upd(1) slots_uniq_tail[OF Cons.prems(2)]])
      show "slots_used ?es + slots_used old < length ?es"
        using Cons.prems(3) used Some by (simp add: slots_used_def)
      show "\<not> eq x f" if "x \<in> slot_set ?es" "f \<in> slot_set old" for x f
        using that set Cons.prems(2,4) slots_uniq_head[of eq e old] Some by auto
    qed
    then show ?thesis
      using p0 set used Some by (auto simp: slots_used_def)
  qed
qed

lemma put_entry_correct:
  assumes "slots_inv hf eq es" "uses_functions hf eq arg t"
    and "capacity t = length es" "entries t = Some es" "entry_count t = slots_used es"
    and "slots_used es < length es"
  shows "\<exists>t'. put_entry t es e arg m = Some (RDB_OK, t', m)
     \<and> hashtable_inv hf eq t' \<and> uses_functions hf eq arg t'
     \<and> hashtable_set t' = insert e {f \<in> hashtable_set t. \<not> eq f e}"
proof -
  let ?h = "unat (hf e) mod length es"
  have hl: "?h < length es" using assms(1) by (simp add: slots_inv_def)
  obtain i where p: "probe (\<lambda>f. eq f e) es (length es) (length es) ?h = Some i"
    using slots_used_free[OF assms(6)] probe_free[OF _ _ hl] by blast
  have i: "i < length es" using probe_stops_at[OF assms(1) p] by simp
  note upd = slots_inv_update[OF assms(1) p]
  have fn: "efnp t f e arg = eq f e" for f using assms(2) by (simp add: uses_functions_def)
  have sl: "hash_slot t e arg = ?h"
    using assms(2,3) by (simp add: hash_slot_def uses_functions_def)
  show ?thesis
    unfolding put_entry_def fn sl assms(3) p
    using assms upd i slots_used_update[OF i, of e]
    by (simp add: hashtable_inv_def hashtable_set_def uses_functions_def slots_inv_def)
qed

text \<open>
  A call returns whatever the allocator does: either with \<open>RDB_OK\<close> and the entry stored,
  or with \<open>ENOMEM\<close>.
\<close>

lemma put_cases:
  assumes inv: "hashtable_inv hf eq t" and fn: "uses_functions hf eq arg t"
  shows "(\<exists>t' m'. RDB_hashtable_put t e arg m = Some (RDB_OK, t', m')
            \<and> hashtable_inv hf eq t' \<and> uses_functions hf eq arg t'
            \<and> hashtable_set t' = insert e {f \<in> hashtable_set t. \<not> eq f e})
       \<or> (\<exists>t' m'. RDB_hashtable_put t e arg m = Some (ENOMEM, t', m') \<and> entries t' = None
            \<and> entry_count t' = entry_count t \<and> fails m \<noteq> [])"
proof -
  obtain t1 m1 where start: "(if entries t = None then alloc_map t m else (t, m)) = (t1, m1)"
    by (meson surj_pair)
  show ?thesis
  proof (cases "entries t1")
    case None
    then have "RDB_hashtable_put t e arg m = Some (ENOMEM, t1, m1)"
      using start by (simp add: RDB_hashtable_put_def)
    moreover have "entry_count t1 = entry_count t" "fails m \<noteq> []"
      using start None
      by (auto simp: alloc_map_def malloc_def split: if_splits option.splits list.splits bool.splits)
    ultimately show ?thesis using None by blast
  next
    case (Some old)
    have inv1: "hashtable_inv hf eq t1" and fn1: "uses_functions hf eq arg t1"
      and set1: "hashtable_set t1 = hashtable_set t"
      and cnt1: "entry_count t1 = entry_count t" and mem1: "fails m = [] \<Longrightarrow> fails m1 = []"
      using start Some inv fn
      by (auto simp: alloc_map_def hashtable_inv_def uses_functions_def hashtable_set_def
          slots_inv_def malloc_def split: if_splits option.splits list.splits bool.splits)
    have sl: "slots_inv hf eq old" "capacity t1 = length old" "entry_count t1 = slots_used old"
      using inv1 Some by (auto simp: hashtable_inv_def)
    show ?thesis
    proof (cases "entry_count t1 * 16 div capacity t1 \<ge> 10")
      case False
      have "slots_used old < length old"
      proof (rule ccontr)
        assume "\<not> slots_used old < length old"
        then have "slots_used old = length old" using slots_used_le[of old] by simp
        then show False using False sl by (simp add: slots_inv_def)
      qed
      then show ?thesis
        using put_entry_correct[OF sl(1) fn1 sl(2) Some sl(3), of e m1] False start Some set1
        by (auto simp: RDB_hashtable_put_def)
    next
      case True
      let ?t = "t1\<lparr>capacity := capacity t1 * 2\<rparr>"
      let ?new = "replicate (capacity t1 * 2) None"
      have pos: "0 < length old" using sl by (simp add: slots_inv_def)
      have hs: "(\<lambda>f. hash_slot ?t f arg) = (\<lambda>f. unat (hf f) mod length ?new)"
        using fn1 by (simp add: hash_slot_def uses_functions_def)
      obtain es where re: "rehash (\<lambda>f. unat (hf f) mod length ?new) (length ?new) old ?new = Some es"
        "slots_inv hf eq es" "length es = length ?new" "slot_set es = slot_set old"
        "slots_used es = slots_used old"
        using rehash_correct[of ?new old] sl pos slots_used_le[of old]
        by (auto simp: slots_inv_def)
      show ?thesis
      proof (cases "malloc m1")
        case (Pair b m2)
        show ?thesis
        proof (cases b)
          case None
          have "fails m1 \<noteq> []" using Pair None by (auto simp: malloc_def)
          with Pair None True start Some cnt1 mem1 show ?thesis
            by (auto simp: RDB_hashtable_put_def Let_def)
        next
          case (Some a)
          have lt: "slots_used es < length es" using re(3,5) sl(2) pos slots_used_le[of old]
            by (simp del: length_greater_0_conv)
          have "\<exists>t'. put_entry (?t\<lparr>entries := Some es\<rparr>) es e arg m2 = Some (RDB_OK, t', m2)
              \<and> hashtable_inv hf eq t' \<and> uses_functions hf eq arg t'
              \<and> hashtable_set t' = insert e {f \<in> hashtable_set (?t\<lparr>entries := Some es\<rparr>). \<not> eq f e}"
            using re fn1 sl lt
            by (intro put_entry_correct) (auto simp: uses_functions_def)
          moreover have "hashtable_set (?t\<lparr>entries := Some es\<rparr>) = hashtable_set t"
            using re \<open>entries t1 = Some old\<close> set1 by (simp add: hashtable_set_def)
          ultimately show ?thesis
            using Pair Some True start \<open>entries t1 = Some old\<close> re(1) hs
            by (auto simp: RDB_hashtable_put_def Let_def)
        qed
      qed
    qed
  qed
qed

lemma put_ok:
  assumes "hashtable_inv hf eq t" "uses_functions hf eq arg t"
    and "RDB_hashtable_put t e arg m = Some (RDB_OK, t', m')"
  shows "hashtable_inv hf eq t'" "uses_functions hf eq arg t'"
    and "hashtable_set t' = insert e {f \<in> hashtable_set t. \<not> eq f e}"
  using put_cases[OF assms(1,2), of e m] assms(3) by auto

lemma put_succeeds:
  assumes "hashtable_inv hf eq t" "uses_functions hf eq arg t" "fails m = []"
  shows "\<exists>t' m'. RDB_hashtable_put t e arg m = Some (RDB_OK, t', m')"
  using put_cases[OF assms(1,2), of e m] assms(3) by auto

lemma get_put:
  assumes "hashtable_inv hf eq t" "uses_functions hf eq arg t"
    and "RDB_hashtable_put t e arg m = Some (RDB_OK, t', m')"
  shows "RDB_hashtable_get t' x arg = (if eq e x then Some e else RDB_hashtable_get t x arg)"
proof -
  note t' = put_ok[OF assms]
  show ?thesis
  proof (rule option_eqI)
    fix f
    show "RDB_hashtable_get t' x arg = Some f \<longleftrightarrow>
        (if eq e x then Some e else RDB_hashtable_get t x arg) = Some f"
      unfolding get_iff[OF t'(1,2)] t'(3)
      using get_iff[OF assms(1,2), of x f] eq_sym[of e x] eq_sym[of x e] eq_trans[of f x e]
        eq_sym[of f e] eq_trans[of e f x]
      by (cases "eq e x") auto
  qed
qed

lemma get_empty: "entries t = None \<Longrightarrow> RDB_hashtable_get t x arg = None"
  by (simp add: RDB_hashtable_get_def)

lemma write_slot_inv:
  assumes inv: "hashtable_inv hf eq t" and fn: "uses_functions hf eq arg t"
    and find: "hashtable_find t x arg = Some i" and old: "RDB_hashtable_get t x arg = Some e0" and e: "eq e x"
  shows "hashtable_inv hf eq (write_slot t i e)"
    and "hashtable_set (write_slot t i e) = insert e {f \<in> hashtable_set t. \<not> eq f x}"
proof -
  obtain es where es: "entries t = Some es"
    using find by (auto simp: hashtable_find_def split: option.splits)
  have sl: "slots_inv hf eq es"
    and len: "capacity t = length es" and cnt: "entry_count t = slots_used es"
    using inv es by (auto simp: hashtable_inv_def)
  have ex: "hf x = hf e" "\<And>f. eq f x = eq f e"
    using hash_eq[OF e] eq_trans eq_sym[OF e] e by (simp, blast)
  have pr: "probe (\<lambda>f. eq f e) es (length es) (length es) (unat (hf e) mod length es) = Some i"
    using find es len fn ex by (simp add: hashtable_find_def hash_slot_def uses_functions_def)
  note upd = slots_inv_update[OF sl pr]
  have i: "i < length es" using probe_stops_at[OF sl pr] by simp
  have nz: "es ! i \<noteq> None"
    using old find es by (auto simp: RDB_hashtable_get_def split: if_splits)
  have "slots_used (es[i := Some e]) = slots_used es"
    using slots_used_update[OF i, of e] nz by auto
  then show "hashtable_inv hf eq (write_slot t i e)"
    using upd(1) es len cnt inv by (simp add: hashtable_inv_def write_slot_def)
  show "hashtable_set (write_slot t i e) = insert e {f \<in> hashtable_set t. \<not> eq f x}"
    using upd(2) es ex by (auto simp: write_slot_def hashtable_set_def)
qed

end

lemma put_keeps_functions:
  "RDB_hashtable_put t e arg m = Some (ret, t', m') \<Longrightarrow> hfnp t' = hfnp t \<and> efnp t' = efnp t"
  by (auto simp: RDB_hashtable_put_def put_entry_def alloc_map_def Let_def
      split: if_splits option.splits prod.splits)

section \<open>Iteration\<close>

lemma skip_empty_le: "i \<le> cap \<Longrightarrow> skip_empty es cap i \<le> cap"
proof (induction es cap i rule: skip_empty.induct)
  case (1 es cap i)
  then show ?case by (subst skip_empty.simps) auto
qed

lemma skip_empty_drop:
  "i \<le> length es \<Longrightarrow>
   (let j = skip_empty es (length es) i in
     if j \<ge> length es then \<forall>s \<in> set (drop i es). s = None
     else i \<le> j \<and> es ! j \<noteq> None \<and>
       filter (\<lambda>s. s \<noteq> None) (drop i es) = es ! j # filter (\<lambda>s. s \<noteq> None) (drop (Suc j) es))"
proof (induction "length es - i" arbitrary: i)
  case 0
  then show ?case by (subst skip_empty.simps) simp
next
  case (Suc n)
  then have i: "i < length es" by simp
  show ?case
  proof (cases "es ! i")
    case None
    then have "skip_empty es (length es) i = skip_empty es (length es) (Suc i)"
      using i by (subst skip_empty.simps) simp
    moreover have "n = length es - Suc i" "Suc i \<le> length es" using Suc.hyps(2) i by simp_all
    note Suc.hyps(1)[OF this]
    ultimately show ?thesis
      using i None by (auto simp: Let_def Cons_nth_drop_Suc[symmetric] dest: Suc_leD)
  next
    case (Some e)
    then show ?thesis
      using i by (subst skip_empty.simps) (simp add: Let_def Cons_nth_drop_Suc[symmetric])
  qed
qed

lemma drain_slots:
  assumes "entries t = Some es" "capacity t = length es" "entry_count t \<noteq> 0"
    and "i \<le> length es" "length es - i < n"
  shows "drain n \<lparr>hp = t, pos = i\<rparr> = Inr (map the (filter (\<lambda>s. s \<noteq> None) (drop i es)))"
  using assms(4,5)
proof (induction n arbitrary: i)
  case (Suc n)
  let ?j = "skip_empty es (length es) i"
  note sk = skip_empty_drop[OF Suc.prems(1), unfolded Let_def]
  show ?case
  proof (cases "?j \<ge> length es")
    case True
    then have "filter (\<lambda>s. s \<noteq> None) (drop i es) = []"
      using sk by (simp add: filter_empty_conv)
    then show ?thesis using True assms by (simp add: RDB_hashtable_next_def Let_def)
  next
    case False
    then have j: "i \<le> ?j" "?j < length es" and nj: "es ! ?j \<noteq> None"
      and f: "filter (\<lambda>s. s \<noteq> None) (drop i es)
               = es ! ?j # filter (\<lambda>s. s \<noteq> None) (drop (Suc ?j) es)"
      using sk by auto
    obtain e where "es ! ?j = Some e" using nj by blast
    moreover have "drain n \<lparr>hp = t, pos = Suc ?j\<rparr>
        = Inr (map the (filter (\<lambda>s. s \<noteq> None) (drop (Suc ?j) es)))"
      using Suc.IH[of "Suc ?j"] j Suc.prems by simp
    ultimately show ?thesis using False f assms by (simp add: RDB_hashtable_next_def Let_def)
  qed
qed simp

text \<open>A full iteration visits the used slots in order, each once.\<close>

lemma entries_correct:
  assumes "hashtable_inv hf eq t"
  shows "hashtable_entries t =
     Inr (case entries t of None \<Rightarrow> [] | Some es \<Rightarrow> map the (filter (\<lambda>s. s \<noteq> None) es))"
proof (cases "entries t")
  case None
  then show ?thesis using assms
    by (simp add: hashtable_entries_def hashtable_inv_def RDB_init_hashtable_iter_def
        RDB_hashtable_next_def)
next
  case (Some es)
  show ?thesis
  proof (cases "entry_count t = 0")
    case True
    then have "filter (\<lambda>s. s \<noteq> None) es = []"
      using Some assms by (simp add: hashtable_inv_def slots_used_def)
    with True show ?thesis
      using Some by (simp add: hashtable_entries_def RDB_init_hashtable_iter_def RDB_hashtable_next_def)
  next
    case False
    then show ?thesis
      using drain_slots[OF Some _ False, of 0 "Suc (capacity t)"] Some assms
      by (simp add: hashtable_entries_def RDB_init_hashtable_iter_def hashtable_inv_def
          del: drain.simps)
  qed
qed

lemma hashtable_get_mem:
  assumes "RDB_hashtable_get t e arg = Some f"
  shows "f \<in> hashtable_set t"
  using assms by (auto simp: RDB_hashtable_get_def hashtable_set_def slot_set_nth split: option.splits if_splits)

lemma entries_set:
  assumes "hashtable_inv hf eq t"
  shows "\<exists>es. hashtable_entries t = Inr es \<and> set es = hashtable_set t
     \<and> length es = RDB_hashtable_size t"
proof (cases "entries t")
  case None
  then show ?thesis
    using entries_correct[OF assms] assms
    by (simp add: hashtable_set_def RDB_hashtable_size_def hashtable_inv_def)
next
  case (Some es)
  have "set (map the (filter (\<lambda>s. s \<noteq> None) es)) = slot_set es"
    by (force simp: slot_set_def)
  then show ?thesis
    using entries_correct[OF assms] assms Some
    by (simp add: hashtable_set_def RDB_hashtable_size_def hashtable_inv_def slots_used_def)
qed

end
