(* ===== verification/Hashmap.thy ===== *)
theory Hashmap
  imports Hashtable C_Strings
begin

text \<open>
  The string-keyed map of \<^verbatim>\<open>gen/hashmap.c\<close> and \<^verbatim>\<open>gen/hashmapit.c\<close>, built on
  the hash table.  A value is a \<^verbatim>\<open>void *\<close>, so it is an option: \<open>None\<close> is a stored
  \<^verbatim>\<open>NULL\<close>.
\<close>

section \<open>Operations\<close>

record 'v kv_pair =
  kv_key :: string
  valuep :: "'v option"

type_synonym 'v kv_table = "('v kv_pair, unit) hashtable"

record 'v hashmap =
  tab :: "'v kv_table"

definition hash_str :: "'v kv_pair \<Rightarrow> unit \<Rightarrow> u32" where
  "hash_str e arg = RDB_hash_str (kv_key e)"

definition str_equals :: "'v kv_pair \<Rightarrow> 'v kv_pair \<Rightarrow> unit \<Rightarrow> bool" where
  "str_equals e1 e2 arg = (kv_key e1 = kv_key e2)"

definition RDB_init_hashmap :: "nat \<Rightarrow> 'v hashmap" where
  "RDB_init_hashmap cap = \<lparr>tab = RDB_init_hashtable cap hash_str str_equals\<rparr>"

text \<open>A search entry: only its key is set.\<close>

definition search_entry :: "string \<Rightarrow> 'v kv_pair" where
  "search_entry k = \<lparr>kv_key = k, valuep = None\<rparr>"

definition RDB_hashmap_put ::
  "'v hashmap \<Rightarrow> string \<Rightarrow> 'v option \<Rightarrow> mem \<Rightarrow> (errcode \<times> 'v hashmap \<times> mem) option" where
  "RDB_hashmap_put hm k valp m =
     (case RDB_hashtable_get (tab hm) (search_entry k) () of
        Some e \<Rightarrow>
          (case hashtable_find (tab hm) (search_entry k) () of
             None \<Rightarrow> None
           | Some i \<Rightarrow>
               Some (RDB_OK, hm\<lparr>tab := write_slot (tab hm) i (e\<lparr>valuep := valp\<rparr>)\<rparr>, m))
      | None \<Rightarrow>
          (case malloc m of
             (None, m1) \<Rightarrow> Some (ENOMEM, hm, m1)
           | (Some _, m1) \<Rightarrow>
               (case RDB_dup_str k m1 of
                  (None, m2) \<Rightarrow> Some (ENOMEM, hm, m2)
                | (Some k', m2) \<Rightarrow>
                    (case RDB_hashtable_put (tab hm) \<lparr>kv_key = k', valuep = valp\<rparr> () m2 of
                       None \<Rightarrow> None
                     | Some (ret, t, m3) \<Rightarrow> Some (ret, hm\<lparr>tab := t\<rparr>, m3)))))"

definition RDB_hashmap_get :: "'v hashmap \<Rightarrow> string \<Rightarrow> 'v option" where
  "RDB_hashmap_get hm k =
     (case RDB_hashtable_get (tab hm) (search_entry k) () of
        None \<Rightarrow> None
      | Some e \<Rightarrow> valuep e)"

definition RDB_hashmap_size :: "'v hashmap \<Rightarrow> nat" where
  "RDB_hashmap_size hm = RDB_hashtable_size (tab hm)"

definition RDB_hashmap_keys :: "'v hashmap \<Rightarrow> string list result" where
  "RDB_hashmap_keys hm =
     (case hashtable_entries (tab hm) of Inl f \<Rightarrow> Inl f | Inr es \<Rightarrow> Inr (map kv_key es))"

definition RDB_clear_hashmap :: "'v hashmap \<Rightarrow> 'v hashmap" where
  "RDB_clear_hashmap hm = hm\<lparr>tab := RDB_clear_hashtable (tab hm)\<rparr>"

text \<open>\<^verbatim>\<open>RDB_hashmap_next\<close> yields the next key and stores the value.\<close>

definition RDB_hashmap_next ::
  "('v kv_pair, unit) hashtable_iter \<Rightarrow>
     ((string \<times> 'v option) option \<times> ('v kv_pair, unit) hashtable_iter) result" where
  "RDB_hashmap_next it =
     (case RDB_hashtable_next it of
        Inl f \<Rightarrow> Inl f
      | Inr (None, it') \<Rightarrow> Inr (None, it')
      | Inr (Some e, it') \<Rightarrow> Inr (Some (kv_key e, valuep e), it'))"

section \<open>The hash map as a map\<close>

interpretation kv: hash_key "\<lambda>e. RDB_hash_str (kv_key e)" "\<lambda>e f. kv_key e = kv_key f"
  by unfold_locales auto

definition hashmap_inv :: "'v hashmap \<Rightarrow> bool" where
  "hashmap_inv hm \<longleftrightarrow>
     hashtable_inv (\<lambda>e. RDB_hash_str (kv_key e)) (\<lambda>e f. kv_key e = kv_key f) (tab hm)
     \<and> hfnp (tab hm) = hash_str \<and> efnp (tab hm) = str_equals"

text \<open>The abstraction: which keys are present, and with which pointer.\<close>

definition hashmap_abs :: "'v hashmap \<Rightarrow> string \<Rightarrow> 'v option option" where
  "hashmap_abs hm k = map_option valuep (RDB_hashtable_get (tab hm) (search_entry k) ())"

lemma uses_hashmap:
  "hfnp t = hash_str \<Longrightarrow> efnp t = str_equals \<Longrightarrow>
   uses_functions (\<lambda>e. RDB_hash_str (kv_key e)) (\<lambda>e f. kv_key e = kv_key f) () t"
  by (simp add: uses_functions_def hash_str_def str_equals_def)

lemma search_entry_key [simp]: "kv_key (search_entry k) = k"
  by (simp add: search_entry_def)

lemma hashmap_get_abs: "RDB_hashmap_get hm k = Option.bind (hashmap_abs hm k) id"
  by (simp add: RDB_hashmap_get_def hashmap_abs_def split: option.split)

lemma hashmap_inv_init: "0 < cap \<Longrightarrow> hashmap_inv (RDB_init_hashmap cap)"
  using kv.hashtable_inv_init[of cap hash_str str_equals]
  by (simp add: hashmap_inv_def RDB_init_hashmap_def RDB_init_hashtable_def)

lemma hashmap_abs_init [simp]: "hashmap_abs (RDB_init_hashmap cap) = Map.empty"
  by (simp add: hashmap_abs_def RDB_init_hashmap_def RDB_init_hashtable_def RDB_hashtable_get_def
      fun_eq_iff)

text \<open>Overwriting the value of the entry that a search found keeps the table well formed.\<close>

lemma write_slot_correct:
  assumes inv: "hashmap_inv hm" and find: "hashtable_find (tab hm) (search_entry k) () = Some i"
    and e: "kv_key e = k" and old: "RDB_hashtable_get (tab hm) (search_entry k) () = Some e0"
  shows "hashmap_inv (hm\<lparr>tab := write_slot (tab hm) i e\<rparr>)"
    and "hashtable_set (write_slot (tab hm) i e) = insert e {f \<in> hashtable_set (tab hm). kv_key f \<noteq> k}"
  using kv.write_slot_inv[OF _ _ find old, of e] inv e
  by (auto simp: hashmap_inv_def uses_functions_def hash_str_def str_equals_def search_entry_def write_slot_def)

lemma hashmap_abs_iff:
  "hashmap_inv hm \<Longrightarrow>
   hashmap_abs hm k = Some v \<longleftrightarrow> (\<exists>e \<in> hashtable_set (tab hm). kv_key e = k \<and> valuep e = v)"
  using kv.get_iff[of "tab hm" "()" "search_entry k"] uses_hashmap[of "tab hm"]
  by (auto simp: hashmap_abs_def hashmap_inv_def)

lemma hashmap_abs_upd:
  assumes "hashmap_inv hm" "hashmap_inv hm'" "kv_key e = k" "valuep e = v"
    and set: "hashtable_set (tab hm') = insert e {f \<in> hashtable_set (tab hm). kv_key f \<noteq> k}"
  shows "hashmap_abs hm' = (hashmap_abs hm)(k \<mapsto> v)"
proof (rule ext, rule option_eqI)
  fix x w
  show "hashmap_abs hm' x = Some w \<longleftrightarrow> ((hashmap_abs hm)(k \<mapsto> v)) x = Some w"
    using assms(1-4) set hashmap_abs_iff[OF assms(1), of x w] hashmap_abs_iff[OF assms(2), of x w]
    by auto
qed

lemma hashmap_put_fails:
  "RDB_hashmap_put hm k v m = Some (c, hm', m') \<Longrightarrow> fails m = [] \<Longrightarrow> fails m' = []"
  by (auto simp: RDB_hashmap_put_def RDB_dup_str_def malloc_ok split: option.splits prod.splits dest!: hashtable_put_mem simp: mem_le_def)

lemma hashmap_put_cases:
  assumes inv: "hashmap_inv hm"
  shows "(\<exists>hm' m'. RDB_hashmap_put hm k v m = Some (RDB_OK, hm', m')
            \<and> hashmap_inv hm' \<and> hashmap_abs hm' = (hashmap_abs hm)(k \<mapsto> v))
       \<or> (\<exists>hm' m'. RDB_hashmap_put hm k v m = Some (ENOMEM, hm', m') \<and> fails m \<noteq> [])"
proof (cases "RDB_hashtable_get (tab hm) (search_entry k) ()")
  case (Some e)
  then obtain i where i: "hashtable_find (tab hm) (search_entry k) () = Some i"
    by (auto simp: RDB_hashtable_get_def split: option.splits)
  have "e \<in> hashtable_set (tab hm) \<and> kv_key e = k"
    using kv.get_iff[of "tab hm" "()" "search_entry k" e] uses_hashmap[of "tab hm"] inv Some
    by (simp add: hashmap_inv_def)
  then have k: "kv_key (e\<lparr>valuep := v\<rparr>) = k" by simp
  note w = write_slot_correct[OF inv i k Some]
  show ?thesis
    using w hashmap_abs_upd[OF inv w(1) k _ , of v] Some i by (simp add: RDB_hashmap_put_def)
next
  case None
  obtain r1 m1 where m1: "malloc m = (r1, m1)" by (meson surj_pair)
  obtain r2 m2 where m2: "RDB_dup_str k m1 = (r2, m2)" by (meson surj_pair)
  have nofail: "fails m = [] \<Longrightarrow> r1 \<noteq> None \<and> r2 \<noteq> None \<and> fails m2 = []"
    using m1 m2 by (auto simp: malloc_def RDB_dup_str_def)
  let ?e = "\<lparr>kv_key = k, valuep = v\<rparr>"
  have r2: "r2 = None \<or> r2 = Some k" using m2 by (rule dup_str_result)
  have uses: "hashtable_inv (\<lambda>e. RDB_hash_str (kv_key e)) (\<lambda>e f. kv_key e = kv_key f) (tab hm)"
    "uses_functions (\<lambda>e. RDB_hash_str (kv_key e)) (\<lambda>e f. kv_key e = kv_key f) () (tab hm)"
    using inv uses_hashmap[of "tab hm"] by (auto simp: hashmap_inv_def)
  from kv.put_cases[OF uses, of ?e m2]
  show ?thesis
  proof
    assume "\<exists>t' m'. RDB_hashtable_put (tab hm) ?e () m2 = Some (RDB_OK, t', m')
            \<and> hashtable_inv (\<lambda>e. RDB_hash_str (kv_key e)) (\<lambda>e f. kv_key e = kv_key f) t'
            \<and> uses_functions (\<lambda>e. RDB_hash_str (kv_key e)) (\<lambda>e f. kv_key e = kv_key f) () t'
            \<and> hashtable_set t' = insert ?e {f \<in> hashtable_set (tab hm). kv_key f \<noteq> kv_key ?e}"
    then obtain t' m' where put: "RDB_hashtable_put (tab hm) ?e () m2 = Some (RDB_OK, t', m')"
      and t': "hashtable_inv (\<lambda>e. RDB_hash_str (kv_key e)) (\<lambda>e f. kv_key e = kv_key f) t'"
      and set: "hashtable_set t' = insert ?e {f \<in> hashtable_set (tab hm). kv_key f \<noteq> k}"
      by auto
    have fns: "hfnp t' = hash_str" "efnp t' = str_equals"
      using put_keeps_functions[OF put] inv by (simp_all add: hashmap_inv_def)
    have inv': "hashmap_inv (hm\<lparr>tab := t'\<rparr>)" using t' fns by (simp add: hashmap_inv_def)
    have "hashmap_abs (hm\<lparr>tab := t'\<rparr>) = (hashmap_abs hm)(k \<mapsto> v)"
      by (rule hashmap_abs_upd[OF inv inv', of ?e]) (simp_all add: set)
    then show ?thesis
      using None m1 m2 r2 put inv' nofail by (cases r1) (auto simp: RDB_hashmap_put_def)
  next
    assume "\<exists>t' m'. RDB_hashtable_put (tab hm) ?e () m2 = Some (ENOMEM, t', m')
         \<and> entries t' = None \<and> entry_count t' = entry_count (tab hm) \<and> fails m2 \<noteq> []"
    then show ?thesis
      using None m1 m2 r2 nofail by (cases r1) (auto simp: RDB_hashmap_put_def)
  qed
qed

lemma hashmap_put_ok:
  assumes "hashmap_inv hm" "RDB_hashmap_put hm k v m = Some (RDB_OK, hm', m')"
  shows "hashmap_inv hm'" "hashmap_abs hm' = (hashmap_abs hm)(k \<mapsto> v)"
  using hashmap_put_cases[OF assms(1), of k v m] assms(2) by auto

lemma hashmap_put_succeeds:
  assumes "hashmap_inv hm" "fails m = []"
  shows "\<exists>hm' m'. RDB_hashmap_put hm k v m = Some (RDB_OK, hm', m')"
  using hashmap_put_cases[OF assms(1), of k v m] assms(2) by auto

lemma hashmap_clear:
  assumes "hashmap_inv hm"
  shows "hashmap_inv (RDB_clear_hashmap hm)" "hashmap_abs (RDB_clear_hashmap hm) = Map.empty"
  using assms kv.hashtable_inv_clear[of "tab hm"]
  by (auto simp: hashmap_inv_def RDB_clear_hashmap_def RDB_clear_hashtable_def hashmap_abs_def
      RDB_hashtable_get_def)

text \<open>The keys are listed without repetition: they are the domain of the abstract map.\<close>

lemma hashmap_keys_correct:
  assumes inv: "hashmap_inv hm"
  shows "\<exists>ks. RDB_hashmap_keys hm = Inr ks \<and> set ks = dom (hashmap_abs hm)
     \<and> length ks = RDB_hashmap_size hm"
proof -
  obtain es where es: "hashtable_entries (tab hm) = Inr es" "set es = hashtable_set (tab hm)"
    "length es = RDB_hashtable_size (tab hm)"
    using entries_set inv unfolding hashmap_inv_def by blast
  have "kv_key ` set es = dom (hashmap_abs hm)"
    using hashmap_abs_iff[OF inv] es(2) by (force simp: dom_def)
  then show ?thesis
    using es by (simp add: RDB_hashmap_keys_def RDB_hashmap_size_def)
qed

section \<open>Properties\<close>


text \<open>A table with room for four numbers, all with the same hash value.\<close>

definition number_table :: "(nat, unit) hashtable" where
  "number_table = RDB_init_hashtable 4 (\<lambda>e a. 0) (\<lambda>e f a. e = f)"

lemma number_key: "hash_key (\<lambda>e :: nat. 0) (=)"
  by unfold_locales auto


text \<open>
  When the table cannot be enlarged because memory is short, it loses all its entries,
  while it still counts them.
\<close>

theorem failed_rehash_loses_entries:
  assumes "hash_key hf eq" "hashtable_inv hf eq t" "uses_functions hf eq arg t"
    and "RDB_hashtable_put t e arg m = Some (ENOMEM, t', m')"
  shows "(\<forall>x. RDB_hashtable_get t' x arg = None) \<and> RDB_hashtable_size t' = RDB_hashtable_size t"
  using hash_key.put_cases[OF assms(1-3), of e m] hash_key.get_empty[OF assms(1), of t'] assms(4)
  by (auto simp: RDB_hashtable_size_def)

theorem failed_rehash_loses_entries_witness:
  "\<exists>t t' m'. RDB_hashtable_get t 5 () = Some (5 :: nat)
     \<and> RDB_hashtable_put t 6 () \<lparr>fails = [True], next_addr = 1\<rparr> = Some (ENOMEM, t', m')
     \<and> RDB_hashtable_get t' 5 () = None \<and> RDB_hashtable_size t' = 1"
proof -
  let ?t = "\<lparr>entries = Some [Some 5], capacity = 1, entry_count = 1, hfnp = \<lambda>e a. 0, efnp = \<lambda>e f a. e = f\<rparr> :: (nat, unit) hashtable"
  have inv: "hashtable_inv (\<lambda>e. 0) (=) ?t" "uses_functions (\<lambda>e. 0) (=) () ?t"
    by (simp_all add: hashtable_inv_def slots_inv_def slots_used_def path_ok_def slots_uniq_def uses_functions_def)
  have get: "RDB_hashtable_get ?t 5 () = Some 5" by code_simp
  obtain t' m' where run: "RDB_hashtable_put ?t 6 () \<lparr>fails = [True], next_addr = 1\<rparr> = Some (ENOMEM, t', m')"
    by (simp add: RDB_hashtable_put_def malloc_def)
  have "RDB_hashtable_get t' 5 () = None \<and> RDB_hashtable_size t' = 1"
    using failed_rehash_loses_entries[OF number_key inv run] by (simp add: RDB_hashtable_size_def)
  then show ?thesis using get run by blast
qed



lemma distinct_keys_slots:
  "slots_uniq (\<lambda>e f. kv_key e = kv_key f) es \<Longrightarrow> distinct (map kv_key (map the (filter (\<lambda>s. s \<noteq> None) es)))"
proof (induction es)
  case (Cons s es)
  then have IH: "distinct (map kv_key (map the (filter (\<lambda>s. s \<noteq> None) es)))"
    using slots_uniq_tail by blast
  show ?case
  proof (cases s)
    case (Some e)
    have "set (map the (filter (\<lambda>s. s \<noteq> None) es)) \<subseteq> slot_set es" by (force simp: slot_set_def)
    then have "kv_key e \<noteq> kv_key f" if "f \<in> set (map the (filter (\<lambda>s. s \<noteq> None) es))" for f
      using slots_uniq_head[of _ e es f] Cons.prems Some that by blast
    then show ?thesis using IH Some by (auto simp: image_iff)
  qed (use IH in simp)
qed simp

text \<open>The keys of a string map are listed completely and without repetition.\<close>

theorem hashmap_keys_complete:
  assumes "hashmap_inv hm"
  shows "\<exists>ks. RDB_hashmap_keys hm = Inr ks \<and> set ks = dom (hashmap_abs hm) \<and> distinct ks
    \<and> length ks = RDB_hashmap_size hm"
proof -
  obtain ks where ks: "RDB_hashmap_keys hm = Inr ks" "set ks = dom (hashmap_abs hm)" "length ks = RDB_hashmap_size hm"
    using hashmap_keys_correct[OF assms] by blast
  have "hashtable_inv (\<lambda>e. RDB_hash_str (kv_key e)) (\<lambda>e f. kv_key e = kv_key f) (tab hm)"
    using assms by (simp add: hashmap_inv_def)
  note ent = entries_correct[OF this] this
  have "distinct ks"
  proof (cases "entries (tab hm)")
    case None
    then show ?thesis using ks(1) ent(1) by (simp add: RDB_hashmap_keys_def)
  next
    case (Some es)
    then have "ks = map kv_key (map the (filter (\<lambda>s. s \<noteq> None) es))"
      using ks(1) ent(1) by (simp add: RDB_hashmap_keys_def)
    moreover have "slots_uniq (\<lambda>e f. kv_key e = kv_key f) es"
      using ent(2) Some by (simp add: hashtable_inv_def slots_inv_def)
    ultimately show ?thesis using distinct_keys_slots by blast
  qed
  then show ?thesis using ks by blast
qed

theorem hashmap_keys_complete_witness:
  "RDB_hashmap_keys (RDB_init_hashmap 16 :: bool hashmap) = Inr []"
  using hashmap_keys_complete[OF hashmap_inv_init[of 16]] by auto

end
