(* ===== verification/Tuples.thy ===== *)
theory Tuples
  imports Objects Hashmap
begin

text \<open>
  Tuples and arrays of \<^verbatim>\<open>obj/tuple.c\<close> and \<^verbatim>\<open>obj/array.c\<close>, and the copying of values.  A tuple
  is a hash table from names to values.
\<close>

section \<open>Calls that change an object\<close>

text \<open>A call that changes an object leaves it in some state when it fails, too.\<close>

type_synonym 'v change = "mem \<Rightarrow> unit result \<times> 'v \<times> mem"

definition changed :: "'v \<Rightarrow> 'v change" where
  "changed v m = (Inr (), v, m)"

definition failing :: "unit result \<Rightarrow> 'v \<Rightarrow> 'v change" where
  "failing r v m = (r, v, m)"

definition and_then_change :: "'v change \<Rightarrow> ('v \<Rightarrow> 'v change) \<Rightarrow> 'v change" where
  "and_then_change f g m = (case f m of (Inl e, v, m') \<Rightarrow> (Inl e, v, m') | (Inr _, v, m') \<Rightarrow> g v m')"

text \<open>A call that leaves the object as it is when it fails.\<close>

definition or_keep :: "'v \<Rightarrow> 'v action \<Rightarrow> 'v change" where
  "or_keep v f m = (case f m of (Inl e, m') \<Rightarrow> (Inl e, v, m') | (Inr v', m') \<Rightarrow> (Inr (), v', m'))"

lemma and_then_change_cong [fundef_cong]:
  "f = f' \<Longrightarrow> (\<And>x. g x = g' x) \<Longrightarrow> and_then_change f g = and_then_change f' g'"
  by (rule arg_cong2[where f = and_then_change]) auto

section \<open>Destroying a value\<close>

text \<open>
  Freeing memory is not observable, but the iteration over the table of a tuple whose array
  of slots was lost follows a null pointer.
\<close>

function (sequential) RDB_destroy_obj :: "rdb_obj \<Rightarrow> unit result"
  and destroy_slots :: "(string \<times> rdb_obj) option list \<Rightarrow> unit result"
  and destroy_elems :: "rdb_obj list \<Rightarrow> unit result" where
  "RDB_destroy_obj (Obj t i (TupleV None cap n)) = (if n = 0 then Inr () else Inl Segfault)"
| "RDB_destroy_obj (Obj t i (TupleV (Some slots) cap n)) = (if n = 0 then Inr () else destroy_slots slots)"
| "RDB_destroy_obj (Obj t i (ArrayV len cap es)) = destroy_elems es"
| "RDB_destroy_obj _ = Inr ()"
| "destroy_slots [] = Inr ()"
| "destroy_slots (None # slots) = destroy_slots slots"
| "destroy_slots (Some (k, v) # slots) = rbind (RDB_destroy_obj v) (\<lambda>_. destroy_slots slots)"
| "destroy_elems [] = Inr ()"
| "destroy_elems (v # vs) = rbind (RDB_destroy_obj v) (\<lambda>_. destroy_elems vs)"
  by pat_completeness auto

termination
  by (relation "measure (case_sum size (case_sum (size_list (size_option (size_prod (\<lambda>_. 0) size))) (size_list size)))") auto

section \<open>The table of a tuple\<close>

type_synonym tuple_entry = "string \<times> rdb_obj"

definition RDB_TUPLE_CAPACITY :: nat where "RDB_TUPLE_CAPACITY = 31"

definition hash_entry :: "tuple_entry \<Rightarrow> unit \<Rightarrow> u32" where
  "hash_entry e arg = RDB_hash_str (fst e)"

definition entry_equals :: "tuple_entry \<Rightarrow> tuple_entry \<Rightarrow> unit \<Rightarrow> bool" where
  "entry_equals e1 e2 arg \<longleftrightarrow> fst e1 = fst e2"

definition init_tuple :: "(tuple_entry, unit) hashtable" where
  "init_tuple = RDB_init_hashtable RDB_TUPLE_CAPACITY hash_entry entry_equals"

definition tuple_tab :: "rdb_obj \<Rightarrow> (tuple_entry, unit) hashtable result" where
  "tuple_tab tplp =
     (case val_of tplp of
        Initial \<Rightarrow> Inr init_tuple
      | TupleV slots cap n \<Rightarrow> Inr \<lparr>entries = slots, capacity = cap, entry_count = n, hfnp = hash_entry, efnp = entry_equals\<rparr>
      | _ \<Rightarrow> Inl Segfault)"

definition with_tab :: "rdb_obj \<Rightarrow> (tuple_entry, unit) hashtable \<Rightarrow> rdb_obj" where
  "with_tab tplp t = Obj (typ_of tplp) (impl_of tplp) (TupleV (entries t) (capacity t) (entry_count t))"

definition search_key :: "string \<Rightarrow> tuple_entry" where
  "search_key name = (name, RDB_init_obj)"

definition provide_entry :: "rdb_obj \<Rightarrow> string \<Rightarrow> rdb_obj change" where
  "provide_entry tplp attrname m =
     (case tuple_tab tplp of
        Inl e \<Rightarrow> (Inl e, tplp, m)
      | Inr t \<Rightarrow>
         (case RDB_hashtable_get t (search_key attrname) () of
            Some _ \<Rightarrow> (Inr (), with_tab tplp t, m)
          | None \<Rightarrow>
             (case and_then RDB_alloc (\<lambda>_. dup_name attrname) m of
                (Inl e, m1) \<Rightarrow> (Inl e, with_tab tplp t, m1)
              | (Inr key, m1) \<Rightarrow>
                 (case RDB_hashtable_put t (key, RDB_init_obj) () m1 of
                    None \<Rightarrow> (Inl Diverges, with_tab tplp t, m1)
                  | Some (ret, t', m') \<Rightarrow> (if ret = RDB_OK then Inr () else Inl Silent, with_tab tplp t', m')))))"

definition RDB_tuple_get :: "rdb_obj \<Rightarrow> string \<Rightarrow> rdb_obj option result" where
  "RDB_tuple_get tplp attrname =
     (if val_of tplp = Initial then Inr None
      else rbind (tuple_tab tplp) (\<lambda>t. Inr (map_option snd (RDB_hashtable_get t (search_key attrname) ()))))"

text \<open>Writing the value of an entry through the pointer to it.\<close>

definition store_attr :: "rdb_obj \<Rightarrow> string \<Rightarrow> rdb_obj \<Rightarrow> rdb_obj result" where
  "store_attr tplp attrname v =
     rbind (tuple_tab tplp) (\<lambda>t.
       case hashtable_find t (search_key attrname) () of
         None \<Rightarrow> Inl Segfault
       | Some i \<Rightarrow> Inr (with_tab tplp (write_slot t i (attrname, v))))"

text \<open>What the functions that set an attribute share: the entry is provided and its value changed.\<close>

definition with_entry :: "rdb_obj \<Rightarrow> string \<Rightarrow> (rdb_obj \<Rightarrow> rdb_obj change) \<Rightarrow> rdb_obj change" where
  "with_entry tplp attrname f =
     and_then_change (provide_entry tplp attrname) (\<lambda>tplp' m.
       case RDB_tuple_get tplp' attrname of
         Inl e \<Rightarrow> (Inl e, tplp', m)
       | Inr None \<Rightarrow> (Inl Segfault, tplp', m)
       | Inr (Some v) \<Rightarrow>
           (case f v m of (r, v', m') \<Rightarrow>
              (case store_attr tplp' attrname v' of
                 Inl e \<Rightarrow> (Inl e, tplp', m')
               | Inr tplp'' \<Rightarrow> (r, tplp'', m'))))"

definition RDB_tuple_set_bool :: "rdb_obj \<Rightarrow> string \<Rightarrow> bool \<Rightarrow> rdb_obj change" where
  "RDB_tuple_set_bool tplp attrname v = with_entry tplp attrname (\<lambda>dst. or_keep dst (RDB_bool_to_obj dst v))"

definition RDB_tuple_set_int :: "rdb_obj \<Rightarrow> string \<Rightarrow> i32 \<Rightarrow> rdb_obj change" where
  "RDB_tuple_set_int tplp attrname v = with_entry tplp attrname (\<lambda>dst. or_keep dst (RDB_int_to_obj dst v))"

definition RDB_tuple_set_float :: "rdb_obj \<Rightarrow> string \<Rightarrow> double \<Rightarrow> rdb_obj change" where
  "RDB_tuple_set_float tplp attrname v = with_entry tplp attrname (\<lambda>dst. or_keep dst (RDB_float_to_obj dst v))"

definition RDB_tuple_set_string :: "platform \<Rightarrow> rdb_obj \<Rightarrow> string \<Rightarrow> string \<Rightarrow> rdb_obj change" where
  "RDB_tuple_set_string P tplp attrname str = with_entry tplp attrname (\<lambda>dst. or_keep dst (RDB_string_to_obj P dst str))"

text \<open>The functions that read an attribute do not check that it is there.\<close>

definition attr_value :: "(rdb_obj \<Rightarrow> 'a result) \<Rightarrow> rdb_obj \<Rightarrow> string \<Rightarrow> 'a result" where
  "attr_value read tplp attrname =
     rbind (RDB_tuple_get tplp attrname) (\<lambda>v. case v of None \<Rightarrow> Inl Segfault | Some v \<Rightarrow> read v)"

definition RDB_tuple_get_bool :: "rdb_obj \<Rightarrow> string \<Rightarrow> bool result" where "RDB_tuple_get_bool = attr_value RDB_obj_bool"
definition RDB_tuple_get_int :: "rdb_obj \<Rightarrow> string \<Rightarrow> i32 result" where "RDB_tuple_get_int = attr_value RDB_obj_int"
definition RDB_tuple_get_float :: "rdb_obj \<Rightarrow> string \<Rightarrow> double result" where "RDB_tuple_get_float = attr_value RDB_obj_float"
definition RDB_tuple_get_string :: "rdb_obj \<Rightarrow> string \<Rightarrow> string result" where "RDB_tuple_get_string = attr_value RDB_obj_string"

definition RDB_tuple_size :: "rdb_obj \<Rightarrow> int result" where
  "RDB_tuple_size tplp =
     (if val_of tplp = Initial then Inr 0 else rbind (tuple_tab tplp) (\<lambda>t. Inr (to_int (int (RDB_hashtable_size t)))))"

definition RDB_tuple_attr_names :: "rdb_obj \<Rightarrow> string list result" where
  "RDB_tuple_attr_names tplp =
     (if val_of tplp = Initial then Inr []
      else rbind (tuple_tab tplp) (\<lambda>t. rbind (hashtable_entries t) (\<lambda>es. Inr (map fst es))))"

definition RDB_is_tuple :: "rdb_obj \<Rightarrow> bool" where
  "RDB_is_tuple objp =
     (case typ_of objp of Some t \<Rightarrow> RDB_type_is_tuple t
      | None \<Rightarrow> kind_of (val_of objp) = RDB_OB_TUPLE \<or> kind_of (val_of objp) = RDB_OB_INITIAL)"

section \<open>Arrays\<close>

text \<open>The loop that initializes the new elements starts at the capacity.\<close>

definition RDB_enlarge_array_buf :: "rdb_obj \<Rightarrow> i32 \<Rightarrow> rdb_obj change" where
  "RDB_enlarge_array_buf arrp len =
     (case val_of arrp of
        ArrayV n cap es \<Rightarrow>
          or_keep arrp (and_then RDB_realloc (\<lambda>_.
            if cap < 0 then end_with (Inl Segfault)
            else done_with (Obj (typ_of arrp) (impl_of arrp)
              (ArrayV n (sint len) (take (nat (sint len)) es @ replicate (nat (sint len) - length es) RDB_init_obj)))))
      | _ \<Rightarrow> failing (Inl Segfault) arrp)"

definition RDB_array_get :: "rdb_obj \<Rightarrow> i32 \<Rightarrow> rdb_obj action" where
  "RDB_array_get arrp idx =
     (case val_of arrp of
        ArrayV n cap es \<Rightarrow>
          if sint idx < 0 \<or> sint idx \<ge> sint n then raise_error NOT_FOUND_ERROR ''out of range''
          else if nat (sint idx) < length es then done_with (es ! nat (sint idx)) else end_with (Inl Segfault)
      | _ \<Rightarrow> end_with (Inl Segfault))"

definition RDB_array_length :: "rdb_obj \<Rightarrow> i32 result" where
  "RDB_array_length arrp = (case val_of arrp of Initial \<Rightarrow> Inr 0 | ArrayV n cap es \<Rightarrow> Inr n | _ \<Rightarrow> Inl Segfault)"

text \<open>
  The length is not checked: when an array is shortened to less than nothing the loop leaves
  the elements.  When the block of a new array cannot be allocated its length is not set.
\<close>

definition array_obj :: "rdb_obj \<Rightarrow> i32 \<Rightarrow> int \<Rightarrow> rdb_obj list \<Rightarrow> rdb_obj" where
  "array_obj arrp n cap es = Obj (typ_of arrp) (impl_of arrp) (ArrayV n cap es)"

definition RDB_set_array_length :: "platform \<Rightarrow> rdb_obj \<Rightarrow> i32 \<Rightarrow> rdb_obj change" where
  "RDB_set_array_length P arrp len =
     (case val_of arrp of
        Initial \<Rightarrow>
          if sint len > 0
          then or_keep (array_obj arrp (stale P 0) (sint (stale P 1)) [])
                 (and_then RDB_alloc (\<lambda>_. done_with (array_obj arrp len (sint len) (replicate (nat (sint len)) RDB_init_obj))))
          else changed (array_obj arrp len (sint len) [])
      | ArrayV n cap es \<Rightarrow>
          if sint len < sint n then
            if sint len < 0 then failing (Inl Segfault) arrp
            else case destroy_elems (drop (nat (sint len)) es) of
                Inl e \<Rightarrow> failing (Inl e) arrp
              | Inr _ \<Rightarrow>
                  let arrp' = array_obj arrp len (sint len) (take (nat (sint len)) es)
                  in if sint len > 0 then or_keep arrp' (and_then RDB_realloc (\<lambda>_. done_with arrp')) else changed arrp'
          else if sint len > sint n then
            and_then_change (RDB_enlarge_array_buf arrp len) (\<lambda>a.
              case val_of a of ArrayV _ cap' es' \<Rightarrow> changed (array_obj a len cap' es') | _ \<Rightarrow> changed a)
          else changed arrp
      | _ \<Rightarrow> failing (Inl Segfault) arrp)"

text \<open>Writing an element; a negative index is not checked.\<close>

definition with_elem :: "rdb_obj \<Rightarrow> i32 \<Rightarrow> (rdb_obj \<Rightarrow> rdb_obj change) \<Rightarrow> rdb_obj change" where
  "with_elem arrp idx f m =
     (case val_of arrp of
        ArrayV n cap es \<Rightarrow>
          if sint idx \<ge> sint n then or_keep arrp (raise_error NOT_FOUND_ERROR ''index out of bounds'') m
          else if sint idx < 0 \<or> nat (sint idx) \<ge> length es then (Inl Segfault, arrp, m)
          else (case f (es ! nat (sint idx)) m of (r, v, m') \<Rightarrow> (r, array_obj arrp n cap (es[nat (sint idx) := v]), m'))
      | _ \<Rightarrow> (Inl Segfault, arrp, m))"

definition RDB_is_array :: "rdb_obj \<Rightarrow> bool" where
  "RDB_is_array objp =
     (case typ_of objp of Some t \<Rightarrow> RDB_type_is_array t | None \<Rightarrow> kind_of (val_of objp) = RDB_OB_ARRAY)"

section \<open>Matching values with types\<close>

fun forall_a :: "('a \<Rightarrow> bool action) \<Rightarrow> 'a list \<Rightarrow> bool action" where
  "forall_a p [] = done_with True"
| "forall_a p (x # xs) = and_then (p x) (\<lambda>b. if b then forall_a p xs else done_with False)"

lemma forall_a_cong [fundef_cong]:
  assumes "xs = ys" "\<And>x. x \<in> set ys \<Longrightarrow> f x = g x"
  shows "forall_a f xs = forall_a g ys"
  unfolding assms(1) using assms(2)
proof (induction ys)
  case (Cons y ys)
  then have "f y = g y" "forall_a f ys = forall_a g ys" by simp_all
  then show ?case by (simp cong: if_cong)
qed simp

text \<open>
  The element of an array is fetched with a local context: if the array is empty, the answer
  depends on whether the error for that could be raised.
\<close>

definition first_elem :: "rdb_obj \<Rightarrow> rdb_obj option result action" where
  "first_elem arrp m =
     (case RDB_array_get arrp 0 m of
        (Inr v, m') \<Rightarrow> (Inr (Inr (Some v)), m')
      | (Inl (Raised e), m') \<Rightarrow> (Inr (if err_type e = NOT_FOUND_ERROR then Inr None else Inl (Raised e)), m')
      | (Inl e, m') \<Rightarrow> (Inl e, m'))"

fun RDB_obj_matches_type :: "(rdb_type \<Rightarrow> rdb_type \<Rightarrow> bool) \<Rightarrow> rdb_obj \<Rightarrow> rdb_type \<Rightarrow> bool action" where
  "RDB_obj_matches_type same objp typ =
     (case RDB_obj_impl_type objp of
        Some objtyp \<Rightarrow> end_with (RDB_type_matches same objtyp typ)
      | None \<Rightarrow>
         if kind_of (val_of objp) = RDB_OB_INITIAL \<or> kind_of (val_of objp) = RDB_OB_TUPLE then
           (case typ of
              Tuple as \<Rightarrow>
                and_then (end_with (RDB_tuple_size objp)) (\<lambda>n.
                  if n \<noteq> int (length as) then done_with False
                  else forall_a (\<lambda>a. case a of
                      None \<Rightarrow> end_with (Inl Segfault)
                    | Some (name, t) \<Rightarrow>
                        and_then (end_with (RDB_tuple_get objp name)) (\<lambda>v.
                          case v of None \<Rightarrow> done_with False | Some v \<Rightarrow> RDB_obj_matches_type same v t)) as)
            | _ \<Rightarrow> done_with False)
         else if kind_of (val_of objp) = RDB_OB_ARRAY then
           (case typ of
              Array b \<Rightarrow>
                and_then (first_elem objp) (\<lambda>r.
                  case r of Inl _ \<Rightarrow> done_with False
                  | Inr None \<Rightarrow> done_with True
                  | Inr (Some v) \<Rightarrow> RDB_obj_matches_type same v b)
            | _ \<Rightarrow> done_with False)
         else end_with (Inl Crash))"

declare RDB_obj_matches_type.simps [simp del]

section \<open>Copying\<close>

text \<open>\<open>same\<close> tells whether two types are the same object.  The check of the types in \<^verbatim>\<open>check_assign_types\<close>.\<close>

definition check_copy_types :: "(rdb_type \<Rightarrow> rdb_type \<Rightarrow> bool) \<Rightarrow> rdb_obj \<Rightarrow> rdb_obj \<Rightarrow> unit action" where
  "check_copy_types same dstp srcp =
     (case typ_of dstp of
        Some t \<Rightarrow>
          if kind_of (val_of dstp) = RDB_OB_INITIAL then done_with ()
          else if RDB_type_is_scalar t \<and> typ_of srcp = None
          then raise_error INVALID_ARGUMENT_ERROR ''source lacks type information''
          else and_then (RDB_obj_matches_type same srcp t) (\<lambda>b.
            if b then done_with () else raise_error TYPE_MISMATCH_ERROR ''source does not match destination'')
      | None \<Rightarrow> done_with ())"

text \<open>The types of the copy: that of the target, or of the source, if it is scalar.\<close>

definition restored_type :: "rdb_obj \<Rightarrow> rdb_obj \<Rightarrow> rdb_type option" where
  "restored_type dstvalp srcvalp =
     (let t = (case typ_of dstvalp of None \<Rightarrow> typ_of srcvalp | Some t \<Rightarrow> Some t)
      in case t of None \<Rightarrow> None | Some t' \<Rightarrow> if RDB_type_is_scalar t' then Some t' else None)"

definition set_copied_type :: "rdb_type option \<Rightarrow> rdb_obj \<Rightarrow> rdb_obj \<Rightarrow> rdb_obj" where
  "set_copied_type restore_typ srcvalp d =
     (let typ' = (case restore_typ of Some t \<Rightarrow> Some t | None \<Rightarrow> typ_of d);
          impl' = (case (typ', typ_of srcvalp) of
             (Some t, Some u) \<Rightarrow> if RDB_type_is_dummy t then if RDB_type_is_dummy u then impl_of srcvalp else Some u else impl_of d
           | _ \<Rightarrow> impl_of d)
      in Obj typ' impl' (val_of d))"

text \<open>The bytes of a string or a block are copied to a block of the right size.\<close>

definition copy_bin :: "rdb_obj \<Rightarrow> string \<Rightarrow> rdb_obj change" where
  "copy_bin dstvalp d =
     (let res = Obj (typ_of dstvalp) (impl_of dstvalp) (BinV d) in
      case val_of dstvalp of
        BinV old \<Rightarrow>
          if length old > 0
          then if length d > 0 then or_keep dstvalp (and_then RDB_realloc (\<lambda>_. done_with res)) else changed res
          else or_keep dstvalp (and_then RDB_alloc (\<lambda>_. done_with res))
      | _ \<Rightarrow> if d = [] then changed res else or_keep dstvalp (and_then RDB_alloc (\<lambda>_. done_with res)))"

text \<open>A target of another kind is destroyed and becomes a new object.\<close>

definition fresh_target :: "rdb_obj \<Rightarrow> rdb_obj \<Rightarrow> rdb_obj change" where
  "fresh_target dstvalp srcvalp =
     (if kind_of (val_of dstvalp) \<noteq> RDB_OB_INITIAL \<and> kind_of (val_of srcvalp) \<noteq> kind_of (val_of dstvalp)
      then failing (RDB_destroy_obj dstvalp) RDB_init_obj
      else changed dstvalp)"

text \<open>
  The functions for copying call each other through \<^verbatim>\<open>RDB_copy_obj\<close>, which for values that
  are not tables checks the types and calls \<^verbatim>\<open>copy_obj\<close>.  Source and target are different
  objects.
\<close>

function (sequential) copy_obj :: "(rdb_type \<Rightarrow> rdb_type \<Rightarrow> bool) \<Rightarrow> platform \<Rightarrow> rdb_obj \<Rightarrow> rdb_obj \<Rightarrow> rdb_obj change"
  and RDB_copy_obj_data :: "(rdb_type \<Rightarrow> rdb_type \<Rightarrow> bool) \<Rightarrow> platform \<Rightarrow> rdb_obj \<Rightarrow> rdb_obj \<Rightarrow> rdb_obj change"
  and RDB_copy_tuple :: "(rdb_type \<Rightarrow> rdb_type \<Rightarrow> bool) \<Rightarrow> platform \<Rightarrow> rdb_obj \<Rightarrow> (string \<times> rdb_obj) option list \<Rightarrow> rdb_obj change"
  and RDB_copy_array :: "(rdb_type \<Rightarrow> rdb_type \<Rightarrow> bool) \<Rightarrow> platform \<Rightarrow> rdb_obj \<Rightarrow> nat \<Rightarrow> nat \<Rightarrow> rdb_obj list \<Rightarrow> rdb_obj change" where
  "copy_obj same P dstvalp srcvalp m =
     (case RDB_copy_obj_data same P dstvalp srcvalp m of
        (Inl e, d, m') \<Rightarrow> (Inl e, d, m')
      | (Inr _, d, m') \<Rightarrow> (Inr (), set_copied_type (restored_type dstvalp srcvalp) srcvalp d, m'))"
| "RDB_copy_obj_data same P dstvalp (Obj t i v) =
     and_then_change (fresh_target dstvalp (Obj t i v)) (\<lambda>dst.
       case v of
         Initial \<Rightarrow> changed dst
       | TupleV None cap n \<Rightarrow> if n = 0 then changed dst else failing (Inl Segfault) dst
       | TupleV (Some slots) cap n \<Rightarrow> if n = 0 then changed dst else RDB_copy_tuple same P dst slots
       | ArrayV n cap es \<Rightarrow>
           if n = -1 then or_keep dst (raise_error NOT_SUPPORTED_ERROR ''invalid source array'')
           else and_then_change (RDB_set_array_length P dst n) (\<lambda>d. RDB_copy_array same P d 0 (nat (sint n)) es)
       | BinV d \<Rightarrow> copy_bin dst d
       | TableV _ \<Rightarrow> failing (Inl Unmodelled) dst
       | _ \<Rightarrow> changed (Obj (typ_of dst) (impl_of dst) v))"
| "RDB_copy_tuple same P dst [] = changed dst"
| "RDB_copy_tuple same P dst (None # slots) = RDB_copy_tuple same P dst slots"
| "RDB_copy_tuple same P dst (Some (k, v) # slots) =
     and_then_change (with_entry dst k (\<lambda>old m. case RDB_destroy_obj old of
         Inl e \<Rightarrow> (Inl e, old, m)
       | Inr _ \<Rightarrow> copy_obj same P RDB_init_obj v m)) (\<lambda>d. RDB_copy_tuple same P d slots)"
| "RDB_copy_array same P dst i n [] = (if i < n then failing (Inl Segfault) dst else changed dst)"
| "RDB_copy_array same P dst i n (v # vs) =
     (if i < n
      then and_then_change (with_elem dst (of_nat i) (\<lambda>old m. case check_copy_types same old v m of
             (Inl e, m') \<Rightarrow> (Inl e, old, m')
           | (Inr _, m') \<Rightarrow> copy_obj same P old v m')) (\<lambda>d. RDB_copy_array same P d (Suc i) n vs)
      else changed dst)"
  by pat_completeness auto


termination
  by (relation "measure (case_sum (case_sum (\<lambda>(_, _, _, v, _). Suc (2 * size v)) (\<lambda>(_, _, _, v). 2 * size v))
      (case_sum (\<lambda>(_, _, _, slots). 2 * size_list (size_option (size_prod (\<lambda>_. 0) size)) slots)
        (\<lambda>(_, _, _, _, _, es). 2 * size_list size es)))") auto

declare copy_obj.simps [simp del] RDB_copy_obj_data.simps [simp del] RDB_copy_tuple.simps [simp del] RDB_copy_array.simps [simp del]

definition RDB_copy_obj :: "(rdb_type \<Rightarrow> rdb_type \<Rightarrow> bool) \<Rightarrow> platform \<Rightarrow> rdb_obj \<Rightarrow> rdb_obj \<Rightarrow> rdb_obj change" where
  "RDB_copy_obj same P dstvalp srcvalp m =
     (case check_copy_types same dstvalp srcvalp m of
        (Inl e, m') \<Rightarrow> (Inl e, dstvalp, m')
      | (Inr _, m') \<Rightarrow>
          if kind_of (val_of dstvalp) = RDB_OB_TABLE then (Inl Unmodelled, dstvalp, m')
          else copy_obj same P dstvalp srcvalp m')"

definition RDB_tuple_set ::
  "(rdb_type \<Rightarrow> rdb_type \<Rightarrow> bool) \<Rightarrow> platform \<Rightarrow> rdb_obj \<Rightarrow> string \<Rightarrow> rdb_obj option \<Rightarrow> rdb_obj change" where
  "RDB_tuple_set same P tplp attrname objp =
     with_entry tplp attrname (\<lambda>old m. case RDB_destroy_obj old of
         Inl e \<Rightarrow> (Inl e, old, m)
       | Inr _ \<Rightarrow> (case objp of None \<Rightarrow> (Inr (), RDB_init_obj, m) | Some v \<Rightarrow> RDB_copy_obj same P RDB_init_obj v m))"

definition RDB_array_set ::
  "(rdb_type \<Rightarrow> rdb_type \<Rightarrow> bool) \<Rightarrow> platform \<Rightarrow> rdb_obj \<Rightarrow> i32 \<Rightarrow> rdb_obj \<Rightarrow> rdb_obj change" where
  "RDB_array_set same P arrp idx objp = with_elem arrp idx (\<lambda>old. RDB_copy_obj same P old objp)"

section \<open>Operators on tuples\<close>

text \<open>The loop over a list of names; how an attribute is set is a parameter.\<close>

fun collect_attrs :: "(rdb_obj \<Rightarrow> string \<Rightarrow> rdb_obj \<Rightarrow> rdb_obj change) \<Rightarrow> rdb_obj \<Rightarrow> string list \<Rightarrow> rdb_obj \<Rightarrow> rdb_obj change" where
  "collect_attrs set_attr tplp [] dst = changed dst"
| "collect_attrs set_attr tplp (a # as) dst =
     (case RDB_tuple_get tplp a of
        Inl e \<Rightarrow> failing (Inl e) dst
      | Inr None \<Rightarrow> or_keep dst (raise_error NAME_ERROR a)
      | Inr (Some v) \<Rightarrow> and_then_change (set_attr dst a v) (collect_attrs set_attr tplp as))"

text \<open>
  \<^verbatim>\<open>RDB_project_tuple\<close> does not look at the result of \<^verbatim>\<open>RDB_tuple_set\<close>: when it fails the loop
  goes on, unless the failure is a fault.
\<close>

definition ignoring :: "rdb_obj change \<Rightarrow> rdb_obj change" where
  "ignoring f m = (case f m of
      (Inl (Raised _), v, m') \<Rightarrow> (Inr (), v, m')
    | (Inl Silent, v, m') \<Rightarrow> (Inr (), v, m')
    | r \<Rightarrow> r)"

definition RDB_project_tuple ::
  "(rdb_type \<Rightarrow> rdb_type \<Rightarrow> bool) \<Rightarrow> platform \<Rightarrow> rdb_obj \<Rightarrow> string list \<Rightarrow> rdb_obj \<Rightarrow> rdb_obj change" where
  "RDB_project_tuple same P tplp names restplp =
     (if kind_of (val_of tplp) \<noteq> RDB_OB_TUPLE then or_keep restplp (raise_error INVALID_ARGUMENT_ERROR ''not a tuple'')
      else case RDB_destroy_obj restplp of
          Inl e \<Rightarrow> failing (Inl e) restplp
        | Inr _ \<Rightarrow>
            collect_attrs (\<lambda>dst a v. ignoring (RDB_tuple_set same P dst a (Some v))) tplp names RDB_init_obj)"

text \<open>The loops over the entries of a tuple; what is done for an entry is a parameter.\<close>

fun each_entry :: "(string \<Rightarrow> rdb_obj \<Rightarrow> rdb_obj \<Rightarrow> rdb_obj change) \<Rightarrow> tuple_entry list \<Rightarrow> rdb_obj \<Rightarrow> rdb_obj change" where
  "each_entry f [] dst = changed dst"
| "each_entry f ((k, v) # es) dst = and_then_change (f k v dst) (each_entry f es)"

definition over_entries :: "rdb_obj \<Rightarrow> (string \<Rightarrow> rdb_obj \<Rightarrow> rdb_obj \<Rightarrow> rdb_obj change) \<Rightarrow> rdb_obj \<Rightarrow> rdb_obj change" where
  "over_entries tplp f dst =
     (if kind_of (val_of tplp) \<noteq> RDB_OB_TUPLE then failing (Inl Segfault) dst
      else case rbind (tuple_tab tplp) hashtable_entries of Inl e \<Rightarrow> failing (Inl e) dst | Inr es \<Rightarrow> each_entry f es dst)"

definition RDB_remove_tuple ::
  "(rdb_type \<Rightarrow> rdb_type \<Rightarrow> bool) \<Rightarrow> platform \<Rightarrow> rdb_obj \<Rightarrow> string list \<Rightarrow> rdb_obj \<Rightarrow> rdb_obj change" where
  "RDB_remove_tuple same P tplp names restplp =
     (if kind_of (val_of tplp) \<noteq> RDB_OB_TUPLE then or_keep restplp (raise_error INVALID_ARGUMENT_ERROR ''not a tuple'')
      else case RDB_destroy_obj restplp of
          Inl e \<Rightarrow> failing (Inl e) restplp
        | Inr _ \<Rightarrow>
            over_entries tplp (\<lambda>k v dst.
              if k \<in> set names then changed dst else ignoring (RDB_tuple_set same P dst k (Some v))) RDB_init_obj)"

definition RDB_rename_tuple ::
  "(rdb_type \<Rightarrow> rdb_type \<Rightarrow> bool) \<Rightarrow> platform \<Rightarrow> rdb_obj \<Rightarrow> (string \<times> string) list \<Rightarrow> rdb_obj \<Rightarrow> rdb_obj change" where
  "RDB_rename_tuple same P tplp renv restup =
     (if kind_of (val_of tplp) \<noteq> RDB_OB_TUPLE then or_keep restup (raise_error INVALID_ARGUMENT_ERROR ''not a tuple'')
      else over_entries tplp (\<lambda>k v dst.
        RDB_tuple_set same P dst (renamed renv k) (Some v)) restup)"

text \<open>
  Wrapping tests the variable \<open>ret\<close> after a call whose result was not stored in it; if no
  attribute was wrapped before, it was never set.
\<close>

fun wrap_each ::
  "(rdb_type \<Rightarrow> rdb_type \<Rightarrow> bool) \<Rightarrow> platform \<Rightarrow> rdb_obj \<Rightarrow> int \<Rightarrow> (string list \<times> string) list \<Rightarrow> rdb_obj \<Rightarrow> rdb_obj change" where
  "wrap_each same P tplp ret [] restplp = changed restplp"
| "wrap_each same P tplp ret ((names, attrname) # wrapv) restplp =
     (\<lambda>m. case collect_attrs (\<lambda>dst a v. RDB_tuple_set same P dst a (Some v)) tplp names RDB_init_obj m of
        (Inl e, tpl, m') \<Rightarrow> (Inl e, restplp, m')
      | (Inr _, tpl, m') \<Rightarrow>
          let ret' = (if names = [] then ret else 0)
          in and_then_change (ignoring (RDB_tuple_set same P restplp attrname (Some tpl)))
               (\<lambda>rest. if ret' \<noteq> 0 then failing (Inl Silent) rest else wrap_each same P tplp ret' wrapv rest) m')"

definition RDB_wrap_tuple ::
  "(rdb_type \<Rightarrow> rdb_type \<Rightarrow> bool) \<Rightarrow> platform \<Rightarrow> rdb_obj \<Rightarrow> (string list \<times> string) list \<Rightarrow> rdb_obj \<Rightarrow> rdb_obj change" where
  "RDB_wrap_tuple same P tplp wrapv restplp =
     and_then_change (wrap_each same P tplp (sint (stale P 2)) wrapv restplp) (\<lambda>rest.
       over_entries tplp (\<lambda>k v dst.
         if \<forall>w \<in> set wrapv. k \<notin> set (fst w) then RDB_tuple_set same P dst k (Some v) else changed dst) rest)"

definition copy_tuple_obj :: "(rdb_type \<Rightarrow> rdb_type \<Rightarrow> bool) \<Rightarrow> platform \<Rightarrow> rdb_obj \<Rightarrow> rdb_obj \<Rightarrow> rdb_obj change" where
  "copy_tuple_obj same P dstp srcp =
     (case val_of srcp of
        Initial \<Rightarrow> changed dstp
      | TupleV slots cap n \<Rightarrow>
          if n = 0 then changed dstp
          else case slots of None \<Rightarrow> failing (Inl Segfault) dstp | Some sl \<Rightarrow> RDB_copy_tuple same P dstp sl
      | _ \<Rightarrow> or_keep dstp (raise_error INVALID_ARGUMENT_ERROR ''not a tuple''))"

fun unwrap_each :: "(rdb_type \<Rightarrow> rdb_type \<Rightarrow> bool) \<Rightarrow> platform \<Rightarrow> rdb_obj \<Rightarrow> string list \<Rightarrow> rdb_obj \<Rightarrow> rdb_obj change" where
  "unwrap_each same P tplp [] restplp = changed restplp"
| "unwrap_each same P tplp (a # as) restplp =
     (case RDB_tuple_get tplp a of
        Inl e \<Rightarrow> failing (Inl e) restplp
      | Inr None \<Rightarrow> or_keep restplp (raise_error NAME_ERROR a)
      | Inr (Some w) \<Rightarrow>
          if kind_of (val_of w) \<noteq> RDB_OB_TUPLE
          then or_keep restplp (raise_error INVALID_ARGUMENT_ERROR ''attribute is not tuple'')
          else and_then_change (copy_tuple_obj same P restplp w) (unwrap_each same P tplp as))"

definition RDB_unwrap_tuple ::
  "(rdb_type \<Rightarrow> rdb_type \<Rightarrow> bool) \<Rightarrow> platform \<Rightarrow> rdb_obj \<Rightarrow> string list \<Rightarrow> rdb_obj \<Rightarrow> rdb_obj change" where
  "RDB_unwrap_tuple same P tplp names restplp =
     and_then_change (unwrap_each same P tplp names restplp) (\<lambda>rest.
       over_entries tplp (\<lambda>k v dst. if k \<in> set names then changed dst else RDB_tuple_set same P dst k (Some v)) rest)"

end
