(* ===== verification/Tuple_Laws.thy ===== *)
theory Tuple_Laws
  imports Tuples
begin

text \<open>
  A tuple is a finite map from names to values, and copying keeps the value: the contract of
  the hash table, interpreted for entries that are compared by their names, gives every
  operation on tuples its effect on the map.
\<close>

section \<open>Calls that succeed unless memory is short\<close>

definition changes :: "'v change \<Rightarrow> ('v \<Rightarrow> bool) \<Rightarrow> bool" where
  "changes f Q \<longleftrightarrow> (\<forall>m. case f m of (r, v, m') \<Rightarrow>
     mem_le m m' \<and> (r = Inr () \<and> Q v \<or> fails m \<noteq> [] \<and> (r = NO_MEM \<or> r = Inl Silent)))"

named_theorems changing "calls that change an object"

lemma changesD:
  assumes "changes f Q" "f m = (r, v, m')"
  shows "mem_le m m'" "r = Inr () \<and> Q v \<or> fails m \<noteq> [] \<and> (r = NO_MEM \<or> r = Inl Silent)"
  using assms by (auto simp: changes_def dest: spec[of _ m])

lemma changesI:
  "(\<And>m r v m'. f m = (r, v, m') \<Longrightarrow> mem_le m m' \<and> (r = Inr () \<and> Q v \<or> fails m \<noteq> [] \<and> (r = NO_MEM \<or> r = Inl Silent)))
    \<Longrightarrow> changes f Q"
  by (simp add: changes_def split: prod.split)

lemma changes_changed [changing]: "Q v \<Longrightarrow> changes (changed v) Q"
  by (simp add: changes_def changed_def)

lemma changes_mono: "changes f Q \<Longrightarrow> (\<And>v. Q v \<Longrightarrow> R v) \<Longrightarrow> changes f R"
  by (rule changesI) (metis changesD)

lemma changes_and_then:
  assumes "changes f R" "\<And>v. R v \<Longrightarrow> changes (g v) Q"
  shows "changes (and_then_change f g) Q"
proof (rule changesI)
  fix m r v m' assume run: "and_then_change f g m = (r, v, m')"
  obtain r1 v1 m1 where f: "f m = (r1, v1, m1)" by (metis prod_cases3)
  note le = changesD[OF assms(1) f]
  show "mem_le m m' \<and> (r = Inr () \<and> Q v \<or> fails m \<noteq> [] \<and> (r = NO_MEM \<or> r = Inl Silent))"
  proof (cases r1)
    case (Inl e)
    then show ?thesis using run f le by (auto simp: and_then_change_def)
  next
    case (Inr u)
    then have "g v1 m1 = (r, v, m')" "R v1" using run f le by (auto simp: and_then_change_def)
    then show ?thesis using changesD[OF assms(2)] le(1) mem_le_fails[OF le(1)] mem_le_trans[OF le(1)] by blast
  qed
qed

lemma changes_or_keep:
  assumes "computes {} f (Inr x)" "Q x"
  shows "changes (or_keep v f) Q"
proof (rule changesI)
  fix m r w m' assume run: "or_keep v f m = (r, w, m')"
  obtain y m1 where f: "f m = (y, m1)" by fastforce
  from computesD[OF assms(1) f] run f assms(2)
  show "mem_le m m' \<and> (r = Inr () \<and> Q w \<or> fails m \<noteq> [] \<and> (r = NO_MEM \<or> r = Inl Silent))"
    by (cases y) (auto simp: or_keep_def)
qed

lemma changes_or_keep_alloc [changing]:
  "(\<And>a. Q x) \<Longrightarrow> changes (or_keep v (and_then RDB_alloc (\<lambda>_. done_with x))) Q"
  "(\<And>a. Q x) \<Longrightarrow> changes (or_keep v (and_then RDB_realloc (\<lambda>_. done_with x))) Q"
  by (auto intro!: changes_or_keep computing)

section \<open>The map of a tuple\<close>

interpretation te: hash_key "\<lambda>e :: tuple_entry. RDB_hash_str (fst e)" "\<lambda>e f. fst e = fst f"
  by unfold_locales auto

abbreviation tab_inv :: "(tuple_entry, unit) hashtable \<Rightarrow> bool" where
  "tab_inv \<equiv> hashtable_inv (\<lambda>e. RDB_hash_str (fst e)) (\<lambda>e f. fst e = fst f)"

abbreviation tab_fns :: "(tuple_entry, unit) hashtable \<Rightarrow> bool" where
  "tab_fns \<equiv> uses_functions (\<lambda>e. RDB_hash_str (fst e)) (\<lambda>e f. fst e = fst f) ()"

definition tuple_inv :: "rdb_obj \<Rightarrow> bool" where
  "tuple_inv tplp \<longleftrightarrow> (\<exists>t. tuple_tab tplp = Inr t \<and> tab_inv t)"

definition attrs :: "rdb_obj \<Rightarrow> string \<Rightarrow> rdb_obj option" where
  "attrs tplp name = (case RDB_tuple_get tplp name of Inr r \<Rightarrow> r | Inl _ \<Rightarrow> None)"

lemma tuple_tab_fns: "tuple_tab tplp = Inr t \<Longrightarrow> tab_fns t"
  by (auto simp: tuple_tab_def uses_functions_def init_tuple_def RDB_init_hashtable_def hash_entry_def[abs_def]
      entry_equals_def[abs_def] split: rdb_val.splits)

lemma tuple_tab_functions: "tuple_tab tplp = Inr t \<Longrightarrow> hfnp t = hash_entry \<and> efnp t = entry_equals"
  by (auto simp: tuple_tab_def init_tuple_def RDB_init_hashtable_def split: rdb_val.splits)

lemma with_tab_tab:
  "hfnp t = hash_entry \<Longrightarrow> efnp t = entry_equals \<Longrightarrow> tuple_tab (with_tab tplp t) = Inr t"
  by (simp add: tuple_tab_def with_tab_def)

lemma with_tab_simps [simp]:
  "typ_of (with_tab tplp t) = typ_of tplp" "impl_of (with_tab tplp t) = impl_of tplp"
  "kind_of (val_of (with_tab tplp t)) = RDB_OB_TUPLE" "val_of (with_tab tplp t) \<noteq> Initial"
  by (simp_all add: with_tab_def)

lemma init_tuple_inv: "tab_inv init_tuple" "hashtable_set init_tuple = {}"
  by (simp_all add: init_tuple_def RDB_TUPLE_CAPACITY_def te.hashtable_inv_init)
    (simp add: RDB_init_hashtable_def hashtable_set_def)

lemma tuple_get_tab:
  assumes "tuple_tab tplp = Inr t" "tab_inv t"
  shows "RDB_tuple_get tplp name = Inr (attrs tplp name)"
    and "attrs tplp name = Some v \<longleftrightarrow> (name, v) \<in> hashtable_set t"
proof -
  have get: "RDB_hashtable_get t (search_key name) () = Some e \<longleftrightarrow> e \<in> hashtable_set t \<and> fst e = name" for e
    using te.get_iff[OF assms(2) tuple_tab_fns[OF assms(1)], of "search_key name" e] by (simp add: search_key_def)
  have init: "val_of tplp = Initial \<Longrightarrow> hashtable_set t = {}"
    using assms(1) init_tuple_inv(2) by (simp add: tuple_tab_def)
  show "RDB_tuple_get tplp name = Inr (attrs tplp name)" using assms(1) by (simp add: attrs_def RDB_tuple_get_def)
  show "attrs tplp name = Some v \<longleftrightarrow> (name, v) \<in> hashtable_set t"
    using assms(1) init get by (force simp: attrs_def RDB_tuple_get_def)
qed

lemma attrs_eq:
  assumes "tuple_tab t1 = Inr h1" "tab_inv h1" "\<And>k v. (k, v) \<in> hashtable_set h1 \<longleftrightarrow> g k = Some v"
  shows "attrs t1 = g"
  using tuple_get_tab(2)[OF assms(1,2)] assms(3) by (intro ext option_eqI) simp


lemma provide_entry_changes:
  assumes "tuple_inv tplp"
  shows "changes (provide_entry tplp name) (\<lambda>t'. tuple_inv t' \<and> typ_of t' = typ_of tplp \<and> impl_of t' = impl_of tplp
    \<and> kind_of (val_of t') = RDB_OB_TUPLE
    \<and> attrs t' = (attrs tplp)(name \<mapsto> case attrs tplp name of None \<Rightarrow> RDB_init_obj | Some v \<Rightarrow> v))"
    (is "changes _ ?Q")
proof (rule changesI)
  fix m r t' m' assume run: "provide_entry tplp name m = (r, t', m')"
  obtain h where h: "tuple_tab tplp = Inr h" "tab_inv h" using assms by (auto simp: tuple_inv_def)
  note fns = tuple_tab_fns[OF h(1)] tuple_tab_functions[OF h(1)]
  show "mem_le m m' \<and> (r = Inr () \<and> ?Q t' \<or> fails m \<noteq> [] \<and> (r = NO_MEM \<or> r = Inl Silent))"
  proof (cases "RDB_hashtable_get h (search_key name) ()")
    case (Some e)
    then have "e \<in> hashtable_set h" "fst e = name" using te.get_iff[OF h(2) fns(1)] by (simp_all add: search_key_def)
    then have "attrs tplp name = Some (snd e)" using tuple_get_tab(2)[OF h] by (metis prod.collapse)
    moreover have "tuple_tab (with_tab tplp h) = Inr h" using with_tab_tab fns(2) by simp
    moreover from this have "attrs (with_tab tplp h) = attrs tplp"
      using attrs_eq[OF _ h(2)] tuple_get_tab(2)[OF h] by simp
    ultimately show ?thesis using run h Some by (auto simp: provide_entry_def tuple_inv_def fun_upd_idem)
  next
    case None
    then have absent: "attrs tplp name = None"
      using h(1) by (auto simp: attrs_def RDB_tuple_get_def)
    obtain x m1 where key: "and_then RDB_alloc (\<lambda>_. dup_name name) m = (x, m1)" by fastforce
    have "computes {} (and_then RDB_alloc (\<lambda>_. dup_name name)) (Inr name)" by (intro computing)
    note le = computesD[OF this key]
    show ?thesis
    proof (cases x)
      case (Inl e)
      then show ?thesis using run h None key le by (auto simp: provide_entry_def)
    next
      case (Inr k)
      then have "k = name" using le(2) by auto
      from te.put_cases[OF h(2) fns(1), of "(name, RDB_init_obj)" m1] show ?thesis
      proof (elim disjE exE conjE)
        fix h' m2 assume put: "RDB_hashtable_put h (name, RDB_init_obj) () m1 = Some (RDB_OK, h', m2)" and inv: "tab_inv h'"
          and set: "hashtable_set h' = insert (name, RDB_init_obj) {f \<in> hashtable_set h. \<not> fst f = fst (name, RDB_init_obj)}"
        have t': "tuple_tab (with_tab tplp h') = Inr h'" using put_keeps_functions[OF put] fns(2) by (intro with_tab_tab) simp_all
        have "attrs (with_tab tplp h') = (attrs tplp)(name \<mapsto> RDB_init_obj)"
          using set tuple_get_tab(2)[OF h] by (intro attrs_eq[OF t' inv]) auto
        moreover have "r = Inr ()" "t' = with_tab tplp h'" "m' = m2"
          using run h(1) None key Inr put \<open>k = name\<close> by (simp_all add: provide_entry_def)
        moreover have "tuple_inv (with_tab tplp h')" using t' inv by (auto simp: tuple_inv_def)
        ultimately show ?thesis using absent mem_le_trans[OF le(1) hashtable_put_mem[OF put]] by simp
      next
        fix h' m2 assume put: "RDB_hashtable_put h (name, RDB_init_obj) () m1 = Some (ENOMEM, h', m2)" "fails m1 \<noteq> []"
        then have "r = Inl Silent" "m' = m2"
          using run h(1) None key Inr \<open>k = name\<close> by (simp_all add: provide_entry_def)
        then show ?thesis using mem_le_trans[OF le(1) hashtable_put_mem[OF put(1)]] mem_le_fails[OF le(1) put(2)] by simp
      qed
    qed
  qed
qed

lemma store_attr_result:
  assumes "tuple_inv t" "attrs t name \<noteq> None" "kind_of (val_of t) = RDB_OB_TUPLE"
  shows "\<exists>t'. store_attr t name v = Inr t' \<and> tuple_inv t' \<and> typ_of t' = typ_of t \<and> impl_of t' = impl_of t
    \<and> kind_of (val_of t') = RDB_OB_TUPLE \<and> attrs t' = (attrs t)(name \<mapsto> v)"
proof -
  obtain h where h: "tuple_tab t = Inr h" "tab_inv h" using assms(1) by (auto simp: tuple_inv_def)
  note fns = tuple_tab_fns[OF h(1)] tuple_tab_functions[OF h(1)]
  obtain w where "(name, w) \<in> hashtable_set h" using assms(2) tuple_get_tab(2)[OF h] by auto
  then have get: "RDB_hashtable_get h (search_key name) () = Some (name, w)"
    using te.get_iff[OF h(2) fns(1)] by (simp add: search_key_def)
  then obtain i where find: "hashtable_find h (search_key name) () = Some i"
    by (auto simp: RDB_hashtable_get_def split: option.splits)
  note upd = te.write_slot_inv[OF h(2) fns(1) find get, of "(name, v)"]
  have t': "tuple_tab (with_tab t (write_slot h i (name, v))) = Inr (write_slot h i (name, v))"
    using fns(2) by (intro with_tab_tab) (simp_all add: write_slot_def)
  have "attrs (with_tab t (write_slot h i (name, v))) = (attrs t)(name \<mapsto> v)"
    using upd tuple_get_tab(2)[OF h] by (intro attrs_eq[OF t']) (auto simp: search_key_def)
  then show ?thesis using h find upd(1) t' by (auto simp: store_attr_def tuple_inv_def search_key_def)
qed

lemma with_entry_changes:
  assumes "tuple_inv tplp"
    and f: "changes (f (case attrs tplp name of None \<Rightarrow> RDB_init_obj | Some v \<Rightarrow> v)) R"
  shows "changes (with_entry tplp name f) (\<lambda>t'. tuple_inv t' \<and> typ_of t' = typ_of tplp \<and> impl_of t' = impl_of tplp
    \<and> kind_of (val_of t') = RDB_OB_TUPLE \<and> (\<exists>v. R v \<and> attrs t' = (attrs tplp)(name \<mapsto> v)))"
  unfolding with_entry_def
proof (rule changes_and_then[OF provide_entry_changes[OF assms(1), of name]], rule changesI)
  let ?old = "case attrs tplp name of None \<Rightarrow> RDB_init_obj | Some v \<Rightarrow> v"
  fix t1 m r t' m'
  assume t1: "tuple_inv t1 \<and> typ_of t1 = typ_of tplp \<and> impl_of t1 = impl_of tplp \<and> kind_of (val_of t1) = RDB_OB_TUPLE
      \<and> attrs t1 = (attrs tplp)(name \<mapsto> ?old)"
    and run: "(case RDB_tuple_get t1 name of
         Inl e \<Rightarrow> (Inl e, t1, m)
       | Inr None \<Rightarrow> (Inl Segfault, t1, m)
       | Inr (Some v) \<Rightarrow>
           (case f v m of (r, v', m') \<Rightarrow>
              (case store_attr t1 name v' of Inl e \<Rightarrow> (Inl e, t1, m') | Inr t'' \<Rightarrow> (r, t'', m')))) = (r, t', m')"
  obtain h where "tuple_tab t1 = Inr h" "tab_inv h" using t1 by (auto simp: tuple_inv_def)
  then have get: "RDB_tuple_get t1 name = Inr (Some ?old)" using tuple_get_tab(1) t1 by simp
  obtain r1 v m1 where fm: "f ?old m = (r1, v, m1)" by (metis prod_cases3)
  obtain t2 where st: "store_attr t1 name v = Inr t2" "tuple_inv t2" "typ_of t2 = typ_of t1" "impl_of t2 = impl_of t1"
      "kind_of (val_of t2) = RDB_OB_TUPLE" "attrs t2 = (attrs t1)(name \<mapsto> v)"
    using store_attr_result[of t1 name v] t1 by auto
  then have "r = r1" "t' = t2" "m' = m1" using run get fm by simp_all
  then show "mem_le m m' \<and> (r = Inr () \<and> tuple_inv t' \<and> typ_of t' = typ_of tplp \<and> impl_of t' = impl_of tplp
      \<and> kind_of (val_of t') = RDB_OB_TUPLE \<and> (\<exists>v. R v \<and> attrs t' = (attrs tplp)(name \<mapsto> v))
    \<or> fails m \<noteq> [] \<and> (r = NO_MEM \<or> r = Inl Silent))"
    using changesD[OF f fm] st t1 by auto
qed

section \<open>Values\<close>

text \<open>
  The value an object stands for, without the layout of tables and arrays.  A new object
  stands for the empty tuple.  Types count only if they are scalar; the implemented type
  only if the type is a dummy type.
\<close>

datatype rdb_value = Value "rdb_type option" "rdb_type option" rdb_content
and rdb_content = Atom rdb_val | Attrs "string \<Rightarrow> rdb_value option" | Elems "rdb_value list"

definition scalar_only :: "rdb_type option \<Rightarrow> rdb_type option" where
  "scalar_only t = (case t of None \<Rightarrow> None | Some t' \<Rightarrow> if RDB_type_is_scalar t' then Some t' else None)"

definition dummy_impl :: "rdb_type option \<Rightarrow> rdb_type option \<Rightarrow> rdb_type option" where
  "dummy_impl t i = (case t of None \<Rightarrow> None | Some t' \<Rightarrow> if RDB_type_is_dummy t' then i else None)"

function (sequential) obj_abs :: "rdb_obj \<Rightarrow> rdb_value"
  and val_abs :: "rdb_val \<Rightarrow> rdb_content"
  and slots_abs :: "tuple_entry option list \<Rightarrow> string \<Rightarrow> rdb_value option"
  and elems_abs :: "rdb_obj list \<Rightarrow> rdb_value list" where
  "obj_abs (Obj t i v) = Value (scalar_only t) (dummy_impl t i) (val_abs v)"
| "val_abs Initial = Attrs (\<lambda>_. None)"
| "val_abs (TupleV None cap n) = Attrs (\<lambda>_. None)"
| "val_abs (TupleV (Some slots) cap n) = Attrs (slots_abs slots)"
| "val_abs (ArrayV n cap es) = Elems (take (nat (sint n)) (elems_abs es))"
| "val_abs v = Atom v"
| "slots_abs [] k = None"
| "slots_abs (None # slots) k = slots_abs slots k"
| "slots_abs (Some (a, v) # slots) k = (if k = a then Some (obj_abs v) else slots_abs slots k)"
| "elems_abs [] = []"
| "elems_abs (v # vs) = obj_abs v # elems_abs vs"
  by pat_completeness auto

termination
  by (relation "measure (case_sum (case_sum size size)
      (case_sum (\<lambda>(slots, _). size_list (size_option (size_prod (\<lambda>_. 0) size)) slots) (size_list size)))") auto

lemma elems_abs_map: "elems_abs es = map obj_abs es"
  by (induction es) simp_all

text \<open>Values without tables, whose parts are consistent.\<close>

function (sequential) obj_wf :: "rdb_obj \<Rightarrow> bool"
  and slots_wf :: "tuple_entry option list \<Rightarrow> bool"
  and elems_wf :: "rdb_obj list \<Rightarrow> bool" where
  "obj_wf (Obj t i (TupleV None cap n)) \<longleftrightarrow> tuple_inv (Obj t i (TupleV None cap n))"
| "obj_wf (Obj t i (TupleV (Some slots) cap n)) \<longleftrightarrow> tuple_inv (Obj t i (TupleV (Some slots) cap n)) \<and> slots_wf slots"
| "obj_wf (Obj t i (ArrayV n cap es)) \<longleftrightarrow> 0 \<le> sint n \<and> sint n \<le> int (length es) \<and> cap = int (length es) \<and> elems_wf es"
| "obj_wf (Obj t i (TableV a)) \<longleftrightarrow> False"
| "obj_wf (Obj t i v) \<longleftrightarrow> True"
| "slots_wf [] \<longleftrightarrow> True"
| "slots_wf (None # slots) \<longleftrightarrow> slots_wf slots"
| "slots_wf (Some (a, v) # slots) \<longleftrightarrow> obj_wf v \<and> slots_wf slots"
| "elems_wf [] \<longleftrightarrow> True"
| "elems_wf (v # vs) \<longleftrightarrow> obj_wf v \<and> elems_wf vs"
  by pat_completeness auto

termination
  by (relation "measure (case_sum size (case_sum (size_list (size_option (size_prod (\<lambda>_. 0) size))) (size_list size)))") auto

lemma elems_wf_all: "elems_wf es \<longleftrightarrow> (\<forall>v \<in> set es. obj_wf v)"
  by (induction es) auto

lemma slots_wf_all: "slots_wf slots \<longleftrightarrow> (\<forall>(a, v) \<in> slot_set slots. obj_wf v)"
proof (induction slots)
  case (Cons s slots)
  then show ?case by (cases s) auto
qed simp

text \<open>The entries of a tuple have different names, so that the first is the only one.\<close>

lemma slots_abs_set:
  "slots_uniq (\<lambda>e f. fst e = fst f) slots
    \<Longrightarrow> slots_abs slots k = Some w \<longleftrightarrow> (\<exists>v. (k, v) \<in> slot_set slots \<and> obj_abs v = w)"
proof (induction slots)
  case (Cons s slots)
  show ?case
  proof (cases s)
    case None
    then show ?thesis using Cons slots_uniq_tail by (simp, blast)
  next
    case (Some e)
    obtain a v where e: "e = (a, v)" by (cases e)
    have "\<not> (a, u) \<in> slot_set slots" for u using slots_uniq_head[of "\<lambda>e f. fst e = fst f" e slots] Cons.prems Some e by force
    then show ?thesis using Cons.IH[OF slots_uniq_tail[OF Cons.prems]] Some e by auto
  qed
qed simp

text \<open>For a tuple both are given by its attributes.\<close>

lemma tuple_obj:
  assumes "tuple_inv tplp"
  shows "val_abs (val_of tplp) = Attrs (\<lambda>k. map_option obj_abs (attrs tplp k))"
    and "obj_wf tplp \<longleftrightarrow> (\<forall>k v. attrs tplp k = Some v \<longrightarrow> obj_wf v)"
proof -
  obtain h where h: "tuple_tab tplp = Inr h" "tab_inv h" using assms by (auto simp: tuple_inv_def)
  note at = tuple_get_tab(2)[OF h]
  obtain t i v where tp: "tplp = Obj t i v" by (cases tplp)
  consider "v = Initial" | cap n where "v = TupleV None cap n" | slots cap n where "v = TupleV (Some slots) cap n"
    using h(1) tp by (cases v) (auto simp: tuple_tab_def intro: option.exhaust)
  then have "val_abs v = Attrs (\<lambda>k. map_option obj_abs (attrs tplp k))
      \<and> (obj_wf tplp \<longleftrightarrow> (\<forall>k v. attrs tplp k = Some v \<longrightarrow> obj_wf v))"
  proof cases
    case 1
    then have "attrs tplp k = None" for k by (simp add: tp attrs_def RDB_tuple_get_def)
    then show ?thesis using 1 by (simp add: tp)
  next
    case 2
    then have "attrs tplp k = None" for k by (simp add: tp attrs_def RDB_tuple_get_def tuple_tab_def RDB_hashtable_get_def)
    then show ?thesis using 2 assms by (simp add: tp)
  next
    case (3 slots cap n)
    then have "hashtable_set h = slot_set slots" "slots_uniq (\<lambda>e f. fst e = fst f) slots"
      using h by (auto simp: tp tuple_tab_def hashtable_set_def hashtable_inv_def slots_inv_def)
    moreover from this have "slots_abs slots = (\<lambda>k. map_option obj_abs (attrs tplp k))"
      using at by (intro ext option_eqI) (auto simp: slots_abs_set)
    ultimately show ?thesis using 3 assms at by (auto simp: tp slots_wf_all)
  qed
  then show "val_abs (val_of tplp) = Attrs (\<lambda>k. map_option obj_abs (attrs tplp k))"
    "obj_wf tplp \<longleftrightarrow> (\<forall>k v. attrs tplp k = Some v \<longrightarrow> obj_wf v)" by (simp_all add: tp)
qed

end
