(* ===== verification/Copying.thy ===== *)
theory Copying
  imports Tuple_Laws
begin

text \<open>
  Copying keeps the value: the functions of \<^verbatim>\<open>rel/assign.c\<close> and \<^verbatim>\<open>rel/objectx.c\<close> that copy
  objects, tuples and arrays through each other produce an object with the same value, or
  report that memory is short.
\<close>

section \<open>Copying\<close>

lemma wf_destroy:
  "obj_wf v \<Longrightarrow> RDB_destroy_obj v = Inr ()"
  "slots_wf slots \<Longrightarrow> destroy_slots slots = Inr ()"
  "elems_wf es \<Longrightarrow> destroy_elems es = Inr ()"
proof (induction v and slots and es rule: RDB_destroy_obj_destroy_slots_destroy_elems.induct)
  case (1 t i cap n)
  then show ?case by (auto simp: tuple_inv_def tuple_tab_def hashtable_inv_def)
qed auto

lemma obj_wf_types: "obj_wf (Obj t i v) \<longleftrightarrow> obj_wf (Obj t' i' v)"
proof (cases v)
  case (TupleV slots cap n)
  then show ?thesis by (cases slots) (simp_all add: tuple_inv_def tuple_tab_def)
qed simp_all

lemma init_obj_simps [simp]:
  "typ_of RDB_init_obj = None" "impl_of RDB_init_obj = None" "val_of RDB_init_obj = Initial" "obj_wf RDB_init_obj"
  "tuple_inv RDB_init_obj" "attrs RDB_init_obj = (\<lambda>_. None)"
  using init_tuple_inv by (auto simp: RDB_init_obj_def tuple_inv_def tuple_tab_def attrs_def RDB_tuple_get_def)

lemma set_copied:
  assumes "typ_of d = None" "impl_of d = None"
  shows "obj_abs (set_copied_type (restored_type RDB_init_obj v) v d)
      = Value (scalar_only (typ_of v)) (dummy_impl (typ_of v) (impl_of v)) (val_abs (val_of d))"
    and "obj_wf (set_copied_type (restored_type RDB_init_obj v) v d) \<longleftrightarrow> obj_wf d"
proof -
  obtain t i w where d: "d = Obj t i w" by (cases d)
  have "RDB_type_is_dummy u \<Longrightarrow> RDB_type_is_scalar u" for u by (cases u) simp_all
  then show "obj_abs (set_copied_type (restored_type RDB_init_obj v) v d)
      = Value (scalar_only (typ_of v)) (dummy_impl (typ_of v) (impl_of v)) (val_abs (val_of d))"
    using assms by (auto simp: d set_copied_type_def restored_type_def scalar_only_def dummy_impl_def split: option.split)
  show "obj_wf (set_copied_type (restored_type RDB_init_obj v) v d) \<longleftrightarrow> obj_wf d"
    unfolding set_copied_type_def Let_def d rdb_obj.sel by (rule obj_wf_types)
qed

definition copied :: "rdb_obj \<Rightarrow> rdb_obj \<Rightarrow> bool" where
  "copied v d \<longleftrightarrow> obj_wf d \<and> obj_abs d = obj_abs v"

definition copied_data :: "rdb_obj \<Rightarrow> rdb_obj \<Rightarrow> bool" where
  "copied_data v d \<longleftrightarrow> typ_of d = None \<and> impl_of d = None \<and> obj_wf d \<and> val_abs (val_of d) = val_abs (val_of v)"

definition copied_slots :: "rdb_obj \<Rightarrow> tuple_entry option list \<Rightarrow> rdb_obj \<Rightarrow> bool" where
  "copied_slots dst slots d \<longleftrightarrow> tuple_inv d \<and> obj_wf d \<and> typ_of d = typ_of dst \<and> impl_of d = impl_of dst
     \<and> (\<forall>k. map_option obj_abs (attrs d k)
         = (case slots_abs slots k of Some w \<Rightarrow> Some w | None \<Rightarrow> map_option obj_abs (attrs dst k)))"

definition copied_elems :: "rdb_obj \<Rightarrow> nat \<Rightarrow> rdb_obj list \<Rightarrow> rdb_obj \<Rightarrow> bool" where
  "copied_elems dst i es d \<longleftrightarrow> (case val_of dst of ArrayV n cap ds \<Rightarrow>
     \<exists>ds'. d = array_obj dst n cap (take i ds @ ds') \<and> list_all2 copied (take (length ds - i) es) ds' | _ \<Rightarrow> False)"

definition ends :: "('v \<Rightarrow> bool) \<Rightarrow> mem \<Rightarrow> unit result \<times> 'v \<times> mem \<Rightarrow> bool" where
  "ends Q m res \<longleftrightarrow> (case res of (r, v, m') \<Rightarrow>
     mem_le m m' \<and> (r = Inr () \<and> Q v \<or> fails m \<noteq> [] \<and> (r = NO_MEM \<or> r = Inl Silent)))"

lemma changes_ends: "changes f Q \<longleftrightarrow> (\<forall>m. ends Q m (f m))"
  by (simp add: changes_def ends_def)

lemma copy_obj_step:
  assumes "changes (RDB_copy_obj_data same P RDB_init_obj v) (copied_data v)"
  shows "ends (copied v) m (copy_obj same P RDB_init_obj v m)"
proof -
  obtain r d m' where run: "RDB_copy_obj_data same P RDB_init_obj v m = (r, d, m')" by (metis prod_cases3)
  obtain t i w where v: "v = Obj t i w" by (cases v)
  have "copied_data v d \<Longrightarrow> copied v (set_copied_type (restored_type RDB_init_obj v) v d)"
    using set_copied[of d v] by (simp add: copied_data_def copied_def v)
  then show ?thesis using changesD[OF assms run] run by (cases r) (auto simp: copy_obj.simps ends_def)
qed

lemma copy_entry:
  assumes "tuple_inv dst" "obj_wf dst" "\<And>m. ends (copied v) m (copy_obj same P RDB_init_obj v m)"
  shows "changes (with_entry dst k (\<lambda>old m. case RDB_destroy_obj old of
         Inl e \<Rightarrow> (Inl e, old, m)
       | Inr _ \<Rightarrow> copy_obj same P RDB_init_obj v m)) (copied_slots dst [Some (k, v)])"
proof -
  let ?old = "case attrs dst k of None \<Rightarrow> RDB_init_obj | Some v \<Rightarrow> v"
  have "obj_wf ?old" using assms(1,2) tuple_obj(2) by (auto split: option.split)
  then have "RDB_destroy_obj ?old = Inr ()" by (rule wf_destroy)
  then have old: "changes (\<lambda>m. case RDB_destroy_obj ?old of Inl e \<Rightarrow> (Inl e, ?old, m) | Inr _ \<Rightarrow> copy_obj same P RDB_init_obj v m) (copied v)"
    using assms(3) by (simp add: changes_ends)
  show ?thesis
    by (rule changes_mono, rule with_entry_changes[OF assms(1)], rule old)
      (use assms(1,2) in \<open>auto simp: copied_slots_def copied_def tuple_obj(2) split: if_splits\<close>)
qed

lemma copied_slots_trans:
  assumes "copied_slots dst [Some (k, v)] d1" "copied_slots d1 slots d" "\<forall>u. (k, u) \<notin> slot_set slots"
    "slots_uniq (\<lambda>e f. fst e = fst f) slots"
  shows "copied_slots dst (Some (k, v) # slots) d"
proof -
  have "slots_abs slots k = None"
    using slots_abs_set[OF assms(4), of k] assms(3) by (cases "slots_abs slots k") auto
  then show ?thesis using assms(1,2) by (auto simp: copied_slots_def cong: if_cong split: option.split)
qed


lemma set_array_new:
  assumes "0 \<le> sint n"
  shows "changes (RDB_set_array_length P RDB_init_obj n)
    (\<lambda>d. d = array_obj RDB_init_obj n (sint n) (replicate (nat (sint n)) RDB_init_obj))"
proof (cases "sint n > 0")
  case True
  then show ?thesis by (auto simp: RDB_set_array_length_def intro!: changing)
next
  case False
  then show ?thesis using assms by (auto simp: RDB_set_array_length_def intro!: changing)
qed

lemma copy_elem:
  assumes "val_of dst = ArrayV n cap ds" "nat (sint n) = length ds" "i < length ds" "ds ! i = RDB_init_obj"
    and "\<And>m. ends (copied v) m (copy_obj same P RDB_init_obj v m)"
  shows "changes (with_elem dst (of_nat i) (\<lambda>old m. case check_copy_types same old v m of
             (Inl e, m') \<Rightarrow> (Inl e, old, m')
           | (Inr _, m') \<Rightarrow> copy_obj same P old v m'))
    (\<lambda>d. \<exists>w. copied v w \<and> d = array_obj dst n cap (ds[i := w]))"
proof (rule changesI)
  fix m r d m' assume run: "with_elem dst (of_nat i) (\<lambda>old m. case check_copy_types same old v m of
             (Inl e, m') \<Rightarrow> (Inl e, old, m')
           | (Inr _, m') \<Rightarrow> copy_obj same P old v m') m = (r, d, m')"
  have "i < 2 ^ 31" using assms(2,3) sint_lt[of n] by simp
  then have "int i < 2 ^ 31" by simp
  then have si: "sint (of_nat i :: i32) = int i" using to_int_id[of "int i"] by (simp add: to_int_def)
  have lt: "\<not> sint n \<le> int i" using assms(2,3) by auto
  obtain r1 w m1 where c: "copy_obj same P RDB_init_obj v m = (r1, w, m1)" by (metis prod_cases3)
  then have "r = r1" "d = array_obj dst n cap (ds[i := w])" "m' = m1"
    using run assms(1-4) si lt by (simp_all add: with_elem_def check_copy_types_def done_with_def)
  then show "mem_le m m' \<and> (r = Inr () \<and> (\<exists>w. copied v w \<and> d = array_obj dst n cap (ds[i := w]))
      \<or> fails m \<noteq> [] \<and> (r = NO_MEM \<or> r = Inl Silent))"
    using assms(5)[of m] c by (auto simp: ends_def)
qed

lemma copied_elems_step:
  assumes "copied v w" "copied_elems (array_obj dst k cap (ds[i := w])) (Suc i) vs d" "val_of dst = ArrayV k cap ds" "i < length ds"
  shows "copied_elems dst i (v # vs) d"
proof -
  obtain ds' where d: "d = array_obj dst k cap (take (Suc i) (ds[i := w]) @ ds')"
      and all: "list_all2 copied (take (length ds - Suc i) vs) ds'"
    using assms(2) by (auto simp: copied_elems_def array_obj_def)
  have "take (Suc i) (ds[i := w]) = take i ds @ [w]" using assms(4) by (simp add: take_Suc_conv_app_nth)
  moreover have "length ds - i = Suc (length ds - Suc i)" using assms(4) by simp
  ultimately show ?thesis using assms(1,3) d all
    by (auto simp: copied_elems_def intro!: exI[of _ "w # ds'"])
qed

lemma and_then_changed: "and_then_change (changed v) f = f v"
  by (simp add: and_then_change_def changed_def fun_eq_iff)

lemma empty_tuple_abs:
  assumes "tuple_inv (Obj t i (TupleV so cap 0))"
  shows "val_abs (TupleV so cap 0) = Attrs (\<lambda>_. None)"
proof (cases so)
  case (Some slots)
  then have "slots_used slots = 0" using assms by (auto simp: tuple_inv_def tuple_tab_def hashtable_inv_def)
  then have "slots_abs slots k = None" for k
  proof (induction slots)
    case (Cons s slots)
    then show ?case by (cases s) (auto simp: slots_used_def)
  qed simp
  then show ?thesis using Some by auto
qed simp

lemma copied_tuple_data:
  assumes "copied_slots RDB_init_obj slots d"
  shows "copied_data (Obj t i (TupleV (Some slots) cap n)) d"
proof -
  have "map_option obj_abs (attrs d k) = slots_abs slots k" for k
    using assms by (auto simp: copied_slots_def split: option.splits)
  then show ?thesis using assms tuple_obj(1)[of d] by (simp add: copied_data_def copied_slots_def)
qed

lemma copied_array_data:
  assumes "copied_elems (array_obj RDB_init_obj n (sint n) (replicate (nat (sint n)) RDB_init_obj)) 0 es d"
    "0 \<le> sint n" "sint n \<le> int (length es)"
  shows "copied_data (Obj t i (ArrayV n cap es)) d"
proof -
  obtain ds where d: "d = array_obj RDB_init_obj n (sint n) ds" and all: "list_all2 copied (take (nat (sint n)) es) ds"
    using assms(1) by (auto simp: copied_elems_def array_obj_def)
  have "length ds = nat (sint n)" using list_all2_lengthD[OF all] assms(2,3) by simp
  moreover have "elems_wf ds" "map obj_abs ds = map obj_abs (take (nat (sint n)) es)"
    using all by (induction rule: list_all2_induct) (auto simp: copied_def)
  ultimately show ?thesis using assms(2) by (simp add: d copied_data_def array_obj_def elems_abs_map take_map)
qed

text \<open>The four functions together.\<close>

lemma copying:
  shows "dst = RDB_init_obj \<Longrightarrow> obj_wf v \<Longrightarrow> ends (copied v) m (copy_obj same P dst v m)"
    and "dst = RDB_init_obj \<Longrightarrow> obj_wf v \<Longrightarrow> changes (RDB_copy_obj_data same P dst v) (copied_data v)"
    and "tuple_inv dst \<Longrightarrow> obj_wf dst \<Longrightarrow> slots_wf slots \<Longrightarrow> slots_uniq (\<lambda>e f. fst e = fst f) slots
      \<Longrightarrow> changes (RDB_copy_tuple same P dst slots) (copied_slots dst slots)"
    and "val_of dst = ArrayV k cap ds \<Longrightarrow> nat (sint k) = length ds \<Longrightarrow> n = length ds \<Longrightarrow> n \<le> i + length es \<Longrightarrow> elems_wf es
      \<Longrightarrow> i \<le> n \<Longrightarrow> \<forall>j. i \<le> j \<and> j < n \<longrightarrow> ds ! j = RDB_init_obj
      \<Longrightarrow> changes (RDB_copy_array same P dst i n es) (copied_elems dst i es)"
proof (induction same P dst v m and same P dst v and same P dst slots and same P dst i n es
    arbitrary: and and and k cap ds rule: copy_obj_RDB_copy_obj_data_RDB_copy_tuple_RDB_copy_array.induct)
  case (1 same P dst v m)
  then show ?case using copy_obj_step by blast
next
  case (2 same P dst t i v)
  have fresh: "fresh_target RDB_init_obj w = changed RDB_init_obj" for w
    by (simp add: fresh_target_def fun_eq_iff)
  show ?case
  proof (cases v)
    case (TupleV so cap n)
    have inv: "tuple_inv (Obj t i v)" using 2(4) TupleV by (cases so) simp_all
    show ?thesis
    proof (cases "so = None \<or> n = 0")
      case True
      have "n = 0" using True inv by (auto simp: TupleV tuple_inv_def tuple_tab_def hashtable_inv_def)
      then have "val_abs v = Attrs (\<lambda>_. None)" using inv empty_tuple_abs TupleV by blast
      then show ?thesis using \<open>n = 0\<close> TupleV 2(3)
        by (cases so) (auto simp: RDB_copy_obj_data.simps fresh and_then_changed copied_data_def intro!: changing)
    next
      case False
      then obtain slots where so: "so = Some slots" "n \<noteq> 0" by auto
      have wf: "slots_wf slots" "slots_uniq (\<lambda>e f. fst e = fst f) slots"
        using 2(4) inv TupleV so by (auto simp: tuple_inv_def tuple_tab_def hashtable_inv_def slots_inv_def)
      have "changes (RDB_copy_tuple same P RDB_init_obj slots) (copied_slots RDB_init_obj slots)"
        by (rule 2(1)) (use wf TupleV so in simp_all)
      then show ?thesis using TupleV so 2(3)
        by (auto simp: RDB_copy_obj_data.simps fresh and_then_changed elim!: changes_mono intro: copied_tuple_data)
    qed
  next
    case (ArrayV n cap es)
    have wf: "0 \<le> sint n" "sint n \<le> int (length es)" "elems_wf es" using 2(4) ArrayV by simp_all
    have "sint (-1 :: i32) = -1" by simp
    then have "n \<noteq> -1" using wf(1) by auto
    have "changes (RDB_copy_array same P d 0 (nat (sint n)) es) (copied_data (Obj t i v))"
      if "d = array_obj RDB_init_obj n (sint n) (replicate (nat (sint n)) RDB_init_obj)" for d
      unfolding that
      by (rule changes_mono, rule 2(2)[where ds = "replicate (nat (sint n)) RDB_init_obj"])
        (use wf ArrayV \<open>n \<noteq> -1\<close> in \<open>auto simp: array_obj_def intro!: copied_array_data[unfolded array_obj_def]\<close>)
    then show ?thesis using ArrayV 2(3) \<open>n \<noteq> -1\<close> set_array_new[OF wf(1), of P]
      by (auto simp: RDB_copy_obj_data.simps fresh and_then_changed intro: changes_and_then)
  next
    case (BinV d)
    then show ?thesis using 2(3)
      by (auto simp: RDB_copy_obj_data.simps fresh and_then_changed copy_bin_def copied_data_def Let_def intro!: changing)
  qed (use 2(3,4) in \<open>auto simp: RDB_copy_obj_data.simps fresh and_then_changed copied_data_def intro!: changing\<close>)
next
  case (3 same P dst)
  then show ?case by (auto simp: RDB_copy_tuple.simps copied_slots_def intro!: changing)
next
  case (4 same P dst slots)
  then show ?case using slots_uniq_tail by (auto simp: RDB_copy_tuple.simps copied_slots_def)
next
  case (5 same P dst a v slots)
  have uniq: "slots_uniq (\<lambda>e f. fst e = fst f) slots" "\<forall>u. (a, u) \<notin> slot_set slots"
    using slots_uniq_tail[OF 5(6)] slots_uniq_head[OF 5(6)] by fastforce+
  have "changes (with_entry dst a (\<lambda>old m. case RDB_destroy_obj old of
         Inl e \<Rightarrow> (Inl e, old, m)
       | Inr _ \<Rightarrow> copy_obj same P RDB_init_obj v m)) (copied_slots dst [Some (a, v)])"
  proof (rule copy_entry[OF 5(3,4)])
    show "ends (copied v) m (copy_obj same P RDB_init_obj v m)" for m
      by (rule 5(1)[OF wf_destroy(1)[of RDB_init_obj]]) (use 5(5) in simp_all)
  qed
  moreover have "changes (RDB_copy_tuple same P d slots) (copied_slots dst (Some (a, v) # slots))"
    if "copied_slots dst [Some (a, v)] d" for d
  proof (rule changes_mono)
    show "changes (RDB_copy_tuple same P d slots) (copied_slots d slots)"
      by (rule 5(2)) (use that 5(5) uniq in \<open>auto simp: copied_slots_def\<close>)
    show "copied_slots d slots d' \<Longrightarrow> copied_slots dst (Some (a, v) # slots) d'" for d'
      using copied_slots_trans[OF that _ uniq(2,1)] .
  qed
  ultimately show ?case by (auto simp: RDB_copy_tuple.simps intro: changes_and_then)
next
  case (6 same P dst i n)
  then show ?case by (auto simp: RDB_copy_array.simps copied_elems_def array_obj_def intro!: changing) (metis rdb_obj.collapse)
next
  case (7 same P dst i n v vs)
  show ?case
  proof (cases "i < n")
    case True
    have "changes (with_elem dst (of_nat i) (\<lambda>old m. case check_copy_types same old v m of
             (Inl e, m') \<Rightarrow> (Inl e, old, m')
           | (Inr _, m') \<Rightarrow> copy_obj same P old v m'))
       (\<lambda>d. \<exists>w. copied v w \<and> d = array_obj dst k cap (ds[i := w]))"
    proof (rule copy_elem)
      have "check_copy_types same RDB_init_obj v m = (Inr (), m)" for m by (simp add: check_copy_types_def done_with_def)
      then show "ends (copied v) m (copy_obj same P RDB_init_obj v m)" for m
        using 7(1)[OF True] 7(7) by auto
    qed (use 7 True in auto)
    moreover have "changes (RDB_copy_array same P d (Suc i) n vs) (copied_elems dst i (v # vs))"
      if "copied v w" "d = array_obj dst k cap (ds[i := w])" for w d
    proof (rule changes_mono)
      show "changes (RDB_copy_array same P d (Suc i) n vs) (copied_elems d (Suc i) vs)"
        by (rule 7(2)[OF True, where ds = "ds[i := w]"]) (use that(2) 7 True in \<open>auto simp: array_obj_def\<close>)
      show "copied_elems d (Suc i) vs d' \<Longrightarrow> copied_elems dst i (v # vs) d'" for d'
        by (rule copied_elems_step[OF that(1)]) (use that(2) 7 True in auto)
    qed
    ultimately show ?thesis using True by (auto simp: RDB_copy_array.simps intro: changes_and_then)
  next
    case False
    then show ?thesis using 7 by (auto simp: RDB_copy_array.simps copied_elems_def array_obj_def intro!: changing) (metis rdb_obj.collapse)
  qed
qed

end
