(* ===== verification/Tuple_Ops.thy ===== *)
theory Tuple_Ops
  imports Copying
begin

text \<open>
  The operators on tuples as operations on finite maps: setting, projection, removal, renaming,
  wrapping and unwrapping.
\<close>

section \<open>Setting an attribute\<close>

definition tuple_ok :: "rdb_obj \<Rightarrow> bool" where
  "tuple_ok tplp \<longleftrightarrow> tuple_inv tplp \<and> obj_wf tplp"

definition tuple_map :: "rdb_obj \<Rightarrow> string \<Rightarrow> rdb_value option" where
  "tuple_map tplp k = map_option obj_abs (attrs tplp k)"

lemma tuple_ok_attr: "tuple_ok t \<Longrightarrow> attrs t k = Some v \<Longrightarrow> obj_wf v"
  using tuple_obj(2) by (auto simp: tuple_ok_def)

lemma tuple_init [simp]: "tuple_ok RDB_init_obj" "tuple_map RDB_init_obj = (\<lambda>_. None)"
  by (simp_all add: tuple_ok_def tuple_map_def fun_eq_iff)

lemma tuple_value: "tuple_inv t \<Longrightarrow> obj_abs t = Value (scalar_only (typ_of t)) (dummy_impl (typ_of t) (impl_of t)) (Attrs (tuple_map t))"
  using tuple_obj(1)[of t] by (cases t) (simp add: tuple_map_def[abs_def])

lemma copying_new:
  assumes "obj_wf v"
  shows "changes (RDB_copy_obj same P RDB_init_obj v) (copied v)"
proof -
  have "RDB_copy_obj same P RDB_init_obj v m = copy_obj same P RDB_init_obj v m" for m
    by (simp add: RDB_copy_obj_def check_copy_types_def done_with_def)
  then show ?thesis using copying(1)[OF _ assms] by (simp add: changes_ends)
qed

lemma tuple_map_upd: "attrs t' = (attrs t)(a \<mapsto> v) \<Longrightarrow> tuple_map t' = (tuple_map t)(a \<mapsto> obj_abs v)"
  by (simp add: tuple_map_def fun_eq_iff)

lemma tuple_set_changes:
  assumes "tuple_ok t" "obj_wf v"
  shows "changes (RDB_tuple_set same P t a (Some v)) (\<lambda>t'. tuple_ok t' \<and> typ_of t' = typ_of t \<and> impl_of t' = impl_of t
    \<and> kind_of (val_of t') = RDB_OB_TUPLE \<and> tuple_map t' = (tuple_map t)(a \<mapsto> obj_abs v))"
proof -
  let ?old = "case attrs t a of None \<Rightarrow> RDB_init_obj | Some v \<Rightarrow> v"
  have "obj_wf ?old" using tuple_ok_attr[OF assms(1)] by (auto split: option.split)
  then have "RDB_destroy_obj ?old = Inr ()" by (rule wf_destroy)
  then have "changes (\<lambda>m. case RDB_destroy_obj ?old of Inl e \<Rightarrow> (Inl e, ?old, m)
      | Inr _ \<Rightarrow> RDB_copy_obj same P RDB_init_obj v m) (copied v)"
    using copying_new[OF assms(2)] by simp
  then show ?thesis
    unfolding RDB_tuple_set_def option.case
    by (intro changes_mono[OF with_entry_changes[where R = "copied v"]]) (use assms in \<open>auto simp: tuple_ok_def tuple_obj(2) copied_def tuple_map_upd split: if_splits\<close>)
qed

section \<open>Calls with enough memory\<close>

definition achieves :: "'v change \<Rightarrow> ('v \<Rightarrow> bool) \<Rightarrow> bool" where
  "achieves f Q \<longleftrightarrow> (\<forall>m. fails m = [] \<longrightarrow> (case f m of (r, v, m') \<Rightarrow> r = Inr () \<and> Q v \<and> fails m' = []))"

lemma achievesD:
  assumes "achieves f Q" "f m = (r, v, m')" "fails m = []"
  shows "r = Inr ()" "Q v" "fails m' = []"
  using assms by (auto simp: achieves_def dest: spec[of _ m])

lemma achievesI:
  "(\<And>m r v m'. f m = (r, v, m') \<Longrightarrow> fails m = [] \<Longrightarrow> r = Inr () \<and> Q v \<and> fails m' = []) \<Longrightarrow> achieves f Q"
  by (simp add: achieves_def split: prod.split)

lemma achieves_changes: "changes f Q \<Longrightarrow> achieves f Q"
  by (rule achievesI) (metis changesD mem_le_def)

lemma achieves_changed: "Q v \<Longrightarrow> achieves (changed v) Q"
  by (simp add: achieves_def changed_def)

lemma achieves_mono: "achieves f Q \<Longrightarrow> (\<And>v. Q v \<Longrightarrow> R v) \<Longrightarrow> achieves f R"
  by (rule achievesI) (metis achievesD)

lemma achieves_ignoring:
  assumes "achieves f Q"
  shows "achieves (ignoring f) Q"
proof (rule achievesI)
  fix m r v m' assume run: "ignoring f m = (r, v, m')" "fails m = []"
  obtain r1 v1 m1 where f: "f m = (r1, v1, m1)" by (metis prod_cases3)
  then show "r = Inr () \<and> Q v \<and> fails m' = []" using achievesD[OF assms f run(2)] run(1) by (simp add: ignoring_def)
qed

lemma achieves_and_then:
  assumes "achieves f R" "\<And>v. R v \<Longrightarrow> achieves (g v) Q"
  shows "achieves (and_then_change f g) Q"
  unfolding achieves_def
proof (intro allI impI)
  fix m :: mem assume m: "fails m = []"
  obtain r v m' where f: "f m = (r, v, m')" by (metis prod_cases3)
  then have "r = Inr ()" "R v" "fails m' = []" using assms(1) m by (auto simp: achieves_def)
  then show "case and_then_change f g m of (r, v, m') \<Rightarrow> r = Inr () \<and> Q v \<and> fails m' = []"
    using assms(2)[of v] f by (auto simp: achieves_def and_then_change_def)
qed

lemma achieves_run: "achieves f Q \<Longrightarrow> fails m = [] \<Longrightarrow> \<exists>v m'. f m = (Inr (), v, m') \<and> Q v"
  by (metis achievesD prod_cases3)

definition becomes :: "(string \<Rightarrow> rdb_value option) \<Rightarrow> rdb_obj \<Rightarrow> bool" where
  "becomes g t \<longleftrightarrow> tuple_ok t \<and> tuple_map t = g"

text \<open>How an attribute is set in a loop: with or without a look at the result.\<close>

definition sets_attrs :: "(rdb_obj \<Rightarrow> string \<Rightarrow> rdb_obj \<Rightarrow> rdb_obj change) \<Rightarrow> bool" where
  "sets_attrs f \<longleftrightarrow> (\<forall>t a v. tuple_ok t \<and> obj_wf v \<longrightarrow> achieves (f t a v)
     (\<lambda>t'. becomes ((tuple_map t)(a \<mapsto> obj_abs v)) t' \<and> typ_of t' = typ_of t \<and> impl_of t' = impl_of t))"

lemma sets_attrs_tuple_set: "sets_attrs (\<lambda>t a v. RDB_tuple_set same P t a (Some v))"
  unfolding sets_attrs_def
  by (intro allI impI, elim conjE, rule achieves_mono, rule achieves_changes[OF tuple_set_changes]) (auto simp: becomes_def)

lemma sets_attrs_ignoring: "sets_attrs f \<Longrightarrow> sets_attrs (\<lambda>t a v. ignoring (f t a v))"
  by (auto simp: sets_attrs_def intro: achieves_ignoring)

lemma sets_attrsD:
  "sets_attrs f \<Longrightarrow> tuple_ok t \<Longrightarrow> obj_wf v \<Longrightarrow> achieves (f t a v)
     (\<lambda>t'. becomes ((tuple_map t)(a \<mapsto> obj_abs v)) t' \<and> typ_of t' = typ_of t \<and> impl_of t' = impl_of t)"
  by (simp add: sets_attrs_def)

lemma tuple_get: "tuple_ok t \<Longrightarrow> RDB_tuple_get t a = Inr (attrs t a)"
  using tuple_get_tab(1) by (auto simp: tuple_ok_def tuple_inv_def)

lemma collect_attrs_achieves:
  assumes "sets_attrs f" "tuple_ok t" "tuple_ok dst" "set names \<subseteq> dom (tuple_map t)"
  shows "achieves (collect_attrs f t names dst) (\<lambda>d. becomes (\<lambda>k. if k \<in> set names then tuple_map t k else tuple_map dst k) d
    \<and> typ_of d = typ_of dst \<and> impl_of d = impl_of dst)"
  using assms(3,4)
proof (induction names arbitrary: dst)
  case Nil
  then show ?case by (auto simp: becomes_def intro: achieves_changed)
next
  case (Cons a as)
  obtain v where v: "attrs t a = Some v" using Cons.prems(2) by (auto simp: tuple_map_def)
  then have get: "RDB_tuple_get t a = Inr (Some v)" "obj_wf v" "tuple_map t a = Some (obj_abs v)"
    using tuple_get[OF assms(2)] tuple_ok_attr[OF assms(2)] by (simp_all add: tuple_map_def)
  have "achieves (and_then_change (f dst a v) (collect_attrs f t as))
      (\<lambda>d. becomes (\<lambda>k. if k \<in> set (a # as) then tuple_map t k else tuple_map dst k) d \<and> typ_of d = typ_of dst \<and> impl_of d = impl_of dst)"
  proof (rule achieves_and_then[OF sets_attrsD[OF assms(1) Cons.prems(1) get(2)]])
    fix d assume d: "becomes ((tuple_map dst)(a \<mapsto> obj_abs v)) d \<and> typ_of d = typ_of dst \<and> impl_of d = impl_of dst"
    then have "achieves (collect_attrs f t as d) (\<lambda>e. becomes (\<lambda>k. if k \<in> set as then tuple_map t k else tuple_map d k) e
        \<and> typ_of e = typ_of d \<and> impl_of e = impl_of d)"
      using Cons.prems(2) by (intro Cons.IH) (auto simp: becomes_def)
    then show "achieves (collect_attrs f t as d) (\<lambda>d. becomes (\<lambda>k. if k \<in> set (a # as) then tuple_map t k else tuple_map dst k) d
        \<and> typ_of d = typ_of dst \<and> impl_of d = impl_of dst)"
      by (rule achieves_mono) (use d get in \<open>auto simp: becomes_def fun_eq_iff\<close>)
  qed
  then show ?case using get by simp
qed

text \<open>
  A loop over the entries that sets for each attribute \<open>k\<close> with \<open>p k\<close> the attribute \<open>h k\<close>, where
  different attributes go to different names.
\<close>

definition moved :: "(string \<Rightarrow> bool) \<Rightarrow> (string \<Rightarrow> string) \<Rightarrow> (string \<Rightarrow> rdb_value option) \<Rightarrow> (string \<Rightarrow> rdb_value option)
    \<Rightarrow> (string \<Rightarrow> rdb_value option) \<Rightarrow> bool" where
  "moved p h src old new \<longleftrightarrow> (\<forall>k. k \<in> dom src \<and> p k \<longrightarrow> new (h k) = src k)
     \<and> (\<forall>k'. k' \<notin> h ` {k \<in> dom src. p k} \<longrightarrow> new k' = old k')"

lemma moved_unique:
  assumes "moved p h src old new" "moved p h src old new'"
  shows "new = new'"
proof
  fix k'
  show "new k' = new' k'"
  proof (cases "k' \<in> h ` {k \<in> dom src. p k}")
    case True
    then obtain k where "k' = h k" "k \<in> dom src" "p k" by blast
    then show ?thesis using assms by (simp add: moved_def)
  next
    case False
    then show ?thesis using assms by (simp add: moved_def)
  qed
qed

lemma moved_step:
  assumes "moved p h src (if p k then old(h k \<mapsto> x) else old) new" "src k = None"
    "inj_on h {j \<in> insert k (dom src). p j}"
  shows "moved p h (src(k \<mapsto> x)) old new"
  unfolding moved_def
proof (intro conjI allI impI)
  fix j assume j: "j \<in> dom (src(k \<mapsto> x)) \<and> p j"
  show "new (h j) = (src(k \<mapsto> x)) j"
  proof (cases "j = k")
    case True
    then have "h k \<notin> h ` {j \<in> dom src. p j}" using assms(2) j by (auto dest: inj_onD[OF assms(3)])
    then have "new (h k) = (if p k then old(h k \<mapsto> x) else old) (h k)" using assms(1) by (simp add: moved_def)
    then show ?thesis using True j by simp
  next
    case False
    then have "j \<in> dom src \<and> p j" using j by auto
    then have "new (h j) = src j" using assms(1) by (simp add: moved_def)
    then show ?thesis using False by simp
  qed
next
  fix k' assume k': "k' \<notin> h ` {j \<in> dom (src(k \<mapsto> x)). p j}"
  then have "k' \<notin> h ` {j \<in> dom src. p j}" by auto
  then have "new k' = (if p k then old(h k \<mapsto> x) else old) k'" using assms(1) by (simp add: moved_def)
  then show "new k' = old k'" using k' by auto
qed

lemma each_entry_achieves:
  assumes f: "sets_attrs f" and wf: "\<forall>(k, v) \<in> set es. obj_wf v" and dst: "tuple_ok dst"
    and inj: "inj_on h {k \<in> fst ` set es. p k}" and dist: "distinct (map fst es)"
  shows "achieves (each_entry (\<lambda>k v d. if p k then f d (h k) v else changed d) es dst)
    (\<lambda>d. tuple_ok d \<and> moved p h (\<lambda>k. map_option obj_abs (map_of es k)) (tuple_map dst) (tuple_map d)
      \<and> typ_of d = typ_of dst \<and> impl_of d = impl_of dst)"
  using wf dst inj dist
proof (induction es arbitrary: dst)
  case Nil
  then show ?case by (auto simp: moved_def intro: achieves_changed)
next
  case (Cons e es)
  obtain k v where e: "e = (k, v)" by (cases e)
  let ?g = "if p k then (tuple_map dst)(h k \<mapsto> obj_abs v) else tuple_map dst"
  have first: "achieves (if p k then f dst (h k) v else changed dst)
      (\<lambda>d. becomes ?g d \<and> typ_of d = typ_of dst \<and> impl_of d = impl_of dst)"
    using sets_attrsD[OF f Cons.prems(2)] Cons.prems(1,2) e by (auto simp: becomes_def intro: achieves_changed)
  have rest: "achieves (each_entry (\<lambda>k v d. if p k then f d (h k) v else changed d) es d)
      (\<lambda>d'. tuple_ok d' \<and> moved p h (\<lambda>k. map_option obj_abs (map_of es k)) (tuple_map d) (tuple_map d')
        \<and> typ_of d' = typ_of d \<and> impl_of d' = impl_of d)" if "becomes ?g d" for d
    using that Cons.prems e by (intro Cons.IH) (auto simp: becomes_def intro: inj_on_subset)
  have "k \<notin> fst ` set es" using Cons.prems(4) e by simp
  then have new: "moved p h (\<lambda>k. map_option obj_abs (map_of (e # es) k)) (tuple_map dst) g"
    if "moved p h (\<lambda>k. map_option obj_abs (map_of es k)) ?g g" for g
  proof -
    let ?src = "\<lambda>k. map_option obj_abs (map_of es k)"
    have dom: "dom ?src = fst ` set es" unfolding dom_map_of_conv_image_fst[symmetric] by (simp add: set_eq_iff domIff)
    have "?src k = None" using \<open>k \<notin> fst ` set es\<close> by (simp add: map_of_eq_None_iff)
    moreover have "inj_on h {j \<in> insert k (dom ?src). p j}" using Cons.prems(3) unfolding dom e by simp
    moreover have "(\<lambda>j. map_option obj_abs (map_of (e # es) j)) = ?src(k \<mapsto> obj_abs v)" by (simp add: e fun_eq_iff)
    ultimately show ?thesis using moved_step[of p h ?src k "tuple_map dst" "obj_abs v" g] that by simp
  qed
  show ?case unfolding e each_entry.simps
    by (rule achieves_and_then[OF first], rule achieves_mono, rule rest) (use new e in \<open>auto simp: becomes_def\<close>)
qed


section \<open>The entries of a tuple\<close>

lemma tuple_entries:
  assumes "tuple_ok t" "kind_of (val_of t) = RDB_OB_TUPLE"
  obtains es h where "tuple_tab t = Inr h" "hashtable_entries h = Inr es" "distinct (map fst es)" "map_of es = attrs t"
    "\<forall>(k, v) \<in> set es. obj_wf v" "RDB_tuple_size t = Inr (to_int (int (length es)))"
proof -
  obtain h where h: "tuple_tab t = Inr h" "tab_inv h" using assms(1) by (auto simp: tuple_ok_def tuple_inv_def)
  obtain es where es: "hashtable_entries h = Inr es" "set es = hashtable_set h" "length es = RDB_hashtable_size h"
    using entries_set[OF h(2)] by blast
  have uniq: "slots_uniq (\<lambda>e f. fst e = fst f) slots \<Longrightarrow> distinct (map fst (map the (filter (\<lambda>s. s \<noteq> None) slots)))"
    for slots :: "tuple_entry option list"
  proof (induction slots)
    case (Cons s slots)
    show ?case
    proof (cases s)
      case None
      then show ?thesis using Cons.IH[OF slots_uniq_tail[OF Cons.prems]] by simp
    next
      case (Some e)
      have set: "set (map the (filter (\<lambda>s. s \<noteq> None) slots)) = slot_set slots" by (force simp: slot_set_def)
      have "fst e \<noteq> fst f" if "f \<in> slot_set slots" for f using slots_uniq_head[of "\<lambda>e f. fst e = fst f" e slots f] that Cons.prems Some by simp
      then have "fst e \<notin> set (map fst (map the (filter (\<lambda>s. s \<noteq> None) slots)))" unfolding set_map[of fst] set by blast
      then show ?thesis using Cons.IH[OF slots_uniq_tail[OF Cons.prems]] Some by simp
    qed
  qed simp
  have dist: "distinct (map fst es)"
  proof (cases "entries h")
    case (Some slots)
    then show ?thesis using es(1) entries_correct[OF h(2)] uniq[of slots] h(2) by (auto simp: hashtable_inv_def slots_inv_def)
  qed (use es(1) entries_correct[OF h(2)] in auto)
  have "map_of es k = Some v \<longleftrightarrow> attrs t k = Some v" for k v
    using map_of_eq_Some_iff[OF dist] tuple_get_tab(2)[OF h] es(2) by simp
  then have map: "map_of es = attrs t" by (intro ext option_eqI)
  have "obj_wf v" if "(k, v) \<in> set es" for k v
    using that map_of_eq_Some_iff[OF dist, of k v] map tuple_ok_attr[OF assms(1)] by simp
  moreover have "RDB_tuple_size t = Inr (to_int (int (length es)))"
    using assms(2) h(1) es(3) by (auto simp: RDB_tuple_size_def)
  ultimately show ?thesis using that[OF h(1) es(1) dist map] by blast
qed

lemma tuple_map_entries: "map_of es = attrs t \<Longrightarrow> (\<lambda>k. map_option obj_abs (map_of es k)) = tuple_map t"
  by (simp add: tuple_map_def[abs_def])

lemma dom_tuple_map: "dom (tuple_map t) = dom (attrs t)"
  by (auto simp: tuple_map_def domIff)

lemma over_entries_achieves:
  assumes "sets_attrs f" "tuple_ok t" "kind_of (val_of t) = RDB_OB_TUPLE" "tuple_ok dst"
    "inj_on h {k \<in> dom (tuple_map t). p k}"
    and g: "\<And>k v d. g k v d = (if p k then f d (h k) v else changed d)"
  shows "achieves (over_entries t g dst) (\<lambda>d. tuple_ok d \<and> moved p h (tuple_map t) (tuple_map dst) (tuple_map d)
      \<and> typ_of d = typ_of dst \<and> impl_of d = impl_of dst)"
proof -
  obtain es tab where tab: "tuple_tab t = Inr tab" "hashtable_entries tab = Inr es" and es: "distinct (map fst es)" "map_of es = attrs t"
    "\<forall>(k, v) \<in> set es. obj_wf v" by (rule tuple_entries[OF assms(2,3)])
  have "fst ` set es = dom (tuple_map t)" using es(2) by (simp add: dom_tuple_map flip: dom_map_of_conv_image_fst)
  then have "achieves (each_entry (\<lambda>k v d. if p k then f d (h k) v else changed d) es dst)
    (\<lambda>d. tuple_ok d \<and> moved p h (\<lambda>k. map_option obj_abs (map_of es k)) (tuple_map dst) (tuple_map d)
      \<and> typ_of d = typ_of dst \<and> impl_of d = impl_of dst)"
    by (intro each_entry_achieves assms(1,4) es(1,3)) (use assms(5) in simp)
  moreover have "g = (\<lambda>k v d. if p k then f d (h k) v else changed d)" using g by (simp add: fun_eq_iff)
  ultimately show ?thesis using tab es(2) assms(3) tuple_map_entries[OF es(2)] by (simp add: over_entries_def)
qed

section \<open>Projection, removal, renaming\<close>

lemma project_achieves:
  assumes "tuple_ok t" "kind_of (val_of t) = RDB_OB_TUPLE" "set names \<subseteq> dom (tuple_map t)" "obj_wf rest"
  shows "achieves (RDB_project_tuple same P t names rest) (becomes (tuple_map t |` set names))"
proof -
  have "(\<lambda>k. if k \<in> set names then tuple_map t k else tuple_map RDB_init_obj k) = tuple_map t |` set names"
    by (simp add: restrict_map_def fun_eq_iff)
  with collect_attrs_achieves[OF sets_attrs_ignoring[OF sets_attrs_tuple_set[of same P]] assms(1) tuple_init(1) assms(3)]
  show ?thesis using assms(2) wf_destroy(1)[OF assms(4)]
    by (auto simp: RDB_project_tuple_def intro: achieves_mono)
qed

lemma remove_achieves:
  assumes "tuple_ok t" "kind_of (val_of t) = RDB_OB_TUPLE" "obj_wf rest"
  shows "achieves (RDB_remove_tuple same P t names rest) (becomes (tuple_map t |` (- set names)))"
proof -
  have "m = tuple_map t |` (- set names)" if "moved (\<lambda>k. k \<notin> set names) id (tuple_map t) (\<lambda>_. None) m" for m
    by (rule moved_unique[OF that]) (auto simp: moved_def restrict_map_def)
  moreover have "achieves (over_entries t (\<lambda>k v dst. if k \<in> set names then changed dst
      else ignoring (RDB_tuple_set same P dst k (Some v))) RDB_init_obj)
    (\<lambda>d. tuple_ok d \<and> moved (\<lambda>k. k \<notin> set names) id (tuple_map t) (tuple_map RDB_init_obj) (tuple_map d)
      \<and> typ_of d = typ_of RDB_init_obj \<and> impl_of d = impl_of RDB_init_obj)"
    by (rule over_entries_achieves[OF sets_attrs_ignoring[OF sets_attrs_tuple_set[of same P]] assms(1,2) tuple_init(1)]) auto
  ultimately show ?thesis using assms(2) wf_destroy(1)[OF assms(3)]
    by (auto simp: RDB_remove_tuple_def becomes_def elim: achieves_mono)
qed

lemma rename_achieves:
  assumes "tuple_ok t" "kind_of (val_of t) = RDB_OB_TUPLE" "inj_on (renamed renv) (dom (tuple_map t))"
  shows "achieves (RDB_rename_tuple same P t renv RDB_init_obj) (\<lambda>d. tuple_ok d
    \<and> (\<forall>k \<in> dom (tuple_map t). tuple_map d (renamed renv k) = tuple_map t k)
    \<and> dom (tuple_map d) = renamed renv ` dom (tuple_map t))"
proof -
  have dom: "dom m = renamed renv ` dom (tuple_map t)" if "moved (\<lambda>_. True) (renamed renv) (tuple_map t) (\<lambda>_. None) m" for m
  proof (rule set_eqI)
    fix k'
    show "k' \<in> dom m \<longleftrightarrow> k' \<in> renamed renv ` dom (tuple_map t)"
    proof (cases "k' \<in> renamed renv ` dom (tuple_map t)")
      case True
      then obtain k where k: "k' = renamed renv k" "k \<in> dom (tuple_map t)" by blast
      then have "m k' = tuple_map t k" using that by (simp add: moved_def)
      then have "k' \<in> dom m" using k(2) by (metis domIff)
      then show ?thesis using True by blast
    next
      case False
      have "\<forall>k'. k' \<notin> renamed renv ` {k \<in> dom (tuple_map t). True} \<longrightarrow> m k' = None" using that unfolding moved_def by (rule conjunct2)
      then have "m k' = None" using False unfolding simp_thms Collect_mem_eq by blast
      then show ?thesis using False by (simp add: domIff)
    qed
  qed
  have "achieves (over_entries t (\<lambda>k v dst. RDB_tuple_set same P dst (renamed renv k) (Some v)) RDB_init_obj)
    (\<lambda>d. tuple_ok d \<and> moved (\<lambda>_. True) (renamed renv) (tuple_map t) (tuple_map RDB_init_obj) (tuple_map d)
      \<and> typ_of d = typ_of RDB_init_obj \<and> impl_of d = impl_of RDB_init_obj)"
    by (rule over_entries_achieves[OF sets_attrs_tuple_set[of same P] assms(1,2) tuple_init(1)]) (use assms(3) in simp_all)
  then have "achieves (over_entries t (\<lambda>k v dst. RDB_tuple_set same P dst (renamed renv k) (Some v)) RDB_init_obj)
    (\<lambda>d. tuple_ok d \<and> (\<forall>k \<in> dom (tuple_map t). tuple_map d (renamed renv k) = tuple_map t k)
    \<and> dom (tuple_map d) = renamed renv ` dom (tuple_map t))"
  proof (rule achieves_mono, elim conjE)
    fix d assume d: "tuple_ok d" "moved (\<lambda>_. True) (renamed renv) (tuple_map t) (tuple_map RDB_init_obj) (tuple_map d)"
    have "\<forall>k \<in> dom (tuple_map t). tuple_map d (renamed renv k) = tuple_map t k" using d(2) by (simp add: moved_def)
    moreover have "dom (tuple_map d) = renamed renv ` dom (tuple_map t)" by (rule dom) (use d(2) in simp)
    ultimately show "tuple_ok d \<and> (\<forall>k \<in> dom (tuple_map t). tuple_map d (renamed renv k) = tuple_map t k)
      \<and> dom (tuple_map d) = renamed renv ` dom (tuple_map t)" using d(1) by blast
  qed
  then show ?thesis using assms(2) by (simp add: RDB_rename_tuple_def)
qed


section \<open>Wrapping and unwrapping\<close>

text \<open>The attributes that wrapping adds, and the map after wrapping.\<close>

definition wrapped_attrs :: "(string \<Rightarrow> rdb_value option) \<Rightarrow> (string list \<times> string) list \<Rightarrow> string \<Rightarrow> rdb_value option" where
  "wrapped_attrs g wrapv = map_of (map (\<lambda>(names, a). (a, Value None None (Attrs (g |` set names)))) wrapv)"

definition wrap_map :: "(string \<Rightarrow> rdb_value option) \<Rightarrow> (string list \<times> string) list \<Rightarrow> string \<Rightarrow> rdb_value option" where
  "wrap_map g wrapv k = (if k \<in> dom g \<and> (\<forall>w \<in> set wrapv. k \<notin> set (fst w)) then g k else wrapped_attrs g wrapv k)"

definition wrap_ok :: "(string \<Rightarrow> rdb_value option) \<Rightarrow> (string list \<times> string) list \<Rightarrow> bool" where
  "wrap_ok g wrapv \<longleftrightarrow> distinct (map snd wrapv) \<and> (\<forall>(names, a) \<in> set wrapv. names \<noteq> [] \<and> set names \<subseteq> dom g)"

lemma dom_wrapped: "dom (wrapped_attrs g wrapv) = snd ` set wrapv"
  by (force simp: wrapped_attrs_def dom_map_of_conv_image_fst)

lemma wrap_each_achieves:
  assumes "tuple_ok t" "wrap_ok (tuple_map t) wrapv" "tuple_ok dst"
  shows "achieves (wrap_each same P t ret wrapv dst) (becomes (tuple_map dst ++ wrapped_attrs (tuple_map t) wrapv))"
  using assms(2,3)
proof (induction wrapv arbitrary: dst ret)
  case Nil
  then show ?case by (auto simp: wrapped_attrs_def becomes_def intro: achieves_changed)
next
  case (Cons w wrapv)
  obtain names a where w: "w = (names, a)" by (cases w)
  have ok: "names \<noteq> []" "set names \<subseteq> dom (tuple_map t)" "wrap_ok (tuple_map t) wrapv"
    using Cons.prems(1) w by (auto simp: wrap_ok_def)
  let ?v = "Value None None (Attrs (tuple_map t |` set names))"
  show ?case
  proof (rule achievesI)
    fix m r d m'
    assume run: "wrap_each same P t ret (w # wrapv) dst m = (r, d, m')" "fails m = []"
    obtain r1 tpl m1 where c: "collect_attrs (\<lambda>dst a v. RDB_tuple_set same P dst a (Some v)) t names RDB_init_obj m = (r1, tpl, m1)"
      by (metis prod_cases3)
    note got = achievesD[OF collect_attrs_achieves[OF sets_attrs_tuple_set assms(1) tuple_init(1) ok(2)] c run(2)]
    have tpl: "obj_abs tpl = ?v" "obj_wf tpl"
      using got(2) tuple_value[of tpl]
      by (auto simp: becomes_def tuple_ok_def scalar_only_def dummy_impl_def restrict_map_def fun_eq_iff)
    have "achieves (and_then_change (ignoring (RDB_tuple_set same P dst a (Some tpl))) (\<lambda>rest. wrap_each same P t 0 wrapv rest))
        (becomes (tuple_map dst ++ wrapped_attrs (tuple_map t) (w # wrapv)))"
    proof (rule achieves_and_then[OF sets_attrsD[OF sets_attrs_ignoring[OF sets_attrs_tuple_set] Cons.prems(2) tpl(2)]])
      fix rest assume rest: "becomes ((tuple_map dst)(a \<mapsto> obj_abs tpl)) rest \<and> typ_of rest = typ_of dst \<and> impl_of rest = impl_of dst"
      have "a \<notin> dom (wrapped_attrs (tuple_map t) wrapv)"
        using Cons.prems(1) w by (auto simp: dom_wrapped wrap_ok_def)
      then have "tuple_map rest ++ wrapped_attrs (tuple_map t) wrapv = tuple_map dst ++ wrapped_attrs (tuple_map t) (w # wrapv)"
        using rest tpl(1) w by (simp add: becomes_def map_add_upd_left wrapped_attrs_def)
      then show "achieves (wrap_each same P t 0 wrapv rest) (becomes (tuple_map dst ++ wrapped_attrs (tuple_map t) (w # wrapv)))"
        using Cons.IH[OF ok(3), of rest 0] rest by (simp only: becomes_def[of _ rest])
    qed
    moreover have "wrap_each same P t ret (w # wrapv) dst m =
        and_then_change (ignoring (RDB_tuple_set same P dst a (Some tpl))) (\<lambda>rest. wrap_each same P t 0 wrapv rest) m1"
      using c got(1) ok(1) w by simp
    ultimately show "r = Inr () \<and> becomes (tuple_map dst ++ wrapped_attrs (tuple_map t) (w # wrapv)) d \<and> fails m' = []"
      using achievesD run got(3) by metis
  qed
qed

lemma wrap_achieves:
  assumes "tuple_ok t" "kind_of (val_of t) = RDB_OB_TUPLE" "wrap_ok (tuple_map t) wrapv"
  shows "achieves (RDB_wrap_tuple same P t wrapv RDB_init_obj) (becomes (wrap_map (tuple_map t) wrapv))"
  unfolding RDB_wrap_tuple_def
proof (rule achieves_and_then[OF wrap_each_achieves[OF assms(1,3) tuple_init(1)]])
  fix rest assume rest: "becomes (tuple_map RDB_init_obj ++ wrapped_attrs (tuple_map t) wrapv) rest"
  let ?p = "\<lambda>k. \<forall>w \<in> set wrapv. k \<notin> set (fst w)"
  have "achieves (over_entries t (\<lambda>k v dst. if ?p k then RDB_tuple_set same P dst k (Some v) else changed dst) rest)
    (\<lambda>d. tuple_ok d \<and> moved ?p id (tuple_map t) (tuple_map rest) (tuple_map d) \<and> typ_of d = typ_of rest \<and> impl_of d = impl_of rest)"
    by (rule over_entries_achieves[OF sets_attrs_tuple_set[of same P] assms(1,2)]) (use rest in \<open>simp_all add: becomes_def\<close>)
  then show "achieves (over_entries t (\<lambda>k v dst. if ?p k then RDB_tuple_set same P dst k (Some v) else changed dst) rest)
    (becomes (wrap_map (tuple_map t) wrapv))"
  proof (rule achieves_mono, elim conjE)
    fix d assume d: "tuple_ok d" "moved ?p id (tuple_map t) (tuple_map rest) (tuple_map d)"
    have "moved ?p id (tuple_map t) (tuple_map rest) (wrap_map (tuple_map t) wrapv)"
      using rest by (simp add: moved_def wrap_map_def becomes_def map_add_def)
    then show "becomes (wrap_map (tuple_map t) wrapv) d" using d(1) moved_unique[OF d(2)] by (simp add: becomes_def)
  qed
qed

text \<open>The attributes that unwrapping adds.\<close>

fun attrs_of :: "rdb_value option \<Rightarrow> string \<Rightarrow> rdb_value option" where
  "attrs_of (Some (Value t i (Attrs f))) = f"
| "attrs_of _ = (\<lambda>_. None)"

definition unwrapped_attrs :: "(string \<Rightarrow> rdb_value option) \<Rightarrow> string list \<Rightarrow> (string \<Rightarrow> rdb_value option) \<Rightarrow> string \<Rightarrow> rdb_value option" where
  "unwrapped_attrs g names = fold (\<lambda>a m. m ++ attrs_of (g a)) names"

definition unwrap_map :: "(string \<Rightarrow> rdb_value option) \<Rightarrow> string list \<Rightarrow> string \<Rightarrow> rdb_value option" where
  "unwrap_map g names k = (if k \<in> dom g \<and> k \<notin> set names then g k else unwrapped_attrs g names (\<lambda>_. None) k)"

lemma tuple_kind:
  assumes "obj_wf w" "obj_abs w = Value t i (Attrs f)" "f k \<noteq> None"
  shows "kind_of (val_of w) = RDB_OB_TUPLE" "tuple_ok w" "tuple_map w = f"
proof -
  obtain t' i' v where w: "w = Obj t' i' v" by (cases w)
  obtain slots cap n where v: "v = TupleV (Some slots) cap n"
    using assms w by (cases v) (auto split: option.splits, metis not_None_eq val_abs.simps(2) rdb_content.inject(2) option.exhaust)
  then show "kind_of (val_of w) = RDB_OB_TUPLE" using w by simp
  show ok: "tuple_ok w" using assms(1) v w by (simp add: tuple_ok_def)
  show "tuple_map w = f" using tuple_value[of w] ok assms(2) by (simp add: tuple_ok_def)
qed

lemma copy_tuple_achieves:
  assumes "tuple_ok w" "kind_of (val_of w) = RDB_OB_TUPLE" "tuple_ok dst"
  shows "achieves (copy_tuple_obj same P dst w) (\<lambda>d. becomes (tuple_map dst ++ tuple_map w) d)"
proof -
  obtain t i slots cap n where w: "w = Obj t i (TupleV slots cap n)"
    using assms(2) by (cases w; cases "val_of w") auto
  have inv: "tuple_inv (Obj t i (TupleV slots cap n))" using assms(1) w by (simp add: tuple_ok_def)
  have map: "Attrs (tuple_map w) = val_abs (TupleV slots cap n)" using tuple_value[OF inv] w by simp
  show ?thesis
  proof (cases "slots = None \<or> n = 0")
    case True
    then have n: "n = 0" using inv by (auto simp: tuple_inv_def tuple_tab_def hashtable_inv_def)
    then have "tuple_map w = (\<lambda>_. None)" using empty_tuple_abs inv map by simp
    then show ?thesis using n assms(3) w by (auto simp: copy_tuple_obj_def becomes_def map_add_def intro: achieves_changed)
  next
    case False
    then obtain sl where sl: "slots = Some sl" "n \<noteq> 0" by auto
    have "slots_wf sl" "slots_uniq (\<lambda>e f. fst e = fst f) sl"
      using assms(1) w sl inv by (auto simp: tuple_ok_def tuple_inv_def tuple_tab_def hashtable_inv_def slots_inv_def)
    then have "changes (RDB_copy_tuple same P dst sl) (copied_slots dst sl)"
      using copying(3) assms(3) by (simp add: tuple_ok_def)
    moreover have "copied_slots dst sl d \<Longrightarrow> becomes (tuple_map dst ++ tuple_map w) d" for d
      using map sl by (auto simp: copied_slots_def becomes_def tuple_ok_def tuple_map_def map_add_def fun_eq_iff split: option.splits)
    ultimately show ?thesis using sl w by (auto simp: copy_tuple_obj_def intro: achieves_changes changes_mono)
  qed
qed

definition unwrap_ok :: "(string \<Rightarrow> rdb_value option) \<Rightarrow> string list \<Rightarrow> bool" where
  "unwrap_ok g names \<longleftrightarrow> (\<forall>a \<in> set names. \<exists>t i f k. g a = Some (Value t i (Attrs f)) \<and> f k \<noteq> None)"

lemma unwrap_each_achieves:
  assumes "tuple_ok t" "unwrap_ok (tuple_map t) names" "tuple_ok dst"
  shows "achieves (unwrap_each same P t names dst) (becomes (unwrapped_attrs (tuple_map t) names (tuple_map dst)))"
  using assms(2,3)
proof (induction names arbitrary: dst)
  case Nil
  then show ?case by (auto simp: unwrapped_attrs_def becomes_def intro: achieves_changed)
next
  case (Cons a as)
  obtain ty i f k where at: "tuple_map t a = Some (Value ty i (Attrs f))" "f k \<noteq> None"
    using Cons.prems(1) unfolding unwrap_ok_def by (meson list.set_intros(1))
  then obtain w where w: "attrs t a = Some w" "obj_abs w = Value ty i (Attrs f)" by (auto simp: tuple_map_def)
  note kind = tuple_kind[OF tuple_ok_attr[OF assms(1) w(1)] w(2) at(2)]
  have "achieves (and_then_change (copy_tuple_obj same P dst w) (unwrap_each same P t as))
      (becomes (unwrapped_attrs (tuple_map t) (a # as) (tuple_map dst)))"
  proof (rule achieves_and_then[OF copy_tuple_achieves[OF kind(2,1) Cons.prems(2)]])
    fix d assume d: "becomes (tuple_map dst ++ tuple_map w) d"
    then show "achieves (unwrap_each same P t as d) (becomes (unwrapped_attrs (tuple_map t) (a # as) (tuple_map dst)))"
      using Cons.IH[of d] Cons.prems(1) at kind(3) by (simp add: becomes_def[of _ d] unwrapped_attrs_def unwrap_ok_def)
  qed
  then show ?case using tuple_get[OF assms(1)] w kind(1) by simp
qed

lemma unwrap_achieves:
  assumes "tuple_ok t" "kind_of (val_of t) = RDB_OB_TUPLE" "unwrap_ok (tuple_map t) names"
  shows "achieves (RDB_unwrap_tuple same P t names RDB_init_obj) (becomes (unwrap_map (tuple_map t) names))"
  unfolding RDB_unwrap_tuple_def
proof (rule achieves_and_then[OF unwrap_each_achieves[OF assms(1,3) tuple_init(1)]])
  fix rest assume rest: "becomes (unwrapped_attrs (tuple_map t) names (tuple_map RDB_init_obj)) rest"
  let ?p = "\<lambda>k. k \<notin> set names"
  have "achieves (over_entries t (\<lambda>k v dst. if k \<in> set names then changed dst else RDB_tuple_set same P dst k (Some v)) rest)
    (\<lambda>d. tuple_ok d \<and> moved ?p id (tuple_map t) (tuple_map rest) (tuple_map d) \<and> typ_of d = typ_of rest \<and> impl_of d = impl_of rest)"
    by (rule over_entries_achieves[OF sets_attrs_tuple_set[of same P] assms(1,2)]) (use rest in \<open>simp_all add: becomes_def\<close>)
  then show "achieves (over_entries t (\<lambda>k v dst. if k \<in> set names then changed dst else RDB_tuple_set same P dst k (Some v)) rest)
    (becomes (unwrap_map (tuple_map t) names))"
  proof (rule achieves_mono, elim conjE)
    fix d assume d: "tuple_ok d" "moved ?p id (tuple_map t) (tuple_map rest) (tuple_map d)"
    have "moved ?p id (tuple_map t) (tuple_map rest) (unwrap_map (tuple_map t) names)"
      using rest by (simp add: moved_def unwrap_map_def becomes_def)
    then show "becomes (unwrap_map (tuple_map t) names) d" using d(1) moved_unique[OF d(2)] by (simp add: becomes_def)
  qed
qed

section \<open>Wrapping, then unwrapping\<close>

definition no_clash :: "(string \<Rightarrow> rdb_value option) \<Rightarrow> (string list \<times> string) list \<Rightarrow> bool" where
  "no_clash g wrapv \<longleftrightarrow> (\<forall>a \<in> snd ` set wrapv. a \<in> dom g \<longrightarrow> (\<exists>w \<in> set wrapv. a \<in> set (fst w)))"

lemma wrapped_attr:
  assumes "wrap_ok g wrapv" "no_clash g wrapv" "(names, a) \<in> set wrapv"
  shows "wrap_map g wrapv a = Some (Value None None (Attrs (g |` set names)))"
proof -
  have "distinct (map fst (map (\<lambda>(names, a). (a, Value None None (Attrs (g |` set names)))) wrapv))"
    using assms(1) by (simp add: wrap_ok_def comp_def case_prod_unfold)
  then have "wrapped_attrs g wrapv a = Some (Value None None (Attrs (g |` set names)))"
    unfolding wrapped_attrs_def using assms(3) by (intro map_of_is_SomeI) force+
  moreover have "\<not> (a \<in> dom g \<and> (\<forall>w \<in> set wrapv. a \<notin> set (fst w)))" using assms(2,3) by (force simp: no_clash_def)
  ultimately show ?thesis by (auto simp: wrap_map_def)
qed

lemma unwrapped_wrapped:
  assumes "\<And>names a. (names, a) \<in> set ws \<Longrightarrow> h a = Some (Value None None (Attrs (g |` set names)))"
  shows "unwrapped_attrs h (map snd ws) m = m ++ (g |` (\<Union>w \<in> set ws. set (fst w)))"
  using assms
proof (induction ws arbitrary: m)
  case (Cons w ws)
  obtain names a where w: "w = (names, a)" by (cases w)
  have "h a = Some (Value None None (Attrs (g |` set names)))" using Cons.prems[of names a] w by simp
  then have "unwrapped_attrs h (map snd (w # ws)) m = unwrapped_attrs h (map snd ws) (m ++ (g |` set names))"
    using w by (simp add: unwrapped_attrs_def)
  also have "\<dots> = (m ++ (g |` set names)) ++ (g |` (\<Union>w \<in> set ws. set (fst w)))"
    by (rule Cons.IH) (use Cons.prems in simp)
  finally show ?case using w by (auto simp: map_add_def restrict_map_def fun_eq_iff split: option.splits)
qed (simp add: unwrapped_attrs_def)

lemma unwrap_wrap_map:
  assumes "wrap_ok g wrapv" "no_clash g wrapv"
  shows "unwrap_ok (wrap_map g wrapv) (map snd wrapv)" "unwrap_map (wrap_map g wrapv) (map snd wrapv) = g"
proof -
  note at = wrapped_attr[OF assms]
  show "unwrap_ok (wrap_map g wrapv) (map snd wrapv)"
    unfolding unwrap_ok_def
  proof
    fix a assume "a \<in> set (map snd wrapv)"
    then obtain names where na: "(names, a) \<in> set wrapv" by auto
    then have "names \<noteq> []" "set names \<subseteq> dom g" using assms(1) by (auto simp: wrap_ok_def)
    then obtain k where "(g |` set names) k \<noteq> None" by (metis domIff list.set_intros(1) neq_Nil_conv restrict_in subsetD)
    then show "\<exists>t i f k. wrap_map g wrapv a = Some (Value t i (Attrs f)) \<and> f k \<noteq> None" using at[OF na] by blast
  qed
  have un: "unwrapped_attrs (wrap_map g wrapv) (map snd wrapv) (\<lambda>_. None) = g |` (\<Union>w \<in> set wrapv. set (fst w))"
    using unwrapped_wrapped[of wrapv "wrap_map g wrapv" g "\<lambda>_. None"] at by (simp add: map_add_def restrict_map_def fun_eq_iff split: option.splits)
  show "unwrap_map (wrap_map g wrapv) (map snd wrapv) = g"
  proof
    fix k
    consider "k \<in> snd ` set wrapv" | "k \<notin> snd ` set wrapv" by blast
    then show "unwrap_map (wrap_map g wrapv) (map snd wrapv) k = g k"
    proof cases
      case 1
      then have "k \<in> dom g \<Longrightarrow> \<exists>w \<in> set wrapv. k \<in> set (fst w)" using assms(2) unfolding no_clash_def by blast
      then show ?thesis using 1 un by (cases "g k") (auto simp: unwrap_map_def restrict_map_def)
    next
      case 2
      then have "wrapped_attrs g wrapv k = None" using dom_wrapped[of g wrapv] by (metis domIff)
      then show ?thesis using 2 un by (auto simp: unwrap_map_def wrap_map_def restrict_map_def domIff)
    qed
  qed
qed

end
