(* ===== verification/Attr_Order.thy ===== *)
theory Attr_Order
  imports Rdb_Types "HOL-Library.Char_ord" "HOL-Library.List_Lexorder" "HOL-Library.Multiset"
begin

text \<open>
  The order in which the attributes of a tuple type are written: calling
  \<^verbatim>\<open>RDB_next_attr_sorted\<close> again and again gives the attributes sorted by their names.
\<close>

section \<open>The order of strcmp\<close>

lemma of_char_less: "(of_char c :: int) < of_char d \<longleftrightarrow> c < d"
  using of_nat_less_iff[of "of_char c :: nat" "of_char d", where 'a = int] by (simp only: less_char_def of_nat_of_char)

lemma strcmp_less: "strcmp s t < 0 \<longleftrightarrow> s < t"
  by (induction s t rule: strcmp.induct) (auto simp: of_char_less)

lemma strcmp_greater: "strcmp s t > 0 \<longleftrightarrow> t < s"
  by (induction s t rule: strcmp.induct) (auto simp: of_char_less)

section \<open>The loop\<close>

definition after :: "string option \<Rightarrow> string \<Rightarrow> bool" where
  "after lastname n = (case lastname of None \<Rightarrow> True | Some l \<Rightarrow> l < n)"

text \<open>The index is that of a least name among those after the last one.\<close>

definition least_at :: "rdb_attr list \<Rightarrow> string option \<Rightarrow> nat \<Rightarrow> int \<Rightarrow> bool" where
  "least_at as lastname k i \<longleftrightarrow>
     (if i = -1 then \<forall>j < k. \<not> after lastname (name_or_empty (as ! j))
      else 0 \<le> i \<and> nat i < k \<and> after lastname (name_or_empty (as ! nat i))
        \<and> (\<forall>j < k. after lastname (name_or_empty (as ! j)) \<longrightarrow> name_or_empty (as ! nat i) \<le> name_or_empty (as ! j)))"

lemma least_at_step:
  assumes "least_at all lastname k i"
  shows "least_at all lastname (Suc k)
     (if after lastname (name_or_empty (all ! k)) \<and> (i = -1 \<or> name_or_empty (all ! k) < name_or_empty (all ! nat i))
      then int k else i)"
proof (cases "i = -1")
  case True
  then show ?thesis using assms by (auto simp: least_at_def less_Suc_eq)
next
  case False
  then have i: "0 \<le> i" "nat i < k" "after lastname (name_or_empty (all ! nat i))"
    "\<And>j. j < k \<Longrightarrow> after lastname (name_or_empty (all ! j)) \<Longrightarrow> name_or_empty (all ! nat i) \<le> name_or_empty (all ! j)"
    using assms by (auto simp: least_at_def)
  show ?thesis
  proof (cases "after lastname (name_or_empty (all ! k)) \<and> name_or_empty (all ! k) < name_or_empty (all ! nat i)")
    case True
    then show ?thesis using i(4) False by (auto simp: least_at_def less_Suc_eq dest!: i(4) intro: order.strict_implies_order less_le_trans)
  next
    case False
    then show ?thesis using i \<open>i \<noteq> -1\<close> by (auto simp: least_at_def less_Suc_eq)
  qed
qed

lemma next_attr_loop_least:
  "least_at all lastname k i \<Longrightarrow> all = pre @ as \<Longrightarrow> length pre = k
    \<Longrightarrow> least_at all lastname (length all) (next_attr_loop all lastname as (int k) i)"
proof (induction as arbitrary: k i pre)
  case (Cons a as)
  have a: "all ! k = a" using Cons.prems(2,3) by (auto simp: nth_append)
  have "least_at all lastname (Suc k)
     (if after lastname (name_or_empty a) \<and> (i = -1 \<or> name_or_empty a < name_or_empty (all ! nat i)) then int k else i)"
    using least_at_step[OF Cons.prems(1)] a by simp
  from Cons.IH[OF this, of "pre @ [a]"] show ?case
    using Cons.prems(2,3) by (simp add: after_def strcmp_less strcmp_greater add.commute cong: if_cong option.case_cong)
qed simp

lemma next_attr_least: "least_at as lastname (length as) (RDB_next_attr_sorted as lastname)"
  using next_attr_loop_least[of as lastname 0 "-1" "[]" as] by (simp add: RDB_next_attr_sorted_def least_at_def)

section \<open>All attributes\<close>

text \<open>The attributes in the order in which a loop over \<open>k\<close> of them finds them.\<close>

fun attrs_in_order :: "rdb_attr list \<Rightarrow> nat \<Rightarrow> string option \<Rightarrow> rdb_attr list result" where
  "attrs_in_order as 0 lastname = Inr []"
| "attrs_in_order as (Suc k) lastname =
     (let attridx = RDB_next_attr_sorted as lastname
      in if attridx = -1 then Inl Segfault
         else let a = as ! nat attridx
              in rbind (attrs_in_order as k (Some (name_or_empty a))) (\<lambda>bs. Inr (a # bs)))"

lemma filter_after_least:
  assumes "distinct (map name_or_empty as)" "a \<in> set as" "after lastname (name_or_empty a)"
    and "\<And>b. b \<in> set as \<Longrightarrow> after lastname (name_or_empty b) \<Longrightarrow> name_or_empty a \<le> name_or_empty b"
  shows "mset (filter (\<lambda>b. after lastname (name_or_empty b)) as)
    = add_mset a (mset (filter (\<lambda>b. after (Some (name_or_empty a)) (name_or_empty b)) as))" (is "mset ?xs = add_mset a (mset ?ys)")
proof -
  have dist: "distinct as" using assms(1) by (simp add: distinct_map)
  have inj: "inj_on name_or_empty (set as)" using assms(1) by (simp add: distinct_map)
  have "set ?xs = set (a # ?ys)"
  proof (rule set_eqI)
    fix b
    have "b \<in> set as \<Longrightarrow> b \<noteq> a \<Longrightarrow> name_or_empty b \<noteq> name_or_empty a" using assms(2) inj_onD[OF inj, of b a] by blast
    then show "b \<in> set ?xs \<longleftrightarrow> b \<in> set (a # ?ys)"
      using assms(2,3) assms(4)[of b] by (cases lastname) (auto simp: after_def order.strict_iff_order intro: less_trans)
  qed
  moreover have "a \<notin> set ?ys" by (simp add: after_def)
  ultimately have "mset ?xs = mset (a # ?ys)"
    using dist by (subst (asm) set_eq_iff_mset_eq_distinct) simp_all
  then show ?thesis by simp
qed

lemma attrs_in_order_sorted:
  assumes "distinct (map name_or_empty as)"
  shows "attrs_in_order as (length (filter (\<lambda>b. after lastname (name_or_empty b)) as)) lastname
    = Inr (sort_key name_or_empty (filter (\<lambda>b. after lastname (name_or_empty b)) as))"
proof (induction "length (filter (\<lambda>b. after lastname (name_or_empty b)) as)" arbitrary: lastname)
  case 0
  then show ?case by simp
next
  case (Suc k)
  let ?xs = "filter (\<lambda>b. after lastname (name_or_empty b)) as"
  let ?i = "RDB_next_attr_sorted as lastname"
  note least = next_attr_least[of as lastname, unfolded least_at_def]
  have "?i \<noteq> -1"
  proof
    assume "?i = -1"
    then have "?xs = []" using least by (auto simp: filter_empty_conv in_set_conv_nth)
    then show False using Suc(2) by simp
  qed
  then have i: "0 \<le> ?i" "nat ?i < length as" "after lastname (name_or_empty (as ! nat ?i))"
    "\<And>b. b \<in> set as \<Longrightarrow> after lastname (name_or_empty b) \<Longrightarrow> name_or_empty (as ! nat ?i) \<le> name_or_empty b"
    using least by (auto simp: in_set_conv_nth)
  define a where "a = as ! nat ?i"
  let ?ys = "filter (\<lambda>b. after (Some (name_or_empty a)) (name_or_empty b)) as"
  have ms: "mset ?xs = add_mset a (mset ?ys)"
    using filter_after_least[OF assms, of a lastname] i by (simp add: a_def)
  then have "length ?xs = Suc (length ?ys)" by (metis size_add_mset size_mset)
  then have k: "length ?ys = k" using Suc(2) by simp
  have inj: "inj_on name_or_empty (set as)" using assms by (simp add: distinct_map)
  have "sort_key name_or_empty ?xs = a # sort_key name_or_empty ?ys"
  proof (rule sort_key_inj_key_eq)
    show "inj_on name_or_empty (set ?xs)" using inj by (rule inj_on_subset) auto
    show "sorted (map name_or_empty (a # sort_key name_or_empty ?ys))"
      by (auto simp: after_def)
    show "mset ?xs = mset (a # sort_key name_or_empty ?ys)" using ms by (simp only: mset.simps mset_sort)
  qed
  then show ?case using Suc(1)[of "Some (name_or_empty a)"] k Suc(2)[symmetric] \<open>?i \<noteq> -1\<close>
    by (simp add: Let_def a_def)
qed

lemma attrs_in_order_all:
  "distinct (map name_or_empty as) \<Longrightarrow> attrs_in_order as (length as) None = Inr (sort_key name_or_empty as)"
  using attrs_in_order_sorted[of as None] by (simp add: after_def)

text \<open>The result does not depend on the order of the attributes in the type.\<close>

lemma attrs_in_order_canonical:
  assumes "distinct (map name_or_empty as)" "mset as = mset bs"
  shows "attrs_in_order bs (length bs) None = attrs_in_order as (length as) None"
proof -
  have "mset (map name_or_empty as) = mset (map name_or_empty bs)" using assms(2) by simp
  then have "distinct (map name_or_empty bs)" using assms(1) by (metis mset_eq_imp_distinct_iff)
  moreover have "sort_key name_or_empty as = sort_key name_or_empty bs"
    using assms by (intro sort_key_inj_key_eq) (auto simp: distinct_map)
  ultimately show ?thesis using attrs_in_order_all assms(1) by simp
qed

end
