(* ===== verification/Value_Storage.thy ===== *)
theory Value_Storage
  imports Tuple_Ops Attr_Order
begin

text \<open>
  How values are stored, after \<^verbatim>\<open>rel/objectx.c\<close>: the length of the internal representation, writing
  it to a block and reading it back.  Numbers are stored as they are in memory, on a machine
  that stores the least significant byte first.

  The field \<^verbatim>\<open>store_typ\<close> of an object is an argument here.  \<^verbatim>\<open>RDB_obj_ilen\<close> sets it in the parts of a
  value to the declared types of the parts, and it is called before a value is written.
\<close>

section \<open>Loops that can fail\<close>

fun thread :: "('a \<Rightarrow> 's \<Rightarrow> 's action) \<Rightarrow> 'a list \<Rightarrow> 's \<Rightarrow> 's action" where
  "thread f [] s = done_with s"
| "thread f (x # xs) s = and_then (f x s) (thread f xs)"

lemma thread_cong [fundef_cong]:
  assumes "xs = ys" "\<And>x s. x \<in> set ys \<Longrightarrow> f x s = g x s" "s = t"
  shows "thread f xs s = thread g ys t"
  unfolding assms(1,3) using assms(2)
proof (induction ys arbitrary: t)
  case (Cons y ys)
  then have "f y t = g y t" "\<And>s. thread f ys s = thread g ys s" by simp_all
  then show ?case by (simp add: fun_eq_iff and_then_def split: prod.split sum.split)
qed simp

section \<open>Numbers as bytes\<close>

fun le_bytes :: "nat \<Rightarrow> nat \<Rightarrow> string" where
  "le_bytes 0 n = []"
| "le_bytes (Suc k) n = char_of (n mod 256) # le_bytes k (n div 256)"

fun le_val :: "string \<Rightarrow> nat" where
  "le_val [] = 0"
| "le_val (c # cs) = of_char c + 256 * le_val cs"

text \<open>The bits of a floating-point number.\<close>

definition sign_bit :: "bool \<Rightarrow> nat" where
  "sign_bit s = (if s then 2 ^ 63 else 0)"

fun double_bits :: "double \<Rightarrow> nat" where
  "double_bits (Finite s m e) =
     sign_bit s + (if m < 2 ^ 52 then m else nat (e + 1075) * 2 ^ 52 + (m - 2 ^ 52))"
| "double_bits (Infinite s) = sign_bit s + 2047 * 2 ^ 52"
| "double_bits NaN = 2047 * 2 ^ 52 + 2 ^ 51"

definition bits_double :: "nat \<Rightarrow> double" where
  "bits_double b =
     (let s = (b \<ge> 2 ^ 63); r = b mod 2 ^ 63; e = r div 2 ^ 52; m = r mod 2 ^ 52
      in if e = 2047 then if m = 0 then Infinite s else NaN
         else if e = 0 then Finite s m (- 1074) else Finite s (2 ^ 52 + m) (int e - 1075))"

definition SIZE :: nat where "SIZE = 8"

section \<open>The length\<close>

definition irep_length :: "rdb_type \<Rightarrow> int" where
  "irep_length typ = (case typ of Scalar n i reps ar sups \<Rightarrow> ireplen i | _ \<Rightarrow> -1)"

text \<open>The type that tells the parts of a value of the type; reading the attributes or the base type of
  another kind of type is a fault.\<close>

definition parts_type :: "rdb_type \<Rightarrow> rdb_type result" where
  "parts_type typ = (case typ of Scalar n i reps ar sups \<Rightarrow> (case ar of None \<Rightarrow> Inl Segfault | Some t \<Rightarrow> Inr t) | _ \<Rightarrow> Inr typ)"

definition named_attrs :: "rdb_type \<Rightarrow> (string \<times> rdb_type) list result" where
  "named_attrs typ =
     rbind (parts_type typ) (\<lambda>t. case t of
       Tuple as \<Rightarrow> each_r (\<lambda>a. case a of None \<Rightarrow> Inl Segfault | Some nt \<Rightarrow> Inr nt) as | _ \<Rightarrow> Inl Segfault)"

definition elem_type :: "rdb_type \<Rightarrow> rdb_type result" where
  "elem_type typ =
     rbind (parts_type typ) (\<lambda>t. case t of Array b \<Rightarrow> Inr b | Relation b \<Rightarrow> Inr b | _ \<Rightarrow> Inl Segfault)"

text \<open>The elements that a loop over an array reads until it gets an error.\<close>

definition array_elems :: "i32 \<Rightarrow> rdb_obj list \<Rightarrow> rdb_obj list result" where
  "array_elems n es =
     (if int (length es) < sint n then Inl Segfault else Inr (take (nat (sint n)) es))"

definition end_of_array :: "unit action" where
  "end_of_array m =
     (case raise_error NOT_FOUND_ERROR ''out of range'' m of
        (Inl (Raised e), m') \<Rightarrow> (if err_type e = NOT_FOUND_ERROR then Inr () else Inl (Raised e), m')
      | r \<Rightarrow> r)"

definition impl_for :: "rdb_type \<Rightarrow> rdb_obj \<Rightarrow> rdb_type result" where
  "impl_for store_typ objp =
     (if RDB_type_is_dummy store_typ
      then case RDB_obj_impl_type objp of None \<Rightarrow> Inl Segfault | Some t \<Rightarrow> Inr t
      else Inr store_typ)"

definition type_name_or_fault :: "rdb_type \<Rightarrow> string result" where
  "type_name_or_fault t = (case RDB_type_name t of None \<Rightarrow> Inl Segfault | Some n \<Rightarrow> Inr n)"

definition header_len :: "rdb_type \<Rightarrow> rdb_type \<Rightarrow> nat result" where
  "header_len store_typ impltyp =
     (if RDB_type_is_dummy store_typ then rbind (type_name_or_fault impltyp) (\<lambda>n. Inr (SIZE + length n + 1)) else Inr 0)"

text \<open>The parts of a value are smaller than the value.\<close>

lemma slot_set_size: "(k, v) \<in> slot_set slots \<Longrightarrow> size v < size_list (size_option (size_prod (\<lambda>_. 0) size)) slots"
proof (induction slots)
  case (Cons s slots)
  then show ?case by (cases s) auto
qed simp

lemma tuple_get_size:
  assumes "RDB_tuple_get t a = Inr (Some v)"
  shows "size v < size t"
proof -
  obtain h e where h: "tuple_tab t = Inr h" "RDB_hashtable_get h (search_key a) () = Some e" "v = snd e" and "val_of t \<noteq> Initial"
    using assms by (auto simp: RDB_tuple_get_def split: if_splits)
  then obtain slots cap n where "val_of t = TupleV slots cap n" "entries h = slots"
    by (cases "val_of t") (auto simp: tuple_tab_def)
  then show ?thesis using hashtable_get_mem[OF h(2)] h(3) slot_set_size[of "fst e" v]
    by (cases t; cases slots) (fastforce simp: hashtable_set_def)+
qed

lemma array_elems_size:
  assumes "val_of t = ArrayV n cap es" "array_elems n es = Inr vs" "v \<in> set vs"
  shows "size v < size t"
proof -
  have "v \<in> set es" using assms(2,3) by (auto simp: array_elems_def split: if_splits dest: in_set_takeD)
  then have "size v < Suc (size_list size es)" by (induction es) auto
  then show ?thesis using assms(1) by (cases t) simp
qed

function RDB_obj_ilen :: "rdb_type \<Rightarrow> rdb_obj \<Rightarrow> nat action" where
  "RDB_obj_ilen store_typ objp =
     and_then (end_with (impl_for store_typ objp)) (\<lambda>impltyp.
     and_then (end_with (header_len store_typ impltyp)) (\<lambda>head.
       case val_of objp of
         TupleV slots cap n \<Rightarrow>
           and_then (end_with (named_attrs impltyp)) (\<lambda>as.
           and_then (each (\<lambda>(name, t). case RDB_tuple_get objp name of
               Inl e \<Rightarrow> end_with (Inl e)
             | Inr None \<Rightarrow> raise_error TYPE_MISMATCH_ERROR ''missing attribute value''
             | Inr (Some v) \<Rightarrow> and_then (RDB_obj_ilen t v) (\<lambda>l. done_with ((if irep_length t = -1 then SIZE else 0) + l))) as) (\<lambda>ls.
           done_with (head + sum_list ls)))
       | ArrayV n cap es \<Rightarrow>
           and_then (end_with (elem_type impltyp)) (\<lambda>t.
             case array_elems n es of
               Inl e \<Rightarrow> end_with (Inl e)
             | Inr vs \<Rightarrow>
                 and_then (each (\<lambda>v. and_then (RDB_obj_ilen t v) (\<lambda>l. done_with ((if irep_length t = -1 then SIZE else 0) + l))) vs) (\<lambda>ls.
                 and_then end_of_array (\<lambda>_. done_with (head + sum_list ls))))
       | TableV a \<Rightarrow> end_with (Inl Unmodelled)
       | BinV d \<Rightarrow> done_with (if irep_length impltyp = -1 then head + length d else to_size (int head + irep_length impltyp))
       | _ \<Rightarrow> done_with (if irep_length impltyp = -1 then head else to_size (int head + irep_length impltyp))))"
  by pat_completeness auto

termination
  by (relation "measure (\<lambda>(t, v). size v)") (auto intro: tuple_get_size array_elems_size)

declare RDB_obj_ilen.simps [simp del]

section \<open>Writing\<close>

text \<open>
  \<^verbatim>\<open>RDB_obj_irep\<close>: the bytes of a value that is stored in the object itself or in its
  buffer.  A \<^verbatim>\<open>RDB_time\<close> ends with a byte that is not used.
\<close>

definition RDB_obj_irep :: "platform \<Rightarrow> rdb_obj \<Rightarrow> string result" where
  "RDB_obj_irep P valp =
     (case val_of valp of
        BoolV b \<Rightarrow> Inr [if b then CHR 0x01 else NUL]
      | IntV i \<Rightarrow> Inr (le_bytes 4 (unat i))
      | FloatV x \<Rightarrow> Inr (le_bytes 8 (double_bits x))
      | TimeV y mo d h mi s \<Rightarrow>
          Inr (le_bytes 2 (unat y) @ map (\<lambda>w. char_of (unat w)) [mo, d, h, mi, s] @ [fresh P 0 7])
      | BinV d \<Rightarrow> Inr d
      | _ \<Rightarrow> Inl Segfault)"

text \<open>The attributes in the order in which the loop finds them; an attribute without a name is a fault.\<close>

definition attr_seq :: "rdb_type \<Rightarrow> (string \<times> rdb_type) list result" where
  "attr_seq typ =
     rbind (parts_type typ) (\<lambda>t. case t of
       Tuple as \<Rightarrow> rbind (attrs_in_order as (length as) None) (each_r (\<lambda>a. case a of None \<Rightarrow> Inl Segfault | Some nt \<Rightarrow> Inr nt))
     | _ \<Rightarrow> Inl Segfault)"

text \<open>
  The block that is written to and the position, which becomes a null pointer when the
  length of a part cannot be computed.
\<close>

definition write_block :: "string \<Rightarrow> nat \<Rightarrow> string \<Rightarrow> string action" where
  "write_block buf bp bs = end_with (write_at buf (int bp) bs)"

text \<open>For a value of a dummy type the name of the implementing type is written first.\<close>

definition write_header :: "rdb_type \<Rightarrow> string \<Rightarrow> nat \<Rightarrow> rdb_obj \<Rightarrow> nat \<Rightarrow> (rdb_type \<times> string \<times> nat \<times> nat) action" where
  "write_header store_typ buf bp objp len =
     and_then (end_with (impl_for store_typ objp)) (\<lambda>impltyp.
       if RDB_type_is_dummy store_typ then
         and_then (end_with (type_name_or_fault impltyp)) (\<lambda>n.
         and_then (write_block buf bp (le_bytes 8 (length n + 1))) (\<lambda>buf1.
         and_then (write_block buf1 (bp + SIZE) (n @ [NUL])) (\<lambda>buf2.
         done_with (impltyp, buf2, bp + SIZE + (length n + 1), to_size (int len - int (SIZE + (length n + 1)))))))
       else done_with (impltyp, buf, bp, len))"

definition write_plain :: "platform \<Rightarrow> string \<Rightarrow> nat \<Rightarrow> rdb_obj \<Rightarrow> nat \<Rightarrow> string action" where
  "write_plain P buf bp objp len =
     and_then (end_with (RDB_obj_irep P objp)) (\<lambda>src.
       if length src < len then end_with (Inl Segfault) else write_block buf bp (take len src))"

text \<open>What \<^verbatim>\<open>obj_to_len_irep\<close> does for a part; \<open>to_irep\<close> writes the value itself.\<close>

definition obj_to_len_irep ::
  "(string \<Rightarrow> nat \<Rightarrow> nat \<Rightarrow> string action) \<Rightarrow> rdb_type \<Rightarrow> rdb_obj \<Rightarrow> string \<times> nat option \<Rightarrow> (string \<times> nat option) action" where
  "obj_to_len_irep to_irep typ objp dst m =
     (case dst of
        (buf, None) \<Rightarrow> (Inl Segfault, m)
      | (buf, Some bp) \<Rightarrow>
          if irep_length typ = -1 then
            (case RDB_obj_ilen typ objp m of
               (Inl (Raised e), m') \<Rightarrow> (Inr (buf, None), m')
             | (Inl Silent, m') \<Rightarrow> (Inr (buf, None), m')
             | (Inl e, m') \<Rightarrow> (Inl e, m')
             | (Inr len, m') \<Rightarrow>
                 and_then (write_block buf bp (le_bytes 8 len)) (\<lambda>buf1.
                 and_then (to_irep buf1 (bp + SIZE) len) (\<lambda>buf2. done_with (buf2, Some (bp + SIZE + len)))) m')
          else let len = to_size (irep_length typ)
               in and_then (to_irep buf bp len) (\<lambda>buf1. done_with (buf1, Some (bp + len))) m)"

lemma obj_to_len_irep_cong [fundef_cong]:
  "f = g \<Longrightarrow> t = u \<Longrightarrow> v = w \<Longrightarrow> d = e \<Longrightarrow> obj_to_len_irep f t v d = obj_to_len_irep g u w e"
  by simp

function RDB_obj_to_irep :: "platform \<Rightarrow> rdb_type \<Rightarrow> rdb_obj \<Rightarrow> string \<Rightarrow> nat \<Rightarrow> nat \<Rightarrow> string action" where
  "RDB_obj_to_irep P store_typ objp buf bp len =
     and_then (write_header store_typ buf bp objp len) (\<lambda>(impltyp, buf', bp', len').
       case val_of objp of
         TupleV slots cap n \<Rightarrow>
           and_then (end_with (attr_seq impltyp)) (\<lambda>as.
           and_then (thread (\<lambda>(name, t) dst. case RDB_tuple_get objp name of
               Inl e \<Rightarrow> end_with (Inl e)
             | Inr None \<Rightarrow> end_with (Inl Segfault)
             | Inr (Some v) \<Rightarrow> obj_to_len_irep (RDB_obj_to_irep P t v) t v dst) as (buf', Some bp')) (\<lambda>dst. done_with (fst dst)))
       | ArrayV n cap es \<Rightarrow>
           and_then (end_with (elem_type impltyp)) (\<lambda>t.
             case array_elems n es of
               Inl e \<Rightarrow> end_with (Inl e)
             | Inr vs \<Rightarrow>
                 and_then (thread (\<lambda>v dst. obj_to_len_irep (RDB_obj_to_irep P t v) t v dst) vs (buf', Some bp'))
                   (\<lambda>dst m. (Inr (fst dst), snd (end_of_array m))))
       | TableV a \<Rightarrow> end_with (Inl Unmodelled)
       | _ \<Rightarrow> write_plain P buf' bp' objp len')"
  by pat_completeness auto

termination
  by (relation "measure (\<lambda>(P, t, v, _). size v)") (auto intro: tuple_get_size array_elems_size)

declare RDB_obj_to_irep.simps [simp del]

section \<open>Reading\<close>

text \<open>
  A value is read from the bytes between the pointer and the end of its block, of which it
  takes \<open>len\<close>.  The pointer is not null.  \<open>subtype\<close> stands for \<^verbatim>\<open>RDB_get_subtype\<close>, which searches the
  lists of the subtypes of a type.
\<close>

definition unchanged_or_fail :: "'v change \<Rightarrow> 'v action" where
  "unchanged_or_fail f m = (case f m of (Inl e, v, m') \<Rightarrow> (Inl e, m') | (Inr _, v, m') \<Rightarrow> (Inr v, m'))"

text \<open>The number of bytes that were used is returned as an \<^verbatim>\<open>int\<close>; a negative one is taken for an error.\<close>

definition len_irep_to_obj ::
  "(rdb_obj \<Rightarrow> rdb_type \<Rightarrow> string \<Rightarrow> nat \<Rightarrow> rdb_obj action) \<Rightarrow> rdb_obj \<Rightarrow> rdb_type \<Rightarrow> string \<Rightarrow> nat \<Rightarrow> (rdb_obj \<times> nat) action" where
  "len_irep_to_obj to_obj valp typ data dlen =
     (let part = (\<lambda>llen len bs dl.
            if len > dl then raise_error INTERNAL_ERROR ''invalid length''
            else and_then (to_obj valp typ bs len) (\<lambda>v.
              let l = to_int (int (llen + len)) in if l < 0 then end_with (Inl Silent) else done_with (v, nat l)))
      in if irep_length typ = -1
         then and_then (end_with (read_at data 0 8)) (\<lambda>bs. part SIZE (le_val bs) (drop 8 data) (to_size (int dlen - int SIZE)))
         else part 0 (to_size (irep_length typ)) data dlen)"

definition irep_to_tuple ::
  "(rdb_type \<Rightarrow> rdb_type \<Rightarrow> bool) \<Rightarrow> platform \<Rightarrow> (rdb_obj \<Rightarrow> rdb_type \<Rightarrow> string \<Rightarrow> nat \<Rightarrow> rdb_obj action)
    \<Rightarrow> rdb_obj \<Rightarrow> rdb_type \<Rightarrow> string \<Rightarrow> nat \<Rightarrow> (rdb_obj \<times> nat) action" where
  "irep_to_tuple same P to_obj tplp typ data dlen =
     and_then (end_with (attr_seq typ)) (\<lambda>as.
     and_then (thread (\<lambda>(name, t) (tpl, bs, dl, len).
         and_then (len_irep_to_obj to_obj RDB_init_obj t bs dl) (\<lambda>(obj, l).
         and_then (unchanged_or_fail (RDB_tuple_set same P tpl name (Some obj))) (\<lambda>tpl'.
         and_then (end_with (RDB_destroy_obj obj)) (\<lambda>_.
         done_with (tpl', drop l bs, to_size (int dl - int l), len + l))))) as (tplp, data, dlen, 0)) (\<lambda>(tpl, bs, dl, len).
     done_with (tpl, len)))"

text \<open>
  The elements are read twice, first to count them.  The bytes get fewer with every
  element, so the loop is bounded by their number; an element of length zero is read again
  and again.
\<close>

fun count_elems ::
  "(rdb_obj \<Rightarrow> rdb_type \<Rightarrow> string \<Rightarrow> nat \<Rightarrow> rdb_obj action) \<Rightarrow> rdb_type \<Rightarrow> nat \<Rightarrow> rdb_obj \<Rightarrow> string \<Rightarrow> nat \<Rightarrow> (rdb_obj \<times> nat) action" where
  "count_elems to_obj t k tpl bs 0 = done_with (tpl, 0)"
| "count_elems to_obj t 0 tpl bs (Suc len) = end_with (Inl Segfault)"
| "count_elems to_obj t (Suc k) tpl bs (Suc len) =
     and_then (len_irep_to_obj to_obj tpl t bs (Suc len)) (\<lambda>(tpl', l).
       if l = 0 then end_with (Inl Diverges)
       else and_then (count_elems to_obj t k tpl' (drop l bs) (to_size (int (Suc len) - int l))) (\<lambda>(v, n). done_with (v, Suc n)))"

definition irep_to_array ::
  "(rdb_type \<Rightarrow> rdb_type \<Rightarrow> bool) \<Rightarrow> platform \<Rightarrow> (rdb_obj \<Rightarrow> rdb_type \<Rightarrow> string \<Rightarrow> nat \<Rightarrow> rdb_obj action)
    \<Rightarrow> rdb_obj \<Rightarrow> rdb_type \<Rightarrow> string \<Rightarrow> nat \<Rightarrow> rdb_obj action" where
  "irep_to_array same P to_obj arrp typ data dlen =
     and_then (end_with (elem_type typ)) (\<lambda>t.
     and_then (count_elems to_obj t (Suc (length data)) RDB_init_obj data dlen) (\<lambda>(tpl, arrlen).
     and_then (unchanged_or_fail (RDB_set_array_length P arrp (word_of_nat arrlen))) (\<lambda>arr.
     and_then (thread (\<lambda>i (a, tp, bs, dl).
         and_then (len_irep_to_obj to_obj tp t bs dl) (\<lambda>(tp', l).
         and_then (unchanged_or_fail (RDB_array_set same P a (word_of_nat i) tp')) (\<lambda>a'.
         done_with (a', tp', drop l bs, to_size (int dl - int l)))))
       [0 ..< arrlen] (arr, tpl, data, dlen)) (\<lambda>(a, tp, _).
     and_then (end_with (RDB_destroy_obj tp)) (\<lambda>_. done_with a)))))"

text \<open>A string that is stored without its final null character gets one.\<close>

definition irep_to_bin :: "rdb_type \<Rightarrow> string \<Rightarrow> nat \<Rightarrow> string action" where
  "irep_to_bin typ data len =
     (if len > 0 then
        and_then (end_with (read_at data 0 len)) (\<lambda>bs.
        and_then RDB_alloc (\<lambda>_. done_with (if RDB_irep_is_string typ \<and> NUL \<notin> set bs then bs @ [NUL] else bs)))
      else if RDB_irep_is_string typ then and_then RDB_alloc (\<lambda>_. done_with [NUL])
      else done_with [])"

text \<open>The type and the implementing type of the value, and what is left of the bytes.\<close>

definition read_header ::
  "(rdb_type \<Rightarrow> string \<Rightarrow> rdb_type option) \<Rightarrow> rdb_type \<Rightarrow> string \<Rightarrow> nat \<Rightarrow> (rdb_type option \<times> rdb_type option \<times> string \<times> nat) action" where
  "read_header subtype typ data len =
     (if \<not> RDB_type_is_scalar typ then done_with (None, None, data, len)
      else if \<not> RDB_type_is_dummy typ then done_with (Some typ, None, data, len)
      else
        and_then (end_with (read_at data 0 8)) (\<lambda>szb.
        let sz = le_val szb in
        and_then (end_with (read_at data (int (to_size (int (SIZE + sz) - 1))) 1)) (\<lambda>last.
          if last \<noteq> [NUL] then raise_error DATA_CORRUPTED_ERROR ''invalid type name''
          else and_then (end_with (c_str (drop 8 data))) (\<lambda>tname.
            case subtype typ tname of
              None \<Rightarrow> raise_error TYPE_NOT_FOUND_ERROR tname
            | Some impltyp \<Rightarrow>
                done_with (Some typ, Some impltyp, drop (SIZE + sz) data, to_size (int len - int (SIZE + sz)))))))"

definition read_bytes :: "string \<Rightarrow> nat \<Rightarrow> (string \<Rightarrow> rdb_val) \<Rightarrow> rdb_val action" where
  "read_bytes data n val = and_then (end_with (read_at data 0 n)) (\<lambda>bs. done_with (val bs))"

definition time_val :: "string \<Rightarrow> rdb_val" where
  "time_val bs =
     TimeV (word_of_nat (le_val (take 2 bs))) (word_of_nat (of_char (bs ! 2))) (word_of_nat (of_char (bs ! 3)))
       (word_of_nat (of_char (bs ! 4))) (word_of_nat (of_char (bs ! 5))) (word_of_nat (of_char (bs ! 6)))"

text \<open>
  Values are nested, and the recursion is bounded by the first argument: with a bound above
  the nesting of the value it is never exceeded.
\<close>

primrec RDB_irep_to_obj ::
  "nat \<Rightarrow> (rdb_type \<Rightarrow> rdb_type \<Rightarrow> bool) \<Rightarrow> platform \<Rightarrow> (rdb_type \<Rightarrow> string \<Rightarrow> rdb_type option)
    \<Rightarrow> rdb_obj \<Rightarrow> rdb_type \<Rightarrow> string \<Rightarrow> nat \<Rightarrow> rdb_obj action" where
  "RDB_irep_to_obj 0 same P subtype valp typ data len = end_with (Inl Diverges)"
| "RDB_irep_to_obj (Suc k) same P subtype valp typ data len =
     and_then (if val_of valp = Initial then done_with () else end_with (RDB_destroy_obj valp)) (\<lambda>_.
     and_then (read_header subtype typ data len) (\<lambda>(typ', impl', bs, l).
       let vtyp = (case impl' of None \<Rightarrow> typ | Some t \<Rightarrow> t);
           with_val = (\<lambda>f. and_then f (\<lambda>v. done_with (Obj typ' impl' v))) in
       case RDB_val_kind vtyp of
         RDB_OB_BOOL \<Rightarrow> with_val (read_bytes bs 1 (\<lambda>b. BoolV (b \<noteq> [NUL])))
       | RDB_OB_INT \<Rightarrow> with_val (read_bytes bs 4 (\<lambda>b. IntV (word_of_nat (le_val b))))
       | RDB_OB_FLOAT \<Rightarrow> with_val (read_bytes bs 8 (\<lambda>b. FloatV (bits_double (le_val b))))
       | RDB_OB_TIME \<Rightarrow> with_val (read_bytes bs 8 time_val)
       | RDB_OB_BIN \<Rightarrow> with_val (and_then (irep_to_bin typ bs l) (\<lambda>d. done_with (BinV d)))
       | RDB_OB_TUPLE \<Rightarrow>
           and_then (irep_to_tuple same P (RDB_irep_to_obj k same P subtype) (Obj typ' impl' Initial) vtyp bs l) (\<lambda>(v, n).
             if to_int (int n) < 0 then end_with (Inl Silent) else done_with v)
       | RDB_OB_ARRAY \<Rightarrow> irep_to_array same P (RDB_irep_to_obj k same P subtype) (Obj typ' impl' Initial) vtyp bs l
       | _ \<Rightarrow> end_with (Inl Unmodelled)))"

end
