(* ===== verification/Storage_Laws.thy ===== *)
theory Storage_Laws
  imports Value_Storage
begin

text \<open>
  What is written for a value is read back as the same value.
\<close>

section \<open>Numbers\<close>

lemma length_le_bytes [simp]: "length (le_bytes k n) = k"
  by (induction k arbitrary: n) simp_all

lemma le_val_bytes: "n < 256 ^ k \<Longrightarrow> le_val (le_bytes k n) = n"
proof (induction k arbitrary: n)
  case (Suc k)
  have "n div 256 < 256 ^ k" using Suc.prems by (simp add: less_mult_imp_div_less mult.commute)
  then show ?case using Suc.IH by simp
qed simp

fun double_ok :: "double \<Rightarrow> bool" where
  "double_ok (Finite s m e) \<longleftrightarrow> m < 2 ^ 52 \<and> e = - 1074 \<or> 2 ^ 52 \<le> m \<and> m < 2 ^ 53 \<and> - 1074 \<le> e \<and> e \<le> 971"
| "double_ok _ \<longleftrightarrow> True"

lemma bits_double_parts:
  assumes "e < 2048" "f < 2 ^ 52"
  shows "bits_double (sign_bit s + e * 2 ^ 52 + f)
    = (if e = 2047 then if f = 0 then Infinite s else NaN
       else if e = 0 then Finite s f (- 1074) else Finite s (2 ^ 52 + f) (int e - 1075))"
    and "sign_bit s + e * 2 ^ 52 + f < 2 ^ 64"
proof -
  define r where "r = e * 2 ^ 52 + f"
  have "e * 2 ^ 52 \<le> 2047 * 2 ^ 52" using assms(1) by simp
  then have r: "r < 2 ^ 63" using assms(2) by (simp add: r_def)
  have b: "sign_bit s + e * 2 ^ 52 + f = sign_bit s + r" by (simp add: r_def)
  have parts: "r div 2 ^ 52 = e" "r mod 2 ^ 52 = f" using assms(2) by (simp_all add: r_def)
  have sign: "(sign_bit s + r) mod 2 ^ 63 = r" "(2 ^ 63 \<le> sign_bit s + r) = s"
    using r by (cases s; simp add: sign_bit_def)+
  show "bits_double (sign_bit s + e * 2 ^ 52 + f)
    = (if e = 2047 then if f = 0 then Infinite s else NaN
       else if e = 0 then Finite s f (- 1074) else Finite s (2 ^ 52 + f) (int e - 1075))"
    unfolding b bits_double_def Let_def sign parts by (rule refl)
  show "sign_bit s + e * 2 ^ 52 + f < 2 ^ 64" unfolding b using r by (cases s) (simp_all add: sign_bit_def)
qed

lemma double_round_trip:
  assumes "double_ok x"
  shows "bits_double (double_bits x) = x" "double_bits x < 256 ^ 8"
proof -
  obtain s e f where "double_bits x = sign_bit s + e * 2 ^ 52 + f" "e < 2048" "f < 2 ^ 52"
    "x = (if e = 2047 then if f = 0 then Infinite s else NaN
       else if e = 0 then Finite s f (- 1074) else Finite s (2 ^ 52 + f) (int e - 1075))"
  proof (cases x)
    case (Finite s m e)
    show ?thesis
    proof (cases "m < 2 ^ 52")
      case True
      then show ?thesis using assms Finite that[of s 0 m] by simp
    next
      case False
      then have "m - 2 ^ 52 < 2 ^ 52" "nat (e + 1075) < 2047" "nat (e + 1075) \<noteq> 0" "m = 2 ^ 52 + (m - 2 ^ 52)"
        using assms Finite by auto
      then show ?thesis using False Finite that[of s "nat (e + 1075)" "m - 2 ^ 52"] by simp
    qed
  next
    case (Infinite s)
    then show ?thesis using that[of s 2047 0] by simp
  next
    case NaN
    then show ?thesis using that[of False 2047 "2 ^ 51"] by (simp add: sign_bit_def)
  qed
  then show "bits_double (double_bits x) = x" "double_bits x < 256 ^ 8" using bits_double_parts[of e f s] by auto
qed

section \<open>Calls that give a value\<close>

definition gives :: "'v action \<Rightarrow> ('v \<Rightarrow> bool) \<Rightarrow> bool" where
  "gives f Q \<longleftrightarrow> (\<forall>m. case f m of (r, m') \<Rightarrow>
     mem_le m m' \<and> ((\<exists>v. r = Inr v \<and> Q v) \<or> fails m \<noteq> [] \<and> (r = NO_MEM \<or> r = Inl Silent)))"

named_theorems giving "calls that give a value"

lemma givesD:
  assumes "gives f Q" "f m = (r, m')"
  shows "mem_le m m'" "(\<exists>v. r = Inr v \<and> Q v) \<or> fails m \<noteq> [] \<and> (r = NO_MEM \<or> r = Inl Silent)"
  using assms by (auto simp: gives_def dest: spec[of _ m])

lemma givesI:
  "(\<And>m r m'. f m = (r, m') \<Longrightarrow> mem_le m m' \<and> ((\<exists>v. r = Inr v \<and> Q v) \<or> fails m \<noteq> [] \<and> (r = NO_MEM \<or> r = Inl Silent)))
    \<Longrightarrow> gives f Q"
  by (simp add: gives_def split: prod.split)

lemma gives_mono: "gives f Q \<Longrightarrow> (\<And>v. Q v \<Longrightarrow> R v) \<Longrightarrow> gives f R"
  by (rule givesI) (metis givesD)

lemma gives_done [giving]: "Q v \<Longrightarrow> gives (done_with v) Q"
  by (simp add: gives_def done_with_def)

lemma gives_computes: "computes {} f (Inr v) \<Longrightarrow> Q v \<Longrightarrow> gives f Q"
  by (rule givesI) (use computesD in blast)

lemma gives_changes: "changes f Q \<Longrightarrow> gives (unchanged_or_fail f) Q"
proof (rule givesI)
  fix m r m' assume f: "changes f Q" and run: "unchanged_or_fail f m = (r, m')"
  obtain r1 v m1 where fm: "f m = (r1, v, m1)" by (metis prod_cases3)
  then show "mem_le m m' \<and> ((\<exists>v. r = Inr v \<and> Q v) \<or> fails m \<noteq> [] \<and> (r = NO_MEM \<or> r = Inl Silent))"
    using changesD[OF f fm] run by (auto simp: unchanged_or_fail_def)
qed

lemma gives_and_then:
  assumes "gives f R" "\<And>v. R v \<Longrightarrow> gives (g v) Q"
  shows "gives (and_then f g) Q"
proof (rule givesI)
  fix m r m' assume run: "and_then f g m = (r, m')"
  obtain r1 m1 where f: "f m = (r1, m1)" by fastforce
  note le = givesD[OF assms(1) f]
  show "mem_le m m' \<and> ((\<exists>v. r = Inr v \<and> Q v) \<or> fails m \<noteq> [] \<and> (r = NO_MEM \<or> r = Inl Silent))"
  proof (cases r1)
    case (Inl e)
    then show ?thesis using run f le by (auto simp: and_then_def)
  next
    case (Inr v)
    then have "g v m1 = (r, m')" "R v" using run f le by (auto simp: and_then_def)
    then show ?thesis using givesD[OF assms(2)] mem_le_fails[OF le(1)] mem_le_trans[OF le(1)] by blast
  qed
qed

lemma gives_end [giving]: "Q v \<Longrightarrow> gives (end_with (Inr v)) Q"
  by (simp add: gives_def end_with_def)

lemma gives_thread:
  assumes "\<And>ys x zs s. xs = ys @ x # zs \<Longrightarrow> I ys s \<Longrightarrow> gives (f x s) (I (ys @ [x]))" "I [] s"
  shows "gives (thread f xs s) (I xs)"
proof -
  have "gives (thread f zs s) (I xs)" if "xs = ys @ zs" "I ys s" for ys zs s
    using that
  proof (induction zs arbitrary: ys s)
    case Nil
    then show ?case by (simp add: giving)
  next
    case (Cons z zs)
    then show ?case unfolding thread.simps by (intro gives_and_then[OF assms(1)[OF Cons.prems]]) simp
  qed
  from this[of "[]" xs s] show ?thesis using assms(2) by simp
qed

lemma runs_thread:
  assumes "\<And>ys x zs. xs = ys @ x # zs \<Longrightarrow> runs (f x (g ys)) (Inr (g (ys @ [x])))"
  shows "runs (thread f xs (g [])) (Inr (g xs))"
proof -
  have "runs (thread f zs (g ys)) (Inr (g xs))" if "xs = ys @ zs" for ys zs
    using that
  proof (induction zs arbitrary: ys)
    case Nil
    then show ?case by (simp add: runs_computes[OF computes_done])
  next
    case (Cons z zs)
    then show ?case unfolding thread.simps by (intro runs_and_thenI[OF assms[OF Cons.prems]]) simp
  qed
  from this[of "[]" xs] show ?thesis by simp
qed


section \<open>Values that can be stored\<close>

text \<open>\<open>implements\<close> tells the type whose representation is used: the type itself or, if that is a dummy
  type, the type that implements it.\<close>

definition implements :: "(rdb_type \<Rightarrow> string \<Rightarrow> rdb_type option) \<Rightarrow> rdb_type \<Rightarrow> rdb_obj \<Rightarrow> rdb_type \<Rightarrow> bool" where
  "implements sub typ v u \<longleftrightarrow>
     (if RDB_type_is_dummy typ
      then typ_of v = Some typ \<and> impl_of v = Some u \<and> RDB_type_is_scalar u \<and> sub typ (sname u) = Some u
        \<and> NUL \<notin> set (sname u) \<and> irep_length typ = -1
      else u = typ \<and> (if RDB_type_is_scalar typ then typ_of v = Some typ else scalar_only (typ_of v) = None))"

definition atom_ok :: "rdb_type \<Rightarrow> rdb_type \<Rightarrow> rdb_val \<Rightarrow> bool" where
  "atom_ok typ u w \<longleftrightarrow> kind_of w = RDB_val_kind u \<and>
     (case w of BoolV b \<Rightarrow> irep_length u = 1 | IntV i \<Rightarrow> irep_length u = 4 | FloatV x \<Rightarrow> irep_length u = 8 \<and> double_ok x
      | TimeV _ _ _ _ _ _ \<Rightarrow> irep_length u = 8
      | BinV d \<Rightarrow> (irep_length u = -1 \<or> irep_length u = int (length d)) \<and> (RDB_irep_is_string typ \<longrightarrow> NUL \<in> set d)
      | _ \<Rightarrow> False)"

inductive storable :: "(rdb_type \<Rightarrow> string \<Rightarrow> rdb_type option) \<Rightarrow> rdb_type \<Rightarrow> rdb_obj \<Rightarrow> bool" for sub where
  storable_atom: "implements sub typ v u \<Longrightarrow> atom_ok typ u (val_of v) \<Longrightarrow> storable sub typ v"
| storable_tuple: "implements sub typ v u \<Longrightarrow> RDB_val_kind u = RDB_OB_TUPLE \<Longrightarrow> irep_length typ = -1
    \<Longrightarrow> val_of v = TupleV slots cap n \<Longrightarrow> tuple_inv v
    \<Longrightarrow> named_attrs u = Inr nts \<Longrightarrow> distinct (map fst nts) \<Longrightarrow> dom (attrs v) = fst ` set nts
    \<Longrightarrow> (\<forall>nt \<in> set nts. \<exists>w. attrs v (fst nt) = Some w \<and> storable sub (snd nt) w) \<Longrightarrow> storable sub typ v"
| storable_array: "implements sub typ v u \<Longrightarrow> RDB_val_kind u = RDB_OB_ARRAY \<Longrightarrow> irep_length typ = -1
    \<Longrightarrow> val_of v = ArrayV n cap es \<Longrightarrow> 0 \<le> sint n \<Longrightarrow> sint n \<le> int (length es)
    \<Longrightarrow> elem_type u = Inr t \<Longrightarrow> irep_length t \<noteq> 0
    \<Longrightarrow> (\<forall>w \<in> set (take (nat (sint n)) es). storable sub t w) \<Longrightarrow> storable sub typ v"

text \<open>The bytes that are stored.\<close>

definition part :: "rdb_type \<Rightarrow> string \<Rightarrow> string" where
  "part t b = (if irep_length t = -1 then le_bytes 8 (length b) else []) @ b"

function stored :: "platform \<Rightarrow> rdb_type \<Rightarrow> rdb_obj \<Rightarrow> string" where
  "stored P typ v =
     (case impl_for typ v of Inl _ \<Rightarrow> [] | Inr u \<Rightarrow>
       (if RDB_type_is_dummy typ then le_bytes 8 (length (sname u) + 1) @ sname u @ [NUL] else []) @
       (case val_of v of
          TupleV slots cap n \<Rightarrow>
            (case attr_seq u of Inl _ \<Rightarrow> [] | Inr nts \<Rightarrow>
              concat (map (\<lambda>(n, t). case RDB_tuple_get v n of Inr (Some w) \<Rightarrow> part t (stored P t w) | _ \<Rightarrow> []) nts))
        | ArrayV n cap es \<Rightarrow>
            (case elem_type u of Inl _ \<Rightarrow> [] | Inr t \<Rightarrow>
              (case array_elems n es of Inl _ \<Rightarrow> [] | Inr vs \<Rightarrow> concat (map (\<lambda>w. part t (stored P t w)) vs)))
        | _ \<Rightarrow> (case RDB_obj_irep P v of Inl _ \<Rightarrow> [] | Inr b \<Rightarrow> b)))"
  by pat_completeness auto

termination
  by (relation "measure (\<lambda>(P, t, v). size v)") (auto intro: tuple_get_size array_elems_size)

declare stored.simps [simp del]

lemma implements_impl: "implements sub typ v u \<Longrightarrow> impl_for typ v = Inr u"
  by (auto simp: implements_def impl_for_def RDB_obj_impl_type_def split: if_splits)

lemma each_r_Some: "each_r (\<lambda>a. case a of None \<Rightarrow> Inl Segfault | Some nt \<Rightarrow> Inr nt) as = Inr nts \<longleftrightarrow> as = map Some nts"
proof (induction as arbitrary: nts)
  case (Cons a as)
  then show ?case by (cases a; cases nts) auto
qed auto

text \<open>The attributes in their order.\<close>

lemma attr_seq_sort:
  assumes "named_attrs u = Inr nts" "distinct (map fst nts)"
  shows "attr_seq u = Inr (sort_key fst nts)"
proof -
  obtain t where t: "parts_type u = Inr t" using assms(1) by (auto simp: named_attrs_def)
  then have tup: "t = Tuple (map Some nts)"
    using assms(1) each_r_Some by (cases t) (auto simp: named_attrs_def)
  have names: "map name_or_empty (map Some nts) = map fst nts" by (auto simp: name_or_empty_def)
  have "sort_key name_or_empty (map Some nts) = map Some (sort_key fst nts)"
  proof (rule sort_key_inj_key_eq)
    have "distinct (map name_or_empty (map Some nts))" unfolding names by (rule assms(2))
    then show "inj_on name_or_empty (set (map Some nts))" by (metis distinct_map)
    have "map name_or_empty (map Some (sort_key fst nts)) = map fst (sort_key fst nts)" by (auto simp: name_or_empty_def)
    then show "sorted (map name_or_empty (map Some (sort_key fst nts)))" by (simp del: map_map)
  qed simp
  moreover have "attrs_in_order (map Some nts) (length (map Some nts)) None = Inr (sort_key name_or_empty (map Some nts))"
    by (rule attrs_in_order_all) (simp only: names assms(2))
  ultimately show ?thesis
    using t tup by (simp add: attr_seq_def each_r_Some del: length_map)
qed

lemma attr_seq_sorted:
  assumes "named_attrs u = Inr nts" "distinct (map fst nts)"
  obtains as where "attr_seq u = Inr as" "mset as = mset nts"
  using attr_seq_sort[OF assms] by simp

lemma storable_length:
  "storable sub typ v \<Longrightarrow> irep_length typ = -1 \<or> irep_length typ = int (length (stored P typ v))"
proof (induction rule: storable.induct)
  case (storable_atom ty v u)
  have "\<not> RDB_type_is_dummy ty \<Longrightarrow> u = ty" using storable_atom(1) by (simp add: implements_def)
  moreover have "RDB_type_is_dummy ty \<Longrightarrow> irep_length ty = -1" using storable_atom(1) by (simp add: implements_def)
  ultimately show ?case using storable_atom implements_impl[OF storable_atom(1)]
    by (cases "val_of v") (auto simp: atom_ok_def stored.simps RDB_obj_irep_def)
qed simp_all


section \<open>The length is that of the stored bytes\<close>

definition piece :: "platform \<Rightarrow> rdb_obj \<Rightarrow> string \<times> rdb_type \<Rightarrow> string" where
  "piece P v nt = (case attrs v (fst nt) of None \<Rightarrow> [] | Some w \<Rightarrow> part (snd nt) (stored P (snd nt) w))"

definition header :: "rdb_type \<Rightarrow> rdb_type \<Rightarrow> string" where
  "header typ u = (if RDB_type_is_dummy typ then le_bytes 8 (length (sname u) + 1) @ sname u @ [NUL] else [])"

lemma tuple_inv_get: "tuple_inv v \<Longrightarrow> RDB_tuple_get v n = Inr (attrs v n)"
  using tuple_get_tab(1) by (auto simp: tuple_inv_def)

lemma stored_atom:
  assumes "implements sub t v u" "atom_ok t u (val_of v)"
  shows "\<exists>b. RDB_obj_irep P v = Inr b \<and> stored P t v = header t u @ b"
  using assms implements_impl[OF assms(1)]
  by (cases "val_of v") (auto simp: atom_ok_def stored.simps RDB_obj_irep_def header_def)

lemma stored_tuple:
  assumes "implements sub t v u" "val_of v = TupleV slots cap n" "tuple_inv v" "attr_seq u = Inr as"
  shows "stored P t v = header t u @ concat (map (piece P v) as)"
  using assms(2-) implements_impl[OF assms(1)] tuple_inv_get[OF assms(3)]
  by (auto simp: stored.simps[of P t v] header_def piece_def[abs_def] case_prod_unfold split: option.splits
    intro!: arg_cong[where f = concat])

lemma stored_array:
  assumes "implements sub t v u" "val_of v = ArrayV n cap es" "sint n \<le> int (length es)" "elem_type u = Inr et"
  shows "stored P t v = header t u @ concat (map (\<lambda>w. part et (stored P et w)) (take (nat (sint n)) es))"
  using assms(2-) implements_impl[OF assms(1)]
  by (simp add: stored.simps[of P t v] header_def array_elems_def)

lemma computes_end_of_array [computing]: "computes {} end_of_array (Inr ())"
  by (auto simp: computes_def end_of_array_def raise_error_def malloc_mem_le malloc_None_fails split: prod.splits option.splits)

lemma header_length:
  assumes "implements sub t v u"
  shows "header_len t u = Inr (length (header t u))"
proof (cases "RDB_type_is_dummy t")
  case True
  then obtain n i reps ar sups where "u = Scalar n i reps ar sups"
    using assms by (cases u) (auto simp: implements_def)
  then show ?thesis using True by (simp add: header_len_def header_def type_name_or_fault_def SIZE_def)
qed (simp add: header_len_def header_def)

lemma part_length: "length (part t b) = (if irep_length t = -1 then SIZE else 0) + length b"
  by (simp add: part_def SIZE_def)

lemma length_concat_member: "x \<in> set xs \<Longrightarrow> length (f x) \<le> length (concat (map f xs))"
  by (induction xs) auto

lemma ilen_computes:
  "storable sub t v \<Longrightarrow> length (stored P t v) < 2 ^ 31 \<Longrightarrow> computes {} (RDB_obj_ilen t v) (Inr (length (stored P t v)))"
proof (induction rule: storable.induct)
  case (storable_atom t v u)
  note im = implements_impl[OF storable_atom(1)] header_length[OF storable_atom(1)]
  obtain b where b: "RDB_obj_irep P v = Inr b" "stored P t v = header t u @ b" using stored_atom[OF storable_atom(1,2)] by blast
  let ?n = "if irep_length u = -1 then length (header t u) + (case val_of v of BinV d \<Rightarrow> length d | _ \<Rightarrow> 0)
    else to_size (int (length (header t u)) + irep_length u)"
  have "?n = length (stored P t v)"
    using storable_atom(2,3) b by (cases "val_of v") (auto simp: atom_ok_def RDB_obj_irep_def to_size_id)
  moreover have "RDB_obj_ilen t v = done_with ?n"
    using storable_atom(2) im by (subst RDB_obj_ilen.simps) (cases "val_of v"; auto simp: atom_ok_def)
  ultimately show ?case by (simp add: computing)
next
  case (storable_tuple t v u slots cap n nts)
  note im = implements_impl[OF storable_tuple(1)] header_length[OF storable_tuple(1)]
  obtain as where as: "attr_seq u = Inr as" "mset as = mset nts" by (rule attr_seq_sorted[OF storable_tuple(6,7)])
  have st: "stored P t v = header t u @ concat (map (piece P v) as)"
    by (rule stored_tuple[OF storable_tuple(1,4,5) as(1)])
  have "set as = set nts" using as(2) by (metis set_mset_mset)
  have "computes {} (case nt of (name, t) \<Rightarrow> case RDB_tuple_get v name of
               Inl e \<Rightarrow> end_with (Inl e)
             | Inr None \<Rightarrow> raise_error TYPE_MISMATCH_ERROR ''missing attribute value''
             | Inr (Some v) \<Rightarrow> and_then (RDB_obj_ilen t v) (\<lambda>l. done_with ((if irep_length t = -1 then SIZE else 0) + l)))
       (Inr (length (piece P v nt)))" if mem: "nt \<in> set nts" for nt
  proof -
    obtain w where w: "attrs v (fst nt) = Some w" "length (stored P (snd nt) w) < 2 ^ 31
        \<longrightarrow> computes {} (RDB_obj_ilen (snd nt) w) (Inr (length (stored P (snd nt) w)))"
      using bspec[OF storable_tuple(9) mem] by blast
    have "length (piece P v nt) \<le> length (concat (map (piece P v) as))"
      using mem \<open>set as = set nts\<close> by (intro length_concat_member) simp
    then have "length (stored P (snd nt) w) < 2 ^ 31" using storable_tuple(10) st w(1) by (simp add: piece_def part_length)
    with w have "computes {} (RDB_obj_ilen (snd nt) w) (Inr (length (stored P (snd nt) w)))" by blast
    with w(1) show ?thesis
      using tuple_inv_get[OF storable_tuple(5)]
      by (cases nt) (auto simp: piece_def part_length intro!: computing)
  qed
  then have parts: "computes {} (each (\<lambda>(name, t). case RDB_tuple_get v name of
               Inl e \<Rightarrow> end_with (Inl e)
             | Inr None \<Rightarrow> raise_error TYPE_MISMATCH_ERROR ''missing attribute value''
             | Inr (Some v) \<Rightarrow> and_then (RDB_obj_ilen t v) (\<lambda>l. done_with ((if irep_length t = -1 then SIZE else 0) + l))) nts)
       (Inr (map (\<lambda>nt. length (piece P v nt)) nts))"
    by (rule computes_each_map)
  have "mset (map (\<lambda>nt. length (piece P v nt)) nts) = mset (map (\<lambda>nt. length (piece P v nt)) as)" using as(2) by simp
  then have "sum_list (map (\<lambda>nt. length (piece P v nt)) nts) = sum_list (map (\<lambda>nt. length (piece P v nt)) as)"
    by (simp only: sum_mset_sum_list [symmetric])
  then have "sum_list (map (\<lambda>nt. length (piece P v nt)) nts) = length (concat (map (piece P v) as))"
    by (simp add: length_concat comp_def)
  then show ?case
    using storable_tuple(4,6) im parts by (subst RDB_obj_ilen.simps) (auto simp: st intro!: computing)
next
  case (storable_array t v u n cap es et)
  note im = implements_impl[OF storable_array(1)] header_length[OF storable_array(1)]
  let ?vs = "take (nat (sint n)) es" and ?p = "\<lambda>w. part et (stored P et w)"
  have st: "stored P t v = header t u @ concat (map ?p ?vs)" by (rule stored_array[OF storable_array(1,4,6,7)])
  have vs: "array_elems n es = Inr ?vs" using storable_array(6) by (simp add: array_elems_def)
  have "computes {} (and_then (RDB_obj_ilen et w) (\<lambda>l. done_with ((if irep_length et = -1 then SIZE else 0) + l)))
       (Inr (length (?p w)))" if "w \<in> set ?vs" for w
  proof -
    have "length (?p w) \<le> length (concat (map ?p ?vs))" using that by (rule length_concat_member)
    then have "length (stored P et w) < 2 ^ 31" using storable_array(10) st by (simp add: part_length)
    then have "computes {} (RDB_obj_ilen et w) (Inr (length (stored P et w)))" using storable_array(9) that by blast
    then show ?thesis by (auto simp: part_length intro!: computing)
  qed
  then have parts: "computes {} (each (\<lambda>w. and_then (RDB_obj_ilen et w) (\<lambda>l. done_with ((if irep_length et = -1 then SIZE else 0) + l))) ?vs)
       (Inr (map (\<lambda>w. length (?p w)) ?vs))"
    by (rule computes_each_map)
  have "sum_list (map (\<lambda>w. length (?p w)) ?vs) = length (concat (map ?p ?vs))" by (simp add: length_concat comp_def)
  then show ?case
    using storable_array(4,7) im vs parts by (subst RDB_obj_ilen.simps) (auto simp: st intro!: computing)
qed


section \<open>Writing\<close>

definition put_at :: "string \<Rightarrow> nat \<Rightarrow> string \<Rightarrow> string" where
  "put_at buf bp bs = take bp buf @ bs @ drop (bp + length bs) buf"

lemma put_at_length [simp]: "bp + length bs \<le> length buf \<Longrightarrow> length (put_at buf bp bs) = length buf"
  by (simp add: put_at_def)

lemma put_at_put_at:
  "bp + length as + length bs \<le> length buf \<Longrightarrow> put_at (put_at buf bp as) (bp + length as) bs = put_at buf bp (as @ bs)"
  by (simp add: put_at_def add.commute add.left_commute)

lemma put_at_Nil [simp]: "put_at buf bp [] = buf"
  by (simp add: put_at_def)

lemma write_block_put: "bp + length bs \<le> length buf \<Longrightarrow> write_block buf bp bs = done_with (put_at buf bp bs)"
  by (auto simp: write_block_def write_at_def put_at_def end_with_def done_with_def fun_eq_iff nat_int)

lemma runs_done: "runs (done_with v) (Inr v)"
  by (simp add: runs_computes[OF computes_done])

lemma write_header_runs:
  assumes "implements sub t v u" "bp + (length (header t u) + n) \<le> length buf" "length (header t u) + n < 2 ^ 31"
  shows "write_header t buf bp v (length (header t u) + n)
    = done_with (u, put_at buf bp (header t u), bp + length (header t u), n)"
proof (cases "RDB_type_is_dummy t")
  case True
  let ?nm = "sname u"
  obtain n' i reps ar sups where u: "u = Scalar n' i reps ar sups"
    using assms(1) True by (cases u) (auto simp: implements_def)
  have h: "header t u = le_bytes 8 (length ?nm + 1) @ ?nm @ [NUL]" "length (header t u) = 8 + (length ?nm + 1)"
    using True by (simp_all add: header_def)
  have "write_block buf bp (le_bytes 8 (length ?nm + 1)) = done_with (put_at buf bp (le_bytes 8 (length ?nm + 1)))"
    by (rule write_block_put) (use assms(2) h in simp)
  moreover have "write_block (put_at buf bp (le_bytes 8 (length ?nm + 1))) (bp + SIZE) (?nm @ [NUL])
      = done_with (put_at buf bp (header t u))"
    using put_at_put_at[of bp "le_bytes 8 (length ?nm + 1)" "?nm @ [NUL]" buf] assms(2) h
    by (subst write_block_put) (simp_all add: SIZE_def)
  moreover have "to_size (int (length (header t u) + n) - int (SIZE + (length ?nm + 1))) = n"
    using assms(3) h by (simp add: SIZE_def to_size_id)
  moreover have "bp + SIZE + (length ?nm + 1) = bp + length (header t u)" using h by (simp add: SIZE_def)
  moreover have "type_name_or_fault u = Inr ?nm" by (simp add: type_name_or_fault_def u)
  ultimately show ?thesis
    using True implements_impl[OF assms(1)] by (simp only: write_header_def if_True and_then_simps)
next
  case False
  then show ?thesis using implements_impl[OF assms(1)] by (simp add: write_header_def header_def)
qed

lemma obj_to_len_irep_runs:
  assumes "storable sub t w" "length b = length (stored P t w)" "length b < 2 ^ 31" "bp + length ds + length (part t b) \<le> length buf"
    and "\<And>buf bp. bp + length b \<le> length buf \<Longrightarrow> runs (to_irep buf bp (length b)) (Inr (put_at buf bp b))"
  shows "runs (obj_to_len_irep to_irep t w (put_at buf bp ds, Some (bp + length ds)))
    (Inr (put_at buf bp (ds @ part t b), Some (bp + length (ds @ part t b))))"
proof (cases "irep_length t = -1")
  case True
  let ?n = "length b" and ?sz = "le_bytes 8 (length b)"
  have p: "part t b = ?sz @ b" using True by (simp add: part_def)
  have "runs (RDB_obj_ilen t w) (Inr ?n)"
    using ilen_computes[OF assms(1), of P] assms(2,3) by (auto intro: runs_computes)
  moreover have "runs (and_then (write_block (put_at buf bp ds) (bp + length ds) ?sz) (\<lambda>buf1.
      and_then (to_irep buf1 (bp + length ds + SIZE) ?n) (\<lambda>buf2. done_with (buf2, Some (bp + length ds + SIZE + ?n)))))
     (Inr (put_at buf bp (ds @ part t b), Some (bp + length (ds @ part t b))))"
  proof -
    have one: "write_block (put_at buf bp ds) (bp + length ds) ?sz = done_with (put_at buf bp (ds @ ?sz))"
      using assms(4) p by (subst write_block_put) (simp_all add: put_at_put_at)
    have two: "runs (to_irep (put_at buf bp (ds @ ?sz)) (bp + length (ds @ ?sz)) ?n) (Inr (put_at buf bp (ds @ ?sz @ b)))"
      using assms(5)[of "bp + length (ds @ ?sz)" "put_at buf bp (ds @ ?sz)"] put_at_put_at[of bp "ds @ ?sz" b buf] assms(4) p by simp
    from runs_and_thenI[OF two runs_done] one show ?thesis using p by (simp add: SIZE_def add.assoc)
  qed
  ultimately show ?thesis
    using True by (fastforce simp: runs_def obj_to_len_irep_def split: prod.split)
next
  case False
  then have "irep_length t = int (length b)" using storable_length[OF assms(1), of P] assms(2) by simp
  then have n: "to_size (irep_length t) = length b" using assms(3) by (simp add: to_size_id)
  have p: "part t b = b" using False by (simp add: part_def)
  have "runs (to_irep (put_at buf bp ds) (bp + length ds) (length b)) (Inr (put_at buf bp (ds @ b)))"
    using assms(5)[of "bp + length ds" "put_at buf bp ds"] put_at_put_at[of bp ds b buf] assms(4) p by simp
  then have "runs (and_then (to_irep (put_at buf bp ds) (bp + length ds) (length b)) (\<lambda>buf1. done_with (buf1, Some (bp + length ds + length b))))
     (Inr (put_at buf bp (ds @ b), Some (bp + length ds + length b)))"
    by (rule runs_and_thenI[OF _ runs_done])
  then show ?thesis using False n p by (simp add: runs_def obj_to_len_irep_def Let_def add.assoc)
qed

lemma to_irep_runs:
  "storable sub t v \<Longrightarrow> length (stored P t v) < 2 ^ 31 \<Longrightarrow> bp + length (stored P t v) \<le> length buf
    \<Longrightarrow> runs (RDB_obj_to_irep P t v buf bp (length (stored P t v))) (Inr (put_at buf bp (stored P t v)))"
proof (induction arbitrary: buf bp rule: storable.induct)
  case (storable_atom t v u)
  obtain b where b: "RDB_obj_irep P v = Inr b" "stored P t v = header t u @ b" using stored_atom[OF storable_atom(1,2)] by blast
  have "write_header t buf bp v (length (stored P t v)) = done_with (u, put_at buf bp (header t u), bp + length (header t u), length b)"
    using write_header_runs[OF storable_atom(1), of bp "length b" buf] storable_atom(3,4) b(2) by simp
  moreover have "write_plain P (put_at buf bp (header t u)) (bp + length (header t u)) v (length b) = done_with (put_at buf bp (stored P t v))"
    using storable_atom(4) b by (simp add: write_plain_def write_block_put put_at_put_at)
  ultimately have "RDB_obj_to_irep P t v buf bp (length (stored P t v)) = done_with (put_at buf bp (stored P t v))"
    using storable_atom(2) by (subst RDB_obj_to_irep.simps) (cases "val_of v"; auto simp: atom_ok_def)
  then show ?case by (simp add: runs_done)
next
  case (storable_tuple t v u slots cap n nts)
  obtain as where as: "attr_seq u = Inr as" "mset as = mset nts" by (rule attr_seq_sorted[OF storable_tuple(6,7)])
  let ?c = "concat (map (piece P v) as)"
  have st: "stored P t v = header t u @ ?c" by (rule stored_tuple[OF storable_tuple(1,4,5) as(1)])
  have "set as = set nts" using as(2) by (metis set_mset_mset)
  have hd: "write_header t buf bp v (length (stored P t v)) = done_with (u, put_at buf bp (header t u), bp + length (header t u), length ?c)"
    using write_header_runs[OF storable_tuple(1), of bp "length ?c" buf] storable_tuple(10,11) st by simp
  let ?f = "\<lambda>(name, t) dst. case RDB_tuple_get v name of
               Inl e \<Rightarrow> end_with (Inl e)
             | Inr None \<Rightarrow> end_with (Inl Segfault)
             | Inr (Some w) \<Rightarrow> obj_to_len_irep (RDB_obj_to_irep P t w) t w dst"
  let ?g = "\<lambda>ys. (put_at buf bp (header t u @ concat (map (piece P v) ys)), Some (bp + length (header t u @ concat (map (piece P v) ys))))"
  have "runs (thread ?f as (?g [])) (Inr (?g as))"
  proof (rule runs_thread)
    fix ys nt zs assume asp: "as = ys @ nt # zs"
    then have mem: "nt \<in> set nts" using \<open>set as = set nts\<close> by auto
    obtain w where w: "attrs v (fst nt) = Some w" "storable sub (snd nt) w"
      and IH: "\<forall>buf bp. length (stored P (snd nt) w) < 2 ^ 31 \<longrightarrow> bp + length (stored P (snd nt) w) \<le> length buf \<longrightarrow>
          runs (RDB_obj_to_irep P (snd nt) w buf bp (length (stored P (snd nt) w))) (Inr (put_at buf bp (stored P (snd nt) w)))"
      using bspec[OF storable_tuple(9) mem] by blast
    have pc: "piece P v nt = part (snd nt) (stored P (snd nt) w)" using w(1) by (simp add: piece_def)
    have len: "length (header t u) + length (concat (map (piece P v) ys)) + length (piece P v nt) \<le> length (stored P t v)"
      using st asp by simp
    have "runs (obj_to_len_irep (RDB_obj_to_irep P (snd nt) w) (snd nt) w (?g ys)) (Inr (?g (ys @ [nt])))"
      using obj_to_len_irep_runs[OF w(2) refl, of P bp "header t u @ concat (map (piece P v) ys)" buf "RDB_obj_to_irep P (snd nt) w"]
        IH len pc storable_tuple(10,11) by (simp add: part_length)
    then show "runs (?f nt (?g ys)) (Inr (?g (ys @ [nt])))"
      using w(1) tuple_inv_get[OF storable_tuple(5)] by (cases nt) simp
  qed
  then have "runs (and_then (thread ?f as (put_at buf bp (header t u), Some (bp + length (header t u)))) (\<lambda>dst. done_with (fst dst)))
      (Inr (put_at buf bp (stored P t v)))"
    using st by (intro runs_and_thenI[where x = "?g as"]) (simp_all add: runs_done)
  then show ?case using storable_tuple(4) as(1) hd by (subst RDB_obj_to_irep.simps) simp
next
  case (storable_array t v u n cap es et)
  let ?vs = "take (nat (sint n)) es" and ?p = "\<lambda>w. part et (stored P et w)"
  let ?c = "concat (map ?p ?vs)"
  have st: "stored P t v = header t u @ ?c" by (rule stored_array[OF storable_array(1,4,6,7)])
  have vs: "array_elems n es = Inr ?vs" using storable_array(6) by (simp add: array_elems_def)
  have hd: "write_header t buf bp v (length (stored P t v)) = done_with (u, put_at buf bp (header t u), bp + length (header t u), length ?c)"
    using write_header_runs[OF storable_array(1), of bp "length ?c" buf] storable_array(10,11) st by simp
  let ?g = "\<lambda>ys. (put_at buf bp (header t u @ concat (map ?p ys)), Some (bp + length (header t u @ concat (map ?p ys))))"
  have "runs (thread (\<lambda>v dst. obj_to_len_irep (RDB_obj_to_irep P et v) et v dst) ?vs (?g [])) (Inr (?g ?vs))"
  proof (rule runs_thread)
    fix ys w zs assume vsp: "?vs = ys @ w # zs"
    then have mem: "w \<in> set ?vs" by simp
    have w: "storable sub et w"
      and IH: "\<forall>buf bp. length (stored P et w) < 2 ^ 31 \<longrightarrow> bp + length (stored P et w) \<le> length buf \<longrightarrow>
          runs (RDB_obj_to_irep P et w buf bp (length (stored P et w))) (Inr (put_at buf bp (stored P et w)))"
      using bspec[OF storable_array(9) mem] by blast+
    have len: "length (header t u) + length (concat (map ?p ys)) + length (?p w) \<le> length (stored P t v)"
      unfolding st vsp by simp
    show "runs (obj_to_len_irep (RDB_obj_to_irep P et w) et w (?g ys)) (Inr (?g (ys @ [w])))"
      using obj_to_len_irep_runs[OF w refl, of P bp "header t u @ concat (map ?p ys)" buf "RDB_obj_to_irep P et w"]
        IH len storable_array(10,11) by (simp add: part_length)
  qed
  then have "runs (thread (\<lambda>v dst. obj_to_len_irep (RDB_obj_to_irep P et v) et v dst) ?vs (put_at buf bp (header t u), Some (bp + length (header t u))))
     (Inr (?g ?vs))" by simp
  then have "runs (and_then (thread (\<lambda>v dst. obj_to_len_irep (RDB_obj_to_irep P et v) et v dst) ?vs (put_at buf bp (header t u), Some (bp + length (header t u))))
      (\<lambda>dst m. (Inr (fst dst), snd (end_of_array m)))) (Inr (put_at buf bp (stored P t v)))"
  proof (rule runs_and_thenI)
    have "runs end_of_array (Inr ())" by (rule runs_computes[OF computes_end_of_array])
    then show "runs (\<lambda>m. (Inr (fst (?g ?vs)), snd (end_of_array m))) (Inr (put_at buf bp (stored P t v)))"
      using st by (simp add: runs_def)
  qed
  then show ?case using storable_array(4,7) vs hd by (subst RDB_obj_to_irep.simps) simp
qed

end
