(* ===== verification/Scalar_Ops.thy ===== *)
theory Scalar_Ops
  imports Objects "HOL-Library.Signed_Division"
begin

text \<open>
  The built-in operators on scalar values of \<^verbatim>\<open>obj/builtinscops.c\<close>, with the comparison
  operators of \<^verbatim>\<open>obj/builtintypes.c\<close>.  An operator takes its arguments and the object for its
  result; what it leaves in that object when it raises an error is not modelled.
\<close>

type_synonym ro_op_func = "platform \<Rightarrow> rdb_obj list \<Rightarrow> rdb_obj \<Rightarrow> rdb_obj action"

section \<open>Arguments\<close>

definition arg :: "rdb_obj list \<Rightarrow> nat \<Rightarrow> rdb_obj action" where
  "arg argv i = end_with (if i < length argv then Inr (argv ! i) else Inl Segfault)"

definition bool_arg :: "rdb_obj list \<Rightarrow> nat \<Rightarrow> bool action" where
  "bool_arg argv i = and_then (arg argv i) (\<lambda>v. end_with (RDB_obj_bool v))"

definition int_arg :: "rdb_obj list \<Rightarrow> nat \<Rightarrow> i32 action" where
  "int_arg argv i = and_then (arg argv i) (\<lambda>v. end_with (RDB_obj_int v))"

definition float_arg :: "rdb_obj list \<Rightarrow> nat \<Rightarrow> double action" where
  "float_arg argv i = and_then (arg argv i) (\<lambda>v. end_with (RDB_obj_float v))"

definition bin_arg :: "rdb_obj list \<Rightarrow> nat \<Rightarrow> string action" where
  "bin_arg argv i = and_then (arg argv i) (\<lambda>v. end_with (RDB_obj_bin v))"

definition str_arg :: "rdb_obj list \<Rightarrow> nat \<Rightarrow> string action" where
  "str_arg argv i = and_then (arg argv i) (\<lambda>v. end_with (RDB_obj_string v))"

definition time_arg :: "rdb_obj list \<Rightarrow> nat \<Rightarrow> int list action" where
  "time_arg argv i = and_then (arg argv i) (\<lambda>v. end_with (case val_of v of
     TimeV y mo d h mi s \<Rightarrow> Inr [sint y, uint mo, uint d, uint h, uint mi, uint s] | _ \<Rightarrow> Inl Segfault))"

lemmas arg_defs = bool_arg_def int_arg_def float_arg_def bin_arg_def str_arg_def time_arg_def arg_def

section \<open>Equality and logic\<close>

definition RDB_eq_bool :: ro_op_func where
  "RDB_eq_bool P argv retvalp =
     and_then (bool_arg argv 0) (\<lambda>a. and_then (bool_arg argv 1) (\<lambda>b. RDB_bool_to_obj retvalp (a = b)))"

definition neq_bool :: ro_op_func where
  "neq_bool P argv retvalp =
     and_then (bool_arg argv 0) (\<lambda>a. and_then (bool_arg argv 1) (\<lambda>b. RDB_bool_to_obj retvalp (a \<noteq> b)))"

definition RDB_eq_binary :: ro_op_func where
  "RDB_eq_binary P argv retvalp =
     and_then (bin_arg argv 0) (\<lambda>a. and_then (bin_arg argv 1) (\<lambda>b.
       if length a \<noteq> length b then RDB_bool_to_obj retvalp False
       else if length a = 0 then RDB_bool_to_obj retvalp True
       else RDB_bool_to_obj retvalp (a = b)))"

definition neq_binary :: ro_op_func where
  "neq_binary P argv retvalp =
     and_then (bin_arg argv 0) (\<lambda>a. and_then (bin_arg argv 1) (\<lambda>b.
       if length a \<noteq> length b then RDB_bool_to_obj retvalp True
       else if length a = 0 then RDB_bool_to_obj retvalp False
       else RDB_bool_to_obj retvalp (a \<noteq> b)))"

definition and_op :: ro_op_func where
  "and_op P argv retvalp =
     and_then (bool_arg argv 0) (\<lambda>a.
       and_then (if a then bool_arg argv 1 else done_with False) (RDB_bool_to_obj retvalp))"

definition or_op :: ro_op_func where
  "or_op P argv retvalp =
     and_then (bool_arg argv 0) (\<lambda>a.
       and_then (if a then done_with True else bool_arg argv 1) (RDB_bool_to_obj retvalp))"

definition xor_op :: ro_op_func where
  "xor_op P argv retvalp =
     and_then (bool_arg argv 0) (\<lambda>a. and_then (bool_arg argv 1) (\<lambda>b. RDB_bool_to_obj retvalp (a \<noteq> b)))"

definition not_op :: ro_op_func where
  "not_op P argv retvalp = and_then (bool_arg argv 0) (\<lambda>a. RDB_bool_to_obj retvalp (\<not> a))"

section \<open>Comparison\<close>

definition compare_int :: ro_op_func where
  "compare_int P argv retvalp =
     and_then (int_arg argv 0) (\<lambda>a. and_then (int_arg argv 1) (\<lambda>b. RDB_int_to_obj retvalp (a - b)))"

definition compare_float :: ro_op_func where
  "compare_float P argv retvalp =
     and_then (float_arg argv 0) (\<lambda>a. and_then (float_arg argv 1) (\<lambda>b.
       RDB_int_to_obj retvalp (if fless a b then -1 else if fless b a then 1 else 0)))"

definition compare_string :: ro_op_func where
  "compare_string P argv retvalp =
     and_then (str_arg argv 0) (\<lambda>a. and_then (str_arg argv 1) (\<lambda>b. RDB_int_to_obj retvalp (strcoll P a b)))"

fun first_difference :: "int list \<Rightarrow> int list \<Rightarrow> int" where
  "first_difference (x # xs) (y # ys) = (if x - y \<noteq> 0 then x - y else first_difference xs ys)"
| "first_difference _ _ = 0"

definition compare_datetime :: ro_op_func where
  "compare_datetime P argv retvalp =
     and_then (time_arg argv 0) (\<lambda>a. and_then (time_arg argv 1) (\<lambda>b.
       RDB_int_to_obj retvalp (word_of_int (first_difference a b))))"

definition compare_fn :: "platform \<Rightarrow> rdb_type \<Rightarrow> (rdb_obj list \<Rightarrow> rdb_obj \<Rightarrow> rdb_obj action) option" where
  "compare_fn P typ =
     (if typ = RDB_INTEGER then Some (compare_int P) else if typ = RDB_FLOAT then Some (compare_float P)
      else if typ = RDB_STRING then Some (compare_string P) else if typ = RDB_DATETIME then Some (compare_datetime P)
      else user_cmp P typ)"

text \<open>The four comparisons differ in the test of the comparison's result.\<close>

definition compare_with :: "(int \<Rightarrow> bool) \<Rightarrow> ro_op_func" where
  "compare_with rel P argv retvalp =
     and_then (arg argv 0) (\<lambda>v.
     and_then (end_with (case typ_of v of None \<Rightarrow> Inl Segfault
                 | Some t \<Rightarrow> case compare_fn P t of None \<Rightarrow> Inl Segfault | Some f \<Rightarrow> Inr f)) (\<lambda>f.
     and_then (f argv RDB_init_obj) (\<lambda>retval.
     and_then (end_with (RDB_obj_int retval)) (\<lambda>c. RDB_bool_to_obj retvalp (rel (sint c))))))"

definition lt :: ro_op_func where "lt = compare_with (\<lambda>c. c < 0)"
definition let_op :: ro_op_func where "let_op = compare_with (\<lambda>c. c \<le> 0)"
definition gt :: ro_op_func where "gt = compare_with (\<lambda>c. c > 0)"
definition get :: ro_op_func where "get = compare_with (\<lambda>c. c \<ge> 0)"

section \<open>Arithmetic on integers\<close>

definition RDB_INT_MAX :: i32 where "RDB_INT_MAX = 2147483647"
definition RDB_INT_MIN :: i32 where "RDB_INT_MIN = - 2147483648"

abbreviation int_overflow :: "rdb_obj action" where
  "int_overflow \<equiv> raise_error TYPE_CONSTRAINT_VIOLATION_ERROR ''integer overflow''"

definition negate_int :: ro_op_func where
  "negate_int P argv retvalp =
     and_then (int_arg argv 0) (\<lambda>a. if a = RDB_INT_MIN then int_overflow else RDB_int_to_obj retvalp (- a))"

definition add_int :: ro_op_func where
  "add_int P argv retvalp =
     and_then (int_arg argv 0) (\<lambda>a. and_then (int_arg argv 1) (\<lambda>b.
       if (if sint b > 0 then sint a > sint (RDB_INT_MAX - b) else sint a < sint (RDB_INT_MIN - b))
       then int_overflow else RDB_int_to_obj retvalp (a + b)))"

definition subtract_int :: ro_op_func where
  "subtract_int P argv retvalp =
     and_then (int_arg argv 0) (\<lambda>a. and_then (int_arg argv 1) (\<lambda>b.
       if (if sint b > 0 then sint a < sint (RDB_INT_MIN + b) else sint a > sint (RDB_INT_MAX + b))
       then int_overflow else RDB_int_to_obj retvalp (a - b)))"

text \<open>The product is computed in 64 bits.\<close>

definition multiply_int :: ro_op_func where
  "multiply_int P argv retvalp =
     and_then (int_arg argv 0) (\<lambda>a. and_then (int_arg argv 1) (\<lambda>b.
       let prod = scast a * scast b :: 64 word
       in if sint prod > sint RDB_INT_MAX \<or> sint prod < sint RDB_INT_MIN then int_overflow
          else RDB_int_to_obj retvalp (ucast prod)))"

text \<open>Division truncates; the quotient that does not fit traps.\<close>

definition divide_int :: ro_op_func where
  "divide_int P argv retvalp =
     and_then (int_arg argv 0) (\<lambda>a. and_then (int_arg argv 1) (\<lambda>b.
       if b = 0 then raise_error INVALID_ARGUMENT_ERROR ''division by zero''
       else if a = RDB_INT_MIN \<and> b = -1 then end_with (Inl Crash)
       else RDB_int_to_obj retvalp (word_of_int (sint a sdiv sint b))))"

definition modulo :: ro_op_func where
  "modulo P argv retvalp =
     and_then (int_arg argv 0) (\<lambda>a. and_then (int_arg argv 1) (\<lambda>b.
       if b = 0 then raise_error INVALID_ARGUMENT_ERROR ''division by zero''
       else if a = RDB_INT_MIN \<and> b = -1 then end_with (Inl Crash)
       else RDB_int_to_obj retvalp (word_of_int (sint a smod sint b))))"

definition abs_int :: ro_op_func where
  "abs_int P argv retvalp =
     and_then (int_arg argv 0) (\<lambda>a. RDB_int_to_obj retvalp (if sint a < 0 then - a else a))"

section \<open>Arithmetic on floating-point numbers\<close>

definition finite_or :: "rdb_error_type \<Rightarrow> string \<Rightarrow> rdb_obj \<Rightarrow> double \<Rightarrow> rdb_obj action" where
  "finite_or t msg retvalp fv = (if \<not> isfinite fv then raise_error t msg else RDB_float_to_obj retvalp fv)"

abbreviation finite_result :: "rdb_obj \<Rightarrow> double \<Rightarrow> rdb_obj action" where
  "finite_result \<equiv> finite_or TYPE_CONSTRAINT_VIOLATION_ERROR ''floating point overflow''"

definition float_op :: "(platform \<Rightarrow> double \<Rightarrow> double) \<Rightarrow> (rdb_obj \<Rightarrow> double \<Rightarrow> rdb_obj action) \<Rightarrow> ro_op_func" where
  "float_op f result P argv retvalp = and_then (float_arg argv 0) (\<lambda>a. result retvalp (f P a))"

definition float_op2 :: "(platform \<Rightarrow> double \<Rightarrow> double \<Rightarrow> double) \<Rightarrow> (rdb_obj \<Rightarrow> double \<Rightarrow> rdb_obj action) \<Rightarrow> ro_op_func" where
  "float_op2 f result P argv retvalp =
     and_then (float_arg argv 0) (\<lambda>a. and_then (float_arg argv 1) (\<lambda>b. result retvalp (f P a b)))"

definition negate_float :: ro_op_func where "negate_float = float_op (\<lambda>_. fneg) RDB_float_to_obj"
definition add_float :: ro_op_func where "add_float = float_op2 (\<lambda>_. fadd) finite_result"
definition subtract_float :: ro_op_func where "subtract_float = float_op2 (\<lambda>_. fsub) finite_result"
definition multiply_float :: ro_op_func where "multiply_float = float_op2 (\<lambda>_. fmul) finite_result"
definition divide_float :: ro_op_func where "divide_float = float_op2 (\<lambda>_. fdiv) finite_result"
definition abs_float :: ro_op_func where "abs_float = float_op (\<lambda>_. fabs) RDB_float_to_obj"
definition math_sin :: ro_op_func where "math_sin = float_op (\<lambda>P. libm P ''sin'') RDB_float_to_obj"
definition math_cos :: ro_op_func where "math_cos = float_op (\<lambda>P. libm P ''cos'') RDB_float_to_obj"
definition math_atan :: ro_op_func where "math_atan = float_op (\<lambda>P. libm P ''atan'') RDB_float_to_obj"
definition math_atan2 :: ro_op_func where "math_atan2 = float_op2 (\<lambda>P. libm2 P ''atan2'') RDB_float_to_obj"
definition math_power :: ro_op_func where
  "math_power = float_op2 (\<lambda>P. libm2 P ''pow'') (finite_or INVALID_ARGUMENT_ERROR ''pow()'')"
definition math_exp :: ro_op_func where "math_exp = float_op (\<lambda>P. libm P ''exp'') RDB_float_to_obj"
definition math_ln :: ro_op_func where
  "math_ln = float_op (\<lambda>P. libm P ''log'') (finite_or INVALID_ARGUMENT_ERROR ''ln()'')"
definition math_log :: ro_op_func where
  "math_log = float_op (\<lambda>P. libm P ''log10'') (finite_or INVALID_ARGUMENT_ERROR ''log()'')"

definition math_sqrt :: ro_op_func where
  "math_sqrt P argv retvalp =
     and_then (float_arg argv 0) (\<lambda>d.
       if fless d (float_of_int 0)
       then raise_error INVALID_ARGUMENT_ERROR ''square root of negative number is undefined''
       else RDB_float_to_obj retvalp (libm P ''sqrt'' d))"

section \<open>Conversions\<close>

text \<open>The conversion of a number that is none is undefined in C; processors give the least integer.\<close>

definition cast_as_integer_float :: ro_op_func where
  "cast_as_integer_float P argv retvalp =
     and_then (float_arg argv 0) (\<lambda>f.
       if fless (float_of_int (sint RDB_INT_MAX)) f \<or> fless f (float_of_int (sint RDB_INT_MIN))
       then raise_error TYPE_CONSTRAINT_VIOLATION_ERROR ''floating point overflow''
       else RDB_int_to_obj retvalp (case trunc f of Some i \<Rightarrow> word_of_int i | None \<Rightarrow> RDB_INT_MIN))"

text \<open>
  \<^verbatim>\<open>strtol\<close> with base 10: white space, a sign, digits.  It gives the number, limited to the
  range of \<^verbatim>\<open>long\<close>, and the rest of the string, all of it if there is no number.
\<close>

definition isspace :: "char \<Rightarrow> bool" where
  "isspace c \<longleftrightarrow> (let n = of_char c :: nat in n = 32 \<or> 9 \<le> n \<and> n \<le> 13)"

definition isdigit :: "char \<Rightarrow> bool" where
  "isdigit c \<longleftrightarrow> (let n = of_char c :: nat in 48 \<le> n \<and> n \<le> 57)"

definition digits_value :: "string \<Rightarrow> nat" where
  "digits_value ds = foldl (\<lambda>n c. 10 * n + (of_char c - 48)) 0 ds"

definition strtol :: "string \<Rightarrow> int \<times> string" where
  "strtol s =
     (let s1 = dropWhile isspace s;
          neg = (s1 \<noteq> [] \<and> hd s1 = CHR ''-'');
          s2 = (if s1 \<noteq> [] \<and> (hd s1 = CHR ''-'' \<or> hd s1 = CHR ''+'') then tl s1 else s1);
          ds = takeWhile isdigit s2;
          n = (if neg then - int (digits_value ds) else int (digits_value ds))
      in if ds = [] then (0, s) else (max (- (2 ^ 63)) (min (2 ^ 63 - 1) n), dropWhile isdigit s2))"

text \<open>With 64 bits for \<^verbatim>\<open>long\<close> the test of \<^verbatim>\<open>errno\<close> is never reached.\<close>

definition cast_as_integer_string :: ro_op_func where
  "cast_as_integer_string P argv retvalp =
     and_then (str_arg argv 0) (\<lambda>s. case strtol s of (lv, endp) \<Rightarrow>
       if endp \<noteq> [] then raise_error INVALID_ARGUMENT_ERROR ''conversion to integer failed''
       else if lv > sint RDB_INT_MAX then raise_error TYPE_CONSTRAINT_VIOLATION_ERROR ''integer number too large''
       else RDB_int_to_obj retvalp (word_of_int lv))"

definition cast_as_float_int :: ro_op_func where
  "cast_as_float_int P argv retvalp =
     and_then (int_arg argv 0) (\<lambda>i. RDB_float_to_obj retvalp (float_of_int (sint i)))"

definition cast_as_float_string :: ro_op_func where
  "cast_as_float_string P argv retvalp =
     and_then (str_arg argv 0) (\<lambda>s. case strtod P s of (fv, endp) \<Rightarrow>
       if endp \<noteq> [] then raise_error INVALID_ARGUMENT_ERROR ''conversion to float failed''
       else finite_result retvalp fv)"

definition cast_as_string :: ro_op_func where
  "cast_as_string P argv retvalp = and_then (arg argv 0) (RDB_obj_to_string P retvalp)"

text \<open>All of the buffer but its last byte; the size of a block is never as large as the wrapped length.\<close>

definition cast_as_binary :: ro_op_func where
  "cast_as_binary P argv retvalp =
     and_then (bin_arg argv 0) (\<lambda>d.
       if d = [] then end_with NO_MEM else RDB_binary_set P retvalp 0 (butlast d))"

end
