(* ===== verification/String_Ops.thy ===== *)
theory String_Ops
  imports Scalar_Ops
begin

text \<open>
  The built-in operators on strings of \<^verbatim>\<open>obj/builtinscops.c\<close>.  Offsets into a buffer are
  unbounded integers: buffers are shorter than \<open>2 ^ 31\<close> bytes.
\<close>

section \<open>Length\<close>

definition op_strlen :: ro_op_func where
  "op_strlen P argv retvalp =
     and_then (str_arg argv 0) (\<lambda>s. case mbstowcs P s of
         None \<Rightarrow> raise_error INVALID_ARGUMENT_ERROR ''obtaining string length failed''
       | Some ws \<Rightarrow> RDB_int_to_obj retvalp (of_nat (length ws)))"

definition op_strlen_b :: ro_op_func where
  "op_strlen_b P argv retvalp =
     and_then (str_arg argv 0) (\<lambda>s. RDB_int_to_obj retvalp (of_nat (length s)))"

section \<open>Substrings by characters\<close>

text \<open>The length of the character at an offset of the buffer.\<close>

definition mblen_at :: "platform \<Rightarrow> string \<Rightarrow> int \<Rightarrow> int result" where
  "mblen_at P d offs =
     (if 0 \<le> offs \<and> nat offs < length d then Inr (mblen P (take (mb_cur_max P) (drop (nat offs) d)))
      else Inl Segfault)"

abbreviation invalid_substr :: "'a action" where
  "invalid_substr \<equiv> raise_error INVALID_ARGUMENT_ERROR ''invalid substr argument''"

text \<open>The two loops, over the characters that are still to be passed.\<close>

fun find_start :: "platform \<Rightarrow> string \<Rightarrow> nat \<Rightarrow> int \<Rightarrow> int action" where
  "find_start P d 0 bstart = done_with bstart"
| "find_start P d (Suc n) bstart =
     (if \<not> bstart < int (to_size (int (length d) - 1)) then done_with bstart
      else and_then (end_with (mblen_at P d bstart)) (\<lambda>cl.
        if cl = -1 then invalid_substr else find_start P d n (bstart + cl)))"

fun find_end :: "platform \<Rightarrow> string \<Rightarrow> int \<Rightarrow> nat \<Rightarrow> int \<Rightarrow> int action" where
  "find_end P d bstart 0 blen = done_with blen"
| "find_end P d bstart (Suc n) blen =
     (if \<not> bstart + blen < int (length d) then done_with blen
      else and_then (end_with (mblen_at P d (bstart + blen))) (\<lambda>cl.
        if cl = -1 then invalid_substr else find_end P d bstart n (blen + (if cl > 0 then cl else 1))))"

definition op_substr :: ro_op_func where
  "op_substr P argv retvalp =
     and_then (int_arg argv 1) (\<lambda>start.
     and_then (int_arg argv 2) (\<lambda>len.
     if sint len < 0 \<or> sint start < 0 then invalid_substr
     else and_then (bin_arg argv 0) (\<lambda>d.
       and_then (find_start P d (nat (sint start)) 0) (\<lambda>bstart.
       if bstart \<ge> int (to_size (int (length d) - 1)) then invalid_substr
       else and_then (find_end P d bstart (nat (sint len)) 0) (\<lambda>blen.
         if bstart + blen \<ge> int (length d) then invalid_substr
         else RDB_string_n_to_obj P retvalp (drop (nat bstart) d) (nat blen))))))"

section \<open>Substrings by bytes\<close>

abbreviation invalid_substr_b :: "'a action" where
  "invalid_substr_b \<equiv> raise_error INVALID_ARGUMENT_ERROR ''invalid substr_b argument''"

definition op_substr_b_remaining :: ro_op_func where
  "op_substr_b_remaining P argv retvalp =
     and_then (str_arg argv 0) (\<lambda>s.
     and_then (int_arg argv 1) (\<lambda>pos.
     if sint pos < 0 \<or> to_size (sint pos) > length s then invalid_substr_b
     else RDB_string_to_obj P retvalp (drop (nat (sint pos)) s)))"

text \<open>The sum of position and length is computed in 32 bits and converted to \<^verbatim>\<open>size_t\<close>.\<close>

definition op_substr_b :: ro_op_func where
  "op_substr_b P argv retvalp =
     and_then (bin_arg argv 0) (\<lambda>d.
     and_then (int_arg argv 1) (\<lambda>pos.
     and_then (int_arg argv 2) (\<lambda>len.
     if sint pos < 0 \<or> sint len < 0 then invalid_substr_b
     else and_then (end_with (c_str d)) (\<lambda>s.
       if to_size (sint (pos + len)) > length s then invalid_substr_b
       else RDB_string_n_to_obj P retvalp (drop (nat (sint pos)) d) (nat (sint len))))))"

section \<open>Searching\<close>

fun strstr :: "string \<Rightarrow> string \<Rightarrow> nat option" where
  "strstr [] needle = (if needle = [] then Some 0 else None)"
| "strstr (c # cs) needle =
     (if take (length needle) (c # cs) = needle then Some 0 else map_option Suc (strstr cs needle))"

definition op_strfind_b :: ro_op_func where
  "op_strfind_b P argv retvalp =
     and_then (str_arg argv 0) (\<lambda>haystack.
     and_then (str_arg argv 1) (\<lambda>needle.
     case strstr haystack needle of
       None \<Rightarrow> RDB_int_to_obj retvalp (-1)
     | Some i \<Rightarrow> RDB_int_to_obj retvalp (of_nat i)))"

definition op_strfind_b_pos :: ro_op_func where
  "op_strfind_b_pos P argv retvalp =
     and_then (str_arg argv 0) (\<lambda>haystack.
     and_then (int_arg argv 2) (\<lambda>pos.
     if sint pos < 0 \<or> to_size (sint pos) > length haystack
     then raise_error INVALID_ARGUMENT_ERROR ''Invalid strfind_b argument''
     else and_then (str_arg argv 1) (\<lambda>needle.
       case strstr (drop (nat (sint pos)) haystack) needle of
         None \<Rightarrow> RDB_int_to_obj retvalp (-1)
       | Some i \<Rightarrow> RDB_int_to_obj retvalp (of_nat (nat (sint pos) + i)))))"

definition op_starts_with :: ro_op_func where
  "op_starts_with P argv retvalp =
     and_then (str_arg argv 0) (\<lambda>str.
     and_then (str_arg argv 1) (\<lambda>pref.
     if length pref > length str then RDB_bool_to_obj retvalp False
     else RDB_bool_to_obj retvalp (take (length pref) str = pref)))"

definition op_like :: ro_op_func where
  "op_like P argv retvalp =
     and_then (str_arg argv 1) (\<lambda>pattern.
     and_then (str_arg argv 0) (\<lambda>s.
     let r = fnmatch P pattern s
     in if r \<noteq> 0 \<and> r \<noteq> 1 then raise_error SYSTEM_ERROR ''fnmatch() failed''
        else RDB_bool_to_obj retvalp (r = 0)))"

definition op_regex_like :: ro_op_func where
  "op_regex_like P argv retvalp =
     and_then (str_arg argv 1) (\<lambda>pattern.
     case regcomp P pattern of
       None \<Rightarrow> raise_error INVALID_ARGUMENT_ERROR ''invalid regular expression''
     | Some matches \<Rightarrow> and_then (str_arg argv 0) (\<lambda>s. RDB_bool_to_obj retvalp (matches s)))"

section \<open>Building strings\<close>

definition op_concat :: ro_op_func where
  "op_concat P argv retvalp =
     and_then (str_arg argv 0) (\<lambda>s1.
     and_then (str_arg argv 1) (\<lambda>s2.
     and_then (RDB_set_str_obj_len P retvalp (length s1 + length s2 + 1)) (\<lambda>v.
     and_then (store_at v 0 (s1 @ [NUL])) (\<lambda>v'. store_at v' (length s1) (s2 @ [NUL])))))"

text \<open>
  The test for an invalid sequence comes after one is added to the length, and is never
  true; then the array of wide characters has no element and reading it is a fault.  When
  the result cannot be encoded the length is zero.
\<close>

definition convert_case :: "(platform \<Rightarrow> nat \<Rightarrow> nat) \<Rightarrow> ro_op_func" where
  "convert_case f P argv retvalp =
     and_then (str_arg argv 0) (\<lambda>src.
     and_then RDB_alloc (\<lambda>_.
     case mbstowcs P src of
       None \<Rightarrow> end_with (Inl Segfault)
     | Some ws \<Rightarrow>
         let wchars = map (f P) (ws @ [0])
         in if 0 \<notin> set wchars then end_with (Inl Segfault)
            else case wcstombs P (takeWhile (\<lambda>w. w \<noteq> 0) wchars) of
              None \<Rightarrow> RDB_set_str_obj_len P retvalp 0
            | Some dst \<Rightarrow> and_then (RDB_set_str_obj_len P retvalp (length dst + 1)) (\<lambda>v. store_at v 0 (dst @ [NUL]))))"

definition op_lower :: ro_op_func where "op_lower = convert_case towlower"
definition op_upper :: ro_op_func where "op_upper = convert_case towupper"

section \<open>Formatting\<close>

text \<open>The conversion character of a format: after the flags, the width and the precision.\<close>

definition conversion :: "string \<Rightarrow> char" where
  "conversion format =
     (let s = dropWhile isdigit (dropWhile (\<lambda>c. c \<in> set ''#0- +'') (tl format));
          s' = (if s \<noteq> [] \<and> hd s = CHR ''.'' then dropWhile isdigit (tl s) else s)
      in if s' = [] then NUL else hd s')"

text \<open>The output of \<^verbatim>\<open>sprintf\<close> in a buffer that grows when needed; its new size is kept.\<close>

definition print_to :: "nat \<Rightarrow> string option \<Rightarrow> (nat \<times> string) action" where
  "print_to bufsize out =
     (case out of
        None \<Rightarrow> raise_error INVALID_ARGUMENT_ERROR ''''
      | Some s \<Rightarrow>
          if bufsize < length s + 1 then and_then RDB_realloc (\<lambda>_. done_with (length s + 1, s))
          else done_with (bufsize, s))"

definition sprintf_obj :: "platform \<Rightarrow> nat \<Rightarrow> string \<Rightarrow> rdb_obj \<Rightarrow> (nat \<times> string) action" where
  "sprintf_obj P bufsize format srcobjp =
     (let typ = RDB_obj_type srcobjp; c = conversion format in
      if c \<in> set ''douxX'' then
        if typ \<noteq> Some RDB_INTEGER then raise_error TYPE_MISMATCH_ERROR ''integer expected''
        else and_then (end_with (RDB_obj_int srcobjp)) (\<lambda>i.
          print_to bufsize (snprintf_int P format (if c = CHR ''d'' then sint i else uint i)))
      else if c = CHR ''s'' then
        if typ \<noteq> Some RDB_STRING then raise_error TYPE_MISMATCH_ERROR ''string expected''
        else and_then (end_with (RDB_obj_string srcobjp)) (\<lambda>s. print_to bufsize (snprintf_str P format s))
      else if c \<in> set ''efg'' then
        if typ \<noteq> Some RDB_FLOAT then raise_error TYPE_MISMATCH_ERROR ''float expected''
        else and_then (end_with (RDB_obj_float srcobjp)) (\<lambda>f. print_to bufsize (snprintf_float P format f))
      else raise_error TYPE_MISMATCH_ERROR ''Unsupported conversion'')"

fun append_chars :: "platform \<Rightarrow> rdb_obj \<Rightarrow> string \<Rightarrow> rdb_obj action" where
  "append_chars P objp [] = done_with objp"
| "append_chars P objp (c # cs) = and_then (RDB_append_char P objp c) (\<lambda>v. append_chars P v cs)"

lemma drop_rest_shorter:
  "dropWhile p (tl (tl xs)) \<noteq> [] \<Longrightarrow> length (dropWhile p (tl (tl xs))) < length xs"
  "dropWhile p (tl xs) \<noteq> [] \<Longrightarrow> length (dropWhile p (tl xs)) < length xs"
  using length_dropWhile_le[of p "tl (tl xs)"] length_dropWhile_le[of p "tl xs"]
  by (cases xs; cases "tl xs"; force)+

text \<open>
  The loop over the percent signs of the format: \<open>pos\<close> starts with one.  A second one stands
  for itself; otherwise the part up to the next sign is the format of the next argument.
\<close>

function format_loop :: "platform \<Rightarrow> rdb_obj list \<Rightarrow> string \<Rightarrow> nat \<Rightarrow> rdb_obj \<Rightarrow> rdb_obj action" where
  "format_loop P args pos bufsize retvalp =
     (let rest = tl pos in
      if rest \<noteq> [] \<and> hd rest = CHR ''%'' then
        let lit = takeWhile (\<lambda>c. c \<noteq> CHR ''%'') (tl rest); npos = dropWhile (\<lambda>c. c \<noteq> CHR ''%'') (tl rest)
        in if npos = [] then RDB_append_string P retvalp rest
           else and_then (append_chars P retvalp (CHR ''%'' # lit)) (\<lambda>v. format_loop P args npos bufsize v)
      else case args of
        [] \<Rightarrow> raise_error INVALID_ARGUMENT_ERROR ''missing argument''
      | a # args' \<Rightarrow>
          let npos = dropWhile (\<lambda>c. c \<noteq> CHR ''%'') rest
          in if npos = [] then and_then (sprintf_obj P bufsize pos a) (\<lambda>(_, buf). RDB_append_string P retvalp buf)
             else and_then RDB_alloc (\<lambda>_.
                  and_then (sprintf_obj P bufsize (CHR ''%'' # takeWhile (\<lambda>c. c \<noteq> CHR ''%'') rest) a) (\<lambda>(bufsize', buf).
                  and_then (RDB_append_string P retvalp buf) (\<lambda>v. format_loop P args' npos bufsize' v))))"
  by pat_completeness auto

termination
  by (relation "measure (\<lambda>(P, args, pos, _). length pos)") (auto simp: drop_rest_shorter simp del: dropWhile_eq_Nil_conv)

declare format_loop.simps [simp del]

definition op_format :: ro_op_func where
  "op_format P argv retvalp =
     and_then RDB_alloc (\<lambda>_.
     case argv of
       [] \<Rightarrow> raise_error INVALID_ARGUMENT_ERROR ''format argument missing''
     | a # args \<Rightarrow>
         if RDB_obj_type a \<noteq> Some RDB_STRING then raise_error TYPE_MISMATCH_ERROR ''format must be of type string''
         else and_then (end_with (RDB_obj_string a)) (\<lambda>format.
           let pos = dropWhile (\<lambda>c. c \<noteq> CHR ''%'') format
           in if pos = [] then RDB_string_to_obj P retvalp format
              else and_then (RDB_string_n_to_obj P retvalp format (length format - length pos)) (\<lambda>v.
                   format_loop P args pos 160 v)))"

end
