(* ===== verification/Op_Soundness.thy ===== *)
theory Op_Soundness
  imports String_Ops
begin

text \<open>
  The built-in scalar operators respect their types: applied to values of the types of their
  parameters they give a value of their type or raise an error.
\<close>

section \<open>Values of scalar types\<close>

definition is_string :: "string \<Rightarrow> bool" where
  "is_string d \<longleftrightarrow> NUL \<in> set d"

definition scalar_ok :: "rdb_type \<Rightarrow> rdb_obj \<Rightarrow> bool" where
  "scalar_ok t v \<longleftrightarrow> typ_of v = Some t \<and>
     (case val_of v of BoolV _ \<Rightarrow> t = RDB_BOOLEAN | IntV _ \<Rightarrow> t = RDB_INTEGER | FloatV _ \<Rightarrow> t = RDB_FLOAT
      | TimeV _ _ _ _ _ _ \<Rightarrow> t = RDB_DATETIME | BinV d \<Rightarrow> t = RDB_BINARY \<or> t = RDB_STRING \<and> is_string d | _ \<Rightarrow> False)"

lemma builtin_names [simp]:
  "RDB_BOOLEAN \<noteq> RDB_INTEGER" "RDB_BOOLEAN \<noteq> RDB_FLOAT" "RDB_BOOLEAN \<noteq> RDB_STRING" "RDB_BOOLEAN \<noteq> RDB_BINARY" "RDB_BOOLEAN \<noteq> RDB_DATETIME"
  "RDB_INTEGER \<noteq> RDB_BOOLEAN" "RDB_INTEGER \<noteq> RDB_FLOAT" "RDB_INTEGER \<noteq> RDB_STRING" "RDB_INTEGER \<noteq> RDB_BINARY" "RDB_INTEGER \<noteq> RDB_DATETIME"
  "RDB_FLOAT \<noteq> RDB_BOOLEAN" "RDB_FLOAT \<noteq> RDB_INTEGER" "RDB_FLOAT \<noteq> RDB_STRING" "RDB_FLOAT \<noteq> RDB_BINARY" "RDB_FLOAT \<noteq> RDB_DATETIME"
  "RDB_STRING \<noteq> RDB_BOOLEAN" "RDB_STRING \<noteq> RDB_INTEGER" "RDB_STRING \<noteq> RDB_FLOAT" "RDB_STRING \<noteq> RDB_BINARY" "RDB_STRING \<noteq> RDB_DATETIME"
  "RDB_BINARY \<noteq> RDB_BOOLEAN" "RDB_BINARY \<noteq> RDB_INTEGER" "RDB_BINARY \<noteq> RDB_FLOAT" "RDB_BINARY \<noteq> RDB_STRING" "RDB_BINARY \<noteq> RDB_DATETIME"
  "RDB_DATETIME \<noteq> RDB_BOOLEAN" "RDB_DATETIME \<noteq> RDB_INTEGER" "RDB_DATETIME \<noteq> RDB_FLOAT" "RDB_DATETIME \<noteq> RDB_STRING" "RDB_DATETIME \<noteq> RDB_BINARY"
  by (simp_all add: builtin_type_defs)

lemma obj_eta: "v = Obj t i w \<longleftrightarrow> typ_of v = t \<and> impl_of v = i \<and> val_of v = w"
  by (cases v) auto

lemma scalar_ok_cases:
  "scalar_ok RDB_BOOLEAN v \<longleftrightarrow> (\<exists>i b. v = Obj (Some RDB_BOOLEAN) i (BoolV b))"
  "scalar_ok RDB_INTEGER v \<longleftrightarrow> (\<exists>i n. v = Obj (Some RDB_INTEGER) i (IntV n))"
  "scalar_ok RDB_FLOAT v \<longleftrightarrow> (\<exists>i x. v = Obj (Some RDB_FLOAT) i (FloatV x))"
  "scalar_ok RDB_STRING v \<longleftrightarrow> (\<exists>i d. v = Obj (Some RDB_STRING) i (BinV d) \<and> is_string d)"
  "scalar_ok RDB_BINARY v \<longleftrightarrow> (\<exists>i d. v = Obj (Some RDB_BINARY) i (BinV d))"
  "scalar_ok RDB_DATETIME v \<longleftrightarrow> (\<exists>i y mo d h mi s. v = Obj (Some RDB_DATETIME) i (TimeV y mo d h mi s))"
  by (auto simp: scalar_ok_def obj_eta split: rdb_val.splits)

text \<open>
  The arguments of an operator whose parameters have the types \<open>ts\<close>; the memory holds less
  than \<open>2 ^ 63\<close> bytes.
\<close>

fun fits :: "rdb_val \<Rightarrow> bool" where
  "fits (BinV d) \<longleftrightarrow> length d < 2 ^ 63" | "fits _ \<longleftrightarrow> True"

definition args_ok :: "rdb_type list \<Rightarrow> rdb_obj list \<Rightarrow> bool" where
  "args_ok ts argv \<longleftrightarrow> list_all2 (\<lambda>t v. scalar_ok t v \<and> fits (val_of v)) ts argv"

lemma args_ok_cases:
  "args_ok [] argv \<longleftrightarrow> argv = []"
  "args_ok (t # ts) argv \<longleftrightarrow> (\<exists>v vs. argv = v # vs \<and> scalar_ok t v \<and> fits (val_of v) \<and> args_ok ts vs)"
  by (auto simp: args_ok_def list_all2_Cons1)

named_theorems arguments "evaluation of the arguments of an operator"

lemma eval_args [arguments]:
  "arg (v # vs) 0 = end_with (Inr v)" "arg (v # vs) (Suc i) = arg vs i"
  "bool_arg (Obj t j (BoolV b) # vs) 0 = end_with (Inr b)" "bool_arg (v # vs) (Suc i) = bool_arg vs i"
  "int_arg (Obj t j (IntV n) # vs) 0 = end_with (Inr n)" "int_arg (v # vs) (Suc i) = int_arg vs i"
  "float_arg (Obj t j (FloatV x) # vs) 0 = end_with (Inr x)" "float_arg (v # vs) (Suc i) = float_arg vs i"
  "bin_arg (Obj t j (BinV d) # vs) 0 = end_with (Inr d)" "bin_arg (v # vs) (Suc i) = bin_arg vs i"
  "str_arg (Obj t j (BinV d) # vs) 0 = end_with (c_str d)" "str_arg (v # vs) (Suc i) = str_arg vs i"
  "time_arg (Obj t j (TimeV y mo dd h mi s) # vs) 0 = end_with (Inr [sint y, uint mo, uint dd, uint h, uint mi, uint s])"
  "time_arg (v # vs) (Suc i) = time_arg vs i"
  by (simp_all add: arg_defs RDB_obj_bool_def RDB_obj_int_def RDB_obj_float_def RDB_obj_bin_def RDB_obj_string_def fun_eq_iff
      and_then_def end_with_def)

lemma c_str_eval: "is_string d \<Longrightarrow> c_str d = Inr (takeWhile (\<lambda>c. c \<noteq> NUL) d)"
  by (simp add: is_string_def c_str_def)

definition is_new :: "rdb_obj \<Rightarrow> bool" where
  "is_new r \<longleftrightarrow> typ_of r = None \<and> val_of r = Initial"

lemma safe_setters [safety]:
  assumes "is_new r"
  shows "safe (RDB_bool_to_obj r b) (scalar_ok RDB_BOOLEAN)" "safe (RDB_int_to_obj r i) (scalar_ok RDB_INTEGER)"
    "safe (RDB_float_to_obj r x) (scalar_ok RDB_FLOAT)"
  using assms by (auto simp: safe_def RDB_bool_to_obj_def RDB_int_to_obj_def RDB_float_to_obj_def set_scalar_def
      done_with_def scalar_ok_cases is_new_def)

text \<open>An operator that gives a value of its type or raises an error for all arguments of its parameters' types.\<close>

definition sound :: "platform \<Rightarrow> rdb_type list \<Rightarrow> rdb_type \<Rightarrow> ro_op_func \<Rightarrow> bool" where
  "sound P ts rt f \<longleftrightarrow> (\<forall>argv r. args_ok ts argv \<longrightarrow> is_new r \<longrightarrow> safe (f P argv r) (scalar_ok rt))"

lemmas sound_simps = sound_def args_ok_cases scalar_ok_cases arguments c_str_eval numeral_2_eq_2

named_theorems sound_ops "operators that respect their types"

lemma sound_logic [sound_ops]:
  "sound P [RDB_BOOLEAN, RDB_BOOLEAN] RDB_BOOLEAN RDB_eq_bool"
  "sound P [RDB_BOOLEAN, RDB_BOOLEAN] RDB_BOOLEAN neq_bool"
  "sound P [RDB_BINARY, RDB_BINARY] RDB_BOOLEAN RDB_eq_binary"
  "sound P [RDB_BINARY, RDB_BINARY] RDB_BOOLEAN neq_binary"
  "sound P [RDB_BOOLEAN, RDB_BOOLEAN] RDB_BOOLEAN and_op"
  "sound P [RDB_BOOLEAN, RDB_BOOLEAN] RDB_BOOLEAN or_op"
  "sound P [RDB_BOOLEAN, RDB_BOOLEAN] RDB_BOOLEAN xor_op"
  "sound P [RDB_BOOLEAN] RDB_BOOLEAN not_op"
  by (auto simp: sound_simps RDB_eq_bool_def neq_bool_def RDB_eq_binary_def neq_binary_def and_op_def or_op_def xor_op_def
      not_op_def intro!: safety)


lemma sound_compare [sound_ops]:
  "sound P [RDB_INTEGER, RDB_INTEGER] RDB_INTEGER compare_int"
  "sound P [RDB_FLOAT, RDB_FLOAT] RDB_INTEGER compare_float"
  "sound P [RDB_STRING, RDB_STRING] RDB_INTEGER compare_string"
  "sound P [RDB_DATETIME, RDB_DATETIME] RDB_INTEGER compare_datetime"
  by (auto simp: sound_simps compare_int_def compare_float_def compare_string_def compare_datetime_def intro!: safety)

lemma new_obj [simp]: "is_new RDB_init_obj"
  by (simp add: is_new_def RDB_init_obj_def)

lemma sound_compare_with:
  assumes "compare_fn P t = Some (f P)" "sound P [t, t] RDB_INTEGER f"
  shows "sound P [t, t] RDB_BOOLEAN (compare_with rel)"
  unfolding sound_def
proof (intro allI impI)
  fix argv r assume ok: "args_ok [t, t] argv" "is_new r"
  obtain v w where argv: "argv = [v, w]" and v: "typ_of v = Some t"
    using ok(1) by (auto simp: args_ok_cases scalar_ok_def)
  have "safe (f P argv RDB_init_obj) (scalar_ok RDB_INTEGER)"
    using assms(2) ok(1) by (simp add: sound_def)
  then show "safe (compare_with rel P argv r) (scalar_ok RDB_BOOLEAN)"
    unfolding compare_with_def argv
    by (auto simp: arguments v assms(1) scalar_ok_cases RDB_obj_int_def ok(2) intro!: safe_and_then safety
        simp del: scalar_ok_cases(1))
qed


lemma sound_comparisons [sound_ops]:
  assumes "t \<in> {RDB_INTEGER, RDB_FLOAT, RDB_STRING, RDB_DATETIME}"
  shows "sound P [t, t] RDB_BOOLEAN lt" "sound P [t, t] RDB_BOOLEAN let_op"
    "sound P [t, t] RDB_BOOLEAN gt" "sound P [t, t] RDB_BOOLEAN get"
proof -
  consider (int) "t = RDB_INTEGER" | (float) "t = RDB_FLOAT" | (str) "t = RDB_STRING" | (time) "t = RDB_DATETIME"
    using assms by blast
  then have "\<exists>f. compare_fn P t = Some (f P) \<and> sound P [t, t] RDB_INTEGER f"
  proof cases
    case int
    then show ?thesis by (intro exI[of _ compare_int]) (simp add: compare_fn_def sound_compare)
  next
    case float
    then show ?thesis by (intro exI[of _ compare_float]) (simp add: compare_fn_def sound_compare)
  next
    case str
    then show ?thesis by (intro exI[of _ compare_string]) (simp add: compare_fn_def sound_compare)
  next
    case time
    then show ?thesis by (intro exI[of _ compare_datetime]) (simp add: compare_fn_def sound_compare)
  qed
  then have "sound P [t, t] RDB_BOOLEAN (compare_with rel)" for rel using sound_compare_with by blast
  then show "sound P [t, t] RDB_BOOLEAN lt" "sound P [t, t] RDB_BOOLEAN let_op"
    "sound P [t, t] RDB_BOOLEAN gt" "sound P [t, t] RDB_BOOLEAN get"
    by (simp_all add: lt_def let_op_def gt_def get_def)
qed

lemma sound_integers [sound_ops]:
  "sound P [RDB_INTEGER] RDB_INTEGER negate_int"
  "sound P [RDB_INTEGER, RDB_INTEGER] RDB_INTEGER add_int"
  "sound P [RDB_INTEGER, RDB_INTEGER] RDB_INTEGER subtract_int"
  "sound P [RDB_INTEGER, RDB_INTEGER] RDB_INTEGER multiply_int"
  "sound P [RDB_INTEGER] RDB_INTEGER abs_int"
  by (auto simp: sound_simps negate_int_def add_int_def subtract_int_def multiply_int_def abs_int_def Let_def intro!: safety)

lemma safe_division:
  assumes "args_ok [RDB_INTEGER, RDB_INTEGER] argv" "is_new r" "map val_of argv \<noteq> [IntV RDB_INT_MIN, IntV (-1)]"
  shows "safe (divide_int P argv r) (scalar_ok RDB_INTEGER)" "safe (modulo P argv r) (scalar_ok RDB_INTEGER)"
  using assms by (auto simp: sound_simps divide_int_def modulo_def intro!: safety)

lemma safe_finite_or [safety]: "is_new r \<Longrightarrow> safe (finite_or t msg r x) (scalar_ok RDB_FLOAT)"
  by (auto simp: finite_or_def intro!: safety)

lemma sound_floats [sound_ops]:
  "sound P [RDB_FLOAT] RDB_FLOAT negate_float" "sound P [RDB_FLOAT] RDB_FLOAT abs_float"
  "sound P [RDB_FLOAT, RDB_FLOAT] RDB_FLOAT add_float" "sound P [RDB_FLOAT, RDB_FLOAT] RDB_FLOAT subtract_float"
  "sound P [RDB_FLOAT, RDB_FLOAT] RDB_FLOAT multiply_float" "sound P [RDB_FLOAT, RDB_FLOAT] RDB_FLOAT divide_float"
  "sound P [RDB_FLOAT] RDB_FLOAT math_sqrt" "sound P [RDB_FLOAT] RDB_FLOAT math_sin" "sound P [RDB_FLOAT] RDB_FLOAT math_cos"
  "sound P [RDB_FLOAT] RDB_FLOAT math_atan" "sound P [RDB_FLOAT, RDB_FLOAT] RDB_FLOAT math_atan2"
  "sound P [RDB_FLOAT, RDB_FLOAT] RDB_FLOAT math_power" "sound P [RDB_FLOAT] RDB_FLOAT math_exp"
  "sound P [RDB_FLOAT] RDB_FLOAT math_ln" "sound P [RDB_FLOAT] RDB_FLOAT math_log"
  by (auto simp: sound_simps negate_float_def abs_float_def add_float_def subtract_float_def multiply_float_def
      divide_float_def math_sqrt_def math_sin_def math_cos_def math_atan_def math_atan2_def math_power_def math_exp_def
      math_ln_def math_log_def float_op_def float_op2_def intro!: safety)

section \<open>Operators on strings\<close>

text \<open>A string object with a buffer of a given size.\<close>

definition str_buf :: "nat \<Rightarrow> rdb_obj \<Rightarrow> bool" where
  "str_buf n v \<longleftrightarrow> (\<exists>i d. v = Obj (Some RDB_STRING) i (BinV d) \<and> length d = n)"

lemma length_new_block [simp]: "length (new_block P a old len) = len"
  by (simp add: new_block_def)

lemma set_len_new: "is_new r \<Longrightarrow> safe (RDB_set_str_obj_len P r n) (str_buf n)"
  by (auto simp: RDB_set_str_obj_len_def is_new_def str_buf_def intro!: safe_and_then[OF safe_alloc(1)] safety)

lemma store_str_buf:
  "str_buf n v \<Longrightarrow> offs + length bs \<le> n \<Longrightarrow> safe (store_at v offs bs) (str_buf n)"
  by (auto simp: store_at_def str_buf_def RDB_obj_bin_def write_at_def intro!: safety)

text \<open>After a write that ends with a null character the value is a string.\<close>

lemma store_string:
  assumes "str_buf n v" "offs + length bs < n"
  shows "safe (store_at v offs (bs @ [NUL])) (scalar_ok RDB_STRING)"
  using assms by (auto simp: store_at_def str_buf_def RDB_obj_bin_def write_at_def scalar_ok_cases is_string_def intro!: safety)

lemma safe_string_to_obj [safety]: "is_new r \<Longrightarrow> safe (RDB_string_to_obj P r s) (scalar_ok RDB_STRING)"
  by (auto simp: RDB_string_to_obj_def intro!: safe_and_then[OF set_len_new] store_string)

lemma strncpy_length: "strncpy_bytes src n = Inr bs \<Longrightarrow> length bs = n"
  using length_takeWhile_le[of "\<lambda>c. c \<noteq> NUL" "take n src"]
  by (auto simp: strncpy_bytes_def Let_def split: if_splits)

lemma strncpy_ok: "n \<le> length src \<or> NUL \<in> set src \<Longrightarrow> \<exists>bs. strncpy_bytes src n = Inr bs"
proof -
  assume a: "n \<le> length src \<or> NUL \<in> set src"
  have "length (takeWhile (\<lambda>c. c \<noteq> NUL) (take n src)) < n \<Longrightarrow> length (takeWhile (\<lambda>c. c \<noteq> NUL) (take n src)) < length src"
    using a length_takeWhile_le[of "\<lambda>c. c \<noteq> NUL" "take n src"] takeWhile_eq_take[of "\<lambda>c. c \<noteq> NUL" src]
      takeWhile_eq_all_conv[of "\<lambda>c. c \<noteq> NUL" src]
    by (cases "n \<le> length src") (auto simp: less_le)
  then show ?thesis by (fastforce simp: strncpy_bytes_def Let_def)
qed

lemma safe_string_n_to_obj:
  assumes "is_new r" "n \<le> length src \<or> NUL \<in> set src"
  shows "safe (RDB_string_n_to_obj P r src n) (scalar_ok RDB_STRING)"
proof -
  obtain bs where "strncpy_bytes src n = Inr bs" "length bs = n" using strncpy_ok[OF assms(2)] strncpy_length by blast
  then show ?thesis
    using store_string[where bs = "[]"]
    by (auto simp: RDB_string_n_to_obj_def assms(1) intro!: safe_and_then[OF set_len_new] safe_and_then[OF store_str_buf])
qed


definition platform_ok :: "platform \<Rightarrow> bool" where
  "platform_ok P \<longleftrightarrow>
     (\<forall>s. mblen P s = -1 \<or> 0 \<le> mblen P s \<and> mblen P s \<le> int (length s))
     \<and> (\<forall>f \<in> {towlower P, towupper P}. f 0 = 0
          \<and> (\<forall>s ws. mbstowcs P s = Some ws \<longrightarrow> wcstombs P (takeWhile (\<lambda>w. w \<noteq> 0) (map f (ws @ [0]))) \<noteq> None))
     \<and> (\<forall>x. snprintf_float P ''%.15g'' x \<noteq> None)"

lemma mblen_at_ok:
  assumes "platform_ok P" "0 \<le> offs" "offs < int (length d)"
  shows "\<exists>cl. mblen_at P d offs = Inr cl \<and> (cl = -1 \<or> 0 \<le> cl \<and> offs + cl \<le> int (length d))"
proof -
  let ?s = "take (mb_cur_max P) (drop (nat offs) d)"
  have "int (length ?s) \<le> int (length d) - offs" using assms(2,3) by auto
  moreover have "mblen P ?s = -1 \<or> 0 \<le> mblen P ?s \<and> mblen P ?s \<le> int (length ?s)"
    using assms(1) unfolding platform_ok_def by blast
  ultimately show ?thesis using assms(2,3) unfolding mblen_at_def by force
qed

lemma safe_find_start:
  assumes "platform_ok P" "d \<noteq> []"
  shows "0 \<le> bstart \<Longrightarrow> bstart \<le> int (length d)
    \<Longrightarrow> safe (find_start P d n bstart) (\<lambda>b. 0 \<le> b \<and> b \<le> int (length d))"
proof (induction n arbitrary: bstart)
  case (Suc n)
  show ?case
  proof (cases "bstart < int (to_size (int (length d) - 1))")
    case True
    moreover have "int (to_size (int (length d) - 1)) \<le> int (length d) - 1"
      using assms(2) by (intro to_size_le) (cases d; simp)
    ultimately obtain cl where "mblen_at P d bstart = Inr cl" "cl = -1 \<or> 0 \<le> cl \<and> bstart + cl \<le> int (length d)"
      using mblen_at_ok[OF assms(1) Suc.prems(1), of d] by auto
    with True Suc show ?thesis by (auto intro!: safety)
  qed (use Suc.prems in \<open>auto intro!: safety\<close>)
qed (auto intro!: safety)

lemma safe_find_end:
  assumes "platform_ok P" "0 \<le> bstart"
  shows "0 \<le> blen \<Longrightarrow> bstart + blen \<le> int (length d)
    \<Longrightarrow> safe (find_end P d bstart n blen) (\<lambda>b. 0 \<le> b \<and> bstart + b \<le> int (length d))"
proof (induction n arbitrary: blen)
  case (Suc n)
  show ?case
  proof (cases "bstart + blen < int (length d)")
    case True
    then obtain cl where "mblen_at P d (bstart + blen) = Inr cl" "cl = -1 \<or> 0 \<le> cl \<and> bstart + blen + cl \<le> int (length d)"
      using mblen_at_ok[OF assms(1), of "bstart + blen" d] assms(2) Suc.prems by auto
    with True Suc show ?thesis by (auto intro!: safety)
  qed (use Suc.prems in \<open>auto intro!: safety\<close>)
qed (auto intro!: safety)

lemma sound_substr [sound_ops]:
  assumes "platform_ok P"
  shows "sound P [RDB_STRING, RDB_INTEGER, RDB_INTEGER] RDB_STRING op_substr"
proof -
  have "safe (and_then (find_start P d (nat (sint a)) 0) (\<lambda>bstart.
       if bstart \<ge> int (to_size (int (length d) - 1)) then invalid_substr
       else and_then (find_end P d bstart (nat (sint b)) 0) (\<lambda>blen.
         if bstart + blen \<ge> int (length d) then invalid_substr
         else RDB_string_n_to_obj P r (drop (nat bstart) d) (nat blen)))) (scalar_ok RDB_STRING)"
    if "is_string d" "is_new r" for d r and a b :: i32
    using that assms
    by (intro safe_and_then[OF safe_find_start] safe_if safety(5) safe_raise safe_and_then[OF safe_find_end]
        safe_string_n_to_obj) (auto simp: is_string_def)
  then show ?thesis by (auto simp: sound_simps op_substr_def intro!: safety)
qed


lemma is_string_content: "is_string d \<Longrightarrow> length (takeWhile (\<lambda>c. c \<noteq> NUL) d) < length d"
  using takeWhile_eq_all_conv[of "\<lambda>c. c \<noteq> NUL" d] length_takeWhile_le[of "\<lambda>c. c \<noteq> NUL" d]
    takeWhile_eq_take[of "\<lambda>c. c \<noteq> NUL" d] by (auto simp: is_string_def less_le)

lemma is_string_drop: "is_string d \<Longrightarrow> n \<le> length (takeWhile (\<lambda>c. c \<noteq> NUL) d) \<Longrightarrow> is_string (drop n d)"
  by (induction d arbitrary: n) (auto simp: is_string_def drop_Cons split: if_splits nat.splits)

text \<open>The check of \<^verbatim>\<open>op_substr_b\<close> holds only for positions within the string, even if the sum wraps.\<close>

lemma wrapped_end:
  fixes pos len :: i32
  assumes "0 \<le> sint pos" "0 \<le> sint len" "to_size (sint (pos + len)) \<le> n" "n < 2 ^ 63"
  shows "nat (sint pos) + nat (sint len) \<le> n"
proof -
  have b: "sint pos < 2 ^ 31" "sint len < 2 ^ 31" using sint_lt[of pos] sint_lt[of len] by simp_all
  have s: "sint (pos + len) = to_int (sint pos + sint len)" by (simp add: to_int_def)
  show ?thesis
  proof (cases "sint pos + sint len < 2 ^ 31")
    case True
    then have "sint (pos + len) = sint pos + sint len" using assms(1,2) unfolding s by (intro to_int_id) auto
    then show ?thesis using assms True b by (simp add: to_size_id)
  next
    case False
    then have "sint (pos + len) = sint pos + sint len - 2 ^ 32" using b unfolding s by (intro to_int_above) simp_all
    moreover from this have "to_size (sint (pos + len)) = nat (sint pos + sint len - 2 ^ 32 + 2 ^ 64)"
      using False b by (simp add: to_size_neg)
    ultimately show ?thesis using assms(3,4) False by simp
  qed
qed


lemma small_pos:
  fixes pos :: i32
  shows "0 \<le> sint pos \<Longrightarrow> to_size (sint pos) \<le> n \<Longrightarrow> nat (sint pos) \<le> n"
  using sint_lt[of pos] by (simp add: to_size_id)

lemma sound_substr_b [sound_ops]:
  "sound P [RDB_STRING, RDB_INTEGER, RDB_INTEGER] RDB_STRING op_substr_b"
  "sound P [RDB_STRING, RDB_INTEGER] RDB_STRING op_substr_b_remaining"
proof -
  have "safe (RDB_string_n_to_obj P r (drop (nat (sint pos)) d) (nat (sint len))) (scalar_ok RDB_STRING)"
    if "is_string d" "is_new r" "0 \<le> sint pos" "0 \<le> sint len" "length d < 2 ^ 63"
      "to_size (sint (pos + len)) \<le> length (takeWhile (\<lambda>c. c \<noteq> NUL) d)" for d r and pos len :: i32
    using that wrapped_end[OF that(3,4,6)] is_string_content[OF that(1)] is_string_drop[OF that(1), of "nat (sint pos)"]
    by (intro safe_string_n_to_obj) (auto simp: is_string_def)
  then show "sound P [RDB_STRING, RDB_INTEGER, RDB_INTEGER] RDB_STRING op_substr_b"
    by (auto simp: sound_simps op_substr_b_def intro!: safety)
  show "sound P [RDB_STRING, RDB_INTEGER] RDB_STRING op_substr_b_remaining"
    by (auto simp: sound_simps op_substr_b_remaining_def intro!: safety)
qed

lemma sound_search [sound_ops]:
  "sound P [RDB_STRING] RDB_INTEGER op_strlen" "sound P [RDB_STRING] RDB_INTEGER op_strlen_b"
  "sound P [RDB_STRING, RDB_STRING] RDB_INTEGER op_strfind_b"
  "sound P [RDB_STRING, RDB_STRING, RDB_INTEGER] RDB_INTEGER op_strfind_b_pos"
  "sound P [RDB_STRING, RDB_STRING] RDB_BOOLEAN op_starts_with"
  "sound P [RDB_STRING, RDB_STRING] RDB_BOOLEAN op_like"
  "sound P [RDB_STRING, RDB_STRING] RDB_BOOLEAN op_regex_like"
  by (auto simp: sound_simps op_strlen_def op_strlen_b_def op_strfind_b_def op_strfind_b_pos_def op_starts_with_def
      op_like_def op_regex_like_def Let_def split: option.split intro!: safety)

lemma sound_concat [sound_ops]: "sound P [RDB_STRING, RDB_STRING] RDB_STRING op_concat"
  by (auto simp: sound_simps op_concat_def intro!: safe_and_then[OF set_len_new] safe_and_then[OF store_str_buf] store_string)

lemma safe_convert_case:
  assumes "platform_ok P" "f \<in> {towlower, towupper}" "args_ok [RDB_STRING] argv" "is_new r"
    and "\<forall>d. map val_of argv = [BinV d] \<longrightarrow> mbstowcs P (takeWhile (\<lambda>c. c \<noteq> NUL) d) \<noteq> None"
  shows "safe (convert_case f P argv r) (scalar_ok RDB_STRING)"
proof -
  obtain i d where argv: "argv = [Obj (Some RDB_STRING) i (BinV d)]" and d: "is_string d"
    using assms(3) by (auto simp: args_ok_cases scalar_ok_cases)
  let ?s = "takeWhile (\<lambda>c. c \<noteq> NUL) d"
  obtain ws where ws: "mbstowcs P ?s = Some ws" using assms(5) argv by auto
  moreover have "f P 0 = 0" using assms(1,2) by (auto simp: platform_ok_def)
  moreover have "wcstombs P (takeWhile (\<lambda>w. w \<noteq> 0) (map (f P) (ws @ [0]))) \<noteq> None"
    using assms(1,2) ws by (auto simp: platform_ok_def)
  ultimately show ?thesis
    using d assms(4) unfolding convert_case_def argv
    by (auto simp: arguments c_str_eval Let_def intro!: safe_and_then[OF safe_alloc(1)] safe_and_then[OF set_len_new] store_string)
qed

lemma sound_casts [sound_ops]:
  "sound P [RDB_FLOAT] RDB_INTEGER cast_as_integer_float" "sound P [RDB_STRING] RDB_INTEGER cast_as_integer_string"
  "sound P [RDB_INTEGER] RDB_FLOAT cast_as_float_int" "sound P [RDB_STRING] RDB_FLOAT cast_as_float_string"
  by (auto simp: sound_simps cast_as_integer_float_def cast_as_integer_string_def cast_as_float_int_def
      cast_as_float_string_def split: prod.split intro!: safety)

lemma sound_cast_as_string [sound_ops]:
  assumes "platform_ok P" "t \<in> {RDB_INTEGER, RDB_FLOAT, RDB_BINARY}"
  shows "sound P [t] RDB_STRING cast_as_string"
proof -
  have "safe (and_then (end_with (dfloat_to_str P x)) (RDB_string_to_obj P r)) (scalar_ok RDB_STRING)" if "is_new r" for x r
  proof -
    obtain s where "snprintf_float P ''%.15g'' x = Some s" using assms(1) unfolding platform_ok_def by blast
    then have "\<exists>s. dfloat_to_str P x = Inr s" unfolding dfloat_to_str_def by simp
    then obtain s where "dfloat_to_str P x = Inr s" ..
    then show ?thesis using that by (simp add: safety)
  qed
  then show ?thesis
    using assms(2) by (auto simp: sound_simps cast_as_string_def RDB_obj_to_string_def RDB_obj_int_def RDB_obj_float_def
        RDB_obj_bin_def intro!: safety safe_string_n_to_obj)
qed

lemma safe_binary_set:
  assumes "is_new r"
  shows "safe (RDB_binary_set P r 0 bs) (scalar_ok RDB_BINARY)"
proof -
  let ?buf = "\<lambda>v. \<exists>i d. v = Obj (Some RDB_BINARY) i (BinV d) \<and> length d = length bs"
  have "safe (binary_init P r (length bs)) ?buf"
    using assms by (auto simp: binary_init_def is_new_def new_block_def intro!: safe_and_then[OF safe_alloc(1)] safety)
  moreover have "safe (and_then (binary_grow P v (length bs)) (\<lambda>v'. store_at v' 0 bs)) (scalar_ok RDB_BINARY)" if "?buf v" for v
    using that by (auto simp: binary_grow_def store_at_def write_at_def RDB_obj_bin_def scalar_ok_cases intro!: safety)
  ultimately show ?thesis using assms by (auto simp: RDB_binary_set_def is_new_def intro: safe_and_then)
qed

lemma sound_cast_as_binary [sound_ops]: "sound P [RDB_STRING] RDB_BINARY cast_as_binary"
  by (auto simp: sound_simps cast_as_binary_def intro!: safety safe_binary_set)


section \<open>Formatting\<close>

lemma set_len_string:
  "scalar_ok RDB_STRING v \<Longrightarrow> safe (RDB_set_str_obj_len P v n) (str_buf n)"
  by (auto simp: RDB_set_str_obj_len_def scalar_ok_cases str_buf_def intro!: safe_and_then[OF safe_alloc(2)] safety)

lemma safe_room:
  assumes v: "scalar_ok RDB_STRING v" "val_of v = BinV d"
  shows "safe (append_room P v (length d) n) (\<lambda>w. \<exists>k. str_buf k w \<and> n \<le> k)"
proof (cases "n > length d")
  case True
  then show ?thesis
    unfolding append_room_def by (intro safe_if safe_mono[OF set_len_string[OF v(1)]]) (auto split: if_splits)
next
  case False
  with v show ?thesis by (auto simp: append_room_def scalar_ok_cases str_buf_def intro!: safety)
qed

lemma safe_append_string: "scalar_ok RDB_STRING v \<Longrightarrow> safe (RDB_append_string P v s) (scalar_ok RDB_STRING)"
proof -
  assume v: "scalar_ok RDB_STRING v"
  then obtain d where d: "val_of v = BinV d" "is_string d" by (auto simp: scalar_ok_cases)
  show ?thesis
    using d unfolding RDB_append_string_def RDB_obj_bin_def
    by (auto simp: c_str_eval Let_def intro!: safe_and_then[OF safe_room[OF v d(1)]] store_string)
qed

lemma safe_append_char: "scalar_ok RDB_STRING v \<Longrightarrow> safe (RDB_append_char P v c) (scalar_ok RDB_STRING)"
proof -
  assume v: "scalar_ok RDB_STRING v"
  then obtain d where d: "val_of v = BinV d" "is_string d" by (auto simp: scalar_ok_cases)
  have "safe (and_then (store_at w n [c]) (\<lambda>v'. store_at v' (n + 1) [NUL])) (scalar_ok RDB_STRING)"
    if "str_buf k w" "n + 2 \<le> k" for n k w
    using that store_string[where bs = "[]"] by (auto intro!: safe_and_then[OF store_str_buf])
  then show ?thesis
    using d unfolding RDB_append_char_def RDB_obj_bin_def
    by (auto simp: c_str_eval Let_def intro!: safe_and_then[OF safe_room[OF v d(1)]])
qed

lemma safe_append_chars: "scalar_ok RDB_STRING v \<Longrightarrow> safe (append_chars P v cs) (scalar_ok RDB_STRING)"
  by (induction cs arbitrary: v) (auto intro!: safety intro: safe_and_then safe_append_char)

text \<open>A value of one of the scalar types.\<close>

definition some_scalar :: "rdb_obj \<Rightarrow> bool" where
  "some_scalar v \<longleftrightarrow> (\<exists>t. scalar_ok t v)"

lemma safe_print_to: "safe (print_to n out) (\<lambda>_. True)"
  by (auto simp: print_to_def split: option.split intro!: safety safe_and_then[OF safe_alloc(2)])

lemma safe_sprintf: "some_scalar v \<Longrightarrow> safe (sprintf_obj P n fmt v) (\<lambda>_. True)"
proof -
  assume v: "some_scalar v"
  have "typ_of v = Some RDB_INTEGER \<Longrightarrow> scalar_ok RDB_INTEGER v" "typ_of v = Some RDB_STRING \<Longrightarrow> scalar_ok RDB_STRING v"
    "typ_of v = Some RDB_FLOAT \<Longrightarrow> scalar_ok RDB_FLOAT v" using v by (auto simp: some_scalar_def scalar_ok_def)
  then show ?thesis
    unfolding sprintf_obj_def Let_def RDB_obj_type_def
    by (intro safe_if safety) (auto simp: scalar_ok_cases RDB_obj_int_def RDB_obj_float_def RDB_obj_string_def RDB_obj_bin_def
        c_str_eval safe_print_to)
qed

lemma safe_format_loop:
  "scalar_ok RDB_STRING v \<Longrightarrow> \<forall>a \<in> set args. some_scalar a \<Longrightarrow> safe (format_loop P args pos n v) (scalar_ok RDB_STRING)"
proof (induction P args pos n v rule: format_loop.induct)
  case (1 P args pos n v)
  show ?case
    by (subst format_loop.simps)
      (use 1 in \<open>auto simp: Let_def simp del: append_chars.simps split: list.split intro!: safety safe_append_string safe_and_then[OF safe_sprintf]
        safe_and_then[OF safe_append_chars] safe_and_then[OF safe_append_string] safe_and_then[OF safe_alloc(1)]\<close>)
qed

lemma safe_format:
  assumes "\<forall>a \<in> set argv. some_scalar a" "is_new r"
  shows "safe (op_format P argv r) (scalar_ok RDB_STRING)"
proof (cases argv)
  case (Cons a args)
  have "typ_of a = Some RDB_STRING \<Longrightarrow> scalar_ok RDB_STRING a" using assms Cons by (auto simp: some_scalar_def scalar_ok_def)
  then show ?thesis
    using assms Cons unfolding op_format_def RDB_obj_type_def
    by (auto simp: Let_def scalar_ok_cases(4) RDB_obj_string_def RDB_obj_bin_def c_str_eval
        intro!: safe_and_then[OF safe_alloc(1)] safety safe_and_then[OF safe_string_n_to_obj] safe_format_loop)
qed (auto simp: op_format_def intro!: safe_and_then[OF safe_alloc(1)] safety)

end
