(* ===== verification/Op_Map.thy ===== *)
theory Op_Map
  imports Objects Hashmap
begin

text \<open>
  Operators and the operator map of \<^verbatim>\<open>obj/operator.c\<close> and \<^verbatim>\<open>obj/opmap.c\<close>: operators of the same
  name are kept in a chain, and a call is resolved by the types of its arguments.
\<close>

section \<open>Operators\<close>

text \<open>
  The function of an operator is a parameter \<open>'f\<close>; \<open>None\<close> is the null pointer.  The handle of
  the module, the data of the user and the clean-up function are left out.
\<close>

record rdb_parameter =
  ptyp :: "rdb_type option"
  update :: bool

record 'f rdb_operator =
  op_name :: string
  rtyp :: "rdb_type option"
  version :: "string option"
  source :: rdb_obj
  paramc :: int
  paramv :: "rdb_parameter list"
  opfn :: "'f option"
  cretime :: rdb_obj

definition RDB_VAR_PARAMS :: int where "RDB_VAR_PARAMS = -1"

definition RDB_operator_name :: "'f rdb_operator \<Rightarrow> string" where
  "RDB_operator_name op = op_name op"

definition RDB_operator_param_count :: "'f rdb_operator \<Rightarrow> int" where
  "RDB_operator_param_count op = paramc op"

definition RDB_operator_type :: "'f rdb_operator \<Rightarrow> rdb_type option" where
  "RDB_operator_type op = rtyp op"

definition RDB_return_type :: "'f rdb_operator \<Rightarrow> rdb_type option" where
  "RDB_return_type op = rtyp op"

text \<open>A negative index is not checked.\<close>

definition RDB_get_parameter :: "'f rdb_operator \<Rightarrow> int \<Rightarrow> rdb_parameter option result" where
  "RDB_get_parameter op idx =
     (if idx \<ge> paramc op then Inr None
      else if idx < 0 \<or> nat idx \<ge> length (paramv op) then Inl Segfault
      else Inr (Some (paramv op ! nat idx)))"

definition RDB_operator_source :: "'f rdb_operator \<Rightarrow> string option result" where
  "RDB_operator_source op =
     rbind (RDB_obj_string (source op)) (\<lambda>s. Inr (if s = [] then None else Some s))"

definition RDB_operator_creation_time :: "'f rdb_operator \<Rightarrow> rdb_obj" where
  "RDB_operator_creation_time op = cretime op"

definition RDB_operator_is_implemented :: "'f rdb_operator \<Rightarrow> bool" where
  "RDB_operator_is_implemented op \<longleftrightarrow> opfn op \<noteq> None"

text \<open>
  The copies of the parameters' types.  The clean-up after a failed copy of the name reads
  the pointer to the parameters, which has not been set.
\<close>

definition copy_param :: "rdb_type option \<Rightarrow> rdb_parameter action" where
  "copy_param t =
     (case t of None \<Rightarrow> done_with \<lparr>ptyp = None, update = False\<rparr>
      | Some t' \<Rightarrow> and_then (RDB_dup_nonscalar_type t') (\<lambda>t''. done_with \<lparr>ptyp = Some t'', update = False\<rparr>))"

definition RDB_new_op_data ::
  "string \<Rightarrow> string option \<Rightarrow> int \<Rightarrow> rdb_type option list \<Rightarrow> rdb_type option \<Rightarrow> 'f rdb_operator action" where
  "RDB_new_op_data name vers argc paramtv rt =
     and_then RDB_alloc (\<lambda>_.
     and_then (unsound_cleanup True (dup_name name)) (\<lambda>name'.
     and_then (case vers of None \<Rightarrow> done_with None
               | Some v \<Rightarrow> and_then (unsound_cleanup True (dup_name v)) (\<lambda>v'. done_with (Some v'))) (\<lambda>vers'.
     and_then (if argc > 0
               then and_then RDB_alloc (\<lambda>_.
                 if nat argc > length paramtv then end_with (Inl Segfault) else each copy_param (take (nat argc) paramtv))
               else done_with []) (\<lambda>params.
     done_with \<lparr>op_name = name', rtyp = rt, version = vers', source = RDB_init_obj, paramc = argc, paramv = params,
       opfn = None, cretime = RDB_init_obj\<rparr>))))"

section \<open>The map\<close>

text \<open>
  The chain of operators with the same name is a list.  Adding to a chain that is not empty
  changes the chain in place; in the model the map gets the changed chain at the same key,
  for which \<^verbatim>\<open>RDB_hashmap_put\<close> allocates nothing.
\<close>

record 'f op_map =
  op_entries :: "'f rdb_operator list hashmap"

definition RDB_init_op_map :: "'f op_map" where
  "RDB_init_op_map = \<lparr>op_entries = RDB_init_hashmap 256\<rparr>"

definition chain :: "'f op_map \<Rightarrow> string \<Rightarrow> 'f rdb_operator list" where
  "chain opmap name = (case RDB_hashmap_get (op_entries opmap) name of None \<Rightarrow> [] | Some ops \<Rightarrow> ops)"

definition set_chain :: "'f op_map \<Rightarrow> string \<Rightarrow> 'f rdb_operator list \<Rightarrow> mem \<Rightarrow> unit result \<times> 'f op_map \<times> mem" where
  "set_chain opmap name ops m =
     (case RDB_hashmap_put (op_entries opmap) name (if ops = [] then None else Some ops) m of
        None \<Rightarrow> (Inl Diverges, opmap, m)
      | Some (ret, hm, m') \<Rightarrow>
          (if ret = RDB_OK then Inr () else if ret = ENOMEM then NO_MEM else raise_err SYSTEM_ERROR '''',
           opmap\<lparr>op_entries := hm\<rparr>, m'))"

text \<open>A new operator is put behind the first one of its name.\<close>

definition RDB_put_op :: "'f op_map \<Rightarrow> 'f rdb_operator \<Rightarrow> mem \<Rightarrow> unit result \<times> 'f op_map \<times> mem" where
  "RDB_put_op opmap op m =
     (case RDB_alloc m of
        (Inl e, m1) \<Rightarrow> (Inl e, opmap, m1)
      | (Inr _, m1) \<Rightarrow>
          (case chain opmap (RDB_operator_name op) of
             [] \<Rightarrow> set_chain opmap (RDB_operator_name op) [op] m1
           | first # rest \<Rightarrow> set_chain opmap (RDB_operator_name op) (first # op # rest) m1))"

definition RDB_put_ro_op ::
  "'f op_map \<Rightarrow> string \<Rightarrow> int \<Rightarrow> rdb_type option list \<Rightarrow> rdb_type option \<Rightarrow> 'f \<Rightarrow> mem \<Rightarrow> unit result \<times> 'f op_map \<times> mem" where
  "RDB_put_ro_op opmap name argc argtv rt fp m =
     (case RDB_new_op_data name None argc argtv rt m of
        (Inl e, m1) \<Rightarrow> (Inl e, opmap, m1)
      | (Inr op, m1) \<Rightarrow> RDB_put_op opmap (op\<lparr>opfn := Some fp\<rparr>) m1)"

text \<open>
  The parameters of an update operator are copied with \<^verbatim>\<open>RDB_dup_nonscalar_type\<close>, which
  follows the pointer to the type.
\<close>

definition copy_upd_param :: "rdb_parameter \<Rightarrow> rdb_parameter action" where
  "copy_upd_param p =
     (case ptyp p of None \<Rightarrow> end_with (Inl Segfault)
      | Some t \<Rightarrow> and_then (RDB_dup_nonscalar_type t) (\<lambda>t'. done_with \<lparr>ptyp = Some t', update = update p\<rparr>))"

definition RDB_new_upd_op :: "string \<Rightarrow> rdb_parameter list \<Rightarrow> 'f option \<Rightarrow> 'f rdb_operator action" where
  "RDB_new_upd_op name params fp =
     and_then (RDB_new_op_data name None 0 [] None) (\<lambda>op.
     and_then (if length params > 0 then and_then RDB_alloc (\<lambda>_. each copy_upd_param params) else done_with []) (\<lambda>params'.
     done_with (op\<lparr>paramc := int (length params), paramv := params', opfn := fp\<rparr>)))"

definition RDB_put_upd_op ::
  "'f op_map \<Rightarrow> string \<Rightarrow> rdb_parameter list \<Rightarrow> 'f option \<Rightarrow> mem \<Rightarrow> unit result \<times> 'f op_map \<times> mem" where
  "RDB_put_upd_op opmap name params fp m =
     (case RDB_new_upd_op name params fp m of
        (Inl e, m1) \<Rightarrow> (Inl e, opmap, m1)
      | (Inr op, m1) \<Rightarrow> RDB_put_op opmap op m1)"

text \<open>
  The search for an operator that accepts the arguments.  It also tells if an operator with
  their number was seen.
\<close>

fun find_op :: "('f rdb_operator \<Rightarrow> bool) \<Rightarrow> ('f rdb_operator \<Rightarrow> bool result) \<Rightarrow> bool \<Rightarrow> 'f rdb_operator list
    \<Rightarrow> ('f rdb_operator option \<times> bool) result" where
  "find_op cand accepts argc_match [] = Inr (None, argc_match)"
| "find_op cand accepts argc_match (op # ops) =
     (if cand op then rbind (accepts op) (\<lambda>b. if b then Inr (Some op, argc_match) else find_op cand accepts True ops)
      else find_op cand accepts argc_match ops)"

definition is_variadic :: "'f rdb_operator \<Rightarrow> bool" where
  "is_variadic op \<longleftrightarrow> RDB_operator_param_count op = RDB_VAR_PARAMS"

text \<open>What the two look-up functions share: the candidates, then a generic operator, then the errors.\<close>

definition resolve :: "('f rdb_operator \<Rightarrow> bool) \<Rightarrow> ('f rdb_operator \<Rightarrow> bool result) \<Rightarrow> 'f op_map \<Rightarrow> string \<Rightarrow> 'f rdb_operator action" where
  "resolve cand accepts opmap name =
     (case chain opmap name of
        [] \<Rightarrow> raise_error OPERATOR_NOT_FOUND_ERROR name
      | ops \<Rightarrow>
          and_then (end_with (find_op cand accepts False ops)) (\<lambda>(found, argc_match).
            case found of Some op \<Rightarrow> done_with op
            | None \<Rightarrow>
                (case List.find is_variadic ops of Some op \<Rightarrow> done_with op
                 | None \<Rightarrow> raise_error (if argc_match then TYPE_MISMATCH_ERROR else OPERATOR_NOT_FOUND_ERROR) name)))"

definition accepts_types :: "(rdb_type \<Rightarrow> rdb_type \<Rightarrow> bool) \<Rightarrow> rdb_type option list \<Rightarrow> 'f rdb_operator \<Rightarrow> bool result" where
  "accepts_types same argtv op =
     forall_r (\<lambda>(p, a). case ptyp p of None \<Rightarrow> Inr True
       | Some t \<Rightarrow> (case a of None \<Rightarrow> Inr True | Some u \<Rightarrow> RDB_type_matches same u t)) (zip (paramv op) argtv)"

definition RDB_get_op :: "(rdb_type \<Rightarrow> rdb_type \<Rightarrow> bool) \<Rightarrow> 'f op_map \<Rightarrow> string \<Rightarrow> rdb_type option list \<Rightarrow> 'f rdb_operator action" where
  "RDB_get_op same opmap name argtv =
     resolve (\<lambda>op. RDB_operator_param_count op = int (length argtv)) (accepts_types same argtv) opmap name"

text \<open>Removing the comparison operator of a type: the first with two parameters, the first of this type.\<close>

fun without_cmp :: "rdb_type \<Rightarrow> 'f rdb_operator list \<Rightarrow> 'f rdb_operator list option result" where
  "without_cmp typ [] = Inr None"
| "without_cmp typ (op # ops) =
     (if RDB_operator_param_count op = 2
      then case paramv op of
          [] \<Rightarrow> Inl Segfault
        | p # ps \<Rightarrow> if ptyp p = Some typ then Inr (Some ops)
                    else rbind (without_cmp typ ops) (\<lambda>r. Inr (map_option (\<lambda>ops'. op # ops') r))
      else rbind (without_cmp typ ops) (\<lambda>r. Inr (map_option (\<lambda>ops'. op # ops') r)))"

definition RDB_del_cmp_op :: "'f op_map \<Rightarrow> string \<Rightarrow> rdb_type \<Rightarrow> mem \<Rightarrow> unit result \<times> 'f op_map \<times> mem" where
  "RDB_del_cmp_op opmap name typ m =
     (case without_cmp typ (chain opmap name) of
        Inl e \<Rightarrow> (Inl e, opmap, m)
      | Inr None \<Rightarrow> (Inr (), opmap, m)
      | Inr (Some ops) \<Rightarrow> set_chain opmap name ops m)"

definition RDB_del_ops :: "'f op_map \<Rightarrow> string \<Rightarrow> mem \<Rightarrow> unit result \<times> 'f op_map \<times> mem" where
  "RDB_del_ops opmap name m =
     (if chain opmap name = [] then (Inr (), opmap, m) else set_chain opmap name [] m)"

section \<open>The map as a function from names to chains\<close>

definition op_map_inv :: "'f op_map \<Rightarrow> bool" where
  "op_map_inv opmap \<longleftrightarrow> hashmap_inv (op_entries opmap)"

lemma op_map_init: "op_map_inv RDB_init_op_map" "chain RDB_init_op_map name = []"
  by (simp_all add: op_map_inv_def RDB_init_op_map_def hashmap_inv_init chain_def hashmap_get_abs)

text \<open>Setting a chain changes this name only, or memory is short.\<close>

lemma set_chain_result:
  assumes "op_map_inv opmap" "set_chain opmap name ops m = (r, opmap', m')"
  shows "r = Inr () \<and> op_map_inv opmap' \<and> chain opmap' = (chain opmap)(name := ops) \<or> r = NO_MEM \<and> fails m \<noteq> []"
proof -
  have "hashmap_inv (op_entries opmap)" using assms(1) by (simp add: op_map_inv_def)
  from hashmap_put_cases[OF this, of name "if ops = [] then None else Some ops" m] show ?thesis
  proof (elim disjE exE conjE)
    fix hm k
    assume "RDB_hashmap_put (op_entries opmap) name (if ops = [] then None else Some ops) m = Some (RDB_OK, hm, k)"
      and "hashmap_inv hm" "hashmap_abs hm = (hashmap_abs (op_entries opmap))(name \<mapsto> if ops = [] then None else Some ops)"
    then show ?thesis
      using assms(2) by (auto simp: op_map_inv_def set_chain_def chain_def hashmap_get_abs fun_eq_iff)
  next
    fix hm k
    assume "RDB_hashmap_put (op_entries opmap) name (if ops = [] then None else Some ops) m = Some (ENOMEM, hm, k)" "fails m \<noteq> []"
    then show ?thesis using assms(2) by (auto simp: set_chain_def)
  qed
qed

lemma put_op_result:
  assumes "op_map_inv opmap" "RDB_put_op opmap op m = (r, opmap', m')"
  shows "r = Inr () \<and> op_map_inv opmap'
      \<and> (\<forall>name. set (chain opmap' name) = (if name = op_name op then {op} else {}) \<union> set (chain opmap name))
    \<or> r = NO_MEM \<and> fails m \<noteq> []"
proof (cases "RDB_alloc m")
  case (Pair x m1)
  have le: "mem_le m m1" "x = NO_MEM \<longrightarrow> fails m \<noteq> []" "\<And>e. x = Inl e \<Longrightarrow> x = NO_MEM"
    using Pair malloc_mem_le[of m] malloc_None_fails[of m] by (auto simp: RDB_alloc_def split: prod.splits option.splits)
  show ?thesis
  proof (cases x)
    case (Inl e)
    then show ?thesis using Pair le(2,3) assms(2) by (auto simp: RDB_put_op_def)
  next
    case (Inr a)
    define ops where "ops = (case chain opmap (op_name op) of [] \<Rightarrow> [op] | first # rest \<Rightarrow> first # op # rest)"
    have "set_chain opmap (op_name op) ops m1 = (r, opmap', m')"
      using assms(2) Pair Inr by (simp add: RDB_put_op_def RDB_operator_name_def ops_def split: list.splits)
    from set_chain_result[OF assms(1) this] show ?thesis
    proof (elim disjE conjE)
      assume "r = Inr ()" "op_map_inv opmap'" "chain opmap' = (chain opmap)(op_name op := ops)"
      moreover have "set ops = insert op (set (chain opmap (op_name op)))" by (auto simp: ops_def split: list.splits)
      ultimately show ?thesis by simp
    next
      assume "r = NO_MEM" "fails m1 \<noteq> []"
      then show ?thesis using mem_le_fails[OF le(1)] by simp
    qed
  qed
qed

lemma put_op_fails: "RDB_put_op opmap op m = (r, opmap', m') \<Longrightarrow> fails m = [] \<Longrightarrow> fails m' = []"
  by (auto simp: RDB_put_op_def set_chain_def RDB_alloc_def malloc_ok split: option.splits prod.splits list.splits
      dest!: hashmap_put_fails)

end
