(* ===== verification/Builtin_Ops.thy ===== *)
theory Builtin_Ops
  imports Op_Soundness Op_Map Subtypes
begin

text \<open>
  The operators that \<^verbatim>\<open>RDB_add_builtin_scalar_ro_ops\<close> registers, in its order, and the calls of
  operators that are found in the resulting map.
\<close>

section \<open>Registration\<close>

text \<open>An entry has the name, the number of parameters, their types, the type of the result and the function.\<close>

type_synonym op_entry = "string \<times> int \<times> rdb_type list \<times> rdb_type \<times> ro_op_func"

definition conversion_ops :: "op_entry list" where
  "conversion_ops =
   [(''cast_as_integer'', 1, [RDB_FLOAT], RDB_INTEGER, cast_as_integer_float),
    (''cast_as_int'', 1, [RDB_FLOAT], RDB_INTEGER, cast_as_integer_float),
    (''cast_as_integer'', 1, [RDB_STRING], RDB_INTEGER, cast_as_integer_string),
    (''cast_as_int'', 1, [RDB_STRING], RDB_INTEGER, cast_as_integer_string),
    (''cast_as_float'', 1, [RDB_INTEGER], RDB_FLOAT, cast_as_float_int),
    (''cast_as_rat'', 1, [RDB_INTEGER], RDB_FLOAT, cast_as_float_int),
    (''cast_as_rational'', 1, [RDB_INTEGER], RDB_FLOAT, cast_as_float_int),
    (''cast_as_float'', 1, [RDB_STRING], RDB_FLOAT, cast_as_float_string),
    (''cast_as_rational'', 1, [RDB_STRING], RDB_FLOAT, cast_as_float_string),
    (''cast_as_rat'', 1, [RDB_STRING], RDB_FLOAT, cast_as_float_string),
    (''cast_as_string'', 1, [RDB_INTEGER], RDB_STRING, cast_as_string),
    (''cast_as_char'', 1, [RDB_INTEGER], RDB_STRING, cast_as_string),
    (''cast_as_string'', 1, [RDB_FLOAT], RDB_STRING, cast_as_string),
    (''cast_as_char'', 1, [RDB_FLOAT], RDB_STRING, cast_as_string),
    (''cast_as_string'', 1, [RDB_BINARY], RDB_STRING, cast_as_string),
    (''cast_as_char'', 1, [RDB_BINARY], RDB_STRING, cast_as_string),
    (''cast_as_binary'', 1, [RDB_STRING], RDB_BINARY, cast_as_binary)]"

definition string_ops :: "op_entry list" where
  "string_ops =
   [(''strlen'', 1, [RDB_STRING], RDB_INTEGER, op_strlen),
    (''strlen_b'', 1, [RDB_STRING], RDB_INTEGER, op_strlen_b),
    (''substr'', 3, [RDB_STRING, RDB_INTEGER, RDB_INTEGER], RDB_STRING, op_substr),
    (''substr_b'', 3, [RDB_STRING, RDB_INTEGER, RDB_INTEGER], RDB_STRING, op_substr_b),
    (''substr_b'', 2, [RDB_STRING, RDB_INTEGER], RDB_STRING, op_substr_b_remaining),
    (''strfind_b'', 2, [RDB_STRING, RDB_STRING], RDB_INTEGER, op_strfind_b),
    (''strfind_b'', 3, [RDB_STRING, RDB_STRING, RDB_INTEGER], RDB_INTEGER, op_strfind_b_pos),
    (''||'', 2, [RDB_STRING, RDB_STRING], RDB_STRING, op_concat),
    (''lower'', 1, [RDB_STRING], RDB_STRING, op_lower),
    (''upper'', 1, [RDB_STRING], RDB_STRING, op_upper),
    (''starts_with'', 2, [RDB_STRING, RDB_STRING], RDB_BOOLEAN, op_starts_with),
    (''like'', 2, [RDB_STRING, RDB_STRING], RDB_BOOLEAN, op_like),
    (''regex_like'', 2, [RDB_STRING, RDB_STRING], RDB_BOOLEAN, op_regex_like),
    (''format'', -1, [], RDB_STRING, op_format)]"

definition logic_ops :: "op_entry list" where
  "logic_ops =
   [(''and'', 2, [RDB_BOOLEAN, RDB_BOOLEAN], RDB_BOOLEAN, and_op),
    (''or'', 2, [RDB_BOOLEAN, RDB_BOOLEAN], RDB_BOOLEAN, or_op),
    (''xor'', 2, [RDB_BOOLEAN, RDB_BOOLEAN], RDB_BOOLEAN, xor_op),
    (''not'', 1, [RDB_BOOLEAN], RDB_BOOLEAN, not_op)]"

definition comparison_ops :: "op_entry list" where
  "comparison_ops =
   [(''<'', 2, [RDB_INTEGER, RDB_INTEGER], RDB_BOOLEAN, lt),
    (''<'', 2, [RDB_FLOAT, RDB_FLOAT], RDB_BOOLEAN, lt),
    (''<'', 2, [RDB_FLOAT, RDB_FLOAT], RDB_BOOLEAN, lt),
    (''<'', 2, [RDB_STRING, RDB_STRING], RDB_BOOLEAN, lt),
    (''<'', 2, [RDB_DATETIME, RDB_DATETIME], RDB_BOOLEAN, lt),
    (''<='', 2, [RDB_INTEGER, RDB_INTEGER], RDB_BOOLEAN, let_op),
    (''<='', 2, [RDB_FLOAT, RDB_FLOAT], RDB_BOOLEAN, let_op),
    (''<='', 2, [RDB_FLOAT, RDB_FLOAT], RDB_BOOLEAN, let_op),
    (''<='', 2, [RDB_STRING, RDB_STRING], RDB_BOOLEAN, let_op),
    (''<='', 2, [RDB_DATETIME, RDB_DATETIME], RDB_BOOLEAN, let_op),
    (''>'', 2, [RDB_INTEGER, RDB_INTEGER], RDB_BOOLEAN, gt),
    (''>'', 2, [RDB_FLOAT, RDB_FLOAT], RDB_BOOLEAN, gt),
    (''>'', 2, [RDB_FLOAT, RDB_FLOAT], RDB_BOOLEAN, gt),
    (''>'', 2, [RDB_STRING, RDB_STRING], RDB_BOOLEAN, gt),
    (''>'', 2, [RDB_DATETIME, RDB_DATETIME], RDB_BOOLEAN, gt),
    (''>='', 2, [RDB_INTEGER, RDB_INTEGER], RDB_BOOLEAN, get),
    (''>='', 2, [RDB_FLOAT, RDB_FLOAT], RDB_BOOLEAN, get),
    (''>='', 2, [RDB_FLOAT, RDB_FLOAT], RDB_BOOLEAN, get),
    (''>='', 2, [RDB_STRING, RDB_STRING], RDB_BOOLEAN, get),
    (''>='', 2, [RDB_DATETIME, RDB_DATETIME], RDB_BOOLEAN, get)]"

definition equality_ops :: "op_entry list" where
  "equality_ops =
   [(''='', 2, [RDB_BOOLEAN, RDB_BOOLEAN], RDB_BOOLEAN, RDB_eq_bool),
    (''='', 2, [RDB_BINARY, RDB_BINARY], RDB_BOOLEAN, RDB_eq_binary),
    (''<>'', 2, [RDB_BOOLEAN, RDB_BOOLEAN], RDB_BOOLEAN, neq_bool),
    (''<>'', 2, [RDB_BINARY, RDB_BINARY], RDB_BOOLEAN, neq_binary)]"

definition arithmetic_ops :: "op_entry list" where
  "arithmetic_ops =
   [(''-'', 1, [RDB_INTEGER], RDB_INTEGER, negate_int),
    (''-'', 1, [RDB_FLOAT], RDB_FLOAT, negate_float),
    (''+'', 2, [RDB_INTEGER, RDB_INTEGER], RDB_INTEGER, add_int),
    (''+'', 2, [RDB_FLOAT, RDB_FLOAT], RDB_FLOAT, add_float),
    (''-'', 2, [RDB_INTEGER, RDB_INTEGER], RDB_INTEGER, subtract_int),
    (''-'', 2, [RDB_FLOAT, RDB_FLOAT], RDB_FLOAT, subtract_float),
    (''*'', 2, [RDB_INTEGER, RDB_INTEGER], RDB_INTEGER, multiply_int),
    (''*'', 2, [RDB_FLOAT, RDB_FLOAT], RDB_FLOAT, multiply_float),
    (''/'', 2, [RDB_INTEGER, RDB_INTEGER], RDB_INTEGER, divide_int),
    (''%'', 2, [RDB_INTEGER, RDB_INTEGER], RDB_INTEGER, modulo),
    (''abs'', 1, [RDB_INTEGER], RDB_INTEGER, abs_int)]"

definition float_ops :: "op_entry list" where
  "float_ops =
   [(''/'', 2, [RDB_FLOAT, RDB_FLOAT], RDB_FLOAT, divide_float),
    (''abs'', 1, [RDB_FLOAT], RDB_FLOAT, abs_float),
    (''sqrt'', 1, [RDB_FLOAT], RDB_FLOAT, math_sqrt),
    (''sin'', 1, [RDB_FLOAT], RDB_FLOAT, math_sin),
    (''cos'', 1, [RDB_FLOAT], RDB_FLOAT, math_cos),
    (''atan'', 1, [RDB_FLOAT], RDB_FLOAT, math_atan),
    (''atan2'', 2, [RDB_FLOAT, RDB_FLOAT], RDB_FLOAT, math_atan2),
    (''power'', 2, [RDB_FLOAT, RDB_FLOAT], RDB_FLOAT, math_power),
    (''exp'', 1, [RDB_FLOAT], RDB_FLOAT, math_exp),
    (''ln'', 1, [RDB_FLOAT], RDB_FLOAT, math_ln),
    (''log'', 1, [RDB_FLOAT], RDB_FLOAT, math_log)]"

definition builtin_scalar_ops :: "op_entry list" where
  "builtin_scalar_ops =
     conversion_ops @ string_ops @ logic_ops @ comparison_ops @ equality_ops @ arithmetic_ops @ float_ops"

fun add_ops :: "ro_op_func op_map \<Rightarrow> op_entry list \<Rightarrow> mem \<Rightarrow> unit result \<times> ro_op_func op_map \<times> mem" where
  "add_ops opmap [] m = (Inr (), opmap, m)"
| "add_ops opmap ((name, argc, ts, rt, f) # es) m =
     (case RDB_put_ro_op opmap name argc (map Some ts) (Some rt) f m of
        (Inl e, opmap', m') \<Rightarrow> (Inl e, opmap', m')
      | (Inr _, opmap', m') \<Rightarrow> add_ops opmap' es m')"

definition RDB_add_builtin_scalar_ro_ops :: "ro_op_func op_map \<Rightarrow> mem \<Rightarrow> unit result \<times> ro_op_func op_map \<times> mem" where
  "RDB_add_builtin_scalar_ro_ops opmap m = add_ops opmap builtin_scalar_ops m"

section \<open>What the map holds\<close>

text \<open>The operator that is made from an entry.\<close>

definition op_of :: "op_entry \<Rightarrow> ro_op_func rdb_operator" where
  "op_of e = (case e of (name, argc, ts, rt, f) \<Rightarrow>
     \<lparr>op_name = name, rtyp = Some rt, version = None, source = RDB_init_obj, paramc = argc,
      paramv = (if argc > 0 then map (\<lambda>t. \<lparr>ptyp = Some t, update = False\<rparr>) ts else []), opfn = Some f, cretime = RDB_init_obj\<rparr>)"

definition builtin_types :: "rdb_type set" where
  "builtin_types = {RDB_BOOLEAN, RDB_INTEGER, RDB_FLOAT, RDB_STRING, RDB_BINARY, RDB_DATETIME}"

definition entry_wf :: "op_entry \<Rightarrow> bool" where
  "entry_wf e \<longleftrightarrow> (case e of (name, argc, ts, rt, f) \<Rightarrow>
     set ts \<subseteq> builtin_types \<and> (argc = int (length ts) \<and> 0 < argc \<or> argc = -1 \<and> ts = []))"

lemma builtin_entries_wf: "list_all entry_wf builtin_scalar_ops"
  by (simp add: builtin_scalar_ops_def conversion_ops_def string_ops_def logic_ops_def comparison_ops_def equality_ops_def
      arithmetic_ops_def float_ops_def entry_wf_def builtin_types_def)

lemma builtin_dup: "t \<in> builtin_types \<Longrightarrow> RDB_dup_nonscalar_type t = done_with t"
  by (auto simp: builtin_types_def builtin_type_defs)

lemma new_op_computes:
  assumes "entry_wf (name, argc, ts, rt, f)"
  shows "computes {Segfault} (RDB_new_op_data name None argc (map Some ts) (Some rt))
    (Inr ((op_of (name, argc, ts, rt, f))\<lparr>opfn := None\<rparr>))"
proof -
  have "computes {Segfault} (copy_param t) (Inr \<lparr>ptyp = t, update = False\<rparr>)" if "t \<in> set (map Some ts)" for t
    using that assms by (auto simp: copy_param_def entry_wf_def builtin_dup subset_iff and_then_def done_with_def[abs_def]
        computes_def)
  then have "computes {Segfault} (each copy_param (map Some ts)) (Inr (map (\<lambda>t. \<lparr>ptyp = t, update = False\<rparr>) (map Some ts)))"
    by (rule computes_each_map)
  then have copies: "computes {Segfault} (each copy_param (map Some ts)) (Inr (map (\<lambda>t. \<lparr>ptyp = Some t, update = False\<rparr>) ts))"
    by (simp add: comp_def)
  show ?thesis
    using assms unfolding RDB_new_op_data_def op_of_def entry_wf_def by (auto intro!: copies computing)
qed

text \<open>One registration: it adds the operator of the entry, or memory is short.\<close>

lemma put_entry_op:
  assumes wf: "entry_wf (name, argc, ts, rt, f)" and inv: "op_map_inv opmap"
    and run: "RDB_put_ro_op opmap name argc (map Some ts) (Some rt) f m = (r, opmap', m')"
  shows "r = Inr () \<and> op_map_inv opmap' \<and> (fails m = [] \<longrightarrow> fails m' = [])
      \<and> (\<forall>n. set (chain opmap' n) = (if n = name then {op_of (name, argc, ts, rt, f)} else {}) \<union> set (chain opmap n))
    \<or> r \<noteq> Inr () \<and> fails m \<noteq> []"
proof -
  obtain x m1 where new: "RDB_new_op_data name None argc (map Some ts) (Some rt) m
      = ((x :: ro_op_func rdb_operator result), m1)" by fastforce
  note nr = computesD[OF new_op_computes[OF wf] new]
  show ?thesis
  proof (cases x)
    case (Inl a)
    then show ?thesis using nr new run by (auto simp: RDB_put_ro_op_def)
  next
    case (Inr op)
    let ?op = "op_of (name, argc, ts, rt, f)"
    have "?op\<lparr>opfn := Some f\<rparr> = ?op" "op_name ?op = name" by (simp_all add: op_of_def)
    moreover from this have put: "RDB_put_op opmap ?op m1 = (r, opmap', m')"
      using nr(2) Inr new run by (auto simp: RDB_put_ro_op_def)
    ultimately show ?thesis
      using put_op_result[OF inv put] put_op_fails[OF put] nr(1) by (auto simp: mem_le_def)
  qed
qed

lemma add_ops_chain:
  "list_all entry_wf es \<Longrightarrow> op_map_inv opmap \<Longrightarrow> add_ops opmap es m = (r, opmap', m')
    \<Longrightarrow> r = Inr () \<and> op_map_inv opmap'
        \<and> (\<forall>name. set (chain opmap' name) = {op_of e | e. e \<in> set es \<and> fst e = name} \<union> set (chain opmap name))
      \<or> r \<noteq> Inr () \<and> fails m \<noteq> []"
proof (induction es arbitrary: opmap m)
  case (Cons e es)
  obtain name argc ts rt f where e: "e = (name, argc, ts, rt, f)" by (cases e)
  obtain y om1 m1 where put: "RDB_put_ro_op opmap name argc (map Some ts) (Some rt) f m = (y, om1, m1)"
    by (metis prod_cases3)
  have wf: "entry_wf (name, argc, ts, rt, f)" "list_all entry_wf es" using Cons.prems(1) e by simp_all
  from put_entry_op[OF wf(1) Cons.prems(2) put] show ?case
  proof (elim disjE conjE)
    assume y: "y = Inr ()" "op_map_inv om1" "fails m = [] \<longrightarrow> fails m1 = []"
      "\<forall>n. set (chain om1 n) = (if n = name then {op_of (name, argc, ts, rt, f)} else {}) \<union> set (chain opmap n)"
    have "add_ops om1 es m1 = (r, opmap', m')" using Cons.prems(3) put y(1) e by simp
    from Cons.IH[OF wf(2) y(2) this] show ?thesis using y(3) unfolding y(4)[rule_format] e by (elim disjE conjE) (simp_all, blast)
  next
    assume "y \<noteq> Inr ()" "fails m \<noteq> []"
    then show ?thesis using Cons.prems(3) put e by (auto split: sum.splits)
  qed
qed simp

lemma builtin_chain:
  assumes "RDB_add_builtin_scalar_ro_ops RDB_init_op_map m = (r, opmap, m')"
  shows "r = Inr () \<and> op_map_inv opmap \<and> (\<forall>name. set (chain opmap name) = {op_of e | e. e \<in> set builtin_scalar_ops \<and> fst e = name})
    \<or> r \<noteq> Inr () \<and> fails m \<noteq> []"
  using add_ops_chain[OF builtin_entries_wf op_map_init(1), of m r opmap m'] assms
  by (auto simp: RDB_add_builtin_scalar_ro_ops_def op_map_init(2))

section \<open>Finding an operator\<close>

lemma find_op_found:
  "find_op cand accepts b ops = Inr (Some op, c) \<Longrightarrow> op \<in> set ops \<and> cand op \<and> accepts op = Inr True"
proof (induction cand accepts b ops rule: find_op.induct)
  case (2 cand accepts b op' ops)
  then show ?case by (cases "accepts op'") (auto split: if_splits)
qed simp

lemma get_op_found:
  assumes "fst (RDB_get_op same opmap name argtv m) = Inr op"
  shows "op \<in> set (chain opmap name)
    \<and> (is_variadic op \<or> paramc op = int (length argtv) \<and> accepts_types same argtv op = Inr True)"
proof (cases "chain opmap name")
  case Nil
  then show ?thesis using assms
    by (auto simp: RDB_get_op_def resolve_def raise_error_def split: prod.splits option.splits)
next
  case (Cons first rest)
  let ?f = "find_op (\<lambda>op. RDB_operator_param_count op = int (length argtv)) (accepts_types same argtv) False (first # rest)"
  have eq: "RDB_get_op same opmap name argtv =
      and_then (end_with ?f) (\<lambda>(found, argc_match). case found of Some op \<Rightarrow> done_with op
        | None \<Rightarrow> (case List.find is_variadic (first # rest) of Some op \<Rightarrow> done_with op
          | None \<Rightarrow> raise_error (if argc_match then TYPE_MISMATCH_ERROR else OPERATOR_NOT_FOUND_ERROR) name))"
    by (simp only: RDB_get_op_def resolve_def Cons list.case)
  show ?thesis
  proof (cases ?f)
    case (Inl e)
    then show ?thesis using assms unfolding eq by (simp add: and_then_def end_with_def del: find_op.simps)
  next
    case (Inr p)
    obtain found c where p: "p = (found, c)" by (cases p)
    show ?thesis
    proof (cases found)
      case None
      then have "List.find is_variadic (first # rest) = Some op"
        using assms Inr p unfolding eq
        by (auto simp: and_then_def end_with_def raise_error_def done_with_def simp del: find_op.simps List.find.simps
            split: option.splits prod.splits)
      then have "is_variadic op" "op \<in> set (first # rest)" by (auto simp: find_Some_iff simp del: List.find.simps list.set intro: nth_mem)
      then show ?thesis by (simp add: Cons)
    next
      case (Some op')
      then have "op' = op" using assms Inr p unfolding eq
        by (simp add: and_then_def end_with_def done_with_def del: find_op.simps)
      then show ?thesis using find_op_found[of _ _ _ "first # rest"] Inr p Some
        by (fastforce simp: Cons RDB_operator_param_count_def simp del: find_op.simps)
    qed
  qed
qed

lemma simple_scalar_matches:
  assumes "\<forall>t u. same t u \<longrightarrow> t = u"
  shows "RDB_type_matches same (Scalar n1 i1 r1 a1 []) (Scalar n2 i2 r2 a2 []) = Inr (n1 = n2)"
  using assms[rule_format, of "Scalar n1 i1 r1 a1 []" "Scalar n2 i2 r2 a2 []"]
  by (auto simp: RDB_type_matches.simps RDB_is_subtype.simps RDB_type_equals.simps)

lemma builtin_matches:
  assumes "\<forall>t u. same t u \<longrightarrow> t = u" "t \<in> builtin_types" "u \<in> builtin_types"
  shows "RDB_type_matches same u t = Inr (u = t)"
  using assms(2,3) unfolding builtin_types_def insert_iff empty_iff
  by (elim disjE) (simp_all add: builtin_type_defs simple_scalar_matches[OF assms(1)])

section \<open>Calls through the map\<close>

text \<open>
  The calls that C leaves undefined: the quotient of the least integer and \<open>-1\<close>, and the
  conversion of the case of a string with an invalid character.
\<close>

definition undefined_call :: "platform \<Rightarrow> string \<Rightarrow> rdb_obj list \<Rightarrow> bool" where
  "undefined_call P name argv \<longleftrightarrow>
     name \<in> {''/'', ''%''} \<and> map val_of argv = [IntV RDB_INT_MIN, IntV (-1)]
   \<or> name \<in> {''lower'', ''upper''}
       \<and> (\<exists>d. map val_of argv = [BinV d] \<and> mbstowcs P (takeWhile (\<lambda>c. c \<noteq> NUL) d) = None)"

definition entry_safe :: "platform \<Rightarrow> op_entry \<Rightarrow> bool" where
  "entry_safe P e \<longleftrightarrow> (case e of (name, argc, ts, rt, f) \<Rightarrow>
     \<forall>argv r. (if argc = -1 then \<forall>v \<in> set argv. some_scalar v else args_ok ts argv) \<longrightarrow> is_new r
       \<longrightarrow> \<not> undefined_call P name argv \<longrightarrow> safe (f P argv r) (scalar_ok rt))"

lemma sound_entry: "argc \<noteq> -1 \<Longrightarrow> sound P ts rt f \<Longrightarrow> entry_safe P (name, argc, ts, rt, f)"
  by (simp add: entry_safe_def sound_def)

lemma guarded_entries:
  "platform_ok P \<Longrightarrow> entry_safe P (''lower'', 1, [RDB_STRING], RDB_STRING, op_lower)"
  "platform_ok P \<Longrightarrow> entry_safe P (''upper'', 1, [RDB_STRING], RDB_STRING, op_upper)"
  "entry_safe P (''/'', 2, [RDB_INTEGER, RDB_INTEGER], RDB_INTEGER, divide_int)"
  "entry_safe P (''%'', 2, [RDB_INTEGER, RDB_INTEGER], RDB_INTEGER, modulo)"
  "entry_safe P (''format'', -1, [], RDB_STRING, op_format)"
  by (auto simp: entry_safe_def undefined_call_def op_lower_def op_upper_def safe_format
      intro!: safe_convert_case safe_division)

lemma entries_safe:
  assumes "platform_ok P"
  shows "list_all (entry_safe P) conversion_ops" "list_all (entry_safe P) string_ops"
    "list_all (entry_safe P) logic_ops" "list_all (entry_safe P) comparison_ops"
    "list_all (entry_safe P) equality_ops" "list_all (entry_safe P) arithmetic_ops" "list_all (entry_safe P) float_ops"
  using assms
  by (simp_all add: conversion_ops_def string_ops_def logic_ops_def comparison_ops_def equality_ops_def
      arithmetic_ops_def float_ops_def sound_entry sound_ops guarded_entries)

lemma builtin_safe: "platform_ok P \<Longrightarrow> e \<in> set builtin_scalar_ops \<Longrightarrow> entry_safe P e"
  using entries_safe[of P] by (auto simp: builtin_scalar_ops_def list_all_iff)

text \<open>An operator that was made from an entry accepts exactly the types of the entry.\<close>

lemma op_of_accepts:
  assumes "\<forall>t u. same t u \<longrightarrow> t = u" "entry_wf (name, argc, ts, rt, f)" "0 < argc"
    and "length us = length ts" "set us \<subseteq> builtin_types"
  shows "accepts_types same (map Some us) (op_of (name, argc, ts, rt, f)) = Inr (us = ts)"
proof -
  have ts: "set ts \<subseteq> builtin_types" using assms(2) by (simp add: entry_wf_def)
  have "forall_r (\<lambda>(p, a). case ptyp p of None \<Rightarrow> Inr True
       | Some t \<Rightarrow> (case a of None \<Rightarrow> Inr True | Some u \<Rightarrow> RDB_type_matches same u t))
      (zip (map (\<lambda>t. \<lparr>ptyp = Some t, update = False\<rparr>) ts) (map Some us)) = Inr (us = ts)"
    using assms(4,5) ts
  proof (induction us ts rule: list_induct2)
    case (Cons u us t ts)
    then show ?case using builtin_matches[OF assms(1)] by auto
  qed simp
  then show ?thesis using assms(3) by (simp add: accepts_types_def op_of_def)
qed

lemma scalar_type: "scalar_ok t v \<Longrightarrow> t \<in> builtin_types"
  by (auto simp: scalar_ok_def builtin_types_def split: rdb_val.splits)

lemma args_ok_types:
  "args_ok ts argv \<longleftrightarrow> map typ_of argv = map Some ts \<and> (\<forall>v \<in> set argv. some_scalar v \<and> fits (val_of v))"
proof (induction ts arbitrary: argv)
  case (Cons t ts)
  then show ?case
    by (auto simp: args_ok_cases some_scalar_def Cons_eq_map_conv map_eq_Cons_conv) (auto simp: scalar_ok_def)
qed (auto simp: args_ok_cases)


lemma scalar_types: "\<forall>v \<in> set argv. some_scalar v \<and> fits (val_of v) \<Longrightarrow> \<exists>us. map typ_of argv = map Some us \<and> set us \<subseteq> builtin_types"
proof (induction argv)
  case (Cons v argv)
  then obtain us t where "map typ_of argv = map Some us" "set us \<subseteq> builtin_types" "scalar_ok t v"
    by (auto simp: some_scalar_def)
  then show ?case using scalar_type[of t v] by (intro exI[of _ "t # us"]) (auto simp: scalar_ok_def)
qed simp


text \<open>A library in which characters are bytes and no float is printed with an error.\<close>

definition c_locale :: platform where
  "c_locale = \<lparr>fresh = \<lambda>_ _. NUL, mb_cur_max = 1, mblen = (\<lambda>s. case s of [] \<Rightarrow> -1 | c # _ \<Rightarrow> if c = NUL then 0 else 1),
     mbstowcs = (\<lambda>s. Some (map of_char s)), wcstombs = (\<lambda>ws. Some (map (\<lambda>w. char_of (w mod 256)) ws)),
     towlower = (\<lambda>w. if 65 \<le> w \<and> w \<le> 90 then w + 32 else w), towupper = (\<lambda>w. if 97 \<le> w \<and> w \<le> 122 then w - 32 else w),
     strcoll = (\<lambda>s t. if s = t then 0 else 1), fnmatch = (\<lambda>p s. if p = s then 0 else 1), regcomp = (\<lambda>p. Some (\<lambda>s. p = s)),
     snprintf_int = (\<lambda>_ i. Some (print_int i)), snprintf_str = (\<lambda>_ s. Some s), snprintf_float = (\<lambda>_ _. Some ''0''),
     strtod = (\<lambda>s. (float_of_int 0, s)), libm = (\<lambda>_ x. x), libm2 = (\<lambda>_ x _. x), stale = (\<lambda>_. 0), user_cmp = (\<lambda>_. None)\<rparr>"

lemma c_locale_ok: "platform_ok c_locale"
  by (auto simp: platform_ok_def c_locale_def split: list.splits)

section \<open>Look-up finds what was registered\<close>

lemma find_op_finds:
  assumes "\<exists>op \<in> set ops. cand op \<and> accepts op = Inr True"
    and "\<forall>op \<in> set ops. cand op \<longrightarrow> (\<exists>b. accepts op = Inr b)"
  shows "\<exists>op c. find_op cand accepts b ops = Inr (Some op, c)"
  using assms
proof (induction ops arbitrary: b)
  case (Cons op ops)
  show ?case
  proof (cases "cand op \<and> accepts op = Inr True")
    case False
    then have "\<exists>op \<in> set ops. cand op \<and> accepts op = Inr True" using Cons.prems(1) by auto
    then have "\<exists>op c. find_op cand accepts b' ops = Inr (Some op, c)" for b' using Cons by simp
    moreover have "cand op \<longrightarrow> accepts op = Inr False" using Cons.prems(2) False by (metis list.set_intros(1))
    ultimately show ?thesis by simp
  qed simp
qed simp

lemma get_op_finds:
  assumes "\<forall>t u. same t u \<longrightarrow> t = u"
    and added: "RDB_add_builtin_scalar_ro_ops RDB_init_op_map m = (Inr (), opmap, m')"
    and e: "(name, argc, ts, rt, f) \<in> set builtin_scalar_ops" "argc \<noteq> -1"
  shows "\<exists>op. fst (RDB_get_op same opmap name (map Some ts) k) = Inr op"
proof -
  have wf: "entry_wf e'" if "e' \<in> set builtin_scalar_ops" for e'
    using builtin_entries_wf that by (auto simp: list_all_iff)
  have ts: "set ts \<subseteq> builtin_types" "argc = int (length ts)" "0 < argc" using wf[OF e(1)] e(2) by (auto simp: entry_wf_def)
  let ?cand = "\<lambda>op. RDB_operator_param_count op = int (length (map Some ts))"
  have ch: "set (chain opmap name) = {op_of e | e. e \<in> set builtin_scalar_ops \<and> fst e = name}"
    using builtin_chain[OF added] by simp
  have acc: "accepts_types same (map Some ts) (op_of (name', argc', ts', rt', f')) = Inr (ts = ts')"
    if "(name', argc', ts', rt', f') \<in> set builtin_scalar_ops" "?cand (op_of (name', argc', ts', rt', f'))"
    for name' argc' ts' rt' f'
    using op_of_accepts[OF assms(1) wf[OF that(1)], of ts] wf[OF that(1)] that(2) ts
    by (auto simp: entry_wf_def RDB_operator_param_count_def op_of_def)
  have mem: "op_of (name, argc, ts, rt, f) \<in> set (chain opmap name)" using ch e(1) by force
  have "?cand (op_of (name, argc, ts, rt, f))" using ts by (simp add: RDB_operator_param_count_def op_of_def)
  moreover from this have "accepts_types same (map Some ts) (op_of (name, argc, ts, rt, f)) = Inr True" using acc[OF e(1)] by simp
  moreover have "\<exists>b. accepts_types same (map Some ts) op = Inr b" if "op \<in> set (chain opmap name)" "?cand op" for op
    using that(1) that(2) acc unfolding ch by (auto simp del: length_map)
  ultimately obtain op c where "find_op ?cand (accepts_types same (map Some ts)) False (chain opmap name) = Inr (Some op, c)"
    using find_op_finds[of "chain opmap name" ?cand] mem by blast
  moreover have "chain opmap name \<noteq> []" using mem by auto
  ultimately have "fst (RDB_get_op same opmap name (map Some ts) k) = Inr op"
    by (auto simp: RDB_get_op_def resolve_def and_then_def end_with_def done_with_def neq_Nil_conv simp del: find_op.simps)
  then show ?thesis ..
qed


end
