(* ===== verification/Storage_Properties.thy ===== *)
theory Storage_Properties
  imports Storage_Laws Builtin_Ops
begin

text \<open>
  Reading back what was written, and the properties of the conversion of values: a value
  keeps its meaning, a reader that runs out of memory says so, and the order of the attributes
  in a type does not matter.
\<close>

section \<open>Reading\<close>

lemma le_val_size: "n < 2 ^ 31 \<Longrightarrow> le_val (le_bytes 8 n) = n"
  by (rule le_val_bytes) simp

lemma read_at_front: "n = length xs \<Longrightarrow> read_at (xs @ ys) 0 n = Inr xs"
  by (simp add: read_at_def)

definition read_types :: "rdb_type \<Rightarrow> rdb_type \<Rightarrow> rdb_type option \<times> rdb_type option" where
  "read_types t u = (if RDB_type_is_scalar t then Some t else None, if RDB_type_is_dummy t then Some u else None)"

lemma read_header_result:
  assumes "implements sub t v u" "length (header t u) + n < 2 ^ 31"
  shows "read_header sub t (header t u @ bs) (length (header t u) + n)
    = done_with (fst (read_types t u), snd (read_types t u), bs, n)"
proof (cases "RDB_type_is_dummy t")
  case True
  let ?nm = "sname u" and ?sz = "length (sname u) + 1"
  have scal: "RDB_type_is_scalar t" using True by (cases t) simp_all
  have h: "header t u = le_bytes 8 ?sz @ ?nm @ [NUL]" "length (header t u) = 8 + ?sz" using True by (simp_all add: header_def)
  have sz: "le_val (le_bytes 8 ?sz) = ?sz" by (rule le_val_size) (use assms(2) h in simp)
  have r1: "read_at (header t u @ bs) 0 8 = Inr (le_bytes 8 ?sz)"
    unfolding h(1) append_assoc by (rule read_at_front) simp
  have i: "to_size (int (SIZE + ?sz) - 1) = 8 + length ?nm" using assms(2) h by (simp add: SIZE_def to_size_id)
  have r2: "read_at (header t u @ bs) (int (8 + length ?nm)) 1 = Inr [NUL]"
    unfolding h(1) using read_at_append[of "int (8 + length ?nm)" "le_bytes 8 ?sz @ ?nm" 1 "[NUL]" bs] by simp
  have nm: "NUL \<notin> set ?nm" "sub t ?nm = Some u" using assms(1) True by (simp_all add: implements_def)
  have "takeWhile (\<lambda>c. c \<noteq> NUL) (?nm @ NUL # bs) = ?nm" using nm(1) by (subst takeWhile_append2) auto
  then have c: "c_str (drop 8 (header t u @ bs)) = Inr ?nm" by (simp add: h c_str_def)
  have d: "drop (SIZE + ?sz) (header t u @ bs) = bs" by (simp add: h SIZE_def)
  have n: "to_size (int (length (header t u) + n) - int (SIZE + ?sz)) = n" using assms(2) h by (simp add: SIZE_def to_size_id)
  show ?thesis
    unfolding read_header_def
    using True scal by (simp only: if_True if_False not_True_eq_False r1 and_then_simps sz Let_def i r2 c nm(2) d n option.case
        read_types_def fst_conv snd_conv simp_thms)
next
  case False
  then show ?thesis by (cases "RDB_type_is_scalar t") (simp_all add: read_header_def header_def read_types_def)
qed

lemma read_types_abs:
  assumes "implements sub t v u"
  shows "scalar_only (typ_of v) = scalar_only (fst (read_types t u))"
    "dummy_impl (typ_of v) (impl_of v) = dummy_impl (fst (read_types t u)) (snd (read_types t u))"
proof -
  have "RDB_type_is_dummy x \<Longrightarrow> RDB_type_is_scalar x" for x by (cases x) simp_all
  then show "scalar_only (typ_of v) = scalar_only (fst (read_types t u))"
    "dummy_impl (typ_of v) (impl_of v) = dummy_impl (fst (read_types t u)) (snd (read_types t u))"
    using assms by (auto simp: implements_def read_types_def scalar_only_def dummy_impl_def split: if_splits option.splits)
qed

lemma read_as:
  assumes "implements sub t v u" "val_abs w = val_abs (val_of v)"
  shows "obj_abs (Obj (fst (read_types t u)) (snd (read_types t u)) w) = obj_abs v"
  using read_types_abs[OF assms(1)] assms(2) by (cases v) simp

lemma read_vtyp: "implements sub t v u \<Longrightarrow> (case snd (read_types t u) of None \<Rightarrow> t | Some t \<Rightarrow> t) = u"
  by (auto simp: implements_def read_types_def)

section \<open>Reading atoms\<close>

lemma time_val_bytes:
  "time_val (le_bytes 2 (unat y) @ map (\<lambda>w. char_of (unat w)) [mo, d, h, mi, s] @ [c]) = TimeV y mo d h mi s"
proof -
  have "unat (w :: u8) < 256" for w using unsigned_less[of w, where ?'a = nat] by simp
  then have c: "word_of_nat (of_char (char_of (unat w) :: char)) = w" for w :: u8 by (simp add: of_char_of)
  have "unat y < 256 ^ 2" using unsigned_less[of y, where ?'a = nat] by simp
  then have "le_val (le_bytes 2 (unat y)) = unat y" by (rule le_val_bytes)
  then show ?thesis using c by (simp add: time_val_def nth_append)
qed

lemma read_atom:
  assumes "implements sub t v u" "atom_ok t u (val_of v)" "RDB_obj_irep P v = Inr b"
  shows "gives (RDB_irep_to_obj (Suc k) same P sub RDB_init_obj t (header t u @ b @ rest) (length (header t u) + length b)) (copied v)
    \<or> length (header t u) + length b \<ge> 2 ^ 31"
proof (cases "length (header t u) + length b < 2 ^ 31")
  case True
  note hd = read_header_result[OF assms(1) True, of "b @ rest"]
  have at: "read_at (b @ rest) 0 (length b) = Inr b" by (rule read_at_front) simp
  let ?o = "Obj (fst (read_types t u)) (snd (read_types t u))"
  have copied: "copied v (?o (val_of v))" if "kind_of (val_of v) \<notin> {RDB_OB_TUPLE, RDB_OB_ARRAY, RDB_OB_TABLE}"
    using that read_as[OF assms(1) refl] by (cases "val_of v") (auto simp: copied_def)
  have "gives (RDB_irep_to_obj (Suc k) same P sub RDB_init_obj t (header t u @ b @ rest) (length (header t u) + length b)) (copied v)"
  proof (cases "val_of v")
    case (BoolV x)
    then have "b = [if x then CHR 0x01 else NUL]" "RDB_val_kind u = RDB_OB_BOOL" using assms(2,3) by (auto simp: RDB_obj_irep_def atom_ok_def)
    then show ?thesis using hd at copied BoolV read_vtyp[OF assms(1)] by (auto simp: read_bytes_def Let_def intro!: giving)
  next
    case (IntV i)
    then have b: "b = le_bytes 4 (unat i)" and "RDB_val_kind u = RDB_OB_INT" using assms(2,3) by (auto simp: RDB_obj_irep_def atom_ok_def)
    have "unat i < 256 ^ 4" using unsigned_less[of i, where ?'a = nat] by simp
    then have "word_of_nat (le_val b) = i" unfolding b by (simp add: le_val_bytes)
    then show ?thesis using hd at copied IntV b \<open>RDB_val_kind u = RDB_OB_INT\<close> read_vtyp[OF assms(1)]
      by (auto simp: read_bytes_def Let_def intro!: giving)
  next
    case (FloatV x)
    then have b: "b = le_bytes 8 (double_bits x)" and "RDB_val_kind u = RDB_OB_FLOAT" "double_ok x"
      using assms(2,3) by (auto simp: RDB_obj_irep_def atom_ok_def)
    then have fl: "bits_double (le_val b) = x" unfolding b using le_val_bytes[OF double_round_trip(2)] double_round_trip(1) by simp
    then show ?thesis using hd at copied FloatV b \<open>RDB_val_kind u = RDB_OB_FLOAT\<close> read_vtyp[OF assms(1)]
      by (auto simp: read_bytes_def Let_def intro!: giving)
  next
    case (TimeV y mo d h mi s)
    then have b: "b = le_bytes 2 (unat y) @ map (\<lambda>w. char_of (unat w)) [mo, d, h, mi, s] @ [fresh P 0 7]" and "RDB_val_kind u = RDB_OB_TIME"
      using assms(2,3) by (auto simp: RDB_obj_irep_def atom_ok_def)
    have "time_val b = val_of v" "length b = 8" unfolding b TimeV by (rule time_val_bytes, simp)
    then show ?thesis using hd at copied TimeV \<open>RDB_val_kind u = RDB_OB_TIME\<close> read_vtyp[OF assms(1)]
      by (auto simp: read_bytes_def Let_def intro!: giving)
  next
    case (BinV d)
    then have b: "b = d" and k: "RDB_val_kind u = RDB_OB_BIN" and nul: "RDB_irep_is_string t \<longrightarrow> NUL \<in> set d"
      using assms(2,3) by (auto simp: RDB_obj_irep_def atom_ok_def)
    have "gives (irep_to_bin t (b @ rest) (length b)) (\<lambda>r. r = d)"
      using at b nul by (auto simp: irep_to_bin_def intro!: giving gives_computes computing)
    then have "gives (and_then (irep_to_bin t (b @ rest) (length b)) (\<lambda>d. done_with (?o (BinV d)))) (copied v)"
      by (rule gives_and_then) (use copied BinV in \<open>auto intro!: giving\<close>)
    moreover have "and_then (and_then f (\<lambda>d. done_with (BinV d))) (\<lambda>v. done_with (?o v)) = and_then f (\<lambda>d. done_with (?o (BinV d)))" for f
      by (auto simp: and_then_def fun_eq_iff done_with_def split: prod.splits sum.splits)
    ultimately show ?thesis using hd k read_vtyp[OF assms(1)] by (simp add: Let_def)
  qed (use assms(2) in \<open>simp_all add: atom_ok_def\<close>)
  then show ?thesis by blast
qed simp

section \<open>Reading parts\<close>

lemma gives_and_then_pair:
  assumes "gives f (\<lambda>(x, y). R x y)" "\<And>x y. R x y \<Longrightarrow> gives (g x y) Q"
  shows "gives (and_then f (\<lambda>(x, y). g x y)) Q"
  by (rule gives_and_then[OF assms(1)]) (use assms(2) in \<open>simp split: prod.splits\<close>)

lemma len_irep_gives:
  assumes "gives (to_obj v0 t (b @ rest) (length b)) Q" "length (part t b) \<le> dlen" "dlen < 2 ^ 31"
    "irep_length t = -1 \<or> irep_length t = int (length b)"
  shows "gives (len_irep_to_obj to_obj v0 t (part t b @ rest) dlen) (\<lambda>(v, l). Q v \<and> l = length (part t b))"
proof -
  have len: "to_int (int (length (part t b))) = int (length (part t b))" using assms(2,3) by (intro to_int_id) simp_all
  have body: "gives (and_then (to_obj v0 t (b @ rest) (length b)) (\<lambda>v.
      let l = to_int (int (llen + length b)) in if l < 0 then end_with (Inl Silent) else done_with (v, nat l)))
      (\<lambda>(v, l). Q v \<and> l = length (part t b))" if "llen + length b = length (part t b)" for llen
    by (rule gives_and_then[OF assms(1)]) (simp add: that len giving)
  show ?thesis
  proof (cases "irep_length t = -1")
    case True
    then have p: "part t b = le_bytes 8 (length b) @ b" by (simp add: part_def)
    then have "length b < 2 ^ 31" using assms(2,3) by simp
    then have "le_val (le_bytes 8 (length b)) = length b" by (rule le_val_size)
    moreover have "read_at (part t b @ rest) 0 8 = Inr (le_bytes 8 (length b))"
      unfolding p append_assoc by (rule read_at_front) simp
    moreover have "to_size (int dlen - int SIZE) = dlen - SIZE" "length b \<le> dlen - SIZE"
      using assms(2,3) p by (simp_all add: SIZE_def to_size_id nat_diff_distrib)
    ultimately show ?thesis using True body[of SIZE] p by (simp add: len_irep_to_obj_def SIZE_def)
  next
    case False
    then have p: "part t b = b" and n: "irep_length t = int (length b)" using assms(4) by (simp_all add: part_def)
    then have "to_size (irep_length t) = length b" using assms(2,3) by (simp add: to_size_id)
    then show ?thesis using False body[of 0] p assms(2) by (simp add: len_irep_to_obj_def)
  qed
qed

lemma read_any:
  "obj_wf v0 \<Longrightarrow> RDB_irep_to_obj k same P sub v0 t bs n = RDB_irep_to_obj k same P sub RDB_init_obj t bs n"
  by (cases k) (simp_all add: wf_destroy)

section \<open>Reading tuples\<close>

lemma copy_new:
  assumes "obj_wf v"
  shows "changes (RDB_copy_obj same P RDB_init_obj v) (copied v)"
  using copying(1)[OF refl assms, of _ same P]
  by (simp add: changes_ends RDB_copy_obj_def check_copy_types_def done_with_def)

lemma tuple_set_value:
  assumes "tuple_inv d" "obj_wf d" "obj_wf v"
  shows "changes (RDB_tuple_set same P d a (Some v)) (\<lambda>d'. tuple_inv d' \<and> obj_wf d' \<and> typ_of d' = typ_of d \<and> impl_of d' = impl_of d
    \<and> (\<lambda>k. map_option obj_abs (attrs d' k)) = (\<lambda>k. map_option obj_abs (attrs d k))(a \<mapsto> obj_abs v))"
proof -
  let ?old = "case attrs d a of None \<Rightarrow> RDB_init_obj | Some v \<Rightarrow> v"
  have "obj_wf ?old" using assms(1,2) tuple_obj(2) by (auto split: option.split)
  then have "RDB_destroy_obj ?old = Inr ()" by (rule wf_destroy)
  then have old: "changes ((\<lambda>old m. case RDB_destroy_obj old of
         Inl e \<Rightarrow> (Inl e, old, m)
       | Inr _ \<Rightarrow> (case Some v of None \<Rightarrow> (Inr (), RDB_init_obj, m) | Some v \<Rightarrow> RDB_copy_obj same P RDB_init_obj v m)) ?old) (copied v)"
    using copy_new[OF assms(3)] by simp
  have upd: "(\<lambda>k. map_option obj_abs (((attrs d)(a \<mapsto> w)) k)) = (\<lambda>k. map_option obj_abs (attrs d k))(a \<mapsto> obj_abs v)"
    if "obj_abs w = obj_abs v" for w using that by auto
  show ?thesis
    unfolding RDB_tuple_set_def
    by (rule changes_mono, rule with_entry_changes[OF assms(1)], rule old)
      (use assms upd in \<open>auto simp: copied_def tuple_obj(2) simp del: fun_upd_apply split: if_splits\<close>, auto split: if_splits)
qed

definition reads :: "(rdb_obj \<Rightarrow> rdb_type \<Rightarrow> string \<Rightarrow> nat \<Rightarrow> rdb_obj action) \<Rightarrow> platform \<Rightarrow> rdb_type \<Rightarrow> rdb_obj \<Rightarrow> bool" where
  "reads to_obj P t w \<longleftrightarrow> (\<forall>v0 rest. obj_wf v0 \<longrightarrow> gives (to_obj v0 t (stored P t w @ rest) (length (stored P t w))) (copied w))"

lemma read_part:
  assumes "reads to_obj P t w" "storable sub t w" "length (part t (stored P t w)) \<le> n" "n < 2 ^ 31" "obj_wf v0"
  shows "gives (len_irep_to_obj to_obj v0 t (part t (stored P t w) @ rest) n) (\<lambda>(v, l). copied w v \<and> l = length (part t (stored P t w)))"
  by (rule len_irep_gives) (use assms storable_length[OF assms(2)] in \<open>auto simp: reads_def\<close>)

lemma read_tuple:
  assumes "attr_seq u = Inr as" "distinct (map fst as)" "dom (attrs v) = fst ` set as" "tuple_inv v"
    and "\<forall>nt \<in> set as. \<exists>w. attrs v (fst nt) = Some w \<and> storable sub (snd nt) w \<and> reads to_obj P (snd nt) w"
    and "length (concat (map (piece P v) as)) < 2 ^ 31"
  shows "gives (irep_to_tuple same P to_obj (Obj t i Initial) u (concat (map (piece P v) as) @ rest) (length (concat (map (piece P v) as))))
    (\<lambda>(d, n). n = length (concat (map (piece P v) as)) \<and> obj_wf d \<and> typ_of d = t \<and> impl_of d = i \<and> val_abs (val_of d) = val_abs (val_of v))"
proof -
  let ?c = "concat (map (piece P v) as)" and ?get = "\<lambda>k. map_option obj_abs (attrs v k)"
  let ?I = "\<lambda>ys (d, bs, dl, len). \<exists>zs. as = ys @ zs \<and> tuple_inv d \<and> obj_wf d \<and> typ_of d = t \<and> impl_of d = i
    \<and> (\<lambda>k. map_option obj_abs (attrs d k)) = (\<lambda>k. if k \<in> fst ` set ys then ?get k else None)
    \<and> bs = concat (map (piece P v) zs) @ rest \<and> dl = length (concat (map (piece P v) zs)) \<and> len = length (concat (map (piece P v) ys))"
  let ?f = "\<lambda>(name, t) (tpl, bs, dl, len).
         and_then (len_irep_to_obj to_obj RDB_init_obj t bs dl) (\<lambda>(obj, l).
         and_then (unchanged_or_fail (RDB_tuple_set same P tpl name (Some obj))) (\<lambda>tpl'.
         and_then (end_with (RDB_destroy_obj obj)) (\<lambda>_.
         done_with (tpl', drop l bs, to_size (int dl - int l), len + l))))"
  have new: "tuple_inv (Obj t i Initial)" "attrs (Obj t i Initial) = (\<lambda>_. None)"
    using init_tuple_inv by (auto simp: tuple_inv_def tuple_tab_def attrs_def RDB_tuple_get_def)
  have "gives (thread ?f as (Obj t i Initial, ?c @ rest, length ?c, 0)) (?I as)"
  proof (rule gives_thread[where I = ?I])
    show "?I [] (Obj t i Initial, ?c @ rest, length ?c, 0)" using new by simp
  next
    fix ys nt zs s assume as: "as = ys @ nt # zs" and inv: "?I ys s"
    obtain d bs dl len where s: "s = (d, bs, dl, len)" by (metis prod_cases4)
    let ?rs = "concat (map (piece P v) zs)"
    have d: "tuple_inv d" "obj_wf d" "typ_of d = t" "impl_of d = i"
        "(\<lambda>k. map_option obj_abs (attrs d k)) = (\<lambda>k. if k \<in> fst ` set ys then ?get k else None)"
        "bs = piece P v nt @ ?rs @ rest" "dl = length (piece P v nt) + length ?rs" "len = length (concat (map (piece P v) ys))"
      using inv as by (auto simp: s)
    obtain w where w: "attrs v (fst nt) = Some w" "storable sub (snd nt) w" "reads to_obj P (snd nt) w"
      using assms(5) as by auto
    have pc: "piece P v nt = part (snd nt) (stored P (snd nt) w)" using w(1) by (simp add: piece_def)
    have dl: "dl < 2 ^ 31" using assms(6) d(7) as by simp
    have read: "gives (len_irep_to_obj to_obj RDB_init_obj (snd nt) bs dl) (\<lambda>(o1, l). copied w o1 \<and> l = length (piece P v nt))"
      unfolding d(6) pc by (rule read_part[OF w(3,2)]) (use d(7) pc dl in simp_all)
    have upd: "(\<lambda>k. if k \<in> fst ` set ys then ?get k else None)(fst nt \<mapsto> obj_abs w)
        = (\<lambda>k. if k \<in> fst ` set (ys @ [nt]) then ?get k else None)"
      using w(1) by (auto simp: fun_eq_iff)
    have step: "gives (and_then (unchanged_or_fail (RDB_tuple_set same P d (fst nt) (Some o1))) (\<lambda>tpl'.
         and_then (end_with (RDB_destroy_obj o1)) (\<lambda>_. done_with (tpl', drop l bs, to_size (int dl - int l), len + l)))) (?I (ys @ [nt]))"
      if "copied w o1" "l = length (piece P v nt)" for o1 l
    proof (rule gives_and_then)
      have wf: "obj_wf o1" "obj_abs o1 = obj_abs w" using that(1) by (simp_all add: copied_def)
      show "gives (unchanged_or_fail (RDB_tuple_set same P d (fst nt) (Some o1)))
        (\<lambda>d'. tuple_inv d' \<and> obj_wf d' \<and> typ_of d' = t \<and> impl_of d' = i
          \<and> (\<lambda>k. map_option obj_abs (attrs d' k)) = (\<lambda>k. if k \<in> fst ` set (ys @ [nt]) then ?get k else None))"
        using tuple_set_value[OF d(1,2) wf(1), of same P "fst nt"] unfolding wf(2) d(3,4,5) upd by (rule gives_changes)
      have "to_size (int dl - int l) = length ?rs" "drop l bs = ?rs @ rest"
        using that(2) d(6,7) dl by (simp_all add: to_size_id)
      then show "gives (and_then (end_with (RDB_destroy_obj o1)) (\<lambda>_. done_with (d', drop l bs, to_size (int dl - int l), len + l))) (?I (ys @ [nt]))"
        if "tuple_inv d' \<and> obj_wf d' \<and> typ_of d' = t \<and> impl_of d' = i
          \<and> (\<lambda>k. map_option obj_abs (attrs d' k)) = (\<lambda>k. if k \<in> fst ` set (ys @ [nt]) then ?get k else None)" for d'
        using that d(8) as \<open>l = _\<close> by (simp add: wf_destroy(1)[OF wf(1)] giving)
    qed
    have "gives (and_then (len_irep_to_obj to_obj RDB_init_obj (snd nt) bs dl) (\<lambda>(o1, l).
        and_then (unchanged_or_fail (RDB_tuple_set same P d (fst nt) (Some o1))) (\<lambda>tpl'.
         and_then (end_with (RDB_destroy_obj o1)) (\<lambda>_. done_with (tpl', drop l bs, to_size (int dl - int l), len + l))))) (?I (ys @ [nt]))"
      by (rule gives_and_then_pair[OF read]) (rule step; blast)
    moreover have "?f nt s = and_then (len_irep_to_obj to_obj RDB_init_obj (snd nt) bs dl) (\<lambda>(o1, l).
        and_then (unchanged_or_fail (RDB_tuple_set same P d (fst nt) (Some o1))) (\<lambda>tpl'.
         and_then (end_with (RDB_destroy_obj o1)) (\<lambda>_. done_with (tpl', drop l bs, to_size (int dl - int l), len + l))))"
      by (cases nt) (simp only: s prod.case fst_conv snd_conv)
    ultimately show "gives (?f nt s) (?I (ys @ [nt]))" by (simp only:)
  qed
  then show ?thesis
    unfolding irep_to_tuple_def assms(1) and_then_simps
  proof (rule gives_and_then)
    fix s assume inv: "?I as s"
    obtain d bs dl len where s: "s = (d, bs, dl, len)" by (metis prod_cases4)
    have "(\<lambda>k. if k \<in> fst ` set as then ?get k else None) = ?get"
      using assms(3) by (auto simp: fun_eq_iff domIff)
    then have "(\<lambda>k. map_option obj_abs (attrs d k)) = ?get" using inv by (simp add: s)
    then have "val_abs (val_of d) = val_abs (val_of v)"
      using tuple_obj(1)[OF assms(4)] tuple_obj(1)[of d] inv by (simp add: s)
    then show "gives (case s of (tpl, bs, dl, len) \<Rightarrow> done_with (tpl, len))
     (\<lambda>(d, n). n = length ?c \<and> obj_wf d \<and> typ_of d = t \<and> impl_of d = i \<and> val_abs (val_of d) = val_abs (val_of v))"
      using inv by (simp add: s giving)
  qed
qed

section \<open>Reading arrays\<close>

lemma set_length_new:
  assumes "val_of a = Initial" "0 \<le> sint n"
  shows "changes (RDB_set_array_length P a n) (\<lambda>d. d = array_obj a n (sint n) (replicate (nat (sint n)) RDB_init_obj))"
proof (cases "sint n > 0")
  case True
  then show ?thesis using assms(1) by (auto simp: RDB_set_array_length_def intro!: changing)
next
  case False
  then show ?thesis using assms by (auto simp: RDB_set_array_length_def intro!: changing)
qed

lemma index_word: "int i < 2 ^ 31 \<Longrightarrow> sint (word_of_nat i :: i32) = int i"
  using to_int_id[of "int i"] by (simp add: to_int_def)

lemma array_set_changes:
  assumes "i < length ds" "length ds < 2 ^ 31" "ds ! i = RDB_init_obj" "obj_wf v"
  shows "changes (RDB_array_set same P (Obj t im (ArrayV (word_of_nat (length ds)) cap ds)) (word_of_nat i) v)
    (\<lambda>d. \<exists>w. copied v w \<and> d = Obj t im (ArrayV (word_of_nat (length ds)) cap (ds[i := w])))"
proof (rule changesI)
  fix m r d m'
  assume run: "RDB_array_set same P (Obj t im (ArrayV (word_of_nat (length ds)) cap ds)) (word_of_nat i) v m = (r, d, m')"
  have si: "sint (word_of_nat i :: i32) = int i" "sint (word_of_nat (length ds) :: i32) = int (length ds)"
    using assms(1,2) by (simp_all add: index_word)
  obtain r1 w m1 where c: "RDB_copy_obj same P RDB_init_obj v m = (r1, w, m1)" by (metis prod_cases3)
  then have "r = r1" "d = Obj t im (ArrayV (word_of_nat (length ds)) cap (ds[i := w]))" "m' = m1"
    using run assms(1,3) si by (simp_all add: RDB_array_set_def with_elem_def array_obj_def)
  then show "mem_le m m' \<and> (r = Inr () \<and> (\<exists>w. copied v w \<and> d = Obj t im (ArrayV (word_of_nat (length ds)) cap (ds[i := w])))
      \<or> fails m \<noteq> [] \<and> (r = NO_MEM \<or> r = Inl Silent))"
    using changesD[OF copy_new[OF assms(4)] c] by auto
qed

lemma length_parts:
  "\<forall>w \<in> set vs. p w \<noteq> [] \<Longrightarrow> length vs \<le> length (concat (map p vs))"
proof (induction vs)
  case (Cons w vs)
  then have "Suc 0 \<le> length (p w)" by (cases "p w") auto
  then show ?case using Cons by simp
qed simp

lemma part_nonempty: "storable sub t w \<Longrightarrow> irep_length t \<noteq> 0 \<Longrightarrow> 0 < length (part t (stored P t w))"
  using storable_length[of sub t w P] by (auto simp: part_length SIZE_def)

lemma count_parts:
  assumes "\<forall>w \<in> set vs. storable sub t w \<and> reads to_obj P t w" "irep_length t \<noteq> 0" "length (concat (map (\<lambda>w. part t (stored P t w)) vs)) < 2 ^ 31"
    "length vs \<le> k" "obj_wf v0"
  shows "gives (count_elems to_obj t k v0 (concat (map (\<lambda>w. part t (stored P t w)) vs) @ rest) (length (concat (map (\<lambda>w. part t (stored P t w)) vs))))
    (\<lambda>(v, n). obj_wf v \<and> n = length vs)"
  using assms
proof (induction vs arbitrary: k v0)
  case Nil
  then show ?case by (simp add: giving)
next
  case (Cons w vs)
  let ?p = "\<lambda>w. part t (stored P t w)"
  let ?c = "concat (map ?p vs)"
  have w: "storable sub t w" "reads to_obj P t w" using Cons.prems(1) by simp_all
  have pos: "0 < length (?p w)" by (rule part_nonempty[OF w(1) Cons.prems(2)])
  then obtain n where n: "length (concat (map ?p (w # vs))) = Suc n" by (cases "length (?p w)") auto
  obtain k' where k: "k = Suc k'" using Cons.prems(4) by (cases k) auto
  have total: "Suc n = length (?p w) + length ?c" "Suc n < 2 ^ 31" using n Cons.prems(3) by simp_all
  have read: "gives (len_irep_to_obj to_obj v0 t (?p w @ ?c @ rest) (Suc n)) (\<lambda>(v, l). copied w v \<and> l = length (?p w))"
    by (rule read_part[OF w(2,1)]) (use total Cons.prems(5) in simp_all)
  have left: "to_size (int (Suc n) - int (length (?p w))) = length ?c" using total by (simp add: to_size_id)
  have step: "gives (if l = 0 then end_with (Inl Diverges)
       else and_then (count_elems to_obj t k' v (drop l (?p w @ ?c @ rest)) (to_size (int (Suc n) - int l))) (\<lambda>(v, n). done_with (v, Suc n)))
     (\<lambda>(v, n). obj_wf v \<and> n = length (w # vs))" if "copied w v" "l = length (?p w)" for v l
  proof -
    have "gives (count_elems to_obj t k' v (?c @ rest) (length ?c)) (\<lambda>(v, n). obj_wf v \<and> n = length vs)"
      by (rule Cons.IH) (use Cons.prems total k that in \<open>auto simp: copied_def\<close>)
    then have "gives (and_then (count_elems to_obj t k' v (?c @ rest) (length ?c)) (\<lambda>(v, n). done_with (v, Suc n)))
        (\<lambda>(v, n). obj_wf v \<and> n = length (w # vs))"
      by (rule gives_and_then_pair) (simp add: giving)
    then show ?thesis using that(2) left pos by simp
  qed
  have "gives (and_then (len_irep_to_obj to_obj v0 t (?p w @ ?c @ rest) (Suc n)) (\<lambda>(v, l). if l = 0 then end_with (Inl Diverges)
       else and_then (count_elems to_obj t k' v (drop l (?p w @ ?c @ rest)) (to_size (int (Suc n) - int l))) (\<lambda>(v, n). done_with (v, Suc n))))
     (\<lambda>(v, n). obj_wf v \<and> n = length (w # vs))"
    by (rule gives_and_then_pair[OF read]) (rule step; blast)
  moreover have "concat (map ?p (w # vs)) @ rest = ?p w @ ?c @ rest" by simp
  ultimately show ?case unfolding n k count_elems.simps by (simp only:)
qed

lemma read_array:
  assumes "elem_type u = Inr et" "irep_length et \<noteq> 0" "\<forall>w \<in> set vs. storable sub et w \<and> reads to_obj P et w"
    and "length (concat (map (\<lambda>w. part et (stored P et w)) vs)) < 2 ^ 31"
  shows "gives (irep_to_array same P to_obj (Obj t i Initial) u (concat (map (\<lambda>w. part et (stored P et w)) vs) @ rest)
       (length (concat (map (\<lambda>w. part et (stored P et w)) vs))))
    (\<lambda>d. obj_wf d \<and> typ_of d = t \<and> impl_of d = i \<and> val_abs (val_of d) = Elems (map obj_abs vs))"
    (is "gives _ ?Q")
proof -
  let ?p = "\<lambda>w. part et (stored P et w)" and ?n = "length vs"
  let ?c = "concat (map ?p vs)" and ?w = "word_of_nat (length vs) :: i32"
  have "?p w \<noteq> []" if "w \<in> set vs" for w
    using part_nonempty[of sub et w P] assms(2,3) that by force
  then have few: "?n \<le> length ?c" by (intro length_parts) blast
  then have sn: "sint ?w = int ?n" using assms(4) by (intro index_word) simp
  let ?I = "\<lambda>ys (a, tp, bs, dl). \<exists>k ds. ys = [0 ..< k] \<and> k \<le> ?n \<and> list_all2 copied (take k vs) ds \<and> obj_wf tp
     \<and> a = Obj t i (ArrayV ?w (int ?n) (ds @ replicate (?n - k) RDB_init_obj))
     \<and> bs = concat (map ?p (drop k vs)) @ rest \<and> dl = length (concat (map ?p (drop k vs)))"
  let ?f = "\<lambda>j (a, tp, bs, dl).
         and_then (len_irep_to_obj to_obj tp et bs dl) (\<lambda>(tp', l).
         and_then (unchanged_or_fail (RDB_array_set same P a (word_of_nat j) tp')) (\<lambda>a'.
         done_with (a', tp', drop l bs, to_size (int dl - int l))))"
  have loop: "gives (thread ?f [0 ..< ?n] (Obj t i (ArrayV ?w (int ?n) (replicate ?n RDB_init_obj)), tpl, ?c @ rest, length ?c)) (?I [0 ..< ?n])"
    if "obj_wf tpl" for tpl
  proof (rule gives_thread[where I = ?I])
    show "?I [] (Obj t i (ArrayV ?w (int ?n) (replicate ?n RDB_init_obj)), tpl, ?c @ rest, length ?c)"
      using that by (auto intro!: exI[of _ 0])
  next
    fix ys j zs s assume split: "[0 ..< ?n] = ys @ j # zs" and inv: "?I ys s"
    obtain a tp bs dl where s: "s = (a, tp, bs, dl)" by (metis prod_cases4)
    obtain k ds where k: "ys = [0 ..< k]" "k \<le> ?n" "list_all2 copied (take k vs) ds" "obj_wf tp"
        and a: "a = Obj t i (ArrayV ?w (int ?n) (ds @ replicate (?n - k) RDB_init_obj))"
        and bs: "bs = concat (map ?p (drop k vs)) @ rest" and dl: "dl = length (concat (map ?p (drop k vs)))"
      using inv by (auto simp: s)
    have j: "j = k" "k < ?n"
    proof -
      have "length ys < ?n" using arg_cong[OF split, of length] by simp
      then have "[0 ..< ?n] ! length ys = length ys" by simp
      then show "j = k" "k < ?n" using split k(1) \<open>length ys < ?n\<close> by (simp_all add: nth_append)
    qed
    have lds: "length ds = k" using list_all2_lengthD[OF k(3)] k(2) by simp
    let ?w' = "vs ! k" and ?rs = "concat (map ?p (drop (Suc k) vs))"
    have dr: "drop k vs = ?w' # drop (Suc k) vs" using j(2) by (rule Cons_nth_drop_Suc[symmetric])
    have bs': "bs = ?p ?w' @ ?rs @ rest" "dl = length (?p ?w') + length ?rs"
      unfolding bs dl dr list.map concat.simps append_assoc length_append by (rule refl)+
    have "?c = concat (map ?p (take k vs)) @ concat (map ?p (drop k vs))"
      unfolding concat_append[symmetric] map_append[symmetric] append_take_drop_id by (rule refl)
    from arg_cong[OF this, of length] have dlb: "dl < 2 ^ 31" using assms(4) dl unfolding length_append by linarith
    have w: "storable sub et ?w'" "reads to_obj P et ?w'" using assms(3) j(2) by simp_all
    have read: "gives (len_irep_to_obj to_obj tp et bs dl) (\<lambda>(v, l). copied ?w' v \<and> l = length (?p ?w'))"
      unfolding bs'(1) by (rule read_part[OF w(2,1)]) (use bs'(2) dlb k(4) in simp_all)
    have step: "gives (and_then (unchanged_or_fail (RDB_array_set same P a (word_of_nat j) v)) (\<lambda>a'. done_with (a', v, drop l bs, to_size (int dl - int l))))
        (?I (ys @ [j]))" if "copied ?w' v" "l = length (?p ?w')" for v l
    proof -
      let ?ds = "ds @ replicate (?n - k) RDB_init_obj"
      have len: "length ?ds = ?n" using lds k(2) by simp
      have wf: "obj_wf v" using that(1) by (simp add: copied_def)
      have upd: "?ds[k := x] = (ds @ [x]) @ replicate (?n - Suc k) RDB_init_obj" for x
      proof -
        have "replicate (?n - k) RDB_init_obj = RDB_init_obj # replicate (?n - Suc k) RDB_init_obj"
          using j(2) by (metis Suc_diff_Suc replicate_Suc)
        then show ?thesis using lds by (simp add: list_update_append)
      qed
      have rest: "drop l bs = ?rs @ rest" "to_size (int dl - int l) = length ?rs"
        using that(2) bs' dlb by (simp_all add: to_size_id)
      have "changes (RDB_array_set same P a (word_of_nat j) v) (\<lambda>d. \<exists>x. copied v x \<and> d = Obj t i (ArrayV ?w (int ?n) (?ds[k := x])))"
        using array_set_changes[of k ?ds v same P t i "int ?n"] len few assms(4) j lds wf unfolding a
        by (simp add: nth_append)
      then have "gives (unchanged_or_fail (RDB_array_set same P a (word_of_nat j) v)) (\<lambda>d. \<exists>x. copied v x \<and> d = Obj t i (ArrayV ?w (int ?n) (?ds[k := x])))"
        by (rule gives_changes)
      then show ?thesis
      proof (rule gives_and_then)
        fix a' assume "\<exists>x. copied v x \<and> a' = Obj t i (ArrayV ?w (int ?n) (?ds[k := x]))"
        then obtain x where x: "copied v x" "a' = Obj t i (ArrayV ?w (int ?n) ((ds @ [x]) @ replicate (?n - Suc k) RDB_init_obj))"
          using upd by metis
        have "copied ?w' x" using x(1) that(1) by (simp add: copied_def)
        then have "list_all2 copied (take (Suc k) vs) (ds @ [x])"
          using k(3) j(2) by (simp add: take_Suc_conv_app_nth list_all2_appendI)
        then have "?I (ys @ [j]) (a', v, ?rs @ rest, length ?rs)"
          using x(2) wf j k(1) by (auto intro!: exI[of _ "Suc k"] exI[of _ "ds @ [x]"])
        then show "gives (done_with (a', v, drop l bs, to_size (int dl - int l))) (?I (ys @ [j]))"
          unfolding rest by (rule gives_done)
      qed
    qed
    have "gives (and_then (len_irep_to_obj to_obj tp et bs dl) (\<lambda>(v, l).
       and_then (unchanged_or_fail (RDB_array_set same P a (word_of_nat j) v)) (\<lambda>a'. done_with (a', v, drop l bs, to_size (int dl - int l))))) (?I (ys @ [j]))"
      by (rule gives_and_then_pair[OF read]) (rule step; blast)
    then show "gives (?f j s) (?I (ys @ [j]))" unfolding s prod.case .
  qed
  have count: "gives (count_elems to_obj et (Suc (length (?c @ rest))) RDB_init_obj (?c @ rest) (length ?c)) (\<lambda>(v, n). obj_wf v \<and> n = ?n)"
    by (rule count_parts) (use assms few in auto)
  show ?thesis
    unfolding irep_to_array_def assms(1) and_then_simps
  proof (rule gives_and_then_pair[OF count])
    fix tpl n assume tpl: "obj_wf tpl \<and> n = ?n"
    have "changes (RDB_set_array_length P (Obj t i Initial) ?w) (\<lambda>d. d = Obj t i (ArrayV ?w (int ?n) (replicate ?n RDB_init_obj)))"
      using set_length_new[of "Obj t i Initial" ?w P] sn by (simp add: array_obj_def)
    from gives_changes[OF this]
    show "gives (and_then (unchanged_or_fail (RDB_set_array_length P (Obj t i Initial) (word_of_nat n))) (\<lambda>arr.
       and_then (thread ?f [0 ..< n] (arr, tpl, ?c @ rest, length ?c)) (\<lambda>(a, tp, _). and_then (end_with (RDB_destroy_obj tp)) (\<lambda>_. done_with a)))) ?Q"
      unfolding conjunct2[OF tpl]
    proof (rule gives_and_then)
      fix arr assume arr: "arr = Obj t i (ArrayV ?w (int ?n) (replicate ?n RDB_init_obj))"
      show "gives (and_then (thread ?f [0 ..< ?n] (arr, tpl, ?c @ rest, length ?c)) (\<lambda>(a, tp, _). and_then (end_with (RDB_destroy_obj tp)) (\<lambda>_. done_with a))) ?Q"
        unfolding arr
      proof (rule gives_and_then[OF loop[OF conjunct1[OF tpl]]])
        fix s assume inv: "?I [0 ..< ?n] s"
        obtain a tp bs dl where s: "s = (a, tp, bs, dl)" by (metis prod_cases4)
        obtain ds where ds: "list_all2 copied vs ds" "obj_wf tp" "a = Obj t i (ArrayV ?w (int ?n) ds)"
        proof -
          have "[0 ..< ?n] = [0 ..< k] \<Longrightarrow> k = ?n" for k
            by (drule arg_cong[of _ _ length]) simp
          then show ?thesis using inv that by (fastforce simp: s)
        qed
        have "map obj_abs ds = map obj_abs vs" "\<forall>d \<in> set ds. obj_wf d" "length ds = ?n"
          using ds(1) by (induction rule: list_all2_induct) (auto simp: copied_def)
        then have "?Q a" using sn by (simp add: ds(3) elems_wf_all elems_abs_map)
        then show "gives (case s of (a, tp, _) \<Rightarrow> and_then (end_with (RDB_destroy_obj tp)) (\<lambda>_. done_with a)) ?Q"
          using wf_destroy(1)[OF ds(2)] by (simp add: s giving)
      qed
    qed
  qed
qed

section \<open>Reading what was written\<close>

lemma read_parts:
  assumes "implements sub t v u" "length (header t u @ c) < 2 ^ 31" "obj_wf v0"
  defines "new \<equiv> Obj (fst (read_types t u)) (snd (read_types t u)) Initial"
  shows "RDB_val_kind u = RDB_OB_TUPLE \<Longrightarrow>
      RDB_irep_to_obj (Suc k) same P sub v0 t ((header t u @ c) @ rest) (length (header t u @ c))
       = and_then (irep_to_tuple same P (RDB_irep_to_obj k same P sub) new u (c @ rest) (length c))
           (\<lambda>(v, n). if to_int (int n) < 0 then end_with (Inl Silent) else done_with v)"
    and "RDB_val_kind u = RDB_OB_ARRAY \<Longrightarrow>
      RDB_irep_to_obj (Suc k) same P sub v0 t ((header t u @ c) @ rest) (length (header t u @ c))
       = irep_to_array same P (RDB_irep_to_obj k same P sub) new u (c @ rest) (length c)"
proof -
  have "length (header t u) + length c < 2 ^ 31" using assms(2) by simp
  note hd = read_header_result[OF assms(1) this, of "c @ rest"]
  have im: "(case impl' of None \<Rightarrow> t | Some t \<Rightarrow> t) = u" if "impl' = snd (read_types t u)" for impl'
    using read_vtyp[OF assms(1)] that by simp
  show "RDB_val_kind u = RDB_OB_TUPLE \<Longrightarrow>
      RDB_irep_to_obj (Suc k) same P sub v0 t ((header t u @ c) @ rest) (length (header t u @ c))
       = and_then (irep_to_tuple same P (RDB_irep_to_obj k same P sub) new u (c @ rest) (length c))
           (\<lambda>(v, n). if to_int (int n) < 0 then end_with (Inl Silent) else done_with v)"
    "RDB_val_kind u = RDB_OB_ARRAY \<Longrightarrow>
      RDB_irep_to_obj (Suc k) same P sub v0 t ((header t u @ c) @ rest) (length (header t u @ c))
       = irep_to_array same P (RDB_irep_to_obj k same P sub) new u (c @ rest) (length c)"
    unfolding read_any[OF assms(3)] append_assoc length_append
    by (simp_all add: hd im Let_def new_def)
qed

lemma irep_to_obj_gives:
  assumes "storable sub t v" "length (stored P t v) < 2 ^ 31" "size v < k"
  shows "reads (RDB_irep_to_obj k same P sub) P t v"
  using assms
proof (induction arbitrary: k rule: storable.induct)
  case (storable_atom t v u)
  obtain b where b: "RDB_obj_irep P v = Inr b" "stored P t v = header t u @ b" using stored_atom[OF storable_atom(1,2)] by blast
  then have len: "\<not> length (header t u) + length b \<ge> 2 ^ 31" using storable_atom(3) by simp
  obtain k' where k: "k = Suc k'" using storable_atom(4) by (cases k) auto
  have "gives (RDB_irep_to_obj (Suc k') same P sub RDB_init_obj t (header t u @ b @ rest) (length (header t u) + length b)) (copied v)" for rest
    using read_atom[OF storable_atom(1,2) b(1), of k' same rest] len by blast
  then show ?case unfolding reads_def k b(2) append_assoc length_append by (metis read_any)
next
  case (storable_tuple t v u slots cap n nts)
  obtain as where as: "attr_seq u = Inr as" "mset as = mset nts" by (rule attr_seq_sorted[OF storable_tuple(6,7)])
  then have set: "set as = set nts" by (metis set_mset_mset)
  have dist: "distinct (map fst as)" using storable_tuple(7) as(2) by (metis mset_eq_imp_distinct_iff mset_map)
  let ?c = "concat (map (piece P v) as)"
  have st: "stored P t v = header t u @ ?c" by (rule stored_tuple[OF storable_tuple(1,4,5) as(1)])
  obtain k' where k: "k = Suc k'" using storable_tuple(11) by (cases k) auto
  have parts: "\<exists>w. attrs v (fst nt) = Some w \<and> storable sub (snd nt) w \<and> reads (RDB_irep_to_obj k' same P sub) P (snd nt) w"
    if mem: "nt \<in> set as" for nt
  proof -
    obtain w where w: "attrs v (fst nt) = Some w" "storable sub (snd nt) w"
      and IH: "\<forall>k. length (stored P (snd nt) w) < 2 ^ 31 \<longrightarrow> size w < k \<longrightarrow> reads (RDB_irep_to_obj k same P sub) P (snd nt) w"
      using bspec[OF storable_tuple(9), of nt] mem set by blast
    have "length (piece P v nt) \<le> length ?c" using mem by (rule length_concat_member)
    then have "length (stored P (snd nt) w) < 2 ^ 31" using storable_tuple(10) st w(1) by (simp add: piece_def part_length)
    moreover have "size w < k'"
      using tuple_get_size[of v "fst nt" w] tuple_inv_get[OF storable_tuple(5)] w(1) storable_tuple(11) k by simp
    ultimately show ?thesis using w IH by blast
  qed
  have len: "length (header t u) + length ?c < 2 ^ 31" using storable_tuple(10) st by simp
  have to_int: "to_int (int (length ?c)) = int (length ?c)" using len by (intro to_int_id) simp_all
  let ?o = "Obj (fst (read_types t u)) (snd (read_types t u)) Initial"
  have read: "gives (irep_to_tuple same P (RDB_irep_to_obj k' same P sub) ?o u (?c @ rest) (length ?c))
    (\<lambda>(d, n). copied v d \<and> n = length ?c)" for rest
  proof (rule gives_mono, rule read_tuple[OF as(1) dist _ storable_tuple(5)])
    show "dom (attrs v) = fst ` set as" using storable_tuple(8) set by simp
    show "\<forall>nt \<in> set as. \<exists>w. attrs v (fst nt) = Some w \<and> storable sub (snd nt) w \<and> reads (RDB_irep_to_obj k' same P sub) P (snd nt) w"
      using parts by blast
    show "length ?c < 2 ^ 31" using len by simp
  next
    fix r assume r: "case r of (d, n) \<Rightarrow> n = length ?c \<and> obj_wf d \<and> typ_of d = fst (read_types t u)
        \<and> impl_of d = snd (read_types t u) \<and> val_abs (val_of d) = val_abs (val_of v)"
    obtain d n' where d: "r = (d, n')" by (cases r)
    obtain w where "d = Obj (fst (read_types t u)) (snd (read_types t u)) w" "val_abs w = val_abs (val_of v)"
      using r by (cases d) (auto simp: d)
    then show "case r of (d, n) \<Rightarrow> copied v d \<and> n = length ?c"
      using r read_as[OF storable_tuple(1), of w] by (simp add: d copied_def)
  qed
  have fin: "gives (and_then (irep_to_tuple same P (RDB_irep_to_obj k' same P sub) ?o u (?c @ rest) (length ?c))
     (\<lambda>(v, n). if to_int (int n) < 0 then end_with (Inl Silent) else done_with v)) (copied v)" for rest
    by (rule gives_and_then_pair[OF read]) (simp add: to_int giving)
  show ?case
    unfolding reads_def
  proof (intro allI impI)
    fix v0 rest assume "obj_wf v0"
    then show "gives (RDB_irep_to_obj k same P sub v0 t (stored P t v @ rest) (length (stored P t v))) (copied v)"
      using fin[of rest] read_parts(1)[OF storable_tuple(1), of ?c] storable_tuple(2,10) unfolding k st by (simp only:)
  qed
next
  case (storable_array t v u n cap es et)
  let ?vs = "take (nat (sint n)) es" and ?p = "\<lambda>w. part et (stored P et w)"
  let ?c = "concat (map ?p ?vs)"
  have st: "stored P t v = header t u @ ?c" by (rule stored_array[OF storable_array(1,4,6,7)])
  have vs: "array_elems n es = Inr ?vs" using storable_array(6) by (simp add: array_elems_def)
  obtain k' where k: "k = Suc k'" using storable_array(11) by (cases k) auto
  have parts: "storable sub et w \<and> reads (RDB_irep_to_obj k' same P sub) P et w" if mem: "w \<in> set ?vs" for w
  proof -
    have "storable sub et w"
      and IH: "\<forall>k. length (stored P et w) < 2 ^ 31 \<longrightarrow> size w < k \<longrightarrow> reads (RDB_irep_to_obj k same P sub) P et w"
      using bspec[OF storable_array(9) mem] by blast+
    moreover have "length (?p w) \<le> length ?c" using mem by (rule length_concat_member)
    then have "length (stored P et w) < 2 ^ 31" using storable_array(10) st by (simp add: part_length)
    moreover have "size w < k'" using array_elems_size[OF storable_array(4) vs mem] storable_array(11) k by simp
    ultimately show ?thesis by blast
  qed
  have len: "length (header t u) + length ?c < 2 ^ 31" using storable_array(10) st by simp
  let ?o = "Obj (fst (read_types t u)) (snd (read_types t u)) Initial"
  have va: "val_abs (val_of v) = Elems (map obj_abs ?vs)" by (simp add: storable_array(4) elems_abs_map take_map)
  have read: "gives (irep_to_array same P (RDB_irep_to_obj k' same P sub) ?o u (?c @ rest) (length ?c)) (copied v)" for rest
  proof (rule gives_mono, rule read_array[OF storable_array(7,8)])
    show "\<forall>w \<in> set ?vs. storable sub et w \<and> reads (RDB_irep_to_obj k' same P sub) P et w" using parts by blast
    show "length ?c < 2 ^ 31" using len by simp
  next
    fix d assume d: "obj_wf d \<and> typ_of d = fst (read_types t u) \<and> impl_of d = snd (read_types t u)
        \<and> val_abs (val_of d) = Elems (map obj_abs ?vs)"
    obtain w where "d = Obj (fst (read_types t u)) (snd (read_types t u)) w" "val_abs w = val_abs (val_of v)"
      using d va by (cases d) auto
    then show "copied v d" using d read_as[OF storable_array(1), of w] by (simp add: copied_def)
  qed
  show ?case
    unfolding reads_def
  proof (intro allI impI)
    fix v0 rest assume "obj_wf v0"
    then show "gives (RDB_irep_to_obj k same P sub v0 t (stored P t v @ rest) (length (stored P t v))) (copied v)"
      using read[of rest] read_parts(2)[OF storable_array(1), of ?c] storable_array(2,10) unfolding k st by (simp only:)
  qed
qed

section \<open>Properties\<close>

lemma gives_run:
  assumes "gives f Q" "fails m = []"
  shows "\<exists>v m'. f m = (Inr v, m') \<and> Q v"
proof -
  obtain r m' where run: "f m = (r, m')" by fastforce
  show ?thesis using givesD(2)[OF assms(1) run] assms(2) run by auto
qed

lemma runs_run:
  assumes "runs f r" "fails m = []"
  shows "\<exists>m'. f m = (r, m') \<and> fails m' = []"
proof (intro exI)
  show "f m = (r, snd (f m)) \<and> fails (snd (f m)) = []" using assms by (cases "f m") (fastforce simp: runs_def)
qed

text \<open>
  C7: A value that is written to a block and read back, with the length computed by
  RDB_obj_ilen, is the same value, whatever the object held into which it is read; the rest of the block is unchanged.
\<close>

theorem stored_value_round_trip:
  assumes "storable sub t v" "length (stored P t v) < 2 ^ 31" "bp + length (stored P t v) \<le> length buf"
    and "obj_wf v0" "size v < k" "fails m = []"
  shows "\<exists>len m1 buf' m2 w m3. RDB_obj_ilen t v m = (Inr len, m1)
     \<and> RDB_obj_to_irep P t v buf bp len m1 = (Inr buf', m2)
     \<and> RDB_irep_to_obj k same P sub v0 t (drop bp buf') len m2 = (Inr w, m3)
     \<and> obj_abs w = obj_abs v \<and> obj_wf w
     \<and> take bp buf' = take bp buf \<and> drop (bp + len) buf' = drop (bp + len) buf"
proof -
  let ?b = "stored P t v"
  have "runs (RDB_obj_ilen t v) (Inr (length ?b))" using ilen_computes[OF assms(1,2)] by (rule runs_computes)
  then obtain m1 where m1: "RDB_obj_ilen t v m = (Inr (length ?b), m1)" "fails m1 = []"
    using runs_run assms(6) by blast
  obtain m2 where m2: "RDB_obj_to_irep P t v buf bp (length ?b) m1 = (Inr (put_at buf bp ?b), m2)" "fails m2 = []"
    using runs_run[OF to_irep_runs[OF assms(1-3)] m1(2)] by blast
  have rest: "drop bp (put_at buf bp ?b) = ?b @ drop (bp + length ?b) buf" "take bp (put_at buf bp ?b) = take bp buf"
    "drop (bp + length ?b) (put_at buf bp ?b) = drop (bp + length ?b) buf"
    using assms(3) by (simp_all add: put_at_def)
  have "gives (RDB_irep_to_obj k same P sub v0 t (?b @ drop (bp + length ?b) buf) (length ?b)) (copied v)"
    using irep_to_obj_gives[OF assms(1,2,5), of same] assms(4) by (simp add: reads_def)
  from gives_run[OF this m2(2)]
  obtain w m3 where "RDB_irep_to_obj k same P sub v0 t (?b @ drop (bp + length ?b) buf) (length ?b) m2 = (Inr w, m3)" "copied v w" by blast
  then show ?thesis using m1(1) m2(1) rest by (auto simp: copied_def)
qed

definition sample_array :: rdb_obj where
  "sample_array = Obj None None (ArrayV 2 2 [Obj (Some RDB_INTEGER) None (IntV 7), Obj (Some RDB_INTEGER) None (IntV (-1))])"

lemma storable_sample: "storable sub (Array RDB_INTEGER) sample_array"
  and sample_length: "length (stored c_locale (Array RDB_INTEGER) sample_array) = 8"
proof -
  let ?o = "\<lambda>i. Obj (Some RDB_INTEGER) None (IntV i)"
  have "RDB_val_kind RDB_INTEGER = RDB_OB_INT" "RDB_type_is_scalar RDB_INTEGER" "\<not> RDB_type_is_dummy RDB_INTEGER" "irep_length RDB_INTEGER = 4"
    by code_simp+
  then have elem: "storable sub RDB_INTEGER (?o i)" for i
    by (intro storable_atom[of _ _ _ RDB_INTEGER]) (simp_all add: implements_def atom_ok_def)
  have arr: "implements sub (Array RDB_INTEGER) sample_array (Array RDB_INTEGER)" "elem_type (Array RDB_INTEGER) = Inr RDB_INTEGER"
      "val_of sample_array = ArrayV 2 2 [?o 7, ?o (-1)]" "irep_length (Array RDB_INTEGER) = -1"
    by (simp_all add: implements_def sample_array_def scalar_only_def elem_type_def parts_type_def irep_length_def)
  show "storable sub (Array RDB_INTEGER) sample_array"
    by (rule storable_array[OF arr(1) _ arr(4,3) _ _ arr(2)]) (use elem \<open>irep_length RDB_INTEGER = 4\<close> in auto)
  have "length (part RDB_INTEGER (stored c_locale RDB_INTEGER (?o i))) = 4" for i
    using storable_length[OF elem[of i], of c_locale] \<open>irep_length RDB_INTEGER = 4\<close> by (simp add: part_length)
  then show "length (stored c_locale (Array RDB_INTEGER) sample_array) = 8"
    using stored_array[OF arr(1,3) _ arr(2), of c_locale] by (simp add: header_def)
qed

lemma stored_value_round_trip_witness:
  "\<exists>len m1 buf' m2 w m3. RDB_obj_ilen (Array RDB_INTEGER) sample_array mem_ok = (Inr len, m1)
     \<and> RDB_obj_to_irep c_locale (Array RDB_INTEGER) sample_array (replicate 10 CHR ''x'') 1 len m1 = (Inr buf', m2)
     \<and> RDB_irep_to_obj 99 (=) c_locale (\<lambda>_ _. None) RDB_init_obj (Array RDB_INTEGER) (drop 1 buf') len m2 = (Inr w, m3)
     \<and> obj_abs w = obj_abs sample_array \<and> take 1 buf' = ''x''"
proof -
  have "size sample_array < 99" by (simp add: sample_array_def)
  with stored_value_round_trip[OF storable_sample _ _ init_obj_simps(4) _ fails_mem_ok,
      of c_locale 1 "replicate 10 CHR ''x''" 99 "(=)" "\<lambda>_ _. None"]
  show ?thesis by (fastforce simp: sample_length)
qed



text \<open>C21: The order in which a tuple type has its attributes does not change what is stored.\<close>

theorem stored_order_canonical:
  assumes "mset as = mset bs" "distinct (map name_or_empty as)"
  shows "RDB_obj_to_irep P (Tuple as) v buf bp len = RDB_obj_to_irep P (Tuple bs) v buf bp len"
proof -
  have "attr_seq (Tuple as) = attr_seq (Tuple bs)"
    using attrs_in_order_canonical[OF assms(2,1)] by (simp add: attr_seq_def parts_type_def)
  then show ?thesis
    by (cases "val_of v") (simp_all add: RDB_obj_to_irep.simps[of P _ v] write_header_def impl_for_def elem_type_def parts_type_def)
qed

lemma stored_order_canonical_witness:
  "RDB_obj_to_irep c_locale (Tuple [Some (''A'', RDB_INTEGER), Some (''B'', RDB_FLOAT)]) RDB_init_obj [] 0 0
    = RDB_obj_to_irep c_locale (Tuple [Some (''B'', RDB_FLOAT), Some (''A'', RDB_INTEGER)]) RDB_init_obj [] 0 0"
  by (rule stored_order_canonical) (simp_all add: name_or_empty_def add_mset_commute)

end
