(* ===== verification/Expressions.thy ===== *)
theory Expressions
  imports Storage_Properties
begin

text \<open>
  Expressions, \<^verbatim>\<open>obj/expression.c\<close>: how they are built, copied, searched and how variables in them are
  replaced.  The arguments of an operator are a list that belongs to its expression; a
  function that changes an expression in place returns the changed expression.
\<close>

section \<open>Expressions\<close>

text \<open>
  The first component is the type, if it is known.  An operator invocation has the values that the
  optimizer attached to it (\<^verbatim>\<open>optinfo\<close>).  The flags that the query transformation sets are left out.
\<close>

datatype rdb_expression =
    ExObj (etyp: "rdb_type option") (exobj: rdb_obj)
  | ExTbp (etyp: "rdb_type option") (tbref: nat) (indexref: "nat option")
  | ExVar (etyp: "rdb_type option") (varname: string)
  | ExOp (etyp: "rdb_type option") (opname: string) (opargs: "rdb_expression list") (optobjs: "rdb_obj list")

datatype expr_kind = RDB_EX_OBJ | RDB_EX_TBP | RDB_EX_VAR | RDB_EX_RO_OP

fun RDB_expr_kind :: "rdb_expression \<Rightarrow> expr_kind" where
  "RDB_expr_kind (ExObj _ _) = RDB_EX_OBJ" | "RDB_expr_kind (ExTbp _ _ _) = RDB_EX_TBP"
| "RDB_expr_kind (ExVar _ _) = RDB_EX_VAR" | "RDB_expr_kind (ExOp _ _ _ _) = RDB_EX_RO_OP"

fun RDB_expr_is_const :: "rdb_expression \<Rightarrow> bool" where
  "RDB_expr_is_const (ExObj t v) = True"
| "RDB_expr_is_const (ExOp t n as vs) = list_all RDB_expr_is_const as"
| "RDB_expr_is_const _ = False"

fun RDB_expr_op_name :: "rdb_expression \<Rightarrow> string option" where
  "RDB_expr_op_name (ExOp t n as vs) = Some n" | "RDB_expr_op_name _ = None"

fun RDB_expr_op_args :: "rdb_expression \<Rightarrow> rdb_expression list option" where
  "RDB_expr_op_args (ExOp t n as vs) = Some as" | "RDB_expr_op_args _ = None"

fun RDB_expr_var_name :: "rdb_expression \<Rightarrow> string option" where
  "RDB_expr_var_name (ExVar t n) = Some n" | "RDB_expr_var_name _ = None"

text \<open>A table is not part of the model; only its reference is known.\<close>

fun RDB_expr_obj :: "rdb_expression \<Rightarrow> (rdb_obj + nat) option" where
  "RDB_expr_obj (ExObj t v) = Some (Inl v)" | "RDB_expr_obj (ExTbp t a i) = Some (Inr a)" | "RDB_expr_obj _ = None"

fun RDB_expr_is_string :: "rdb_expression \<Rightarrow> bool" where
  "RDB_expr_is_string (ExObj t v) = (typ_of v = Some RDB_STRING)" | "RDB_expr_is_string _ = False"

fun RDB_expr_is_op :: "rdb_expression \<Rightarrow> string \<Rightarrow> bool" where
  "RDB_expr_is_op (ExOp t n as vs) name = (n = name)" | "RDB_expr_is_op _ name = False"

definition RDB_expr_is_binop :: "rdb_expression \<Rightarrow> string \<Rightarrow> bool" where
  "RDB_expr_is_binop exp name \<longleftrightarrow> RDB_expr_is_op exp name \<and> length (opargs exp) = 2"

definition RDB_expr_is_table_ref :: "rdb_expression \<Rightarrow> bool" where
  "RDB_expr_is_table_ref exp \<longleftrightarrow> RDB_expr_kind exp = RDB_EX_TBP"

definition RDB_expr_list_get :: "rdb_expression list \<Rightarrow> int \<Rightarrow> rdb_expression option" where
  "RDB_expr_list_get as n = (let i = nat n in if i < length as then Some (as ! i) else None)"

definition RDB_expr_list_length :: "rdb_expression list \<Rightarrow> i32" where
  "RDB_expr_list_length as = word_of_nat (length as)"

fun RDB_expr_refers_var :: "rdb_expression \<Rightarrow> string \<Rightarrow> bool" where
  "RDB_expr_refers_var (ExVar t n) attrname = (n = attrname)"
| "RDB_expr_refers_var (ExOp t n as vs) attrname = list_ex (\<lambda>a. RDB_expr_refers_var a attrname) as"
| "RDB_expr_refers_var _ attrname = False"

text \<open>Searching a term for an index: an operator applied to a variable and a constant among the operands of \<^verbatim>\<open>and\<close>.\<close>

fun expr_var :: "rdb_expression \<Rightarrow> string \<Rightarrow> string \<Rightarrow> bool result" where
  "expr_var (ExOp t n as vs) attrname name =
     (if n \<noteq> name then Inr False
      else case as of
        [] \<Rightarrow> Inl Segfault
      | a # bs \<Rightarrow>
          if RDB_expr_var_name a = Some attrname
          then (case bs of [] \<Rightarrow> Inl Segfault | b # _ \<Rightarrow> Inr (RDB_expr_kind b = RDB_EX_OBJ))
          else Inr False)"
| "expr_var _ attrname name = Inr False"

fun RDB_attr_node :: "rdb_expression \<Rightarrow> string \<Rightarrow> string \<Rightarrow> rdb_expression option result" where
  "RDB_attr_node (ExOp t n as vs) attrname name =
     (if n = ''and'' then
        (case as of
           a # b # _ \<Rightarrow> rbind (expr_var b attrname name) (\<lambda>found.
              if found then Inr (Some b) else RDB_attr_node a attrname name)
         | _ \<Rightarrow> Inl Segfault)
      else rbind (expr_var (ExOp t n as vs) attrname name) (\<lambda>found. Inr (if found then Some (ExOp t n as vs) else None)))"
| "RDB_attr_node _ attrname name = Inr None"

section \<open>Construction\<close>

definition new_expr :: "(rdb_type option \<Rightarrow> rdb_expression) \<Rightarrow> rdb_expression action" where
  "new_expr e = and_then RDB_alloc (\<lambda>_. done_with (e None))"

definition RDB_bool_to_expr :: "bool \<Rightarrow> rdb_expression action" where
  "RDB_bool_to_expr v = new_expr (\<lambda>t. ExObj t (Obj (Some RDB_BOOLEAN) None (BoolV v)))"

definition RDB_int_to_expr :: "i32 \<Rightarrow> rdb_expression action" where
  "RDB_int_to_expr v = new_expr (\<lambda>t. ExObj t (Obj (Some RDB_INTEGER) None (IntV v)))"

definition RDB_float_to_expr :: "double \<Rightarrow> rdb_expression action" where
  "RDB_float_to_expr v = new_expr (\<lambda>t. ExObj t (Obj (Some RDB_FLOAT) None (FloatV v)))"

definition RDB_string_to_expr :: "string \<Rightarrow> rdb_expression action" where
  "RDB_string_to_expr v =
     and_then RDB_alloc (\<lambda>_. and_then (dup_name v) (\<lambda>s. done_with (ExObj None (Obj (Some RDB_STRING) None (BinV (s @ [NUL]))))))"

definition copy_new_obj :: "(rdb_type \<Rightarrow> rdb_type \<Rightarrow> bool) \<Rightarrow> platform \<Rightarrow> rdb_obj \<Rightarrow> rdb_obj action" where
  "copy_new_obj same P v = unchanged_or_fail (RDB_copy_obj same P RDB_init_obj v)"

definition RDB_obj_to_expr :: "(rdb_type \<Rightarrow> rdb_type \<Rightarrow> bool) \<Rightarrow> platform \<Rightarrow> rdb_obj option \<Rightarrow> rdb_expression action" where
  "RDB_obj_to_expr same P objp =
     and_then (new_expr (\<lambda>t. ExObj t RDB_init_obj)) (\<lambda>e.
       case objp of
         None \<Rightarrow> done_with e
       | Some v \<Rightarrow>
           and_then (copy_new_obj same P v) (\<lambda>d.
             case typ_of v of
               Some t \<Rightarrow>
                 if typ_of d = None
                 then and_then (RDB_dup_nonscalar_type t) (\<lambda>t'. done_with (ExObj None (Obj (Some t') (impl_of d) (val_of d))))
                 else done_with (ExObj None d)
             | None \<Rightarrow> done_with (ExObj None d)))"

definition RDB_table_ref :: "nat \<Rightarrow> rdb_expression action" where
  "RDB_table_ref tbp = new_expr (\<lambda>t. ExTbp t tbp None)"

definition RDB_var_ref :: "string \<Rightarrow> rdb_expression action" where
  "RDB_var_ref attrname = and_then RDB_alloc (\<lambda>_. and_then (dup_name attrname) (\<lambda>n. done_with (ExVar None n)))"

definition RDB_ro_op :: "string \<Rightarrow> rdb_expression action" where
  "RDB_ro_op name = and_then RDB_alloc (\<lambda>_. and_then (dup_name name) (\<lambda>n. done_with (ExOp None n [] [])))"

fun RDB_add_arg :: "rdb_expression \<Rightarrow> rdb_expression \<Rightarrow> rdb_expression" where
  "RDB_add_arg (ExOp t n as vs) argp = ExOp t n (as @ [argp]) vs"
| "RDB_add_arg e argp = e"

definition RDB_eq :: "rdb_expression \<Rightarrow> rdb_expression \<Rightarrow> rdb_expression action" where
  "RDB_eq arg1 arg2 = and_then (RDB_ro_op ''='') (\<lambda>e. done_with (RDB_add_arg (RDB_add_arg e arg1) arg2))"

definition RDB_tuple_attr :: "rdb_expression \<Rightarrow> string \<Rightarrow> rdb_expression action" where
  "RDB_tuple_attr e1 attrname =
     and_then (RDB_var_ref attrname) (\<lambda>arg2. and_then (RDB_ro_op ''.'') (\<lambda>e. done_with (RDB_add_arg (RDB_add_arg e e1) arg2)))"

definition RDB_expr_property :: "rdb_expression \<Rightarrow> string \<Rightarrow> rdb_expression action" where
  "RDB_expr_property e1 compname =
     and_then (RDB_var_ref compname) (\<lambda>arg2. and_then (RDB_ro_op ''.'') (\<lambda>e. done_with (RDB_add_arg (RDB_add_arg e e1) arg2)))"

definition qid_misused :: string where
  "qid_misused = ''invalid usage of '' @ [CHR 0x27, CHR ''.'', CHR 0x27]"

text \<open>The branch for an operator has no \<^verbatim>\<open>break\<close> and ends with the error.\<close>

fun RDB_expr_attr_qid :: "platform \<Rightarrow> rdb_expression \<Rightarrow> rdb_obj \<Rightarrow> rdb_obj action" where
  "RDB_expr_attr_qid P (ExOp t n as vs) idobjp =
     (case as of
        [] \<Rightarrow> end_with (Inl Segfault)
      | a # bs \<Rightarrow>
          (case a of
             ExVar _ v \<Rightarrow>
               and_then (RDB_string_to_obj P idobjp v) (\<lambda>o1.
               and_then (RDB_append_string P o1 ''.'') (\<lambda>o2.
                 case bs of
                   b # _ \<Rightarrow> (case RDB_expr_var_name b of None \<Rightarrow> end_with (Inl Segfault) | Some w \<Rightarrow> RDB_append_string P o2 w)
                 | [] \<Rightarrow> end_with (Inl Segfault)))
           | ExOp _ m _ _ \<Rightarrow>
               if m \<noteq> ''.'' then raise_error INVALID_ARGUMENT_ERROR qid_misused
               else and_then (RDB_expr_attr_qid P a idobjp) (\<lambda>_. raise_error INVALID_ARGUMENT_ERROR qid_misused)
           | _ \<Rightarrow> raise_error INVALID_ARGUMENT_ERROR qid_misused))"
| "RDB_expr_attr_qid P _ idobjp = end_with (Inl Segfault)"

section \<open>Copying\<close>

definition needs_typeinfo :: "rdb_type option \<Rightarrow> string \<Rightarrow> rdb_expression list \<Rightarrow> bool" where
  "needs_typeinfo t n as \<longleftrightarrow> t \<noteq> None \<and> as = [] \<and> (n = ''relation'' \<or> n = ''array'')"

definition dup_type_opt :: "rdb_type option \<Rightarrow> rdb_type option action" where
  "dup_type_opt t = (case t of None \<Rightarrow> done_with None | Some t' \<Rightarrow> and_then (RDB_dup_nonscalar_type t') (\<lambda>u. done_with (Some u)))"

text \<open>
  Copying an operator can copy its type twice: for a selector without arguments, and at the
  end for every expression.
\<close>

lemma arg_size:
  "a \<in> set as \<Longrightarrow> size (a :: rdb_expression) < Suc (size_list size as)"
  "a \<in> set as \<Longrightarrow> size (a :: rdb_expression) < Suc (size_list size as + k)"
  by (induction as) auto

function RDB_dup_expr :: "(rdb_type \<Rightarrow> rdb_type \<Rightarrow> bool) \<Rightarrow> platform \<Rightarrow> rdb_expression \<Rightarrow> rdb_expression action" where
  "RDB_dup_expr same P (ExObj t v) =
     and_then (RDB_obj_to_expr same P (Some v)) (\<lambda>e. and_then (dup_type_opt t) (\<lambda>t'. done_with (ExObj t' (exobj e))))"
| "RDB_dup_expr same P (ExTbp t a i) =
     and_then (RDB_table_ref a) (\<lambda>e. and_then (dup_type_opt t) (\<lambda>t'. done_with (ExTbp t' a i)))"
| "RDB_dup_expr same P (ExVar t n) =
     and_then (RDB_var_ref n) (\<lambda>e. and_then (dup_type_opt t) (\<lambda>t'. done_with (ExVar t' (varname e))))"
| "RDB_dup_expr same P (ExOp t n as vs) =
     and_then (RDB_ro_op n) (\<lambda>e.
     and_then (each (RDB_dup_expr same P) as) (\<lambda>as'.
     and_then (if needs_typeinfo t n as then dup_type_opt t else done_with None) (\<lambda>_.
     and_then (if vs = [] then done_with [] else and_then RDB_alloc (\<lambda>_. and_then RDB_alloc (\<lambda>_. each (copy_new_obj same P) vs))) (\<lambda>vs'.
     and_then (dup_type_opt t) (\<lambda>t'. done_with (ExOp t' (opname e) as' vs'))))))"
  by pat_completeness auto

termination
  by (relation "measure (\<lambda>(same, P, e). size e)") (auto intro: arg_size)

declare RDB_dup_expr.simps [simp del]

section \<open>Replacing variables\<close>

text \<open>
  The arguments are taken from the list one by one and appended again; when one of them fails, it
  and those after it are lost.
\<close>

fun change_args :: "(rdb_expression \<Rightarrow> rdb_expression change) \<Rightarrow> rdb_expression list \<Rightarrow> rdb_expression list \<Rightarrow> rdb_expression list change" where
  "change_args f [] bs = changed bs"
| "change_args f (a # as) bs =
     (\<lambda>m. case f a m of (Inl e, a', m') \<Rightarrow> (Inl e, bs, m') | (Inr _, a', m') \<Rightarrow> change_args f as (bs @ [a']) m')"

lemma change_args_cong [fundef_cong]:
  assumes "as = as'" "\<And>a. a \<in> set as' \<Longrightarrow> f a = g a" "bs = bs'"
  shows "change_args f as bs = change_args g as' bs'"
  unfolding assms(1,3) using assms(2)
proof (induction as' arbitrary: bs')
  case (Cons a as)
  then have "f a = g a" "\<And>bs. change_args f as bs = change_args g as bs" by simp_all
  then show ?case by (simp add: fun_eq_iff split: prod.split sum.split)
qed simp

definition change_op :: "(rdb_expression list \<Rightarrow> rdb_expression list change) \<Rightarrow> rdb_expression \<Rightarrow> rdb_expression change" where
  "change_op f e m = (case f (opargs e) m of (r, as', m') \<Rightarrow> (r, ExOp (etyp e) (opname e) as' (optobjs e), m'))"

lemma change_op_cong [fundef_cong]:
  "(f (opargs e) = f' (opargs e)) \<Longrightarrow> e = e' \<Longrightarrow> change_op f e = change_op f' e'"
  by (simp add: fun_eq_iff change_op_def)

text \<open>A variable becomes a copy of the expression.\<close>

definition replace_var :: "rdb_expression \<Rightarrow> rdb_expression action \<Rightarrow> rdb_expression change" where
  "replace_var e f = or_keep e f"

function RDB_expr_resolve_varname_expr ::
  "(rdb_type \<Rightarrow> rdb_type \<Rightarrow> bool) \<Rightarrow> platform \<Rightarrow> rdb_expression \<Rightarrow> string \<Rightarrow> rdb_expression \<Rightarrow> rdb_expression change" where
  "RDB_expr_resolve_varname_expr same P (ExOp t n as vs) x texp =
     change_op (\<lambda>as. change_args (\<lambda>a. RDB_expr_resolve_varname_expr same P a x texp) as []) (ExOp t n as vs)"
| "RDB_expr_resolve_varname_expr same P (ExVar t n) x texp =
     (if x = n then or_keep (ExVar t n) (RDB_dup_expr same P texp) else changed (ExVar t n))"
| "RDB_expr_resolve_varname_expr same P (ExObj t v) x texp = changed (ExObj t v)"
| "RDB_expr_resolve_varname_expr same P (ExTbp t a i) x texp = changed (ExTbp t a i)"
  by pat_completeness auto

termination
  by (relation "measure (\<lambda>(same, P, e, x, te). size e)") (auto intro: arg_size)

text \<open>
  The list that says what replaces what alternates between an expression and a name.  A name is
  the string of a constant; a list that ends with an expression is read beyond its end.
\<close>

fun expr_string :: "rdb_expression \<Rightarrow> string result" where
  "expr_string (ExObj t v) = RDB_obj_string v" | "expr_string _ = Inl Segfault"

fun find_name :: "string \<Rightarrow> rdb_expression list \<Rightarrow> rdb_expression option result" where
  "find_name x [] = Inr None"
| "find_name x [e] = Inl Segfault"
| "find_name x (e # n # es) = rbind (expr_string n) (\<lambda>s. if s = x then Inr (Some e) else find_name x es)"

function RDB_resolve_exprnames ::
  "(rdb_type \<Rightarrow> rdb_type \<Rightarrow> bool) \<Rightarrow> platform \<Rightarrow> rdb_expression \<Rightarrow> rdb_expression list \<Rightarrow> rdb_expression change" where
  "RDB_resolve_exprnames same P (ExOp t n as vs) texps =
     change_op (\<lambda>as. change_args (\<lambda>a. RDB_resolve_exprnames same P a texps) as []) (ExOp t n as vs)"
| "RDB_resolve_exprnames same P (ExVar t x) texps =
     (case find_name x texps of
        Inl e \<Rightarrow> failing (Inl e) (ExVar t x)
      | Inr None \<Rightarrow> changed (ExVar t x)
      | Inr (Some e) \<Rightarrow> or_keep (ExVar t x) (RDB_dup_expr same P e))"
| "RDB_resolve_exprnames same P (ExObj t v) texps = changed (ExObj t v)"
| "RDB_resolve_exprnames same P (ExTbp t a i) texps = changed (ExTbp t a i)"
  by pat_completeness auto

termination
  by (relation "measure (\<lambda>(same, P, e, te). size e)") (auto intro: arg_size)

text \<open>The inverse of a renaming: a variable with the new name gets the old one.\<close>

fun invrename_args :: "(rdb_expression \<Rightarrow> rdb_expression change) \<Rightarrow> rdb_expression list \<Rightarrow> rdb_expression list change" where
  "invrename_args f [] = changed []"
| "invrename_args f (a # as) = (\<lambda>m.
     case f a m of
        (Inl e, a', m') \<Rightarrow> (Inl e, a' # as, m')
      | (Inr _, a', m') \<Rightarrow> (case invrename_args f as m' of (r, as', m'') \<Rightarrow> (r, a' # as', m'')))"

lemma invrename_args_cong [fundef_cong]:
  assumes "as = as'" "\<And>a. a \<in> set as' \<Longrightarrow> f a = g a"
  shows "invrename_args f as = invrename_args g as'"
  unfolding assms(1) using assms(2)
proof (induction as')
  case (Cons a as)
  then have "f a = g a" "invrename_args f as = invrename_args g as" by simp_all
  then show ?case by (simp add: fun_eq_iff split: prod.split sum.split)
qed simp

function RDB_invrename_expr :: "rdb_expression \<Rightarrow> rdb_expression \<Rightarrow> rdb_expression change" where
  "RDB_invrename_expr (ExOp t n as vs) texp =
     change_op (invrename_args (\<lambda>a. RDB_invrename_expr a texp)) (ExOp t n as vs)"
| "RDB_invrename_expr (ExVar t x) texp =
     (case RDB_expr_op_args texp of
        Some (_ # texps) \<Rightarrow>
          (case find_name x texps of
             Inl e \<Rightarrow> failing (Inl e) (ExVar t x)
           | Inr None \<Rightarrow> changed (ExVar t x)
           | Inr (Some e) \<Rightarrow> or_keep (ExVar t x)
               (and_then (end_with (expr_string e)) (\<lambda>y. and_then RDB_realloc (\<lambda>_. done_with (ExVar t y)))))
      | _ \<Rightarrow> failing (Inl Segfault) (ExVar t x))"
| "RDB_invrename_expr (ExObj t v) texp = changed (ExObj t v)"
| "RDB_invrename_expr (ExTbp t a i) texp = changed (ExTbp t a i)"
  by pat_completeness auto

termination
  by (relation "measure (\<lambda>(e, te). size e)") (auto intro: arg_size)

text \<open>
  \<^verbatim>\<open>normalize_comparisons\<close> of \<^verbatim>\<open>rel/transform.c\<close>: a comparison of a constant with a variable
  is turned around.
\<close>

definition turnable :: "string list" where
  "turnable = [''='', ''<='', ''<'', ''>='', ''>'']"

definition turned :: "string \<Rightarrow> string" where
  "turned n = (if n = ''<='' then ''>='' else if n = ''<'' then ''>'' else if n = ''>='' then ''<='' else if n = ''>'' then ''<'' else n)"

fun normalize_comparisons :: "rdb_expression \<Rightarrow> rdb_expression" where
  "normalize_comparisons (ExOp t n as vs) =
     (if length as = 2 \<and> n \<in> set turnable
      then case as of
             [ExObj tc c, ExVar tx x] \<Rightarrow> ExOp t (turned n) [ExVar tx x, ExObj tc c] vs
           | _ \<Rightarrow> ExOp t n as vs
      else ExOp t n (map normalize_comparisons as) vs)"
| "normalize_comparisons e = e"

end
