(* ===== verification/Expression_Laws.thy ===== *)
theory Expression_Laws
  imports Expressions
begin

text \<open>
  Copies of expressions are equal to the original, and replacing variables in an expression
  has the meaning of evaluating it in a changed environment.
\<close>

section \<open>Copies\<close>

fun type_opt_wf :: "rdb_type option \<Rightarrow> bool" where
  "type_opt_wf None \<longleftrightarrow> True" | "type_opt_wf (Some t) \<longleftrightarrow> type_wf t"

fun expr_wf :: "rdb_expression \<Rightarrow> bool" where
  "expr_wf (ExObj t v) \<longleftrightarrow> type_opt_wf t \<and> obj_wf v \<and> type_opt_wf (typ_of v)"
| "expr_wf (ExTbp t a i) \<longleftrightarrow> type_opt_wf t"
| "expr_wf (ExVar t n) \<longleftrightarrow> type_opt_wf t"
| "expr_wf (ExOp t n as vs) \<longleftrightarrow> type_opt_wf t \<and> list_all expr_wf as \<and> list_all obj_wf vs"

definition same_obj :: "rdb_obj \<Rightarrow> rdb_obj \<Rightarrow> bool" where
  "same_obj v w \<longleftrightarrow> copied v w \<and> typ_of w = typ_of v"

fun same_expr :: "rdb_expression \<Rightarrow> rdb_expression \<Rightarrow> bool" where
  "same_expr (ExObj t v) (ExObj u w) \<longleftrightarrow> u = t \<and> same_obj v w"
| "same_expr (ExTbp t a i) (ExTbp u b j) \<longleftrightarrow> u = t \<and> b = a \<and> j = i"
| "same_expr (ExVar t n) (ExVar u m) \<longleftrightarrow> u = t \<and> m = n"
| "same_expr (ExOp t n as vs) (ExOp u m bs ws) \<longleftrightarrow> u = t \<and> m = n \<and> list_all2 same_expr as bs \<and> list_all2 copied vs ws"
| "same_expr _ _ \<longleftrightarrow> False"

lemma gives_each:
  assumes "\<And>x. x \<in> set xs \<Longrightarrow> gives (f x) (R x)"
  shows "gives (each f xs) (list_all2 R xs)"
  using assms
proof (induction xs)
  case (Cons x xs)
  have "gives (f x) (R x)" "gives (each f xs) (list_all2 R xs)" using Cons by simp_all
  then show ?case unfolding each.simps by (auto intro!: gives_and_then[of "f x"] gives_and_then[of "each f xs"] giving)
qed (simp add: giving)

lemma gives_alloc: "gives RDB_alloc (\<lambda>_. True)" "gives RDB_realloc (\<lambda>_. True)"
  by (auto simp: gives_def RDB_alloc_def RDB_realloc_def malloc_mem_le malloc_None_fails split: prod.splits option.splits)

lemma gives_name: "gives (dup_name n) (\<lambda>d. d = n)"
  by (rule gives_computes[OF computes_dup_name]) (rule refl)

lemma gives_after_alloc:
  assumes "\<And>a. gives (g a) Q"
  shows "gives (and_then RDB_alloc g) Q" "gives (and_then RDB_realloc g) Q"
  by (rule gives_and_then[OF gives_alloc(1)], rule assms) (rule gives_and_then[OF gives_alloc(2)], rule assms)

lemma gives_after_name: "gives (g n) Q \<Longrightarrow> gives (and_then (dup_name n) g) Q"
  by (rule gives_and_then[OF gives_name]) simp

lemmas gives_steps = gives_after_alloc gives_after_name

lemma dup_type_gives: "type_opt_wf t \<Longrightarrow> gives (dup_type_opt t) (\<lambda>u. u = t)"
  by (cases t) (auto simp: dup_type_opt_def intro!: giving gives_computes computing dup_computes)

lemma gives_after_type: "type_opt_wf t \<Longrightarrow> gives (g t) Q \<Longrightarrow> gives (and_then (dup_type_opt t) g) Q"
  by (rule gives_and_then[OF dup_type_gives]) simp_all

lemma copy_new_obj_gives:
  assumes "obj_wf v"
  shows "gives (copy_new_obj same P v) (\<lambda>d. copied v d \<and> typ_of d = scalar_only (typ_of v))"
proof -
  note data = copying(2)[OF refl assms, of same P]
  have "changes (RDB_copy_obj same P RDB_init_obj v) (\<lambda>d. copied v d \<and> typ_of d = scalar_only (typ_of v))"
  proof (rule changesI)
    fix m r d m' assume run: "RDB_copy_obj same P RDB_init_obj v m = (r, d, m')"
    obtain r1 d1 m1 where d: "RDB_copy_obj_data same P RDB_init_obj v m = (r1, d1, m1)" by (metis prod_cases3)
    obtain t i w where v: "v = Obj t i w" by (cases v)
    have "copied_data v d1 \<Longrightarrow> copied v (set_copied_type (restored_type RDB_init_obj v) v d1)
        \<and> typ_of (set_copied_type (restored_type RDB_init_obj v) v d1) = scalar_only (typ_of v)"
      using set_copied[of d1 v] by (auto simp: copied_data_def copied_def v set_copied_type_def restored_type_def scalar_only_def Let_def split: option.split)
    then show "mem_le m m' \<and> (r = Inr () \<and> copied v d \<and> typ_of d = scalar_only (typ_of v) \<or> fails m \<noteq> [] \<and> (r = NO_MEM \<or> r = Inl Silent))"
      using changesD[OF data d] run d
      by (cases r1) (auto simp: RDB_copy_obj_def check_copy_types_def done_with_def copy_obj.simps)
  qed
  then show ?thesis unfolding copy_new_obj_def by (rule gives_changes)
qed

lemma obj_to_expr_gives:
  assumes "obj_wf v" "type_opt_wf (typ_of v)"
  shows "gives (RDB_obj_to_expr same P (Some v)) (\<lambda>e. \<exists>w. e = ExObj None w \<and> same_obj v w)"
proof -
  have "gives (case typ_of v of
               Some t \<Rightarrow> if typ_of d = None
                 then and_then (RDB_dup_nonscalar_type t) (\<lambda>t'. done_with (ExObj None (Obj (Some t') (impl_of d) (val_of d))))
                 else done_with (ExObj None d)
             | None \<Rightarrow> done_with (ExObj None d)) (\<lambda>e. \<exists>w. e = ExObj None w \<and> same_obj v w)"
    if d: "copied v d \<and> typ_of d = scalar_only (typ_of v)" for d
  proof (cases "\<exists>t. typ_of v = Some t \<and> typ_of d = None")
    case True
    then obtain t where t: "typ_of v = Some t" "typ_of d = None" by blast
    then have ns: "\<not> RDB_type_is_scalar t" using d by (auto simp: scalar_only_def split: if_splits)
    then have "\<not> RDB_type_is_dummy t" by (cases t) simp_all
    obtain i w where dd: "d = Obj None i w" using t(2) by (cases d) simp
    have "same_obj v (Obj (Some t) i w)"
      using d t ns \<open>\<not> RDB_type_is_dummy t\<close> obj_wf_types[of None i w "Some t" i]
      by (cases v) (simp add: same_obj_def copied_def dd scalar_only_def dummy_impl_def)
    moreover have "computes {} (RDB_dup_nonscalar_type t) (Inr t)" using assms(2) t(1) by (simp add: dup_computes)
    ultimately show ?thesis using t
      by (auto simp: dd intro!: gives_and_then[OF gives_computes[where Q = "\<lambda>u. u = t"]] giving)
  next
    case False
    then have "typ_of d = typ_of v" using d by (cases "typ_of v") (auto simp: scalar_only_def split: if_splits)
    then have "same_obj v d" using d by (simp add: same_obj_def)
    then show ?thesis using False by (cases "typ_of v") (auto intro!: giving)
  qed
  then show ?thesis
    unfolding RDB_obj_to_expr_def new_expr_def option.case
    by (intro gives_and_then[OF gives_after_alloc(1)[OF gives_done[where Q = "\<lambda>_. True"]]] gives_and_then[OF copy_new_obj_gives[OF assms(1)]]) simp_all
qed

lemma dup_expr_gives: "expr_wf e \<Longrightarrow> gives (RDB_dup_expr same P e) (same_expr e)"
proof (induction same P e rule: RDB_dup_expr.induct)
  case (1 same P t v)
  then show ?case
    by (auto simp: RDB_dup_expr.simps intro!: gives_and_then[OF obj_to_expr_gives] gives_after_type giving)
next
  case (2 same P t a i)
  then show ?case
    by (auto simp: RDB_dup_expr.simps RDB_table_ref_def new_expr_def intro!: gives_and_then[OF gives_after_alloc(1)[OF gives_done[where Q = "\<lambda>_. True"]]] gives_after_type giving)
next
  case (3 same P t n)
  have "gives (RDB_var_ref n) (\<lambda>e. e = ExVar None n)" by (auto simp: RDB_var_ref_def intro!: gives_steps giving)
  then show ?case using 3 by (auto simp: RDB_dup_expr.simps intro!: gives_and_then[of "RDB_var_ref n"] gives_after_type giving)
next
  case (4 same P t n as vs)
  have op: "gives (RDB_ro_op n) (\<lambda>e. e = ExOp None n [] [])" by (auto simp: RDB_ro_op_def intro!: gives_steps giving)
  have args: "gives (each (RDB_dup_expr same P) as) (list_all2 same_expr as)"
    by (rule gives_each) (use 4 in \<open>auto simp: list_all_iff\<close>)
  have "gives (copy_new_obj same P v) (copied v)" if "v \<in> set vs" for v
    by (rule gives_mono[OF copy_new_obj_gives]) (use 4(2) that in \<open>auto simp: list_all_iff\<close>)
  then have "gives (each (copy_new_obj same P) vs) (list_all2 copied vs)" by (rule gives_each)
  then have objs: "gives (if vs = [] then done_with [] else and_then RDB_alloc (\<lambda>_. and_then RDB_alloc (\<lambda>_. each (copy_new_obj same P) vs))) (list_all2 copied vs)"
    by (auto intro!: gives_after_alloc giving)
  have info: "gives (if needs_typeinfo t n as then dup_type_opt t else done_with None) (\<lambda>_. True)"
    using 4(2) by (auto intro!: gives_mono[OF dup_type_gives] giving)
  show ?case
    unfolding RDB_dup_expr.simps
    by (intro gives_and_then[OF op] gives_and_then[OF args] gives_and_then[OF info] gives_and_then[OF objs] gives_after_type giving)
      (use 4(2) in auto)
qed

section \<open>Meaning\<close>

text \<open>
  The value of an expression in an environment, for any meaning of constants, table
  references and operators; the operators take the values of their arguments.
\<close>

record 'v interp =
  val_obj :: "rdb_value \<Rightarrow> 'v"
  val_table :: "nat \<Rightarrow> 'v"
  val_op :: "string \<Rightarrow> 'v list \<Rightarrow> 'v"

fun meaning :: "'v interp \<Rightarrow> (string \<Rightarrow> 'v) \<Rightarrow> rdb_expression \<Rightarrow> 'v" where
  "meaning I env (ExObj t v) = val_obj I (obj_abs v)"
| "meaning I env (ExTbp t a i) = val_table I a"
| "meaning I env (ExVar t n) = env n"
| "meaning I env (ExOp t n as vs) = val_op I n (map (meaning I env) as)"

lemma same_expr_meaning: "same_expr e e' \<Longrightarrow> meaning I env e' = meaning I env e"
proof (induction e e' rule: same_expr.induct)
  case (4 t n as vs u m bs ws)
  have "map (meaning I env) bs = map (meaning I env) as" if "list_all2 same_expr as bs"
    using that 4(1) by (auto simp: list_all2_conv_all_nth intro!: nth_equalityI)
  then show ?case using 4(2) by simp
qed (auto simp: same_obj_def copied_def)

lemma meaning_const: "RDB_expr_is_const e \<Longrightarrow> meaning I env e = meaning I env' e"
  by (induction e) (auto simp: list_all_iff intro!: arg_cong[where f = "val_op I _"])

lemma meaning_refers: "\<forall>x. RDB_expr_refers_var e x \<longrightarrow> env x = env' x \<Longrightarrow> meaning I env e = meaning I env' e"
proof (induction e)
  case (ExOp t n as vs)
  have "map (meaning I env) as = map (meaning I env') as"
    by (rule map_cong[OF refl], rule ExOp.IH) (use ExOp.prems in \<open>auto simp: list_ex_iff\<close>)
  then show ?case by (simp only: meaning.simps)
qed simp_all

section \<open>Changes of the arguments\<close>

lemma change_args_changes:
  assumes "\<And>a. a \<in> set as \<Longrightarrow> changes (f a) (R a)"
  shows "changes (change_args f as bs) (\<lambda>cs. \<exists>as'. cs = bs @ as' \<and> list_all2 R as as')"
  using assms
proof (induction as arbitrary: bs)
  case (Cons a as)
  show ?case
  proof (rule changesI)
    fix m r cs m' assume run: "change_args f (a # as) bs m = (r, cs, m')"
    obtain r1 a' m1 where fa: "f a m = (r1, a', m1)" by (metis prod_cases3)
    note one = changesD[OF Cons.prems[of a] fa]
    show "mem_le m m' \<and> (r = Inr () \<and> (\<exists>as'. cs = bs @ as' \<and> list_all2 R (a # as) as') \<or> fails m \<noteq> [] \<and> (r = NO_MEM \<or> r = Inl Silent))"
    proof (cases r1)
      case (Inl e)
      then show ?thesis using run fa one by auto
    next
      case (Inr u)
      then have rest: "change_args f as (bs @ [a']) m1 = (r, cs, m')" using run fa by simp
      have "changes (change_args f as (bs @ [a'])) (\<lambda>cs. \<exists>as'. cs = (bs @ [a']) @ as' \<and> list_all2 R as as')"
        by (rule Cons.IH) (use Cons.prems in simp)
      from changesD[OF this rest] one Inr show ?thesis
        by (auto dest: mem_le_fails intro: mem_le_trans)
    qed
  qed
qed (simp add: changing)

lemma change_op_changes:
  assumes "changes (f (opargs e)) (R (opargs e))" "e = ExOp t n as vs"
  shows "changes (change_op f e) (\<lambda>e'. \<exists>as'. R as as' \<and> e' = ExOp t n as' vs)"
proof (rule changesI)
  fix m r e' m' assume run: "change_op f e m = (r, e', m')"
  obtain r1 as' m1 where fa: "f (opargs e) m = (r1, as', m1)" by (metis prod_cases3)
  from changesD[OF assms(1) fa] run fa
  show "mem_le m m' \<and> (r = Inr () \<and> (\<exists>as'. R as as' \<and> e' = ExOp t n as' vs) \<or> fails m \<noteq> [] \<and> (r = NO_MEM \<or> r = Inl Silent))"
    by (auto simp: change_op_def assms(2))
qed

lemma changes_or_keep_gives: "gives f Q \<Longrightarrow> changes (or_keep v f) Q"
proof (rule changesI)
  fix m r w m' assume f: "gives f Q" and run: "or_keep v f m = (r, w, m')"
  obtain y m1 where fm: "f m = (y, m1)" by fastforce
  from givesD[OF f fm] run fm
  show "mem_le m m' \<and> (r = Inr () \<and> Q w \<or> fails m \<noteq> [] \<and> (r = NO_MEM \<or> r = Inl Silent))"
    by (cases y) (auto simp: or_keep_def)
qed

section \<open>Substitution\<close>

lemma meaning_args:
  assumes "list_all2 (\<lambda>a a'. \<forall>env. meaning I env a' = meaning I (F env) a) as bs"
  shows "meaning I env (ExOp t n bs vs) = meaning I (F env) (ExOp t n as vs)"
proof -
  have "map (meaning I env) bs = map (meaning I (F env)) as"
    using assms by (auto simp: list_all2_conv_all_nth intro!: nth_equalityI)
  then show ?thesis by simp
qed

lemma op_changes:
  assumes "\<And>a. a \<in> set as \<Longrightarrow> changes (f a) (\<lambda>a'. \<forall>env. meaning I env a' = meaning I (F env) a)"
  shows "changes (change_op (\<lambda>as. change_args f as []) (ExOp t n as vs)) (\<lambda>e'. \<forall>env. meaning I env e' = meaning I (F env) (ExOp t n as vs))"
proof -
  let ?R = "\<lambda>a a'. \<forall>env. meaning I env a' = meaning I (F env) a"
  have "changes (change_args f as []) (\<lambda>cs. \<exists>as'. cs = [] @ as' \<and> list_all2 ?R as as')"
    by (rule change_args_changes) (rule assms)
  then have "changes (change_op (\<lambda>as. change_args f as []) (ExOp t n as vs)) (\<lambda>e'. \<exists>as'. (\<exists>bs. as' = [] @ bs \<and> list_all2 ?R as bs) \<and> e' = ExOp t n as' vs)"
    by (intro change_op_changes) (auto simp del: change_args.simps)
  then show ?thesis by (rule changes_mono) (auto simp del: meaning.simps intro: meaning_args)
qed

lemma resolve_varname_changes:
  "expr_wf e \<Longrightarrow> expr_wf te \<Longrightarrow> changes (RDB_expr_resolve_varname_expr same P e x te)
     (\<lambda>e'. \<forall>env. meaning I env e' = meaning I (env(x := meaning I env te)) e)"
proof (induction same P e x te rule: RDB_expr_resolve_varname_expr.induct)
  case (1 same P t n as vs x te)
  then show ?case unfolding RDB_expr_resolve_varname_expr.simps
    by (intro op_changes[where F = "\<lambda>env. env(x := meaning I env te)"]) (auto simp: list_all_iff simp del: fun_upd_apply)
next
  case (2 same P t n x te)
  have "changes (or_keep (ExVar t n) (RDB_dup_expr same P te)) (\<lambda>e'. \<forall>env. meaning I env e' = meaning I env te)"
    by (rule changes_or_keep_gives[OF gives_mono[OF dup_expr_gives]]) (use 2 same_expr_meaning in auto)
  then show ?case by (auto intro: changing)
qed (auto intro!: changing)

text \<open>A list of replacements is well-formed if every expression is followed by a name.\<close>

definition replacements_wf :: "rdb_expression list \<Rightarrow> bool" where
  "replacements_wf texps \<longleftrightarrow> (\<forall>x. \<exists>r. find_name x texps = Inr r) \<and> list_all expr_wf texps"

definition replacement :: "rdb_expression list \<Rightarrow> string \<Rightarrow> rdb_expression option" where
  "replacement texps x = (case find_name x texps of Inr r \<Rightarrow> r | Inl _ \<Rightarrow> None)"

lemma find_name_mem: "find_name x texps = Inr (Some e) \<Longrightarrow> e \<in> set texps"
  by (induction x texps rule: find_name.induct) (auto split: if_splits sum.splits elim!: rbind.elims)

definition replaced_env :: "'v interp \<Rightarrow> rdb_expression list \<Rightarrow> (string \<Rightarrow> 'v) \<Rightarrow> string \<Rightarrow> 'v" where
  "replaced_env I texps env x = (case replacement texps x of None \<Rightarrow> env x | Some e \<Rightarrow> meaning I env e)"

lemma resolve_exprnames_changes:
  "expr_wf e \<Longrightarrow> replacements_wf texps \<Longrightarrow> changes (RDB_resolve_exprnames same P e texps)
     (\<lambda>e'. \<forall>env. meaning I env e' = meaning I (replaced_env I texps env) e)"
proof (induction same P e texps rule: RDB_resolve_exprnames.induct)
  case (1 same P t n as vs texps)
  then show ?case unfolding RDB_resolve_exprnames.simps
    by (intro op_changes) (auto simp: list_all_iff)
next
  case (2 same P t x texps)
  obtain r where r: "find_name x texps = Inr r" using 2(2) by (auto simp: replacements_wf_def)
  show ?case
  proof (cases r)
    case None
    then show ?thesis using r by (auto simp: replaced_env_def replacement_def intro: changing)
  next
    case (Some e)
    then have "expr_wf e" using find_name_mem r 2(2) by (auto simp: replacements_wf_def list_all_iff)
    then have "changes (or_keep (ExVar t x) (RDB_dup_expr same P e)) (\<lambda>e'. \<forall>env. meaning I env e' = meaning I env e)"
      by (intro changes_or_keep_gives gives_mono[OF dup_expr_gives]) (auto simp: same_expr_meaning)
    then show ?thesis using r Some by (simp add: replaced_env_def replacement_def)
  qed
qed (auto intro!: changing)

section \<open>Renaming\<close>

definition renaming_wf :: "rdb_expression list \<Rightarrow> bool" where
  "renaming_wf texps \<longleftrightarrow> (\<forall>x. \<exists>r. find_name x texps = Inr r) \<and> (\<forall>x e. find_name x texps = Inr (Some e) \<longrightarrow> (\<exists>s. expr_string e = Inr s))"

definition old_name :: "rdb_expression list \<Rightarrow> string \<Rightarrow> string" where
  "old_name texps x = (case find_name x texps of Inr (Some e) \<Rightarrow> (case expr_string e of Inr y \<Rightarrow> y | Inl _ \<Rightarrow> x) | _ \<Rightarrow> x)"

lemma invrename_args_changes:
  assumes "\<And>a. a \<in> set as \<Longrightarrow> changes (f a) (R a)"
  shows "changes (invrename_args f as) (list_all2 R as)"
  using assms
proof (induction as)
  case (Cons a as)
  show ?case
  proof (rule changesI)
    fix m r cs m' assume run: "invrename_args f (a # as) m = (r, cs, m')"
    obtain r1 a' m1 where fa: "f a m = (r1, a', m1)" by (metis prod_cases3)
    obtain r2 as' m2 where rest: "invrename_args f as m1 = (r2, as', m2)" by (metis prod_cases3)
    have "changes (invrename_args f as) (list_all2 R as)" using Cons by simp
    note two = changesD[OF this rest] and one = changesD[OF Cons.prems[of a] fa]
    show "mem_le m m' \<and> (r = Inr () \<and> list_all2 R (a # as) cs \<or> fails m \<noteq> [] \<and> (r = NO_MEM \<or> r = Inl Silent))"
      using run fa rest one two by (cases r1) (auto dest: mem_le_fails intro: mem_le_trans)
  qed
qed (simp add: changing)

lemma invrename_changes:
  "renaming_wf texps \<Longrightarrow> changes (RDB_invrename_expr e (ExOp t n (a0 # texps) vs))
     (\<lambda>e'. \<forall>env. meaning I env e' = meaning I (\<lambda>x. env (old_name texps x)) e)"
proof (induction e)
  case (ExOp t' n' as vs')
  let ?R = "\<lambda>a a'. \<forall>env. meaning I env a' = meaning I (\<lambda>x. env (old_name texps x)) a"
  have "changes (invrename_args (\<lambda>a. RDB_invrename_expr a (ExOp t n (a0 # texps) vs)) as) (list_all2 ?R as)"
    by (rule invrename_args_changes) (use ExOp in blast)
  then have "changes (RDB_invrename_expr (ExOp t' n' as vs') (ExOp t n (a0 # texps) vs)) (\<lambda>e'. \<exists>as'. list_all2 ?R as as' \<and> e' = ExOp t' n' as' vs')"
    unfolding RDB_invrename_expr.simps by (intro change_op_changes) (auto simp del: invrename_args.simps)
  then show ?case
    by (rule changes_mono) (auto simp del: meaning.simps intro: meaning_args[where F = "\<lambda>env x. env (old_name texps x)"])
next
  case (ExVar t' x)
  obtain r where r: "find_name x texps = Inr r" using ExVar unfolding renaming_wf_def by blast
  show ?case
  proof (cases r)
    case None
    then show ?thesis using r by (auto simp: old_name_def intro: changing)
  next
    case (Some e)
    obtain y where y: "expr_string e = Inr y" using r Some ExVar unfolding renaming_wf_def by blast
    have "gives (and_then RDB_realloc (\<lambda>_. done_with (ExVar t' y))) (\<lambda>e'. e' = ExVar t' y)"
      by (auto intro!: gives_steps giving)
    from changes_or_keep_gives[OF this, of "ExVar t' x"] show ?thesis
      by (auto simp: r Some y old_name_def elim!: changes_mono)
  qed
qed (auto intro!: changing)

section \<open>Comparisons\<close>

definition turns :: "'v interp \<Rightarrow> bool" where
  "turns I \<longleftrightarrow> (\<forall>n \<in> set turnable. \<forall>a b. val_op I (turned n) [b, a] = val_op I n [a, b])"

lemma normalize_meaning: "turns I \<Longrightarrow> meaning I env (normalize_comparisons e) = meaning I env e"
proof (induction e rule: normalize_comparisons.induct)
  case (1 t n as vs)
  show ?case
  proof (cases "length as = 2 \<and> n \<in> set turnable")
    case True
    then show ?thesis using 1(2) by (auto simp: turns_def split: list.split rdb_expression.split)
  next
    case False
    then have "map (meaning I env) (map normalize_comparisons as) = map (meaning I env) as" using 1 by auto
    then show ?thesis using False by (auto simp del: map_map)
  qed
qed simp_all

lemma normalize_idem: "normalize_comparisons (normalize_comparisons e) = normalize_comparisons e"
proof (induction e rule: normalize_comparisons.induct)
  case (1 t n as vs)
  have "turned n \<in> set turnable" if "n \<in> set turnable" using that by (auto simp: turned_def turnable_def)
  then show ?case using 1 by (auto split: list.split rdb_expression.split)
qed simp_all

section \<open>Properties\<close>

lemma changes_run:
  assumes "changes f Q" "fails m = []"
  shows "\<exists>v m'. f m = (Inr (), v, m') \<and> Q v"
proof -
  obtain r v m' where run: "f m = (r, v, m')" by (metis prod_cases3)
  show ?thesis using changesD(2)[OF assms(1) run] assms(2) run by auto
qed


definition sample_cond :: rdb_expression where
  "sample_cond = ExOp None ''and'' [ExOp None ''<'' [ExVar None ''A'', ExObj None (Obj (Some RDB_INTEGER) None (IntV 3))] [],
     ExOp None ''='' [ExVar None ''B'', ExVar None ''A''] []] []"

lemma sample_cond_wf: "expr_wf sample_cond" "expr_wf (ExVar None x)" "expr_wf (ExObj None (Obj (Some RDB_INTEGER) None (IntV i)))"
  by (simp_all add: sample_cond_def RDB_INTEGER_def)





lemma sample_replacements:
  "find_name x [ExVar None ''C'', ExObj None (Obj (Some RDB_STRING) None (BinV [CHR ''A'', NUL]))]
     = Inr (if x = ''A'' then Some (ExVar None ''C'') else None)"
  by (auto simp: RDB_obj_string_def RDB_obj_bin_def c_str_def)




text \<open>
  C26: Normalizing comparisons does not change the value of an expression, provided that the comparison operators mean the
  same when they are turned around with their arguments; a second pass changes nothing.
\<close>

theorem normalize_equivalent:
  assumes "\<forall>n \<in> set turnable. \<forall>a b. val_op I (turned n) [b, a] = val_op I n [a, b]"
  shows "meaning I env (normalize_comparisons e) = meaning I env e
     \<and> normalize_comparisons (normalize_comparisons e) = normalize_comparisons e"
  using normalize_meaning[of I] normalize_idem assms by (simp add: turns_def)

lemma normalize_equivalent_witness:
  "meaning \<lparr>val_obj = \<lambda>_. 3, val_table = \<lambda>_. 0, val_op = \<lambda>n vs. case vs of [a, b] \<Rightarrow>
        if n = ''<'' then of_bool (a < b) else if n = ''>'' then of_bool (a > b) else if n = ''<='' then of_bool (a \<le> b)
        else if n = ''>='' then of_bool (a \<ge> b) else of_bool (a = b) | _ \<Rightarrow> 0\<rparr> (\<lambda>_. 5)
      (normalize_comparisons (ExOp None ''<'' [ExObj None RDB_init_obj, ExVar None ''A''] [])) = (1 :: int)"
  by (subst conjunct1[OF normalize_equivalent]) (auto simp: turned_def turnable_def)

text \<open>An attribute of an attribute has no qualified name, although the code begins to build one.\<close>

lemma qid_nested_fails:
  "fst (RDB_expr_attr_qid P (ExOp t n (ExOp u k bs ws # cs) vs) idobj m) \<noteq> Inr v"
  by (auto simp: and_then_def raise_error_def split: prod.split sum.split option.split)

end
