(* ===== verification/Serialization.thy ===== *)
theory Serialization
  imports Expression_Laws
begin

text \<open>
  Types, values and expressions as binary objects, after \<^verbatim>\<open>rel/serialize.c\<close>: the form in which the
  catalog keeps them.
\<close>

section \<open>The buffer\<close>

text \<open>
  The bytes of the buffer, whose number is the length of the object, and the position, an
  \<^verbatim>\<open>int\<close>.  The length is made an \<^verbatim>\<open>int\<close> before the block is resized; a negative one asks for more
  memory than there can be.  When a call fails the content of the buffer does not matter.
\<close>

type_synonym ser = "string \<times> int"

definition RDB_BUF_INITLEN :: nat where "RDB_BUF_INITLEN = 256"

definition reserve_space :: "platform \<Rightarrow> nat \<Rightarrow> ser \<Rightarrow> ser action" where
  "reserve_space P n = (\<lambda>(buf, p).
     if length buf < to_size (p + int n) then
       let newlen = to_int (p + int n + int RDB_BUF_INITLEN)
       in if newlen < 0 then end_with NO_MEM
          else and_then RDB_realloc (\<lambda>a. done_with (new_block P a buf (nat newlen), p))
     else done_with (buf, p))"

definition append_bytes :: "string \<Rightarrow> ser \<Rightarrow> ser action" where
  "append_bytes bs = (\<lambda>(buf, p). and_then (end_with (write_at buf p bs)) (\<lambda>buf'. done_with (buf', to_int (p + int (length bs)))))"

definition RDB_serialize_str :: "platform \<Rightarrow> string \<Rightarrow> ser \<Rightarrow> ser action" where
  "RDB_serialize_str P str st =
     and_then (reserve_space P (length str + 8) st) (\<lambda>st.
     and_then (append_bytes (le_bytes 8 (length str)) st) (append_bytes str))"

definition RDB_serialize_int :: "platform \<Rightarrow> i32 \<Rightarrow> ser \<Rightarrow> ser action" where
  "RDB_serialize_int P v st = and_then (reserve_space P 4 st) (append_bytes (le_bytes 4 (unat v)))"

definition serialize_size_t :: "platform \<Rightarrow> nat \<Rightarrow> ser \<Rightarrow> ser action" where
  "serialize_size_t P v st = and_then (reserve_space P 8 st) (append_bytes (le_bytes 8 v))"

definition RDB_serialize_byte :: "platform \<Rightarrow> nat \<Rightarrow> ser \<Rightarrow> ser action" where
  "RDB_serialize_byte P b st = and_then (reserve_space P 1 st) (append_bytes [char_of b])"

section \<open>Types\<close>

definition RDB_serialize_scalar_type :: "platform \<Rightarrow> string \<Rightarrow> ser \<Rightarrow> ser action" where
  "RDB_serialize_scalar_type P name st = and_then (RDB_serialize_byte P 0 st) (RDB_serialize_str P name)"

fun type_kind :: "rdb_type \<Rightarrow> nat" where
  "type_kind (Scalar _ _ _ _ _) = 0" | "type_kind (Tuple _) = 1" | "type_kind (Relation _) = 2" | "type_kind (Array _) = 3"

lemma attrs_in_order_mem: "attrs_in_order as k l = Inr bs \<Longrightarrow> b \<in> set bs \<Longrightarrow> b \<in> set as"
proof (induction k arbitrary: l bs)
  case (Suc k)
  have "RDB_next_attr_sorted as l \<noteq> -1 \<Longrightarrow> as ! nat (RDB_next_attr_sorted as l) \<in> set as"
    using next_attr_least[of as l] by (simp add: least_at_def)
  then show ?case using Suc by (auto simp: Let_def split: if_splits elim!: rbind.elims)
qed simp

lemma attr_type_size: "Some (n, t) \<in> set as \<Longrightarrow> size (t :: rdb_type) < Suc (size_list (size_option (size_prod (\<lambda>_. 0) size)) as)"
  by (induction as) auto

function RDB_serialize_type :: "platform \<Rightarrow> rdb_type \<Rightarrow> ser \<Rightarrow> ser action" where
  "RDB_serialize_type P typ st =
     (case typ of
        Scalar n i reps ar sups \<Rightarrow> RDB_serialize_scalar_type P n st
      | Tuple as \<Rightarrow>
          and_then (RDB_serialize_byte P 1 st) (\<lambda>st.
          and_then (RDB_serialize_int P (word_of_nat (length as)) st) (\<lambda>st.
            case attrs_in_order as (length as) None of
              Inl e \<Rightarrow> end_with (Inl e)
            | Inr sorted_as \<Rightarrow>
                thread (\<lambda>a st. case a of
                    Some (n, t) \<Rightarrow> and_then (RDB_serialize_str P n st) (RDB_serialize_type P t)
                  | None \<Rightarrow> RDB_serialize_str P '''' st) sorted_as st))
      | Relation b \<Rightarrow> and_then (RDB_serialize_byte P 2 st) (RDB_serialize_type P b)
      | Array b \<Rightarrow> and_then (RDB_serialize_byte P 3 st) (RDB_serialize_type P b))"
  by pat_completeness auto

termination
  by (relation "measure (\<lambda>(P, t, st). size t)") (auto dest!: attrs_in_order_mem intro: attr_type_size)

declare RDB_serialize_type.simps [simp del]

definition new_buffer :: "platform \<Rightarrow> (ser \<Rightarrow> ser action) \<Rightarrow> rdb_obj action" where
  "new_buffer P f =
     and_then RDB_alloc (\<lambda>a.
     and_then (f (new_block P a [] RDB_BUF_INITLEN, 0)) (\<lambda>(buf, p). done_with (Obj (Some RDB_BINARY) None (BinV (take (nat p) buf)))))"

definition RDB_type_to_bin :: "platform \<Rightarrow> rdb_type \<Rightarrow> rdb_obj action" where
  "RDB_type_to_bin P typ = new_buffer P (RDB_serialize_type P typ)"

section \<open>Reading types\<close>

text \<open>
  The bytes of the object and the position.  Positions and lengths are added as \<^verbatim>\<open>size_t\<close>.  A request for
  more memory than there can be fails.
\<close>

definition alloc_size :: "nat \<Rightarrow> nat action" where
  "alloc_size n = (if n \<ge> 2 ^ 63 then end_with NO_MEM else RDB_alloc)"

definition read_bin :: "string \<Rightarrow> int \<Rightarrow> nat \<Rightarrow> (string \<times> int) action" where
  "read_bin d p n = and_then (end_with (read_at d p n)) (\<lambda>bs. done_with (bs, to_int (p + int n)))"

definition RDB_deserialize_str :: "string \<Rightarrow> int \<Rightarrow> (string \<times> int) action" where
  "RDB_deserialize_str d p =
     (if to_size (p + 8) > length d then raise_error INTERNAL_ERROR ''invalid string during deserialization''
      else
        and_then (read_bin d p 8) (\<lambda>(lb, p).
        let len = le_val lb in
        if to_size (p + int len) > length d then raise_error INTERNAL_ERROR ''invalid string during deserialization''
        else
          and_then (alloc_size (to_size (int len + 1))) (\<lambda>_.
          and_then (read_bin d p len) (\<lambda>(bs, p). done_with (takeWhile (\<lambda>c. c \<noteq> NUL) bs, p)))))"

definition RDB_deserialize_int :: "string \<Rightarrow> int \<Rightarrow> (i32 \<times> int) action" where
  "RDB_deserialize_int d p =
     (if to_size (p + 4) > length d then raise_error INTERNAL_ERROR ''invalid integer during deserialization''
      else and_then (read_bin d p 4) (\<lambda>(bs, p). done_with (word_of_nat (le_val bs), p)))"

definition deserialize_size_t :: "string \<Rightarrow> int \<Rightarrow> (nat \<times> int) action" where
  "deserialize_size_t d p =
     (if to_size (p + 4) > length d then raise_error INTERNAL_ERROR ''invalid integer during deserialization''
      else and_then (read_bin d p 8) (\<lambda>(bs, p). done_with (le_val bs, p)))"

definition RDB_deserialize_byte :: "string \<Rightarrow> int \<Rightarrow> (nat \<times> int) action" where
  "RDB_deserialize_byte d p =
     (if to_size (p + 1) > length d then raise_error INTERNAL_ERROR ''invalid byte during deserialization''
      else and_then (read_bin d p 1) (\<lambda>(bs, p). done_with (of_char (hd bs), p)))"

text \<open>
  The result of \<^verbatim>\<open>RDB_deserialize_int\<close> is not looked at: when it fails the number of attributes
  is what happens to be in the variable.
\<close>

definition attr_count :: "platform \<Rightarrow> string \<Rightarrow> int \<Rightarrow> (i32 \<times> int) action" where
  "attr_count P d p m =
     (case RDB_deserialize_int d p m of
        (Inl (Raised e), m') \<Rightarrow> (Inr (stale P 3, p), m')
      | r \<Rightarrow> r)"

text \<open>
  \<open>types\<close> stands for \<^verbatim>\<open>RDB_get_type\<close>, the search for a type by its name.  Types are nested; the recursion is
  bounded by the first argument.
\<close>

primrec RDB_deserialize_type ::
  "nat \<Rightarrow> platform \<Rightarrow> (string \<Rightarrow> rdb_type result) \<Rightarrow> string \<Rightarrow> int \<Rightarrow> (rdb_type \<times> int) action" where
  "RDB_deserialize_type 0 P types d p = end_with (Inl Diverges)"
| "RDB_deserialize_type (Suc k) P types d p =
     and_then (RDB_deserialize_byte d p) (\<lambda>(kind, p).
       if kind = 0 then
         and_then (RDB_deserialize_str d p) (\<lambda>(n, p). and_then (end_with (types n)) (\<lambda>t. done_with (t, p)))
       else if kind = 1 then
         and_then (attr_count P d p) (\<lambda>(attrc, p).
         and_then RDB_alloc (\<lambda>_.
         and_then (alloc_size (to_size (32 * sint attrc))) (\<lambda>_.
         and_then (thread (\<lambda>i (as, p).
             and_then (RDB_deserialize_str d p) (\<lambda>(n, p).
               if n = [] then done_with (as @ [None], p)
               else and_then (RDB_deserialize_type k P types d p) (\<lambda>(t, p). done_with (as @ [Some (n, t)], p))))
           [0 ..< nat (sint attrc)] ([], p)) (\<lambda>(as, p). done_with (Tuple as, p)))))
       else if kind = 2 \<or> kind = 3 then
         and_then RDB_alloc (\<lambda>_.
         and_then (RDB_deserialize_type k P types d p) (\<lambda>(b, p). done_with (if kind = 2 then Relation b else Array b, p)))
       else raise_error INTERNAL_ERROR ''invalid type during deserialization'')"

definition RDB_bin_to_type :: "nat \<Rightarrow> platform \<Rightarrow> (string \<Rightarrow> rdb_type result) \<Rightarrow> rdb_obj \<Rightarrow> rdb_type action" where
  "RDB_bin_to_type k P types valp =
     and_then (end_with (RDB_obj_bin valp)) (\<lambda>d. and_then (RDB_deserialize_type k P types d 0) (\<lambda>(t, p). done_with t))"

end
