(* ===== verification/Serialization_Laws.thy ===== *)
theory Serialization_Laws
  imports Serialization
begin

text \<open>
  Types that are written to a binary object are read back as the same types, and equal types are written
  as the same bytes.
\<close>

section \<open>Writing\<close>

definition wrote :: "string \<Rightarrow> ser \<Rightarrow> bool" where
  "wrote p st \<longleftrightarrow> snd st = int (length p) \<and> length p \<le> length (fst st) \<and> take (length p) (fst st) = p"

text \<open>
  A function that appends bytes to the buffer, for a notion of success that goes with sequencing: a call that
  gives a value unless memory is short (\<open>gives\<close>), or a call that succeeds when memory is not short (\<open>works\<close>).
\<close>

definition emits_by :: "(ser action \<Rightarrow> (ser \<Rightarrow> bool) \<Rightarrow> bool) \<Rightarrow> (ser \<Rightarrow> ser action) \<Rightarrow> string \<Rightarrow> bool" where
  "emits_by ok f bs \<longleftrightarrow> (\<forall>p st. wrote p st \<longrightarrow> length p + length bs + 256 < 2 ^ 31 \<longrightarrow> ok (f st) (wrote (p @ bs)))"

lemma emitsD: "emits_by ok f bs \<Longrightarrow> wrote p st \<Longrightarrow> length p + length bs + 256 < 2 ^ 31 \<Longrightarrow> ok (f st) (wrote (p @ bs))"
  unfolding emits_by_def by blast

locale sequencing =
  fixes ok :: "ser action \<Rightarrow> (ser \<Rightarrow> bool) \<Rightarrow> bool"
  assumes ok_done: "Q st \<Longrightarrow> ok (done_with st) Q"
    and ok_then: "ok f R \<Longrightarrow> (\<And>st. R st \<Longrightarrow> ok (g st) Q) \<Longrightarrow> ok (and_then f g) Q"
begin

lemma emits_Nil: "emits_by ok done_with []"
  by (auto simp: emits_by_def intro: ok_done)

lemma emits_append:
  assumes "emits_by ok f bs" "emits_by ok g cs"
  shows "emits_by ok (\<lambda>st. and_then (f st) g) (bs @ cs)"
  unfolding emits_by_def
proof (intro allI impI)
  fix p st assume p: "wrote p st" "length p + length (bs @ cs) + 256 < 2 ^ 31"
  have "ok (f st) (wrote (p @ bs))" by (rule emitsD[OF assms(1) p(1)]) (use p(2) in simp)
  then show "ok (and_then (f st) g) (wrote (p @ bs @ cs))"
  proof (rule ok_then)
    fix st' assume "wrote (p @ bs) st'"
    from emitsD[OF assms(2) this] show "ok (g st') (wrote (p @ bs @ cs))" using p(2) by simp
  qed
qed

lemma emits_parts: "list_all2 (\<lambda>x. emits_by ok (f x)) xs bss \<Longrightarrow> emits_by ok (thread f xs) (concat bss)"
proof (induction rule: list_all2_induct)
  case Nil
  then show ?case using emits_Nil by (simp add: emits_by_def)
next
  case (Cons x xs bs bss)
  have "emits_by ok (\<lambda>st. and_then (f x st) (thread f xs)) (bs @ concat bss)" by (intro emits_append Cons)
  then show ?case by (simp add: emits_by_def)
qed

lemma emits_thread: "(\<And>x. x \<in> set xs \<Longrightarrow> emits_by ok (f x) (h x)) \<Longrightarrow> emits_by ok (thread f xs) (concat (map h xs))"
  by (rule emits_parts) (simp add: list_all2_map2 list.rel_refl_strong)

end

interpretation giving: sequencing gives
  by unfold_locales (auto intro: gives_done gives_and_then)

definition works :: "'v action \<Rightarrow> ('v \<Rightarrow> bool) \<Rightarrow> bool" where
  "works f Q \<longleftrightarrow> (\<forall>m. fails m = [] \<longrightarrow> (\<exists>v m'. f m = (Inr v, m') \<and> Q v \<and> fails m' = []))"

lemma worksD:
  assumes "works f Q" "fails m = []"
  obtains v m' where "f m = (Inr v, m')" "Q v" "fails m' = []"
  using assms unfolding works_def by blast

lemma works_mono: "works f Q \<Longrightarrow> (\<And>v. Q v \<Longrightarrow> R v) \<Longrightarrow> works f R"
  unfolding works_def by blast

lemma works_gives: "gives f Q \<Longrightarrow> works f Q"
  unfolding works_def using gives_run givesD(1) unfolding mem_le_def by blast

lemma works_runs: "runs f (Inr v) \<Longrightarrow> Q v \<Longrightarrow> works f Q"
  unfolding works_def using runs_run by blast

lemma works_then: "works f R \<Longrightarrow> (\<And>v. R v \<Longrightarrow> works (g v) Q) \<Longrightarrow> works (and_then f g) Q"
  unfolding works_def and_then_def by fastforce

lemma works_done: "Q v \<Longrightarrow> works (done_with v) Q"
  by (rule works_gives) (rule gives_done)

interpretation working: sequencing works
  by unfold_locales (auto intro: works_done works_then)

abbreviation emits :: "(ser \<Rightarrow> ser action) \<Rightarrow> string \<Rightarrow> bool" where
  "emits \<equiv> emits_by gives"

lemma emits_works: "emits f bs \<Longrightarrow> emits_by works f bs"
  unfolding emits_by_def by (blast intro: works_gives)

lemmas emits_Nil = giving.emits_Nil and emits_append = giving.emits_append and emits_thread = giving.emits_thread

definition room :: "string \<Rightarrow> nat \<Rightarrow> ser \<Rightarrow> bool" where
  "room p n st \<longleftrightarrow> wrote p st \<and> length p + n \<le> length (fst st)"

lemma reserve_gives:
  assumes "wrote p st" "length p + n + 256 < 2 ^ 31"
  shows "gives (reserve_space P n st) (room p n)"
proof -
  obtain buf where st: "st = (buf, int (length p))" "length p \<le> length buf" "take (length p) buf = p"
    using assms(1) by (cases st) (auto simp: wrote_def)
  have sz: "to_size (int (length p) + int n) = length p + n" using assms(2) by (simp add: to_size_id)
  have new: "to_int (int (length p) + int n + int RDB_BUF_INITLEN) = int (length p + n + 256)"
    using assms(2) by (subst to_int_id) (simp_all add: RDB_BUF_INITLEN_def)
  show ?thesis
  proof (cases "length buf < length p + n")
    case True
    then have "reserve_space P n st = and_then RDB_realloc (\<lambda>a. done_with (new_block P a buf (length p + n + 256), int (length p)))"
      using nat_int[of "length p + n + 256"] by (simp add: reserve_space_def st(1) sz new Let_def del: nat_int)
    moreover have "room p n (new_block P a buf (length p + n + 256), int (length p))" for a
      using True st(2,3) by (simp add: room_def wrote_def new_block_def)
    ultimately show ?thesis by (auto intro!: gives_after_alloc giving)
  next
    case False
    then show ?thesis using assms(1) by (auto simp: reserve_space_def st(1) sz room_def intro!: giving)
  qed
qed

lemma append_bytes_gives:
  assumes "room p (length bs + n) st" "length p + length bs < 2 ^ 31"
  shows "gives (append_bytes bs st) (room (p @ bs) n)"
proof -
  obtain buf where st: "st = (buf, int (length p))" "length p + length bs + n \<le> length buf" "take (length p) buf = p"
    using assms(1) by (cases st) (auto simp: room_def wrote_def)
  have w: "write_at buf (int (length p)) bs = Inr (take (length p) buf @ bs @ drop (length p + length bs) buf)"
    using st(2) by (auto simp: write_at_def)
  have "to_int (int (length p) + int (length bs)) = int (length (p @ bs))" using assms(2) by (subst to_int_id) simp_all
  then show ?thesis using st by (auto simp: append_bytes_def w room_def wrote_def intro!: giving)
qed

lemma emits_reserved:
  "emits (\<lambda>st. and_then (reserve_space P (length bs) st) (append_bytes bs)) bs"
  unfolding emits_by_def
proof (intro allI impI)
  fix p st assume p: "wrote p st" "length p + length bs + 256 < 2 ^ 31"
  show "gives (and_then (reserve_space P (length bs) st) (append_bytes bs)) (wrote (p @ bs))"
  proof (rule gives_and_then[OF reserve_gives[OF p]])
    fix st' assume "room p (length bs) st'"
    then have "gives (append_bytes bs st') (room (p @ bs) 0)" using append_bytes_gives[of p bs 0 st'] p(2) by simp
    then show "gives (append_bytes bs st') (wrote (p @ bs))" by (rule gives_mono) (simp add: room_def)
  qed
qed

definition str_bytes :: "string \<Rightarrow> string" where
  "str_bytes s = le_bytes 8 (length s) @ s"

lemma str_bytes_nonempty: "str_bytes s \<noteq> []"
  using length_le_bytes[of 8 "length s"] by (auto simp: str_bytes_def simp del: length_le_bytes)

lemma emits_str: "emits (RDB_serialize_str P s) (str_bytes s)"
  unfolding emits_by_def
proof (intro allI impI)
  fix p st assume p: "wrote p st" "length p + length (str_bytes s) + 256 < 2 ^ 31"
  have len: "length p + (length s + 8) + 256 < 2 ^ 31" using p(2) by (simp add: str_bytes_def)
  show "gives (RDB_serialize_str P s st) (wrote (p @ str_bytes s))"
    unfolding RDB_serialize_str_def
  proof (rule gives_and_then[OF reserve_gives[OF p(1) len]])
    fix st' assume "room p (length s + 8) st'"
    then have "room p (length (le_bytes 8 (length s)) + length s) st'" by (simp add: add.commute)
    then have "gives (append_bytes (le_bytes 8 (length s)) st') (room (p @ le_bytes 8 (length s)) (length s))"
      by (rule append_bytes_gives) (use len in simp)
    then show "gives (and_then (append_bytes (le_bytes 8 (length s)) st') (append_bytes s)) (wrote (p @ str_bytes s))"
    proof (rule gives_and_then)
      fix st2 assume "room (p @ le_bytes 8 (length s)) (length s) st2"
      then have "gives (append_bytes s st2) (room ((p @ le_bytes 8 (length s)) @ s) 0)"
        using append_bytes_gives[of "p @ le_bytes 8 (length s)" s 0 st2] len by simp
      then show "gives (append_bytes s st2) (wrote (p @ str_bytes s))" by (rule gives_mono) (simp add: room_def str_bytes_def)
    qed
  qed
qed

lemma emits_int: "emits (RDB_serialize_int P v) (le_bytes 4 (unat v))"
  and emits_size: "emits (serialize_size_t P n) (le_bytes 8 n)"
  and emits_byte: "emits (RDB_serialize_byte P b) [char_of b]"
  using emits_reserved[of P "le_bytes 4 (unat v)"] emits_reserved[of P "le_bytes 8 n"] emits_reserved[of P "[char_of b]"]
  by (simp_all add: RDB_serialize_int_def[abs_def] serialize_size_t_def[abs_def] RDB_serialize_byte_def[abs_def])

section \<open>The bytes of a type\<close>

text \<open>Types whose scalar types are in the catalog under their names.\<close>

inductive catalogued :: "(string \<Rightarrow> rdb_type result) \<Rightarrow> rdb_type \<Rightarrow> bool" for types where
  catalogued_scalar: "types n = Inr (Scalar n i reps ar sups) \<Longrightarrow> NUL \<notin> set n \<Longrightarrow> catalogued types (Scalar n i reps ar sups)"
| catalogued_tuple: "distinct (map fst xs) \<Longrightarrow> (\<forall>x \<in> set xs. fst x \<noteq> [] \<and> NUL \<notin> set (fst x) \<and> catalogued types (snd x))
    \<Longrightarrow> catalogued types (Tuple (map Some xs))"
| catalogued_relation: "catalogued types b \<Longrightarrow> catalogued types (Relation b)"
| catalogued_array: "catalogued types b \<Longrightarrow> catalogued types (Array b)"

inductive_cases catalogued_TupleE: "catalogued types (Tuple as)"
inductive_simps catalogued_Relation: "catalogued types (Relation b)"
inductive_simps catalogued_Array: "catalogued types (Array b)"

function type_bytes :: "rdb_type \<Rightarrow> string" where
  "type_bytes (Scalar n i reps ar sups) = [char_of (0 :: nat)] @ str_bytes n"
| "type_bytes (Tuple as) = [char_of (1 :: nat)] @ le_bytes 4 (unat (word_of_nat (length as) :: i32))
     @ concat (map (\<lambda>a. case a of None \<Rightarrow> str_bytes '''' | Some (n, t) \<Rightarrow> str_bytes n @ type_bytes t) (sort_key name_or_empty as))"
| "type_bytes (Relation b) = [char_of (2 :: nat)] @ type_bytes b"
| "type_bytes (Array b) = [char_of (3 :: nat)] @ type_bytes b"
  by pat_completeness auto

termination
  by (relation "measure size") (auto intro: attr_type_size)

lemma sort_attrs:
  assumes "distinct (map fst xs)"
  shows "sort_key name_or_empty (map Some xs) = map Some (sort_key fst xs)"
proof (rule sort_key_inj_key_eq)
  have names: "map name_or_empty (map Some xs) = map fst xs" by (auto simp: name_or_empty_def)
  have "distinct (map name_or_empty (map Some xs))" unfolding names by (rule assms)
  then show "inj_on name_or_empty (set (map Some xs))" by (metis distinct_map)
  have "map name_or_empty (map Some (sort_key fst xs)) = map fst (sort_key fst xs)" by (auto simp: name_or_empty_def)
  then show "sorted (map name_or_empty (map Some (sort_key fst xs)))" by (simp del: map_map)
qed simp

lemma attrs_in_order_Some:
  assumes "distinct (map fst xs)"
  shows "attrs_in_order (map Some xs) (length xs) None = Inr (map Some (sort_key fst xs))"
proof -
  have "map name_or_empty (map Some xs) = map fst xs" by (auto simp: name_or_empty_def)
  then have "distinct (map name_or_empty (map Some xs))" using assms by (simp only:)
  from attrs_in_order_all[OF this] sort_attrs[OF assms] show ?thesis by simp
qed

lemma type_bytes_tuple:
  assumes "distinct (map fst xs)"
  shows "type_bytes (Tuple (map Some xs)) = [char_of (1 :: nat)] @ le_bytes 4 (unat (word_of_nat (length xs) :: i32))
     @ concat (map (\<lambda>x. str_bytes (fst x) @ type_bytes (snd x)) (sort_key fst xs))"
  using sort_attrs[OF assms] by (simp add: case_prod_unfold comp_def)

lemma serialize_type_emits: "catalogued types t \<Longrightarrow> emits (RDB_serialize_type P t) (type_bytes t)"
proof (induction rule: catalogued.induct)
  case (catalogued_scalar n i reps ar sups)
  have "emits (RDB_serialize_scalar_type P n) (type_bytes (Scalar n i reps ar sups))"
    using emits_append[OF emits_byte[of P 0] emits_str] by (simp add: RDB_serialize_scalar_type_def[abs_def])
  then show ?case by (simp add: emits_by_def RDB_serialize_type.simps)
next
  case (catalogued_tuple xs)
  let ?f = "\<lambda>a st. case a of Some (n, t) \<Rightarrow> and_then (RDB_serialize_str P n st) (RDB_serialize_type P t) | None \<Rightarrow> RDB_serialize_str P '''' st"
  let ?h = "\<lambda>a. case a of None \<Rightarrow> str_bytes '''' | Some (n, t) \<Rightarrow> str_bytes n @ type_bytes t"
  have "emits (?f a) (?h a)" if a: "a \<in> set (map Some (sort_key fst xs))" for a
  proof -
    obtain n t where nt: "a = Some (n, t)" "(n, t) \<in> set xs" using a by auto
    then have "emits (RDB_serialize_type P t) (type_bytes t)" using catalogued_tuple(2) by auto
    from emits_append[OF emits_str this] show ?thesis using nt(1) by simp
  qed
  then have "emits (thread ?f (map Some (sort_key fst xs))) (concat (map ?h (map Some (sort_key fst xs))))" by (rule emits_thread)
  from emits_append[OF emits_byte[of P 1] emits_append[OF emits_int this]]
  show ?case using attrs_in_order_Some[OF catalogued_tuple(1)]
    by (simp add: emits_by_def RDB_serialize_type.simps[of P "Tuple (map Some xs)"] sort_attrs[OF catalogued_tuple(1)])
next
  case (catalogued_relation b)
  from emits_append[OF emits_byte[of P 2] catalogued_relation.IH] show ?case by (simp add: emits_by_def RDB_serialize_type.simps[of P "Relation b"])
next
  case (catalogued_array b)
  from emits_append[OF emits_byte[of P 3] catalogued_array.IH] show ?case by (simp add: emits_by_def RDB_serialize_type.simps[of P "Array b"])
qed

lemma new_buffer_gives:
  assumes "emits f bs" "length bs + 256 < 2 ^ 31"
  shows "gives (new_buffer P f) (\<lambda>v. v = Obj (Some RDB_BINARY) None (BinV bs))"
proof -
  have "wrote [] (new_block P a [] RDB_BUF_INITLEN, 0)" for a by (simp add: wrote_def)
  from emitsD[OF assms(1) this] have "gives (f (new_block P a [] RDB_BUF_INITLEN, 0)) (wrote bs)" for a using assms(2) by simp
  then have "gives (and_then (f (new_block P a [] RDB_BUF_INITLEN, 0)) (\<lambda>(buf, p). done_with (Obj (Some RDB_BINARY) None (BinV (take (nat p) buf)))))
      (\<lambda>v. v = Obj (Some RDB_BINARY) None (BinV bs))" for a
    by (rule gives_and_then) (auto simp: wrote_def intro!: giving)
  then show ?thesis unfolding new_buffer_def by (intro gives_after_alloc)
qed

section \<open>Reading\<close>

definition parses :: "(string \<Rightarrow> int \<Rightarrow> ('v \<times> int) action) \<Rightarrow> string \<Rightarrow> ('v \<Rightarrow> bool) \<Rightarrow> bool" where
  "parses f bs Q \<longleftrightarrow> (\<forall>p rest. length p + length bs + length rest < 2 ^ 31 \<longrightarrow>
     gives (f (p @ bs @ rest) (int (length p))) (\<lambda>(v, i). Q v \<and> i = int (length p + length bs)))"

lemma parsesD:
  "parses f bs Q \<Longrightarrow> length p + length bs + length rest < 2 ^ 31 \<Longrightarrow>
    gives (f (p @ bs @ rest) (int (length p))) (\<lambda>(v, i). Q v \<and> i = int (length p + length bs))"
  unfolding parses_def by blast

lemma parses_mono: "parses f bs Q \<Longrightarrow> (\<And>v. Q v \<Longrightarrow> R v) \<Longrightarrow> parses f bs R"
  unfolding parses_def by (blast intro: gives_mono)

lemma parses_done: "Q v \<Longrightarrow> parses (\<lambda>d i. done_with (v, i)) [] Q"
  by (auto simp: parses_def intro: giving)

lemma parses_bind:
  assumes "parses f bs R" "\<And>v. R v \<Longrightarrow> parses (g v) cs Q"
  shows "parses (\<lambda>d i. and_then (f d i) (\<lambda>(v, i). g v d i)) (bs @ cs) Q"
  unfolding parses_def
proof (intro allI impI)
  fix p rest :: string assume len: "length p + length (bs @ cs) + length rest < 2 ^ 31"
  have "gives (f (p @ bs @ cs @ rest) (int (length p))) (\<lambda>(v, i). R v \<and> i = int (length p + length bs))"
    by (rule parsesD[OF assms(1)]) (use len in simp)
  then have "gives (and_then (f (p @ bs @ cs @ rest) (int (length p))) (\<lambda>(v, i). g v (p @ bs @ cs @ rest) i))
      (\<lambda>(v, i). Q v \<and> i = int (length p + length (bs @ cs)))"
  proof (rule gives_and_then_pair)
    fix v i assume v: "R v \<and> i = int (length p + length bs)"
    have "gives (g v ((p @ bs) @ cs @ rest) (int (length (p @ bs)))) (\<lambda>(v, i). Q v \<and> i = int (length (p @ bs) + length cs))"
      by (rule parsesD[OF assms(2)]) (use v len in simp_all)
    then show "gives (g v (p @ bs @ cs @ rest) i) (\<lambda>(v, i). Q v \<and> i = int (length p + length (bs @ cs)))"
      using v by (simp add: add.assoc)
  qed
  then show "gives (and_then (f (p @ (bs @ cs) @ rest) (int (length p))) (\<lambda>(v, i). g v (p @ (bs @ cs) @ rest) i))
      (\<lambda>(v, i). Q v \<and> i = int (length p + length (bs @ cs)))" by simp
qed

lemma parses_final:
  assumes "parses f bs R" "\<And>v. R v \<Longrightarrow> Q (h v)"
  shows "parses (\<lambda>d i. and_then (f d i) (\<lambda>(v, i). done_with (h v, i))) bs Q"
  using parses_bind[OF assms(1), of "\<lambda>v d i. done_with (h v, i)" "[]" Q] parses_done[of Q] assms(2) by simp

lemma parses_bin: "parses (\<lambda>d i. read_bin d i (length bs)) bs (\<lambda>v. v = bs)"
  unfolding parses_def
proof (intro allI impI)
  fix p rest :: string assume len: "length p + length bs + length rest < (2 :: nat) ^ 31"
  have "to_int (int (length p) + int (length bs)) = int (length p + length bs)" using len by (subst to_int_id) simp_all
  then show "gives (read_bin (p @ bs @ rest) (int (length p)) (length bs)) (\<lambda>(v, i). v = bs \<and> i = int (length p + length bs))"
    using read_at_append[OF refl refl, of p bs rest] by (auto simp: read_bin_def intro!: giving)
qed

lemma parses_checked:
  assumes "parses f bs Q" "n \<le> length bs"
  shows "parses (\<lambda>d i. if to_size (i + int n) > length d then raise_error t msg else f d i) bs Q"
  unfolding parses_def
proof (intro allI impI)
  fix p rest :: string assume len: "length p + length bs + length rest < (2 :: nat) ^ 31"
  have "to_size (int (length p) + int n) = length p + n" using len assms(2) by (simp add: to_size_id)
  then show "gives (if to_size (int (length p) + int n) > length (p @ bs @ rest) then raise_error t msg else f (p @ bs @ rest) (int (length p)))
      (\<lambda>(v, i). Q v \<and> i = int (length p + length bs))"
    using parsesD[OF assms(1) len] assms(2) by simp
qed

lemma parses_int: "parses RDB_deserialize_int (le_bytes 4 (unat v)) (\<lambda>x. x = v)"
proof -
  have "unat v < 256 ^ 4" using unsigned_less[of v, where ?'a = nat] by simp
  then have "word_of_nat (le_val (le_bytes 4 (unat v))) = v" by (simp add: le_val_bytes)
  then have "parses (\<lambda>d i. and_then (read_bin d i 4) (\<lambda>(bs, i). done_with (word_of_nat (le_val bs) :: i32, i))) (le_bytes 4 (unat v)) (\<lambda>x. x = v)"
    using parses_final[OF parses_bin[of "le_bytes 4 (unat v)"], of "\<lambda>x. x = v" "\<lambda>bs. word_of_nat (le_val bs)"] by simp
  from parses_checked[OF this, of 4 INTERNAL_ERROR "''invalid integer during deserialization''"]
  show ?thesis by (simp add: RDB_deserialize_int_def[abs_def])
qed

lemma parses_size: "n < 2 ^ 64 \<Longrightarrow> parses deserialize_size_t (le_bytes 8 n) (\<lambda>x. x = n)"
proof -
  assume "n < 2 ^ 64"
  then have "n < 256 ^ 8" by simp
  then have "parses (\<lambda>d i. and_then (read_bin d i 8) (\<lambda>(bs, i). done_with (le_val bs, i))) (le_bytes 8 n) (\<lambda>x. x = n)"
    using parses_final[OF parses_bin[of "le_bytes 8 n"], of "\<lambda>x. x = n" le_val] le_val_bytes[of n 8] by simp
  from parses_checked[OF this, of 4 INTERNAL_ERROR "''invalid integer during deserialization''"]
  show ?thesis by (simp add: deserialize_size_t_def[abs_def])
qed

lemma parses_byte: "b < 256 \<Longrightarrow> parses RDB_deserialize_byte [char_of b] (\<lambda>x. x = b)"
proof -
  assume "b < 256"
  then have "of_char (char_of b :: char) = b" by (simp add: of_char_of)
  then have read: "parses (\<lambda>d i. and_then (read_bin d i 1) (\<lambda>(bs, i). done_with (of_char (hd bs), i))) [char_of b] (\<lambda>x. x = b)"
    using parses_final[OF parses_bin[of "[char_of b]"], of "\<lambda>x. x = b" "\<lambda>bs. of_char (hd bs)"] by simp
  show ?thesis
    unfolding parses_def
  proof (intro allI impI)
    fix p rest :: string assume len: "length p + length [char_of b] + length rest < (2 :: nat) ^ 31"
    show "gives (RDB_deserialize_byte (p @ [char_of b] @ rest) (int (length p))) (\<lambda>(v, i). v = b \<and> i = int (length p + length [char_of b]))"
      using parsesD[OF read len] len by (simp add: RDB_deserialize_byte_def to_size_id nat_add_distrib)
  qed
qed

lemma parses_str:
  assumes "NUL \<notin> set s"
  shows "parses RDB_deserialize_str (str_bytes s) (\<lambda>x. x = s)"
  unfolding parses_def
proof (intro allI impI)
  fix p rest :: string assume len: "length p + length (str_bytes s) + length rest < (2 :: nat) ^ 31"
  let ?d = "p @ str_bytes s @ rest" and ?n = "length s"
  have n: "length p + 8 + ?n + length rest < 2 ^ 31" using len by (simp add: str_bytes_def)
  have d: "?d = p @ le_bytes 8 ?n @ s @ rest" by (simp add: str_bytes_def)
  have sz: "to_size (int (length p) + 8) = length p + 8" "to_size (int (length p + 8) + int ?n) = length p + 8 + ?n"
    using n by (simp_all add: to_size_id)
  have r1: "gives (read_bin ?d (int (length p)) 8) (\<lambda>(v, i). v = le_bytes 8 ?n \<and> i = int (length p + 8))"
    using parsesD[OF parses_bin[of "le_bytes 8 ?n"], of p "s @ rest"] n d by simp
  have r2: "gives (read_bin ?d (int (length p + 8)) ?n) (\<lambda>(v, i). v = s \<and> i = int (length p + length (str_bytes s)))"
    using parsesD[OF parses_bin[of s], of "p @ le_bytes 8 ?n" rest] n d by (simp add: str_bytes_def add.assoc)
  have len8: "le_val (le_bytes 8 ?n) = ?n" by (rule le_val_size) (use n in simp)
  have "takeWhile (\<lambda>c. c \<noteq> NUL) s = s" using assms by (auto simp: takeWhile_eq_all_conv)
  then have r3: "gives (and_then (read_bin ?d (int (length p + 8)) ?n) (\<lambda>(bs, p). done_with (takeWhile (\<lambda>c. c \<noteq> NUL) bs, p)))
      (\<lambda>(v, i). v = s \<and> i = int (length p + length (str_bytes s)))"
    by (intro gives_and_then_pair[OF r2] gives_done) (simp only: prod.case simp_thms)
  have "to_size (int ?n + 1) = ?n + 1" using n by (simp add: to_size_id)
  then have "alloc_size (to_size (int ?n + 1)) = RDB_alloc" using n by (simp add: alloc_size_def)
  then have r4: "gives (and_then (alloc_size (to_size (int ?n + 1))) (\<lambda>_. and_then (read_bin ?d (int (length p + 8)) ?n) (\<lambda>(bs, p). done_with (takeWhile (\<lambda>c. c \<noteq> NUL) bs, p))))
      (\<lambda>(v, i). v = s \<and> i = int (length p + length (str_bytes s)))"
    using r3 by (simp only: gives_after_alloc)
  have "\<not> length ?d < length p + 8" "\<not> length ?d < length p + 8 + ?n" by (simp_all add: str_bytes_def)
  then show "gives (RDB_deserialize_str ?d (int (length p))) (\<lambda>(v, i). v = s \<and> i = int (length p + length (str_bytes s)))"
    unfolding RDB_deserialize_str_def sz(1) Let_def
    by (simp only: if_False) (rule gives_and_then_pair[OF r1], simp only: len8 sz(2) if_False conj_assoc, rule r4)
qed

lemma parses_short: "(length bs < 2 ^ 31 \<Longrightarrow> parses f bs Q) \<Longrightarrow> parses f bs Q"
  unfolding parses_def by auto

lemma parses_count: "parses (attr_count P) (le_bytes 4 (unat v)) (\<lambda>x. x = v)"
  unfolding parses_def
proof (intro allI impI)
  fix p rest :: string assume len: "length p + length (le_bytes 4 (unat v)) + length rest < (2 :: nat) ^ 31"
  have "unat v < 256 ^ 4" using unsigned_less[of v, where ?'a = nat] by simp
  then have v: "word_of_nat (le_val (le_bytes 4 (unat v))) = v" by (simp add: le_val_bytes)
  have r: "read_at (p @ le_bytes 4 (unat v) @ rest) (int (length p)) 4 = Inr (le_bytes 4 (unat v))"
    by (rule read_at_append) simp_all
  have sz: "to_size (int (length p) + 4) = length p + 4" "to_int (int (length p) + 4) = int (length p + 4)"
    using len by (simp_all add: to_size_id to_int_id)
  have "RDB_deserialize_int (p @ le_bytes 4 (unat v) @ rest) (int (length p)) = done_with (v, int (length p + 4))"
    by (simp add: RDB_deserialize_int_def read_bin_def r sz v)
  then have "attr_count P (p @ le_bytes 4 (unat v) @ rest) (int (length p)) = done_with (v, int (length p + 4))"
    by (simp add: attr_count_def done_with_def fun_eq_iff)
  then show "gives (attr_count P (p @ le_bytes 4 (unat v) @ rest) (int (length p))) (\<lambda>(x, i). x = v \<and> i = int (length p + length (le_bytes 4 (unat v))))"
    by (simp add: giving)
qed

lemma parses_alloc: "parses f bs Q \<Longrightarrow> parses (\<lambda>d i. and_then RDB_alloc (\<lambda>_. f d i)) bs Q"
  unfolding parses_def by (blast intro: gives_after_alloc)

section \<open>Reading types\<close>

text \<open>A type that is read has its attributes in the order of their names.\<close>

function canon_type :: "rdb_type \<Rightarrow> rdb_type" where
  "canon_type (Scalar n i reps ar sups) = Scalar n i reps ar sups"
| "canon_type (Tuple as) = Tuple (map (\<lambda>a. case a of None \<Rightarrow> None | Some (n, t) \<Rightarrow> Some (n, canon_type t)) (sort_key name_or_empty as))"
| "canon_type (Relation b) = Relation (canon_type b)"
| "canon_type (Array b) = Array (canon_type b)"
  by pat_completeness auto

termination
  by (relation "measure size") (auto intro: attr_type_size)

lemma canon_tuple: "distinct (map fst xs) \<Longrightarrow> canon_type (Tuple (map Some xs)) = Tuple (map (\<lambda>(n, t). Some (n, canon_type t)) (sort_key fst xs))"
  by (simp add: sort_attrs case_prod_unfold)

lemma deserialize_type_parses:
  "catalogued types t \<Longrightarrow> size t < k \<Longrightarrow> parses (RDB_deserialize_type k P types) (type_bytes t) (\<lambda>t'. t' = canon_type t)"
proof (induction arbitrary: k rule: catalogued.induct)
  case (catalogued_scalar n i reps ar sups)
  then obtain k' where k: "k = Suc k'" by (cases k) auto
  have "parses (\<lambda>d p. and_then (RDB_deserialize_str d p) (\<lambda>(n, p). and_then (end_with (types n)) (\<lambda>t. done_with (t, p)))) (str_bytes n)
      (\<lambda>t'. t' = canon_type (Scalar n i reps ar sups))"
    using parses_bind[OF parses_str[OF catalogued_scalar(2)], of "\<lambda>n d p. and_then (end_with (types n)) (\<lambda>t. done_with (t, p))" "[]"
        "\<lambda>t'. t' = canon_type (Scalar n i reps ar sups)"]
      catalogued_scalar(1) parses_done[of "\<lambda>t'. t' = Scalar n i reps ar sups"] by simp
  then show ?case unfolding k RDB_deserialize_type.simps type_bytes.simps
    by (intro parses_bind[OF parses_byte]) simp_all
next
  case (catalogued_tuple xs)
  then obtain k' where k: "k = Suc k'" by (cases k) auto
  let ?ys = "sort_key fst xs" and ?n = "length xs"
  let ?h = "\<lambda>(n, t). str_bytes n @ type_bytes t" and ?c = "\<lambda>(n, t). Some (n, canon_type t)"
  let ?body = "\<lambda>i d (as, p). and_then (RDB_deserialize_str d p) (\<lambda>(n, p).
               if n = [] then done_with (as @ [None], p)
               else and_then (RDB_deserialize_type k' P types d p) (\<lambda>(t, p). done_with (as @ [Some (n, t)], p)))"
  have one: "parses (\<lambda>d p. ?body i d (as, p)) (?h y) (\<lambda>as'. as' = as @ [?c y])" if y: "y \<in> set xs" for y i as
  proof -
    obtain n t where nt: "y = (n, t)" by (cases y)
    have "n \<noteq> []" "NUL \<notin> set n" and IH: "\<forall>k. size t < k \<longrightarrow> parses (RDB_deserialize_type k P types) (type_bytes t) (\<lambda>t'. t' = canon_type t)"
      using bspec[OF catalogued_tuple(2) y] nt by auto
    have "size t < k'" using catalogued_tuple(3) k attr_type_size[of n t "map Some xs"] y nt by auto
    then have "parses (\<lambda>d p. and_then (RDB_deserialize_type k' P types d p) (\<lambda>(t, p). done_with (as @ [Some (n, t)], p))) (type_bytes t) (\<lambda>as'. as' = as @ [?c y])"
      using IH by (intro parses_final[where R = "\<lambda>t'. t' = canon_type t"]) (auto simp: nt)
    then show ?thesis unfolding nt prod.case
      by (intro parses_bind[OF parses_str[OF \<open>NUL \<notin> set n\<close>]]) (simp add: \<open>n \<noteq> []\<close>)
  qed
  have loop: "parses (\<lambda>d p. thread (\<lambda>i. ?body i d) is (as, p)) (concat (map ?h ys)) (\<lambda>as'. as' = as @ map ?c ys)"
    if "length is = length ys" "set ys \<subseteq> set xs" for "is" :: "nat list" and ys as
    using that
  proof (induction "is" ys arbitrary: as rule: list_induct2)
    case Nil
    then show ?case using parses_done[of "\<lambda>as'. as' = as" as] by simp
  next
    case (Cons i js y ys)
    have "parses (\<lambda>d p. and_then (?body i d (as, p)) (\<lambda>(as', p). thread (\<lambda>i. ?body i d) js (as', p))) (?h y @ concat (map ?h ys)) (\<lambda>as'. as' = as @ map ?c (y # ys))"
    proof (rule parses_bind[OF one])
      show "y \<in> set xs" using Cons.prems by simp
      fix as' assume "as' = as @ [?c y]"
      then show "parses (\<lambda>d p. thread (\<lambda>i. ?body i d) js (as', p)) (concat (map ?h ys)) (\<lambda>as'. as' = as @ map ?c (y # ys))"
        using Cons.IH[of "as @ [?c y]"] Cons.prems by simp
    qed
    then show ?case by (simp add: case_prod_unfold)
  qed
  have bytes: "type_bytes (Tuple (map Some xs)) = [char_of (1 :: nat)] @ le_bytes 4 (unat (word_of_nat ?n :: i32)) @ concat (map ?h ?ys)"
    using type_bytes_tuple[OF catalogued_tuple(1)] by (simp add: case_prod_unfold)
  show ?case unfolding bytes
  proof (rule parses_short)
    assume "length ([char_of (1 :: nat)] @ le_bytes 4 (unat (word_of_nat ?n :: i32)) @ concat (map ?h ?ys)) < 2 ^ 31"
    moreover have "length ?ys \<le> length (concat (map ?h ?ys))" by (rule length_parts) (auto simp: str_bytes_nonempty)
    ultimately have n: "?n < 2 ^ 31" by simp
    then have sn: "sint (word_of_nat ?n :: i32) = int ?n" by (intro index_word) simp
    have "to_size (32 * int ?n) = 32 * ?n" using n by (simp add: to_size_id nat_mult_distrib)
    then have al: "alloc_size (to_size (32 * int ?n)) = RDB_alloc" using n by (simp add: alloc_size_def)
    have "parses (\<lambda>d p. and_then (thread (\<lambda>i. ?body i d) [0 ..< ?n] ([], p)) (\<lambda>(as, p). done_with (Tuple as, p))) (concat (map ?h ?ys))
        (\<lambda>t'. t' = canon_type (Tuple (map Some xs)))"
      by (rule parses_final[OF loop[of "[0 ..< ?n]" ?ys "[]"]]) (simp_all add: canon_tuple[OF catalogued_tuple(1)] del: canon_type.simps)
    then have "parses (\<lambda>d p. and_then RDB_alloc (\<lambda>_. and_then (alloc_size (to_size (32 * sint (word_of_nat ?n :: i32)))) (\<lambda>_.
         and_then (thread (\<lambda>i. ?body i d) [0 ..< nat (sint (word_of_nat ?n :: i32))] ([], p)) (\<lambda>(as, p). done_with (Tuple as, p))))) (concat (map ?h ?ys))
        (\<lambda>t'. t' = canon_type (Tuple (map Some xs)))"
      unfolding sn al nat_int by (intro parses_alloc)
    then show "parses (RDB_deserialize_type k P types) ([char_of (1 :: nat)] @ le_bytes 4 (unat (word_of_nat ?n :: i32)) @ concat (map ?h ?ys))
        (\<lambda>t'. t' = canon_type (Tuple (map Some xs)))"
      unfolding k RDB_deserialize_type.simps
      by (intro parses_bind[OF parses_byte]) (simp_all add: parses_bind[OF parses_count])
  qed
next
  case (catalogued_relation b)
  then obtain k' where k: "k = Suc k'" "size b < k'" by (cases k) auto
  have "parses (\<lambda>d p. and_then RDB_alloc (\<lambda>_. and_then (RDB_deserialize_type k' P types d p) (\<lambda>(b, p). done_with (Relation b, p)))) (type_bytes b) (\<lambda>t'. t' = canon_type (Relation b))"
    using catalogued_relation.IH[OF k(2)] by (intro parses_alloc parses_final[where R = "\<lambda>t'. t' = canon_type b"]) simp_all
  then show ?case unfolding k RDB_deserialize_type.simps type_bytes.simps
    by (intro parses_bind[OF parses_byte]) simp_all
next
  case (catalogued_array b)
  then obtain k' where k: "k = Suc k'" "size b < k'" by (cases k) auto
  have "parses (\<lambda>d p. and_then RDB_alloc (\<lambda>_. and_then (RDB_deserialize_type k' P types d p) (\<lambda>(b, p). done_with (Array b, p)))) (type_bytes b) (\<lambda>t'. t' = canon_type (Array b))"
    using catalogued_array.IH[OF k(2)] by (intro parses_alloc parses_final[where R = "\<lambda>t'. t' = canon_type b"]) simp_all
  then show ?case unfolding k RDB_deserialize_type.simps type_bytes.simps
    by (intro parses_bind[OF parses_byte]) simp_all
qed

section \<open>Equal types\<close>

lemma canon_spec: "catalogued types t \<Longrightarrow> spec_of (canon_type t) = spec_of t"
proof (induction rule: catalogued.induct)
  case (catalogued_tuple xs)
  let ?ys = "map (\<lambda>(n, t). (n, canon_type t)) (sort_key fst xs)"
  have canon: "canon_type (Tuple (map Some xs)) = Tuple (map Some ?ys)"
    unfolding canon_tuple[OF catalogued_tuple(1)] by (simp add: case_prod_unfold)
  have "map_of (sort_key fst xs) = map_of xs"
    by (subst map_of_inject_set) (simp_all add: catalogued_tuple(1) mset_eq_imp_distinct_iff[of "map fst (sort_key fst xs)" "map fst xs"])
  moreover have "map_of ?ys n = map_option canon_type (map_of (sort_key fst xs) n)" for n
    by (simp add: map_of_map)
  ultimately have "map_option spec_of (map_of ?ys n) = map_option spec_of (map_of xs n)" for n
    using catalogued_tuple(2) by (cases "map_of xs n") (fastforce dest: map_of_SomeD)+
  then show ?case unfolding canon spec_of_tuple_eq by blast
qed simp_all

lemma spec_bytes:
  "catalogued types t \<Longrightarrow> catalogued types u \<Longrightarrow> spec_of t = spec_of u \<Longrightarrow> type_bytes t = type_bytes u"
proof (induction arbitrary: u rule: catalogued.induct)
  case (catalogued_scalar n i reps ar sups)
  then show ?case by (cases u) (auto simp: spec_of.simps(2))
next
  case (catalogued_tuple xs)
  obtain as where as: "u = Tuple as" using catalogued_tuple(4) by (cases u) auto
  obtain ys where ys: "as = map Some ys" "distinct (map fst ys)" "\<forall>x \<in> set ys. catalogued types (snd x)"
    using catalogued_tuple(3) unfolding as by (auto elim: catalogued_TupleE)
  have eq: "map_option spec_of (map_of xs n) = map_option spec_of (map_of ys n)" for n
    using catalogued_tuple(4) unfolding as ys(1) spec_of_tuple_eq by blast
  then have "dom (map_of xs) = dom (map_of ys)" by (auto simp: dom_def) (metis map_option_is_None option.exhaust)+
  then have names: "set (map fst xs) = set (map fst ys)" by (simp add: dom_map_of_conv_image_fst)
  let ?xs = "sort_key fst xs" and ?ys = "sort_key fst ys"
  have "distinct (map fst ?xs)" "distinct (map fst ?ys)"
    using catalogued_tuple(1) ys(2) by (simp_all add: mset_eq_imp_distinct_iff[of "map fst (sort_key fst _)" "map fst _"])
  then have sorted: "map fst ?xs = map fst ?ys" using names by (intro sorted_distinct_set_unique) simp_all
  then have len: "length ?xs = length ?ys" by (metis length_map)
  let ?h = "\<lambda>x. str_bytes (fst x) @ type_bytes (snd x)"
  have "?h (?xs ! j) = ?h (?ys ! j)" if j: "j < length ?xs" for j
  proof -
    have mem: "?xs ! j \<in> set xs" "?ys ! j \<in> set ys" using j len by (metis nth_mem set_sort)+
    have name: "fst (?xs ! j) = fst (?ys ! j)" using sorted j len by (metis nth_map)
    moreover have "map_of xs (fst (?xs ! j)) = Some (snd (?xs ! j))"
      by (rule map_of_is_SomeI[OF catalogued_tuple(1)]) (use mem in simp)
    moreover have "map_of ys (fst (?ys ! j)) = Some (snd (?ys ! j))" by (rule map_of_is_SomeI[OF ys(2)]) (use mem in simp)
    ultimately have "spec_of (snd (?xs ! j)) = spec_of (snd (?ys ! j))"
      using eq[of "fst (?xs ! j)"] by simp
    then have "type_bytes (snd (?xs ! j)) = type_bytes (snd (?ys ! j))" using catalogued_tuple(2) ys(3) mem by blast
    then show ?thesis using name by simp
  qed
  then have "map ?h ?xs = map ?h ?ys" using len by (simp add: list_eq_iff_nth_eq)
  moreover have "length xs = length ys" using len by simp
  ultimately show ?case unfolding as ys(1) type_bytes_tuple[OF catalogued_tuple(1)] type_bytes_tuple[OF ys(2)] by (simp only:)
next
  case (catalogued_relation b)
  then obtain c where u: "u = Relation c" by (cases u) (simp_all add: spec_of.simps(2))
  then have "catalogued types c" "spec_of b = spec_of c" using catalogued_relation.prems by (simp_all add: catalogued_Relation)
  then show ?case unfolding u type_bytes.simps using catalogued_relation.IH by metis
next
  case (catalogued_array b)
  then obtain c where u: "u = Array c" by (cases u) (simp_all add: spec_of.simps(2))
  then have "catalogued types c" "spec_of b = spec_of c" using catalogued_array.prems by (simp_all add: catalogued_Array)
  then show ?case unfolding u type_bytes.simps using catalogued_array.IH by metis
qed

lemma bytes_spec:
  assumes "catalogued types t" "catalogued types u" "type_bytes t = type_bytes u" "length (type_bytes t) < 2 ^ 31"
  shows "spec_of t = spec_of u"
proof -
  let ?k = "Suc (size t + size u)"
  let ?f = "RDB_deserialize_type ?k c_locale types (type_bytes t) 0"
  have one: "gives ?f (\<lambda>(v, i). v = canon_type t \<and> i = int (length (type_bytes t)))"
    using parsesD[OF deserialize_type_parses[OF assms(1), of ?k c_locale], of "[]" "[]"] assms(4) by simp
  have two: "gives ?f (\<lambda>(v, i). v = canon_type u \<and> i = int (length (type_bytes t)))"
    using parsesD[OF deserialize_type_parses[OF assms(2), of ?k c_locale], of "[]" "[]"] assms(3,4) by simp
  have "canon_type t = canon_type u" using gives_run[OF one fails_mem_ok] gives_run[OF two fails_mem_ok] by auto
  then show ?thesis using canon_spec assms(1,2) by metis
qed

section \<open>Properties\<close>

text \<open>
  C8: A type that is written to a binary object and read back is the same type, provided that the catalog
  has its scalar types; the attributes come back in the order of their names.
\<close>

theorem type_round_trip:
  assumes "catalogued types t" "length (type_bytes t) + 256 < 2 ^ 31" "size t < k" "fails m = []"
  shows "\<exists>v m1 t' m2. RDB_type_to_bin P t m = (Inr v, m1) \<and> RDB_bin_to_type k P types v m1 = (Inr t', m2)
     \<and> spec_of t' = spec_of t \<and> t' = canon_type t"
proof -
  have "gives (RDB_type_to_bin P t) (\<lambda>v. v = Obj (Some RDB_BINARY) None (BinV (type_bytes t)))"
    unfolding RDB_type_to_bin_def by (rule new_buffer_gives[OF serialize_type_emits[OF assms(1)] assms(2)])
  then have "gives (and_then (RDB_type_to_bin P t) (\<lambda>v. and_then (RDB_bin_to_type k P types v) (\<lambda>t'. done_with (v, t')))) (\<lambda>(v, t'). t' = canon_type t)"
  proof (rule gives_and_then)
    fix v assume v: "v = Obj (Some RDB_BINARY) None (BinV (type_bytes t))"
    have "gives (RDB_deserialize_type k P types (type_bytes t) 0) (\<lambda>(t', i). t' = canon_type t \<and> i = int (length (type_bytes t)))"
      using parsesD[OF deserialize_type_parses[OF assms(1,3)], of "[]" "[]" P] assms(2) by simp
    then have "gives (RDB_bin_to_type k P types v) (\<lambda>t'. t' = canon_type t)"
      unfolding RDB_bin_to_type_def v by (simp add: RDB_obj_bin_def) (rule gives_and_then_pair, assumption, simp add: giving)
    then show "gives (and_then (RDB_bin_to_type k P types v) (\<lambda>t'. done_with (v, t'))) (\<lambda>(v, t'). t' = canon_type t)"
      by (rule gives_and_then) (simp add: giving)
  qed
  from gives_run[OF this assms(4)] show ?thesis using canon_spec[OF assms(1)]
    by (auto simp: and_then_def done_with_def split: prod.splits sum.splits)
qed

definition sample_type :: rdb_type where
  "sample_type = Array (Tuple (map Some [(''B'', RDB_STRING), (''A'', RDB_INTEGER)]))"

definition sample_types :: "string \<Rightarrow> rdb_type result" where
  "sample_types n = (if n = ''integer'' then Inr RDB_INTEGER else if n = ''string'' then Inr RDB_STRING else raise_err TYPE_NOT_FOUND_ERROR n)"

lemma sample_catalogued: "catalogued sample_types sample_type" "catalogued sample_types (canon_type sample_type)"
proof -
  have "sample_types ''integer'' = Inr RDB_INTEGER" "sample_types ''string'' = Inr RDB_STRING"
    by (simp_all add: sample_types_def)
  then have scal: "catalogued sample_types RDB_STRING" "catalogued sample_types RDB_INTEGER"
    unfolding RDB_INTEGER_def RDB_STRING_def by (auto intro!: catalogued_scalar)
  show "catalogued sample_types sample_type"
    unfolding sample_type_def by (intro catalogued_array catalogued_tuple) (use scal in simp_all)
  have "catalogued sample_types (Array (Tuple (map Some [(''A'', RDB_INTEGER), (''B'', RDB_STRING)])))"
    by (intro catalogued_array catalogued_tuple) (use scal in simp_all)
  moreover have "canon_type sample_type = Array (Tuple (map Some [(''A'', RDB_INTEGER), (''B'', RDB_STRING)]))"
    by (simp add: sample_type_def name_or_empty_def RDB_INTEGER_def RDB_STRING_def)
  ultimately show "catalogued sample_types (canon_type sample_type)" by (simp only:)
qed

lemma sample_type_length: "length (type_bytes sample_type) = 55"
  by (simp add: sample_type_def name_or_empty_def RDB_INTEGER_def RDB_STRING_def str_bytes_def)

lemma type_round_trip_witness:
  "\<exists>v m1 t' m2. RDB_type_to_bin c_locale sample_type mem_ok = (Inr v, m1) \<and> RDB_bin_to_type 99 c_locale sample_types v m1 = (Inr t', m2)
     \<and> spec_of t' = spec_of sample_type"
proof -
  have "size sample_type < 99" by (simp add: sample_type_def RDB_INTEGER_def RDB_STRING_def builtin_info_def)
  with type_round_trip[OF sample_catalogued(1) _ _ fails_mem_ok, of 99 c_locale] show ?thesis
    by (fastforce simp: sample_type_length)
qed

text \<open>
  C9: The bytes of a type are canonical: two types that the catalog knows are written as the same bytes exactly
  if they are equal, so that they can be compared bitwise.
\<close>

theorem type_bytes_canonical:
  assumes "catalogued types t" "catalogued types u"
    and "length (type_bytes t) + 256 < 2 ^ 31" "length (type_bytes u) + 256 < 2 ^ 31"
    and "RDB_type_to_bin P t m = (Inr v, m1)" "RDB_type_to_bin P u m' = (Inr w, m2)"
  shows "val_of v = val_of w \<longleftrightarrow> spec_of t = spec_of u"
proof -
  have w: "gives (RDB_type_to_bin P t) (\<lambda>v. v = Obj (Some RDB_BINARY) None (BinV (type_bytes t)))"
    "gives (RDB_type_to_bin P u) (\<lambda>v. v = Obj (Some RDB_BINARY) None (BinV (type_bytes u)))"
    unfolding RDB_type_to_bin_def by (rule new_buffer_gives[OF serialize_type_emits[OF assms(1)] assms(3)], rule new_buffer_gives[OF serialize_type_emits[OF assms(2)] assms(4)])
  have "val_of v = BinV (type_bytes t)" "val_of w = BinV (type_bytes u)"
    using givesD(2)[OF w(1) assms(5)] givesD(2)[OF w(2) assms(6)] by auto
  then show ?thesis using bytes_spec[OF assms(1,2)] spec_bytes[OF assms(1,2)] assms(3) by auto
qed

lemma type_bytes_canonical_witness:
  "\<exists>v m1 w m2. RDB_type_to_bin c_locale sample_type mem_ok = (Inr v, m1)
     \<and> RDB_type_to_bin c_locale (canon_type sample_type) mem_ok = (Inr w, m2) \<and> val_of v = val_of w"
proof -
  note eq = canon_spec[OF sample_catalogued(1)]
  have len: "length (type_bytes sample_type) + 256 < 2 ^ 31" "length (type_bytes (canon_type sample_type)) + 256 < 2 ^ 31"
    using spec_bytes[OF sample_catalogued eq[symmetric]] sample_type_length by simp_all
  have run: "\<exists>v m'. RDB_type_to_bin c_locale t mem_ok = (Inr v, m')" if "catalogued sample_types t" "length (type_bytes t) + 256 < 2 ^ 31" for t
    using gives_run[OF new_buffer_gives[OF serialize_type_emits[OF that(1)] that(2)] fails_mem_ok, of c_locale] unfolding RDB_type_to_bin_def by blast
  obtain v m1 w m2 where "RDB_type_to_bin c_locale sample_type mem_ok = (Inr v, m1)" "RDB_type_to_bin c_locale (canon_type sample_type) mem_ok = (Inr w, m2)"
    using run[OF sample_catalogued(1) len(1)] run[OF sample_catalogued(2) len(2)] by blast
  with type_bytes_canonical[OF sample_catalogued len this] eq show ?thesis by auto
qed

end
