(* ===== verification/Expression_Storage.thy ===== *)
theory Expression_Storage
  imports Serialization_Laws
begin

text \<open>
  Values and expressions as binary objects, the rest of \<^verbatim>\<open>rel/serialize.c\<close>.  A table that is
  not persistent is not part of the model; for a persistent one only its name is written.
\<close>

section \<open>The type of a value\<close>

text \<open>
  The type of a tuple without a type is made from its attributes.  When the type of an attribute cannot be
  made, the clean-up looks at the types of the attributes after it, which were never set.
\<close>

definition dup_silent :: "string \<Rightarrow> string action" where
  "dup_silent s m = (case RDB_dup_str s m of (None, m') \<Rightarrow> (Inl Silent, m') | (Some d, m') \<Rightarrow> (Inr d, m'))"

definition or_unset :: "bool \<Rightarrow> 'a action \<Rightarrow> 'a action" where
  "or_unset unset f m = (case f m of (Inl (Raised e), m') \<Rightarrow> (Inl (if unset then Segfault else Raised e), m')
     | (Inl Silent, m') \<Rightarrow> (Inl (if unset then Segfault else Silent), m') | r \<Rightarrow> r)"

fun attr_types :: "(rdb_obj \<Rightarrow> rdb_type action) \<Rightarrow> (string \<times> rdb_obj) list \<Rightarrow> rdb_attr list action" where
  "attr_types new_type [] = done_with []"
| "attr_types new_type ((k, v) # es) =
     and_then (or_unset (es \<noteq> []) (and_then (new_type v) (\<lambda>t. and_then (dup_silent k) (\<lambda>n. done_with (Some (n, t)))))) (\<lambda>a.
     and_then (attr_types new_type es) (\<lambda>as. done_with (a # as)))"

definition tuple_type_from :: "(rdb_obj \<Rightarrow> rdb_type action) \<Rightarrow> rdb_obj \<Rightarrow> rdb_type action" where
  "tuple_type_from new_type tplp =
     and_then RDB_alloc (\<lambda>_.
     and_then (end_with (RDB_tuple_size tplp)) (\<lambda>n.
       if n > 0 then
         and_then RDB_alloc (\<lambda>_.
         and_then (end_with (rbind (tuple_tab tplp) hashtable_entries)) (\<lambda>es.
         and_then (attr_types new_type es) (\<lambda>as. done_with (Tuple as))))
       else done_with (Tuple [])))"

primrec RDB_new_nonscalar_obj_type :: "nat \<Rightarrow> rdb_obj \<Rightarrow> rdb_type action" where
  "RDB_new_nonscalar_obj_type 0 objp = end_with (Inl Diverges)"
| "RDB_new_nonscalar_obj_type (Suc k) objp =
     (case scalar_only (typ_of objp) of
        Some t \<Rightarrow> done_with t
      | None \<Rightarrow>
          if kind_of (val_of objp) = RDB_OB_TUPLE then tuple_type_from (RDB_new_nonscalar_obj_type k) objp
          else if kind_of (val_of objp) = RDB_OB_ARRAY then
            and_then (end_with (RDB_array_length objp)) (\<lambda>n.
              if n = 0 then raise_error INVALID_ARGUMENT_ERROR ''Cannot get type of empty array''
              else and_then (RDB_array_get objp 0) (\<lambda>elemp.
                   and_then (RDB_new_nonscalar_obj_type k elemp) RDB_new_array_type))
          else (case typ_of objp of
              None \<Rightarrow> raise_error INTERNAL_ERROR ''type of tuple attribute not found''
            | Some t \<Rightarrow> RDB_dup_nonscalar_type t))"

definition RDB_tuple_type :: "nat \<Rightarrow> rdb_obj \<Rightarrow> rdb_type action" where
  "RDB_tuple_type k tplp = tuple_type_from (RDB_new_nonscalar_obj_type k) tplp"

section \<open>Writing\<close>

definition obj_type_or_new :: "nat \<Rightarrow> rdb_obj \<Rightarrow> rdb_type action" where
  "obj_type_or_new k v =
     (case typ_of v of
        Some t \<Rightarrow> done_with t
      | None \<Rightarrow>
          if kind_of (val_of v) \<noteq> RDB_OB_TUPLE then raise_error INVALID_ARGUMENT_ERROR ''type is missing for non-tuple''
          else RDB_tuple_type k v)"

definition RDB_serialize_obj :: "nat \<Rightarrow> platform \<Rightarrow> rdb_obj \<Rightarrow> ser \<Rightarrow> ser action" where
  "RDB_serialize_obj k P v st =
     and_then (obj_type_or_new k v) (\<lambda>t.
     and_then (RDB_serialize_type P t st) (\<lambda>st.
     and_then (if irep_length t = -1
               then and_then (RDB_obj_ilen t v) (\<lambda>len. and_then (serialize_size_t P len st) (\<lambda>st. done_with (len, st)))
               else done_with (to_size (irep_length t), st)) (\<lambda>(len, st).
     and_then (reserve_space P len st) (\<lambda>(buf, p).
     and_then (RDB_obj_to_irep P t v buf (nat p) len) (\<lambda>buf'. done_with (buf', to_int (p + int len)))))))"

definition RDB_obj_to_bin :: "nat \<Rightarrow> platform \<Rightarrow> rdb_obj \<Rightarrow> rdb_obj action" where
  "RDB_obj_to_bin k P srcp = new_buffer P (RDB_serialize_obj k P srcp)"

definition serialize_trobj :: "nat \<Rightarrow> platform \<Rightarrow> rdb_obj \<Rightarrow> ser \<Rightarrow> ser action" where
  "serialize_trobj k P v st =
     (if kind_of (val_of v) = RDB_OB_TABLE then end_with (Inl Unmodelled) else RDB_serialize_obj k P v st)"

text \<open>\<open>tabname\<close> gives the names of the persistent tables.\<close>

definition serialize_table :: "platform \<Rightarrow> (nat \<Rightarrow> string option) \<Rightarrow> nat \<Rightarrow> ser \<Rightarrow> ser action" where
  "serialize_table P tabname tbp st =
     (case tabname tbp of Some n \<Rightarrow> RDB_serialize_str P n st | None \<Rightarrow> end_with (Inl Unmodelled))"

function RDB_serialize_expr :: "nat \<Rightarrow> platform \<Rightarrow> (nat \<Rightarrow> string option) \<Rightarrow> rdb_expression \<Rightarrow> ser \<Rightarrow> ser action" where
  "RDB_serialize_expr k P tabname e st =
     (case e of
        ExObj t v \<Rightarrow> and_then (RDB_serialize_byte P 0 st) (serialize_trobj k P v)
      | ExTbp t tbp i \<Rightarrow> and_then (RDB_serialize_byte P 1 st) (serialize_table P tabname tbp)
      | ExVar t n \<Rightarrow> and_then (RDB_serialize_byte P 2 st) (RDB_serialize_str P n)
      | ExOp t n as vs \<Rightarrow>
          and_then (RDB_serialize_byte P 4 st) (\<lambda>st.
          and_then (RDB_serialize_str P n st) (\<lambda>st.
          and_then (RDB_serialize_int P (RDB_expr_list_length as) st) (\<lambda>st.
          and_then (thread (RDB_serialize_expr k P tabname) as st) (\<lambda>st.
            case t of
              Some u \<Rightarrow> if as = [] then and_then (RDB_serialize_byte P 1 st) (RDB_serialize_type P u) else RDB_serialize_byte P 0 st
            | None \<Rightarrow> RDB_serialize_byte P 0 st)))))"
  by pat_completeness auto

termination
  by (relation "measure (\<lambda>(k, P, tn, e, st). size e)") (auto intro: arg_size)

declare RDB_serialize_expr.simps [simp del]

text \<open>No expression is the empty object.\<close>

definition RDB_expr_to_bin :: "nat \<Rightarrow> platform \<Rightarrow> (nat \<Rightarrow> string option) \<Rightarrow> rdb_expression option \<Rightarrow> rdb_obj action" where
  "RDB_expr_to_bin k P tabname exp =
     (case exp of
        Some e \<Rightarrow> new_buffer P (RDB_serialize_expr k P tabname e)
      | None \<Rightarrow> done_with (Obj (Some RDB_BINARY) None (BinV [])))"

section \<open>Reading\<close>

text \<open>What the functions need to know: \<^verbatim>\<open>RDB_get_type\<close>, \<^verbatim>\<open>RDB_get_subtype\<close>, \<^verbatim>\<open>RDB_get_table\<close> and the equality of types.\<close>

record lookups =
  get_type :: "string \<Rightarrow> rdb_type result"
  get_subtype :: "rdb_type \<Rightarrow> string \<Rightarrow> rdb_type option"
  get_table :: "string \<Rightarrow> nat result"
  same_type :: "rdb_type \<Rightarrow> rdb_type \<Rightarrow> bool"

text \<open>The length is not compared with the number of bytes that are left.\<close>

definition RDB_deserialize_obj :: "nat \<Rightarrow> platform \<Rightarrow> lookups \<Rightarrow> string \<Rightarrow> int \<Rightarrow> rdb_obj \<Rightarrow> (rdb_obj \<times> int) action" where
  "RDB_deserialize_obj k P L d p argvalp =
     and_then (RDB_deserialize_type k P (get_type L) d p) (\<lambda>(t, p).
     and_then (if irep_length t = -1 then deserialize_size_t d p else done_with (to_size (irep_length t), p)) (\<lambda>(len, p).
     and_then (RDB_irep_to_obj k (same_type L) P (get_subtype L) argvalp t (drop (nat p) d) len) (\<lambda>v.
       done_with (if RDB_type_is_tuple t then Obj None (impl_of v) (val_of v) else v, to_int (p + int len)))))"

definition RDB_bin_to_obj :: "nat \<Rightarrow> platform \<Rightarrow> lookups \<Rightarrow> rdb_obj \<Rightarrow> rdb_obj \<Rightarrow> rdb_obj action" where
  "RDB_bin_to_obj k P L binobjp dstp =
     and_then (end_with (RDB_obj_bin binobjp)) (\<lambda>d. and_then (RDB_deserialize_obj k P L d 0 dstp) (\<lambda>(v, p). done_with v))"

definition deserialize_table :: "lookups \<Rightarrow> string \<Rightarrow> int \<Rightarrow> (nat \<times> int) action" where
  "deserialize_table L d p =
     and_then (RDB_deserialize_str d p) (\<lambda>(n, p).
       if n \<noteq> [] then and_then (end_with (get_table L n)) (\<lambda>tbp. done_with (tbp, p)) else end_with (Inl Unmodelled))"

text \<open>
  A kind that is not known sets no expression, and the caller follows a pointer that was never
  set.  Expressions are nested; the recursion is bounded by the first argument.
\<close>

primrec RDB_deserialize_expr :: "nat \<Rightarrow> platform \<Rightarrow> lookups \<Rightarrow> string \<Rightarrow> int \<Rightarrow> (rdb_expression \<times> int) action" where
  "RDB_deserialize_expr 0 P L d p = end_with (Inl Diverges)"
| "RDB_deserialize_expr (Suc k) P L d p =
     and_then (RDB_deserialize_byte d p) (\<lambda>(kind, p).
       if kind = 3 then raise_error NOT_SUPPORTED_ERROR ''Storage format of expression no longer supported, must be deleted and recreated''
       else if kind = 0 then
         and_then (RDB_deserialize_obj k P L d p RDB_init_obj) (\<lambda>(v, p).
         and_then (RDB_obj_to_expr (same_type L) P (Some v)) (\<lambda>e. done_with (e, p)))
       else if kind = 1 then
         and_then (deserialize_table L d p) (\<lambda>(tbp, p). and_then (RDB_table_ref tbp) (\<lambda>e. done_with (e, p)))
       else if kind = 2 then
         and_then (RDB_deserialize_str d p) (\<lambda>(n, p). and_then (RDB_var_ref n) (\<lambda>e. done_with (e, p)))
       else if kind = 4 then
         and_then (RDB_deserialize_str d p) (\<lambda>(n, p).
         and_then (RDB_deserialize_int d p) (\<lambda>(argc, p).
         and_then (RDB_ro_op n) (\<lambda>e.
         and_then (thread (\<lambda>i (e, p). and_then (RDB_deserialize_expr k P L d p) (\<lambda>(a, p). done_with (RDB_add_arg e a, p)))
             [0 ..< nat (sint argc)] (e, p)) (\<lambda>(e, p).
         and_then (RDB_deserialize_byte d p) (\<lambda>(typed, p).
           if typed \<noteq> 0 then
             and_then (RDB_deserialize_type k P (get_type L) d p) (\<lambda>(t, p). done_with (ExOp (Some t) (opname e) (opargs e) (optobjs e), p))
           else done_with (e, p))))))
       else end_with (Inl Segfault))"

definition RDB_bin_to_expr :: "nat \<Rightarrow> platform \<Rightarrow> lookups \<Rightarrow> rdb_obj \<Rightarrow> rdb_expression option action" where
  "RDB_bin_to_expr k P L valp =
     and_then (end_with (RDB_obj_bin valp)) (\<lambda>d.
       if d = [] then done_with None else and_then (RDB_deserialize_expr k P L d 0) (\<lambda>(e, p). done_with (Some e)))"

end
