(* ===== verification/Expression_Round_Trip.thy ===== *)
theory Expression_Round_Trip
  imports Expression_Storage
begin

text \<open>
  Expressions that are written to a binary object and read back have the same meaning.
\<close>

section \<open>Values of a type with its attributes in another order\<close>

lemma canon_scalar: "RDB_type_is_scalar t \<Longrightarrow> canon_type t = t"
  by (cases t) simp_all

lemma canon_props:
  "RDB_type_is_scalar (canon_type t) = RDB_type_is_scalar t" "RDB_type_is_tuple (canon_type t) = RDB_type_is_tuple t"
  "RDB_type_is_dummy (canon_type t) = RDB_type_is_dummy t" "irep_length (canon_type t) = irep_length t"
  "RDB_val_kind (canon_type t) = RDB_val_kind t"
  by (cases t; simp add: irep_length_def RDB_val_kind.simps)+

lemma implements_canon:
  assumes "implements sub t v u" "\<not> RDB_type_is_scalar t"
  shows "u = t" "implements sub (canon_type t) v (canon_type t)"
  using assms by (cases t; auto simp: implements_def split: if_splits)+

lemma header_canon: "\<not> RDB_type_is_scalar t \<Longrightarrow> header t u = []" "\<not> RDB_type_is_scalar t \<Longrightarrow> header (canon_type t) u = []"
  by (cases t; simp add: header_def)+

lemma storable_canon:
  "storable sub t v \<Longrightarrow> catalogued types t \<Longrightarrow> storable sub (canon_type t) v \<and> stored P (canon_type t) v = stored P t v"
proof (induction rule: storable.induct)
  case (storable_atom t v u)
  have "RDB_type_is_scalar t"
    using storable_atom implements_canon(1)[OF storable_atom(1)] by (cases t; cases "val_of v") (auto simp: atom_ok_def RDB_val_kind.simps)
  then show ?case using storable.storable_atom[OF storable_atom(1,2)] by (simp add: canon_scalar)
next
  case (storable_tuple t v u slots cap n nts)
  show ?case
  proof (cases "RDB_type_is_scalar t")
    case True
    have "storable sub t v" by (rule storable.storable_tuple[OF storable_tuple(1-8)]) (use storable_tuple(9) in blast)
    then show ?thesis using True by (simp add: canon_scalar)
  next
    case False
    note u = implements_canon[OF storable_tuple(1) False]
    obtain as where as: "t = Tuple as" using storable_tuple(2) False unfolding u(1) by (cases t) (auto simp: RDB_val_kind.simps)
    have nts: "as = map Some nts" using storable_tuple(6) by (simp add: as u(1) named_attrs_def parts_type_def each_r_Some)
    have cat: "\<forall>nt \<in> set nts. catalogued types (snd nt)"
      using storable_tuple(10) unfolding as nts by (auto elim!: catalogued_TupleE dest: map_injective)
    let ?xs = "sort_key fst nts"
    let ?ys = "map (\<lambda>(n, t). (n, canon_type t)) ?xs"
    have canon: "canon_type t = Tuple (map Some ?ys)"
      unfolding as nts canon_tuple[OF storable_tuple(7)] by (simp add: case_prod_unfold)
    have fsts: "map fst ?ys = map fst ?xs" by (simp add: case_prod_unfold comp_def)
    have dist: "distinct (map fst ?xs)" 
      using storable_tuple(7) by (simp add: mset_eq_imp_distinct_iff[of "map fst (sort_key fst nts)" "map fst nts"])
    have named: "named_attrs (canon_type t) = Inr ?ys" by (simp add: canon named_attrs_def parts_type_def each_r_Some)
    have IH: "\<exists>w. attrs v (fst nt) = Some w \<and> storable sub (canon_type (snd nt)) w \<and> stored P (canon_type (snd nt)) w = stored P (snd nt) w"
      if "nt \<in> set nts" for nt using storable_tuple(9) cat that by blast
    have "storable sub (canon_type t) v"
    proof (rule storable.storable_tuple[OF u(2) _ _ storable_tuple(4,5) named])
      show "RDB_val_kind (canon_type t) = RDB_OB_TUPLE" "irep_length (canon_type t) = -1"
        using storable_tuple(2,3) by (simp_all add: canon_props u(1))
      show "distinct (map fst ?ys)" unfolding fsts by (rule dist)
      show "dom (attrs v) = fst ` set ?ys" using storable_tuple(8) by (metis fsts set_map set_sort)
      show "\<forall>nt \<in> set ?ys. \<exists>w. attrs v (fst nt) = Some w \<and> storable sub (snd nt) w" using IH by fastforce
    qed
    moreover have "stored P (canon_type t) v = stored P t v"
    proof -
      have ys: "attr_seq (canon_type t) = Inr ?ys"
      proof -
        have "sort_key fst ?ys = ?ys" by (rule sort_key_id_if_sorted) (simp only: fsts sorted_sort_key)
        then show ?thesis using attr_seq_sort[OF named] dist fsts by metis
      qed
      have xs: "attr_seq t = Inr ?xs" using attr_seq_sort[OF _ storable_tuple(7)] storable_tuple(6) u(1) by simp
      have "piece P v (n, canon_type t) = piece P v (n, t)" if "(n, t) \<in> set nts" for n t
        using IH[OF that] by (auto simp: piece_def part_def canon_props)
      then have "map (piece P v) ?ys = map (piece P v) ?xs" by auto
      then show ?thesis
        using stored_tuple[OF u(2) storable_tuple(4,5) ys, of P] stored_tuple[OF storable_tuple(1,4,5), of ?xs P] xs u(1)
        by (simp only: header_canon[OF False])
    qed
    ultimately show ?thesis by blast
  qed
next
  case (storable_array t v u n cap es et)
  show ?case
  proof (cases "RDB_type_is_scalar t")
    case True
    have "storable sub t v" by (rule storable.storable_array[OF storable_array(1-8)]) (use storable_array(9) in blast)
    then show ?thesis using True by (simp add: canon_scalar)
  next
    case False
    note u = implements_canon[OF storable_array(1) False]
    obtain b where b: "t = Array b" using storable_array(2) False unfolding u(1) by (cases t) (auto simp: RDB_val_kind.simps)
    have et: "et = b" using storable_array(7) by (simp add: b u(1) elem_type_def parts_type_def)
    have cat: "catalogued types b" using storable_array(10) by (simp add: b catalogued_Array)
    have elem: "elem_type (canon_type t) = Inr (canon_type b)" by (simp add: b elem_type_def parts_type_def)
    have IH: "\<forall>w \<in> set (take (nat (sint n)) es). storable sub (canon_type b) w \<and> stored P (canon_type b) w = stored P b w"
      using storable_array(9) cat et by blast
    have "storable sub (canon_type t) v"
      by (rule storable.storable_array[OF u(2) _ _ storable_array(4-6) elem])
        (use IH storable_array(2,3,8) et in \<open>simp_all add: canon_props u(1)\<close>)
    moreover have "stored P (canon_type t) v = stored P t v"
    proof -
      have "map (\<lambda>w. part (canon_type b) (stored P (canon_type b) w)) (take (nat (sint n)) es) = map (\<lambda>w. part b (stored P b w)) (take (nat (sint n)) es)"
        using IH by (simp add: part_def canon_props)
      then show ?thesis
        using stored_array[OF u(2) storable_array(4,6) elem, of P] stored_array[OF storable_array(1,4,6,7), of P] et u(1)
        by (simp only: header_canon[OF False])
    qed
    ultimately show ?thesis by blast
  qed
qed

section \<open>Arrays that are read have no type\<close>

lemma thread_keeps:
  assumes "\<And>x s m s' m'. f x s m = (Inr s', m') \<Longrightarrow> R s \<Longrightarrow> R s'" "thread f xs s m = (Inr s', m')" "R s"
  shows "R s'"
  using assms(2,3)
proof (induction xs arbitrary: s m)
  case (Cons x xs)
  then show ?case using assms(1) by (auto simp: and_then_def split: prod.splits sum.splits)
qed (simp add: done_with_def)

lemma with_elem_typ: "with_elem a i f m = (r, a', m') \<Longrightarrow> typ_of a' = typ_of a"
  by (cases a) (auto simp: with_elem_def array_obj_def or_keep_def raise_error_def split: rdb_val.splits if_splits prod.splits option.splits)

lemma irep_to_array_typ:
  assumes "irep_to_array same P to_obj (Obj t i Initial) u data len m = (Inr w, m')"
  shows "typ_of w = t"
proof -
  have set: "typ_of d = typ_of a" if "unchanged_or_fail (RDB_array_set same P a j v) m = (Inr d, m')" for a j v m d m'
    using that by (auto simp: unchanged_or_fail_def RDB_array_set_def split: prod.splits sum.splits dest: with_elem_typ)
  have new: "typ_of d = t" if "unchanged_or_fail (RDB_set_array_length P (Obj t i Initial) n) m = (Inr d, m')" for n m d m'
    using that by (auto simp: unchanged_or_fail_def RDB_set_array_length_def or_keep_def changed_def array_obj_def and_then_def done_with_def
      split: prod.splits sum.splits if_splits)
  let ?f = "\<lambda>et j (a, tp, bs, dl).
         and_then (len_irep_to_obj to_obj tp et bs dl) (\<lambda>(tp', l).
         and_then (unchanged_or_fail (RDB_array_set same P a (word_of_nat j) tp')) (\<lambda>a'.
         done_with (a', tp', drop l bs, to_size (int dl - int l))))"
  have step: "typ_of (fst s) = t \<Longrightarrow> typ_of (fst s') = t" if "?f et j s m = (Inr s', m')" for et j s m s' m'
    using that set by (auto simp: and_then_def done_with_def split: prod.splits sum.splits)
  have loop: "typ_of (fst s') = t" if "thread (?f et) js s m = (Inr s', m')" "typ_of (fst s) = t" for et js s m s' m'
    using thread_keeps[where R = "\<lambda>s. typ_of (fst s) = t" and f = "?f et", OF step that] .
  show ?thesis
    using assms unfolding irep_to_array_def
    by (auto simp: and_then_def end_with_def done_with_def split: prod.splits sum.splits dest!: loop new)
qed


section \<open>The type of a value without a type\<close>

inductive made_type :: "nat \<Rightarrow> rdb_obj \<Rightarrow> rdb_type \<Rightarrow> bool" where
  made_scalar: "scalar_only (typ_of v) = Some t \<Longrightarrow> made_type (Suc k) v t"
| made_tuple: "scalar_only (typ_of v) = None \<Longrightarrow> kind_of (val_of v) = RDB_OB_TUPLE \<Longrightarrow> RDB_tuple_size v = Inr (int (length es))
    \<Longrightarrow> tuple_tab v = Inr h \<Longrightarrow> hashtable_entries h = Inr es
    \<Longrightarrow> list_all2 (\<lambda>e x. fst x = fst e \<and> made_type k (snd e) (snd x)) es xs \<Longrightarrow> made_type (Suc k) v (Tuple (map Some xs))"
| made_array: "scalar_only (typ_of v) = None \<Longrightarrow> val_of v = ArrayV n cap es \<Longrightarrow> 0 < sint n \<Longrightarrow> es \<noteq> []
    \<Longrightarrow> made_type k (hd es) t \<Longrightarrow> made_type (Suc k) v (Array t)"

lemma works_alloc: "(\<And>a. works (g a) Q) \<Longrightarrow> works (and_then RDB_alloc g) Q"
  by (rule works_then[OF works_gives[OF gives_alloc(1)]])

lemma works_end: "Q v \<Longrightarrow> works (end_with (Inr v)) Q"
  by (rule works_gives) (rule gives_end)

lemma works_dup_silent: "works (dup_silent s) (\<lambda>d. d = s)"
  by (auto simp: works_def dup_silent_def RDB_dup_str_def malloc_ok)

lemma works_or_unset: "works f Q \<Longrightarrow> works (or_unset b f) Q"
  unfolding works_def or_unset_def by fastforce

lemma attr_types_works:
  "list_all2 (\<lambda>e x. fst x = fst e \<and> works (f (snd e)) (\<lambda>u. u = snd x)) es xs \<Longrightarrow> works (attr_types f es) (\<lambda>as. as = map Some xs)"
proof (induction rule: list_all2_induct)
  case Nil
  then show ?case by (simp add: works_done)
next
  case (Cons e es x xs)
  obtain k v where e: "e = (k, v)" by (cases e)
  have one: "works (or_unset (es \<noteq> []) (and_then (f v) (\<lambda>t. and_then (dup_silent k) (\<lambda>n. done_with (Some (n, t)))))) (\<lambda>a. a = Some x)"
    using Cons.hyps(1) e
    by (intro works_or_unset works_then[where R = "\<lambda>u. u = snd x"] works_then[OF works_dup_silent] works_done) (auto simp: prod_eq_iff)
  show ?case unfolding e attr_types.simps
    by (rule works_then[OF one], rule works_then[OF Cons.IH], rule works_done) simp
qed

lemma new_type_works: "made_type k v t \<Longrightarrow> works (RDB_new_nonscalar_obj_type k v) (\<lambda>u. u = t)"
proof (induction rule: made_type.induct)
  case (made_scalar v t k)
  then show ?case by (simp add: works_done)
next
  case (made_tuple v es h k xs)
  have "list_all2 (\<lambda>e x. fst x = fst e \<and> works (RDB_new_nonscalar_obj_type k (snd e)) (\<lambda>u. u = snd x)) es xs"
    using made_tuple(6) by (rule list_all2_mono) simp
  note attrs = attr_types_works[OF this]
  have "works (tuple_type_from (RDB_new_nonscalar_obj_type k) v) (\<lambda>u. u = Tuple (map Some xs))"
  proof (cases "es = []")
    case True
    then show ?thesis using made_tuple(3,6) by (auto simp: tuple_type_from_def intro!: works_alloc works_done)
  next
    case False
    then show ?thesis using made_tuple(3-5)
      by (auto simp: tuple_type_from_def intro!: works_alloc works_then[OF attrs] works_done)
  qed
  then show ?case using made_tuple(1,2) by simp
next
  case (made_array v n cap es k t)
  have "es ! 0 = hd es" using made_array(4) by (simp add: hd_conv_nth)
  then have get: "RDB_array_get v 0 = done_with (hd es)" using made_array(2-4) by (simp add: RDB_array_get_def)
  have "n \<noteq> 0" using made_array(3) by auto
  have "works (and_then (RDB_new_nonscalar_obj_type k (hd es)) RDB_new_array_type) (\<lambda>u. u = Array t)"
    by (rule works_then[OF made_array.IH]) (auto simp: RDB_new_array_type_def intro!: works_alloc works_done)
  then show ?case using made_array(1,2) get \<open>n \<noteq> 0\<close>
    by (auto simp: RDB_array_length_def)
qed

section \<open>Writing values\<close>

text \<open>
  A constant that can be written as a value of type \<open>t\<close>: it has the type, or is a tuple for which the type is made, and
  its stored form is defined.
\<close>

definition written_as :: "nat \<Rightarrow> platform \<Rightarrow> lookups \<Rightarrow> rdb_obj \<Rightarrow> rdb_type \<Rightarrow> bool" where
  "written_as k P L v t \<longleftrightarrow> (typ_of v = Some t \<or> typ_of v = None \<and> kind_of (val_of v) = RDB_OB_TUPLE \<and> made_type (Suc k) v t)
     \<and> storable (get_subtype L) t v \<and> catalogued (get_type L) t \<and> length (stored P t v) < 2 ^ 31 \<and> size v < k \<and> size t < k"

definition value_bytes :: "platform \<Rightarrow> rdb_obj \<Rightarrow> rdb_type \<Rightarrow> string" where
  "value_bytes P v t = type_bytes t @ part t (stored P t v)"

lemma type_of_written: "written_as k P L v t \<Longrightarrow> works (obj_type_or_new k v) (\<lambda>u. u = t)"
proof (cases "typ_of v")
  case None
  assume w: "written_as k P L v t"
  then have "made_type (Suc k) v t" "kind_of (val_of v) = RDB_OB_TUPLE" using None by (simp_all add: written_as_def)
  then show ?thesis using new_type_works None by (fastforce simp: obj_type_or_new_def RDB_tuple_type_def scalar_only_def)
qed (simp add: written_as_def obj_type_or_new_def works_done)

lemma length_bytes:
  assumes "written_as k P L v t"
    and "\<And>st'. wrote (p @ (if irep_length t = -1 then le_bytes 8 (length (stored P t v)) else [])) st' \<Longrightarrow> Q (length (stored P t v), st')"
    and "wrote p st" "irep_length t = -1 \<Longrightarrow> length p + 8 + 256 < 2 ^ 31"
  shows "works (if irep_length t = -1
               then and_then (RDB_obj_ilen t v) (\<lambda>len. and_then (serialize_size_t P len st) (\<lambda>st. done_with (len, st)))
               else done_with (to_size (irep_length t), st)) Q"
proof -
  let ?b = "stored P t v"
  note w = assms(1)[unfolded written_as_def]
  show ?thesis
  proof (cases "irep_length t = -1")
    case True
    have ilen: "works (RDB_obj_ilen t v) (\<lambda>n. n = length ?b)"
      using w ilen_computes by (blast intro: works_runs runs_computes)
    have size: "works (serialize_size_t P (length ?b) st) (wrote (p @ le_bytes 8 (length ?b)))"
      by (rule works_gives[OF emitsD[OF emits_size assms(3)]]) (use assms(4)[OF True] in simp)
    have "works (and_then (serialize_size_t P n st) (\<lambda>st. done_with (n, st))) Q" if n: "n = length ?b" for n
      unfolding n by (rule works_then[OF size], rule works_done, rule assms(2)) (simp add: True)
    with True show ?thesis by (auto intro: works_then[OF ilen])
  next
    case False
    then have "irep_length t = int (length ?b)" using w storable_length by blast
    then have "to_size (irep_length t) = length ?b" using w by (simp add: to_size_id)
    then show ?thesis using False assms(2)[of st] assms(3) by (simp add: works_done)
  qed
qed

lemma value_emits:
  assumes "written_as k P L v t"
  shows "emits_by works (RDB_serialize_obj k P v) (value_bytes P v t)"
  unfolding emits_by_def
proof (intro allI impI)
  fix p st assume p: "wrote p st" "length p + length (value_bytes P v t) + 256 < 2 ^ 31"
  let ?b = "stored P t v" and ?n = "if irep_length t = -1 then le_bytes 8 (length (stored P t v)) else []"
  note w = assms[unfolded written_as_def]
  have vb: "value_bytes P v t = type_bytes t @ ?n @ ?b" by (simp add: value_bytes_def part_def)
  define q where "q = p @ type_bytes t @ ?n"
  have qb: "p @ value_bytes P v t = q @ ?b" by (simp add: q_def vb)
  have body: "works (and_then (reserve_space P (length ?b) st') (\<lambda>(buf, i). and_then (RDB_obj_to_irep P t v buf (nat i) (length ?b)) (\<lambda>buf'. done_with (buf', to_int (i + int (length ?b))))))
      (wrote (p @ value_bytes P v t))" if st': "wrote q st'" for st'
  proof (rule works_then[OF works_gives[OF reserve_gives[OF st']]])
    show "length q + length ?b + 256 < 2 ^ 31" using p(2) vb by (simp add: q_def)
    fix st2 assume "room q (length ?b) st2"
    then obtain buf where st2: "st2 = (buf, int (length q))" "length q + length ?b \<le> length buf" "take (length q) buf = q"
      by (cases st2) (auto simp: room_def wrote_def)
    have "runs (RDB_obj_to_irep P t v buf (length q) (length ?b)) (Inr (put_at buf (length q) ?b))"
      by (rule to_irep_runs) (use w st2(2) in blast)+
    then have irep: "works (RDB_obj_to_irep P t v buf (length q) (length ?b)) (\<lambda>b. b = put_at buf (length q) ?b)"
      by (rule works_runs) (rule refl)
    have "length q + length ?b < 2 ^ 31" using p(2) vb by (simp add: q_def)
    then have "to_int (int (length q) + int (length ?b)) = int (length (q @ ?b))" by (subst to_int_id) simp_all
    then have full: "wrote (q @ ?b) (put_at buf (length q) ?b, to_int (int (length q) + int (length ?b)))"
      using st2(2,3) by (simp add: wrote_def put_at_def)
    show "works (case st2 of (buf, i) \<Rightarrow> and_then (RDB_obj_to_irep P t v buf (nat i) (length ?b)) (\<lambda>buf'. done_with (buf', to_int (i + int (length ?b)))))
      (wrote (p @ value_bytes P v t))"
      unfolding st2(1) qb prod.case nat_int by (rule works_then[OF irep], rule works_done) (simp only: full)
  qed
  have ty: "works (RDB_serialize_type P t st) (wrote (p @ type_bytes t))"
    by (rule works_gives[OF emitsD[OF serialize_type_emits p(1)]]) (use w p(2) vb in auto)
  show "works (RDB_serialize_obj k P v st) (wrote (p @ value_bytes P v t))"
    unfolding RDB_serialize_obj_def
  proof (rule works_then[OF type_of_written[OF assms]], rule works_then)
    fix u assume u: "u = t"
    show "works (RDB_serialize_type P u st) (wrote (p @ type_bytes t))" unfolding u by (rule ty)
    fix st1 assume st1: "wrote (p @ type_bytes t) st1"
    show "works (and_then (if irep_length u = -1
               then and_then (RDB_obj_ilen u v) (\<lambda>len. and_then (serialize_size_t P len st1) (\<lambda>st. done_with (len, st)))
               else done_with (to_size (irep_length u), st1)) (\<lambda>(len, st).
         and_then (reserve_space P len st) (\<lambda>(buf, p).
         and_then (RDB_obj_to_irep P u v buf (nat p) len) (\<lambda>buf'. done_with (buf', to_int (p + int len))))))
      (wrote (p @ value_bytes P v t))"
      unfolding u
    proof (rule works_then[OF length_bytes[OF assms, where Q = "\<lambda>(n, st). n = length ?b \<and> wrote q st"]])
      show "wrote (p @ type_bytes t) st1" by (rule st1)
    qed (use p(2) body vb q_def in \<open>auto split: if_splits\<close>)
  qed
qed


section \<open>Reading values\<close>

text \<open>A value that was read has its type if that is a scalar type; other types are lost.\<close>

definition restored_obj :: "rdb_obj \<Rightarrow> rdb_obj \<Rightarrow> bool" where
  "restored_obj v w \<longleftrightarrow> copied v w \<and> typ_of w = scalar_only (typ_of v)"

lemma array_read_typ:
  assumes "RDB_irep_to_obj k same P sub v0 (Array b) data len m = (Inr w, m')"
  shows "typ_of w = None"
  using assms
  by (cases k) (auto simp: and_then_def done_with_def end_with_def read_header_def RDB_val_kind.simps Let_def
    split: prod.splits sum.splits if_splits dest: irep_to_array_typ)

lemma gives_also: "gives f Q \<Longrightarrow> (\<And>m v m'. f m = (Inr v, m') \<Longrightarrow> R v) \<Longrightarrow> gives f (\<lambda>v. Q v \<and> R v)"
  unfolding gives_def by (fastforce split: prod.splits)

lemma dummy_scalar: "RDB_type_is_dummy t \<Longrightarrow> RDB_type_is_scalar t"
  by (cases t) simp_all

lemma storable_typ: "storable sub t v \<Longrightarrow> scalar_only (typ_of v) = (if RDB_type_is_scalar t then Some t else None)"
proof (induction rule: storable.induct)
qed (auto simp: implements_def scalar_only_def dummy_scalar split: if_splits)

lemma untyped_copied:
  assumes "copied v w" "scalar_only (typ_of v) = None"
  shows "restored_obj v (Obj None (impl_of w) (val_of w))"
proof -
  obtain t i x where w: "w = Obj t i x" by (cases w)
  have "scalar_only t = None" using assms by (cases v) (simp add: copied_def w)
  then have "dummy_impl t i = None" by (cases t) (auto simp: scalar_only_def dummy_impl_def dummy_scalar split: if_splits)
  then have "obj_abs (Obj None i x) = obj_abs w" using \<open>scalar_only t = None\<close> by (simp add: w scalar_only_def dummy_impl_def)
  then show ?thesis using assms obj_wf_types[of None i x t i] by (simp add: restored_obj_def copied_def w)
qed

lemma irep_restores:
  assumes "storable (get_subtype L) t v" "length (stored P t v) < 2 ^ 31" "size v < k" "obj_wf v0"
  shows "gives (RDB_irep_to_obj k same P (get_subtype L) v0 t (stored P t v @ rest) (length (stored P t v)))
    (\<lambda>w. restored_obj v (if RDB_type_is_tuple t then Obj None (impl_of w) (val_of w) else w))"
proof -
  let ?f = "RDB_irep_to_obj k same P (get_subtype L) v0 t (stored P t v @ rest) (length (stored P t v))"
  have read: "gives ?f (copied v)" using irep_to_obj_gives[OF assms(1-3)] assms(4) by (simp add: reads_def)
  note vtyp = storable_typ[OF assms(1)]
  consider "RDB_type_is_scalar t" | xs where "t = Tuple xs" | b where "t = Array b" | b where "t = Relation b"
    by (cases t) auto
  then show ?thesis
  proof cases
    case 1
    then have "\<not> RDB_type_is_tuple t" by (cases t) simp_all
    moreover have "restored_obj v w" if "copied v w" for w
      using that vtyp 1
      by (cases v; cases w) (auto simp: restored_obj_def copied_def scalar_only_def split: option.splits if_splits)
    ultimately show ?thesis using gives_mono[OF read] by auto
  next
    case 2
    then show ?thesis using vtyp by (intro gives_mono[OF read]) (simp add: untyped_copied)
  next
    case 3
    have "gives ?f (\<lambda>w. copied v w \<and> typ_of w = None)"
      by (rule gives_also[OF read]) (use 3 array_read_typ in blast)
    then show ?thesis using 3 vtyp by (auto simp: restored_obj_def elim!: gives_mono)
  next
    case 4
    with assms(1) have False
      by (auto elim!: storable.cases simp: implements_def atom_ok_def RDB_val_kind.simps split: rdb_val.splits)
    then show ?thesis ..
  qed
qed

lemma value_parses:
  assumes "written_as k P L v t" "obj_wf v0"
  shows "parses (\<lambda>d p. RDB_deserialize_obj k P L d p v0) (value_bytes P v t) (restored_obj v)"
proof -
  let ?u = "canon_type t" and ?b = "stored P t v"
  note w = assms(1)[unfolded written_as_def]
  have canon: "storable (get_subtype L) ?u v" "stored P ?u v = ?b" using storable_canon w by blast+
  have last: "parses (\<lambda>d p. and_then (RDB_irep_to_obj k (same_type L) P (get_subtype L) v0 ?u (drop (nat p) d) (length ?b)) (\<lambda>v.
       done_with (if RDB_type_is_tuple ?u then Obj None (impl_of v) (val_of v) else v, to_int (p + int (length ?b))))) ?b (restored_obj v)"
    unfolding parses_def
  proof (intro allI impI)
    fix p rest :: string assume len: "length p + length ?b + length rest < 2 ^ 31"
    have i: "to_int (int (length p) + int (length ?b)) = int (length p + length ?b)" using len by (subst to_int_id) simp_all
    have "gives (RDB_irep_to_obj k (same_type L) P (get_subtype L) v0 ?u (?b @ rest) (length ?b))
      (\<lambda>w. restored_obj v (if RDB_type_is_tuple ?u then Obj None (impl_of w) (val_of w) else w))"
      using irep_restores[OF canon(1), of P k v0] canon(2) w assms(2) by simp
    then show "gives (and_then (RDB_irep_to_obj k (same_type L) P (get_subtype L) v0 ?u (drop (nat (int (length p))) (p @ ?b @ rest)) (length ?b)) (\<lambda>v.
       done_with (if RDB_type_is_tuple ?u then Obj None (impl_of v) (val_of v) else v, to_int (int (length p) + int (length ?b)))))
       (\<lambda>(w, i). restored_obj v w \<and> i = int (length p + length ?b))"
      unfolding i by (auto intro: gives_and_then gives_done)
  qed
  have len: "parses (\<lambda>d p. if irep_length ?u = -1 then deserialize_size_t d p else done_with (to_size (irep_length ?u), p))
      (if irep_length t = -1 then le_bytes 8 (length ?b) else []) (\<lambda>n. n = length ?b)"
  proof (cases "irep_length t = -1")
    case True
    then show ?thesis using parses_size[of "length ?b"] w by (simp add: canon_props)
  next
    case False
    then have "irep_length t = int (length ?b)" using w storable_length by blast
    then have "to_size (irep_length t) = length ?b" using w by (simp add: to_size_id)
    then show ?thesis using False by (simp add: canon_props parses_done)
  qed
  have ty: "parses (RDB_deserialize_type k P (get_type L)) (type_bytes t) (\<lambda>u. u = ?u)"
    using deserialize_type_parses w by blast
  have vb: "value_bytes P v t = type_bytes t @ (if irep_length t = -1 then le_bytes 8 (length ?b) else []) @ ?b"
    by (simp add: value_bytes_def part_def)
  show ?thesis unfolding vb RDB_deserialize_obj_def
    by (rule parses_bind[OF ty]) (simp only:, rule parses_bind[OF len], simp only:, rule last)
qed

section \<open>Expressions that can be stored\<close>

text \<open>
  \<open>expr_form\<close> relates an expression to its bytes: constants have stored forms, tables have names under which they are
  found, and the types of operators without arguments are in the catalog.  The number bounds the nesting.
\<close>

definition optype_bytes :: "rdb_type option \<Rightarrow> 'a list \<Rightarrow> string" where
  "optype_bytes t as = (case t of
      Some u \<Rightarrow> if as = [] then [char_of (1 :: nat)] @ type_bytes u else [char_of (0 :: nat)]
    | None \<Rightarrow> [char_of (0 :: nat)])"

inductive expr_form :: "platform \<Rightarrow> (nat \<Rightarrow> string option) \<Rightarrow> lookups \<Rightarrow> nat \<Rightarrow> rdb_expression \<Rightarrow> string \<Rightarrow> bool" for P tabname L where
  form_obj: "written_as k P L v t \<Longrightarrow> expr_form P tabname L (Suc k) (ExObj et v) ([char_of (0 :: nat)] @ value_bytes P v t)"
| form_table: "tabname a = Some n \<Longrightarrow> n \<noteq> [] \<Longrightarrow> NUL \<notin> set n \<Longrightarrow> get_table L n = Inr a
    \<Longrightarrow> expr_form P tabname L (Suc k) (ExTbp et a i) ([char_of (1 :: nat)] @ str_bytes n)"
| form_var: "NUL \<notin> set n \<Longrightarrow> expr_form P tabname L (Suc k) (ExVar et n) ([char_of (2 :: nat)] @ str_bytes n)"
| form_op: "NUL \<notin> set n \<Longrightarrow> list_all2 (expr_form P tabname L k) as bss \<Longrightarrow> length as < 2 ^ 31
    \<Longrightarrow> (\<forall>u. t = Some u \<and> as = [] \<longrightarrow> catalogued (get_type L) u \<and> size u < k)
    \<Longrightarrow> expr_form P tabname L (Suc k) (ExOp t n as vs)
          ([char_of (4 :: nat)] @ str_bytes n @ le_bytes 4 (unat (word_of_nat (length as) :: i32)) @ concat bss @ optype_bytes t as)"

lemma made_type_mono: "made_type k v t \<Longrightarrow> k \<le> k' \<Longrightarrow> made_type k' v t"
proof (induction arbitrary: k' rule: made_type.induct)
  case (made_scalar v t k)
  then show ?case by (cases k') (auto intro: made_type.made_scalar)
next
  case (made_tuple v es h k xs)
  then obtain j where j: "k' = Suc j" "k \<le> j" by (cases k') auto
  have "list_all2 (\<lambda>e x. fst x = fst e \<and> made_type j (snd e) (snd x)) es xs"
    using made_tuple(6) by (rule list_all2_mono) (use j(2) in blast)
  from made_type.made_tuple[OF made_tuple(1-5) this] show ?case unfolding j(1) .
next
  case (made_array v n cap es k t)
  then obtain j where j: "k' = Suc j" "k \<le> j" by (cases k') auto
  then show ?case using made_array by (auto intro: made_type.made_array)
qed

lemma written_as_mono: "written_as k P L v t \<Longrightarrow> k \<le> k' \<Longrightarrow> written_as k' P L v t"
  using made_type_mono[of "Suc k" v t "Suc k'"] by (auto simp: written_as_def)

lemma written_not_table: "written_as k P L v t \<Longrightarrow> kind_of (val_of v) \<noteq> RDB_OB_TABLE"
  by (auto simp: written_as_def elim!: storable.cases) (auto simp: atom_ok_def split: rdb_val.splits)

lemma expr_emits: "expr_form P tabname L k e bs \<Longrightarrow> k \<le> k' \<Longrightarrow> emits_by works (RDB_serialize_expr k' P tabname e) bs"
proof (induction arbitrary: k' rule: expr_form.induct)
  case (form_obj k v t et)
  have "written_as k' P L v t" using written_as_mono form_obj by simp
  then have "emits_by works (\<lambda>st. and_then (RDB_serialize_byte P 0 st) (RDB_serialize_obj k' P v)) ([char_of (0 :: nat)] @ value_bytes P v t)"
    and "serialize_trobj k' P v = RDB_serialize_obj k' P v"
    using working.emits_append[OF emits_works[OF emits_byte[of P 0]] value_emits] written_not_table
    by (auto simp: serialize_trobj_def fun_eq_iff)
  then show ?case by (simp add: emits_by_def RDB_serialize_expr.simps)
next
  case (form_table a n k et i)
  then have "serialize_table P tabname a = RDB_serialize_str P n" by (simp add: serialize_table_def fun_eq_iff)
  then show ?case using emits_works[OF emits_append[OF emits_byte[of P 1] emits_str[of P n]]]
    by (simp add: emits_by_def RDB_serialize_expr.simps serialize_table_def)
next
  case (form_var n k et)
  then show ?case using emits_works[OF emits_append[OF emits_byte[of P 2] emits_str[of P n]]]
    by (simp add: emits_by_def RDB_serialize_expr.simps)
next
  case (form_op n k as bss t vs)
  have args: "list_all2 (\<lambda>a. emits_by works (RDB_serialize_expr k' P tabname a)) as bss"
    using form_op.IH by (rule list_all2_mono) (use form_op.prems in auto)
  have ty: "emits_by works (\<lambda>st. case t of
              Some u \<Rightarrow> if as = [] then and_then (RDB_serialize_byte P 1 st) (RDB_serialize_type P u) else RDB_serialize_byte P 0 st
            | None \<Rightarrow> RDB_serialize_byte P 0 st) (optype_bytes t as)"
    using form_op(3) emits_works[OF emits_byte[of P 0]] working.emits_append[OF emits_works[OF emits_byte[of P 1]] emits_works[OF serialize_type_emits]]
    by (auto simp: optype_bytes_def split: option.split)
  have name: "emits_by works (RDB_serialize_str P n) (str_bytes n)"
    and count: "emits_by works (RDB_serialize_int P (RDB_expr_list_length as)) (le_bytes 4 (unat (word_of_nat (length as) :: i32)))"
    by (simp_all add: emits_works emits_str emits_int RDB_expr_list_length_def)
  from working.emits_append[OF emits_works[OF emits_byte[of P 4]] working.emits_append[OF name working.emits_append[OF count
      working.emits_append[OF working.emits_parts[OF args] ty]]]]
  show ?case by (simp add: emits_by_def RDB_serialize_expr.simps[of k' P tabname "ExOp t n as vs"])
qed

section \<open>Expressions that are read\<close>

fun restored :: "rdb_expression \<Rightarrow> rdb_expression \<Rightarrow> bool" where
  "restored (ExObj t v) (ExObj u w) \<longleftrightarrow> u = None \<and> restored_obj v w"
| "restored (ExTbp t a i) (ExTbp u b j) \<longleftrightarrow> u = None \<and> b = a \<and> j = None"
| "restored (ExVar t n) (ExVar u m) \<longleftrightarrow> u = None \<and> m = n"
| "restored (ExOp t n as vs) (ExOp u m bs ws) \<longleftrightarrow>
     u = (if as = [] then map_option canon_type t else None) \<and> m = n \<and> ws = [] \<and> list_all2 restored as bs"
| "restored _ _ \<longleftrightarrow> False"

lemma restored_meaning: "restored e e' \<Longrightarrow> meaning I env e' = meaning I env e"
proof (induction e e' rule: restored.induct)
  case (4 t n as vs u m bs ws)
  then have "map (meaning I env) bs = map (meaning I env) as"
    by (auto simp: list_all2_conv_all_nth intro!: nth_equalityI)
  then show ?case using 4(2) by simp
qed (auto simp: restored_obj_def copied_def)

lemma parses_args:
  assumes "list_all2 (\<lambda>a bs. parses f bs (R a)) as bss" "length js = length as"
  shows "parses (\<lambda>d p. thread (\<lambda>i (e, p). and_then (f d p) (\<lambda>(a, p). done_with (RDB_add_arg e a, p))) js (ExOp t n as0 vs, p)) (concat bss)
    (\<lambda>e. \<exists>as'. e = ExOp t n (as0 @ as') vs \<and> list_all2 R as as')"
  using assms
proof (induction arbitrary: as0 js rule: list_all2_induct)
  case Nil
  then show ?case by (auto intro: parses_done)
next
  case (Cons a as bs bss)
  obtain j js' where js: "js = j # js'" "length js' = length as" using Cons.prems by (cases js) auto
  have one: "parses (\<lambda>d p. and_then (f d p) (\<lambda>(a, p). done_with (RDB_add_arg (ExOp t n as0 vs) a, p))) bs (\<lambda>e. \<exists>a'. e = ExOp t n (as0 @ [a']) vs \<and> R a a')"
    by (rule parses_final[OF Cons.hyps(1)]) auto
  have "parses (\<lambda>d p. and_then (and_then (f d p) (\<lambda>(a, p). done_with (RDB_add_arg (ExOp t n as0 vs) a, p))) (\<lambda>(e, p).
      thread (\<lambda>i (e, p). and_then (f d p) (\<lambda>(a, p). done_with (RDB_add_arg e a, p))) js' (e, p))) (bs @ concat bss)
      (\<lambda>e. \<exists>as'. e = ExOp t n (as0 @ as') vs \<and> list_all2 R (a # as) as')"
  proof (rule parses_bind[OF one])
    fix e assume "\<exists>a'. e = ExOp t n (as0 @ [a']) vs \<and> R a a'"
    then obtain a' where e: "e = ExOp t n (as0 @ [a']) vs" "R a a'" by blast
    show "parses (\<lambda>d p. thread (\<lambda>i (e, p). and_then (f d p) (\<lambda>(a, p). done_with (RDB_add_arg e a, p))) js' (e, p)) (concat bss)
      (\<lambda>e. \<exists>as'. e = ExOp t n (as0 @ as') vs \<and> list_all2 R (a # as) as')"
      unfolding e(1) by (rule parses_mono[OF Cons.IH[OF js(2), of "as0 @ [a']"]]) (use e(2) in auto)
  qed
  then show ?case by (simp add: js case_prod_unfold)
qed

lemma parses_then:
  "gives h R \<Longrightarrow> (\<And>e. R e \<Longrightarrow> parses (g e) bs Q) \<Longrightarrow> parses (\<lambda>d p. and_then h (\<lambda>e. g e d p)) bs Q"
  unfolding parses_def by (blast intro: gives_and_then)

lemma parses_end: "gives h Q \<Longrightarrow> parses (\<lambda>d p. and_then h (\<lambda>e. done_with (e, p))) [] Q"
  by (auto simp: parses_def intro!: gives_and_then[of h] gives_done)

lemma restored_obj_same: "restored_obj v w \<Longrightarrow> same_obj w x \<Longrightarrow> restored_obj v x"
  by (auto simp: restored_obj_def same_obj_def copied_def)

lemma obj_expr_parses:
  assumes "written_as k P L v t"
  shows "parses (\<lambda>d p. and_then (RDB_deserialize_obj k P L d p RDB_init_obj) (\<lambda>(v, p). and_then (RDB_obj_to_expr (same_type L) P (Some v)) (\<lambda>e. done_with (e, p))))
    (value_bytes P v t) (restored (ExObj et v))"
proof -
  have "parses (\<lambda>d p. and_then (RDB_obj_to_expr (same_type L) P (Some w)) (\<lambda>e. done_with (e, p))) [] (restored (ExObj et v))"
    if w: "restored_obj v w" for w
  proof (rule parses_end)
    have wf: "obj_wf w" "type_opt_wf (typ_of w)"
      using w by (auto simp: restored_obj_def copied_def scalar_only_def split: option.splits) (metis RDB_type_is_scalar.elims(2) type_wf.simps(1))
    show "gives (RDB_obj_to_expr (same_type L) P (Some w)) (restored (ExObj et v))"
      by (rule gives_mono[OF obj_to_expr_gives[OF wf]]) (use w restored_obj_same in fastforce)
  qed
  from parses_bind[OF value_parses[OF assms init_obj_simps(4)] this] show ?thesis by simp
qed

lemma expr_parses: "expr_form P tabname L k e bs \<Longrightarrow> k \<le> k' \<Longrightarrow> parses (RDB_deserialize_expr k' P L) bs (restored e)"
proof (induction arbitrary: k' rule: expr_form.induct)
  case (form_obj k v t et)
  then obtain j where j: "k' = Suc j" "k \<le> j" by (cases k') auto
  note obj_expr_parses[OF written_as_mono[OF form_obj(1) j(2)], of et]
  then show ?case unfolding j(1) RDB_deserialize_expr.simps
    by (intro parses_bind[OF parses_byte]) simp_all
next
  case (form_table a n k et i)
  then obtain j where j: "k' = Suc j" by (cases k') auto
  have "parses (\<lambda>d p. and_then (deserialize_table L d p) (\<lambda>(tbp, p). and_then (RDB_table_ref tbp) (\<lambda>e. done_with (e, p)))) (str_bytes n) (restored (ExTbp et a i))"
  proof -
    have find: "parses (deserialize_table L) (str_bytes n) (\<lambda>b. b = a)"
      using parses_bind[OF parses_str[OF form_table(3)], of "\<lambda>n d p. if n \<noteq> [] then and_then (end_with (get_table L n)) (\<lambda>tbp. done_with (tbp, p)) else end_with (Inl Unmodelled)" "[]" "\<lambda>b. b = a"]
        form_table(2,4) parses_end[OF gives_end[where Q = "\<lambda>b. b = a"]]
      by (simp add: deserialize_table_def[abs_def])
    have "gives (RDB_table_ref b) (restored (ExTbp et a i))" if "b = a" for b
      using that by (auto simp: RDB_table_ref_def new_expr_def intro!: gives_steps giving)
    from parses_bind[OF find parses_end[OF this]] show ?thesis by simp
  qed
  then show ?case unfolding j(1) RDB_deserialize_expr.simps
    by (intro parses_bind[OF parses_byte]) simp_all
next
  case (form_var n k et)
  then obtain j where j: "k' = Suc j" by (cases k') auto
  have "parses (\<lambda>d p. and_then (RDB_deserialize_str d p) (\<lambda>(n, p). and_then (RDB_var_ref n) (\<lambda>e. done_with (e, p)))) (str_bytes n) (restored (ExVar et n))"
  proof -
    have "gives (RDB_var_ref x) (restored (ExVar et n))" if "x = n" for x
      using that by (auto simp: RDB_var_ref_def intro!: gives_steps giving)
    from parses_bind[OF parses_str[OF form_var(1)] parses_end[OF this]] show ?thesis by simp
  qed
  then show ?case unfolding j(1) RDB_deserialize_expr.simps
    by (intro parses_bind[OF parses_byte]) simp_all
next
  case (form_op n k as bss t vs)
  then obtain j where j: "k' = Suc j" "k \<le> j" by (cases k') auto
  let ?w = "word_of_nat (length as) :: i32"
  let ?r = "RDB_deserialize_expr j P L"
  have w: "nat (sint ?w) = length as" using index_word[of "length as"] form_op(2) by simp
  have args: "list_all2 (\<lambda>a bs. parses ?r bs (restored a)) as bss"
    using form_op.IH by (rule list_all2_mono) (use j(2) in blast)
  have ty: "parses (\<lambda>d p. and_then (RDB_deserialize_byte d p) (\<lambda>(typed, p).
       if typed \<noteq> 0 then and_then (RDB_deserialize_type j P (get_type L) d p) (\<lambda>(t, p). done_with (ExOp (Some t) (opname e) (opargs e) (optobjs e), p))
       else done_with (e, p))) (optype_bytes t as) (restored (ExOp t n as vs))"
    if e: "\<exists>as'. e = ExOp None n ([] @ as') [] \<and> list_all2 restored as as'" for e
  proof -
    obtain as' where as': "e = ExOp None n as' []" "list_all2 restored as as'" using e by auto
    show ?thesis
    proof (cases "\<exists>u. t = Some u \<and> as = []")
      case True
      then obtain u where u: "t = Some u" "as = []" by blast
      have "parses (RDB_deserialize_type j P (get_type L)) (type_bytes u) (\<lambda>c. c = canon_type u)"
        by (rule deserialize_type_parses) (use form_op(3) u j(2) in auto)
      then have "parses (\<lambda>d p. and_then (RDB_deserialize_type j P (get_type L) d p) (\<lambda>(t, p). done_with (ExOp (Some t) (opname e) (opargs e) (optobjs e), p)))
          (type_bytes u) (restored (ExOp t n as vs))"
        by (rule parses_final) (use as' u in simp)
      then show ?thesis unfolding optype_bytes_def u option.case if_P[OF refl]
        by (intro parses_bind[OF parses_byte]) simp_all
    next
      case False
      then have b: "optype_bytes t as = [char_of (0 :: nat)] @ []" by (auto simp: optype_bytes_def split: option.splits)
      have "parses (\<lambda>d p. done_with (e, p)) [] (restored (ExOp t n as vs))"
        by (rule parses_done) (use False as' in auto)
      then show ?thesis unfolding b
        by (intro parses_bind[OF parses_byte]) simp_all
    qed
  qed
  have ro: "gives (RDB_ro_op n) (\<lambda>e. e = ExOp None n [] [])" by (auto simp: RDB_ro_op_def intro!: gives_steps giving)
  have "parses (\<lambda>d p. and_then (thread (\<lambda>i (e, p). and_then (?r d p) (\<lambda>(a, p). done_with (RDB_add_arg e a, p)))
             [0 ..< nat (sint c)] (e, p)) (\<lambda>(e, p).
         and_then (RDB_deserialize_byte d p) (\<lambda>(typed, p).
           if typed \<noteq> 0 then
             and_then (RDB_deserialize_type j P (get_type L) d p) (\<lambda>(t, p). done_with (ExOp (Some t) (opname e) (opargs e) (optobjs e), p))
           else done_with (e, p)))) (concat bss @ optype_bytes t as) (restored (ExOp t n as vs))"
    if "e = ExOp None n [] []" "c = ?w" for e c
    unfolding that w by (rule parses_bind[OF parses_args[OF args]], simp, erule ty)
  note args_type = this
  have "parses (\<lambda>d p. and_then (RDB_deserialize_int d p) (\<lambda>(argc, p). and_then (RDB_ro_op x) (\<lambda>e.
         and_then (thread (\<lambda>i (e, p). and_then (?r d p) (\<lambda>(a, p). done_with (RDB_add_arg e a, p)))
             [0 ..< nat (sint argc)] (e, p)) (\<lambda>(e, p).
         and_then (RDB_deserialize_byte d p) (\<lambda>(typed, p).
           if typed \<noteq> 0 then
             and_then (RDB_deserialize_type j P (get_type L) d p) (\<lambda>(t, p). done_with (ExOp (Some t) (opname e) (opargs e) (optobjs e), p))
           else done_with (e, p)))))) (le_bytes 4 (unat ?w) @ concat bss @ optype_bytes t as) (restored (ExOp t n as vs))"
    if "x = n" for x
    unfolding that by (rule parses_bind[OF parses_int], rule parses_then[OF ro], rule args_type)
  from parses_bind[OF parses_str[OF form_op(1)] this]
  show ?case unfolding j(1) RDB_deserialize_expr.simps
    by (intro parses_bind[OF parses_byte]) simp_all
qed

section \<open>Properties\<close>

lemma new_buffer_works:
  assumes "emits_by works f bs" "length bs + 256 < 2 ^ 31"
  shows "works (new_buffer P f) (\<lambda>v. v = Obj (Some RDB_BINARY) None (BinV bs))"
proof -
  have "wrote [] (new_block P a [] RDB_BUF_INITLEN, 0)" for a by (simp add: wrote_def)
  from emitsD[OF assms(1) this] have "works (f (new_block P a [] RDB_BUF_INITLEN, 0)) (wrote bs)" for a using assms(2) by simp
  then have "works (and_then (f (new_block P a [] RDB_BUF_INITLEN, 0)) (\<lambda>(buf, p). done_with (Obj (Some RDB_BINARY) None (BinV (take (nat p) buf)))))
      (\<lambda>v. v = Obj (Some RDB_BINARY) None (BinV bs))" for a
    by (rule works_then) (auto simp: wrote_def intro!: works_done)
  then show ?thesis unfolding new_buffer_def by (intro works_alloc)
qed

lemma expr_form_nonempty: "expr_form P tabname L n e bs \<Longrightarrow> bs \<noteq> []"
  by (auto elim: expr_form.cases)

lemma expr_bin_works:
  assumes "expr_form P tabname L n e bs" "length bs + 256 < 2 ^ 31" "n \<le> k"
  shows "works (RDB_expr_to_bin k P tabname (Some e)) (\<lambda>v. v = Obj (Some RDB_BINARY) None (BinV bs))"
    "works (RDB_bin_to_expr k P L (Obj (Some RDB_BINARY) None (BinV bs))) (\<lambda>e'. \<exists>x. e' = Some x \<and> restored e x)"
proof -
  show "works (RDB_expr_to_bin k P tabname (Some e)) (\<lambda>v. v = Obj (Some RDB_BINARY) None (BinV bs))"
    unfolding RDB_expr_to_bin_def option.case by (rule new_buffer_works[OF expr_emits[OF assms(1,3)] assms(2)])
  have "gives (RDB_deserialize_expr k P L bs 0) (\<lambda>(x, i). restored e x \<and> i = int (length bs))"
    using parsesD[OF expr_parses[OF assms(1,3)], of "[]" "[]"] assms(2) by simp
  then have "gives (and_then (RDB_deserialize_expr k P L bs 0) (\<lambda>(e, p). done_with (Some e))) (\<lambda>e'. \<exists>x. e' = Some x \<and> restored e x)"
    by (rule gives_and_then_pair) (simp add: giving)
  then show "works (RDB_bin_to_expr k P L (Obj (Some RDB_BINARY) None (BinV bs))) (\<lambda>e'. \<exists>x. e' = Some x \<and> restored e x)"
    using expr_form_nonempty[OF assms(1)] by (auto simp: RDB_bin_to_expr_def RDB_obj_bin_def intro: works_gives)
qed

lemma value_round_trip:
  assumes "written_as k P L v t" "length (value_bytes P v t) + 256 < 2 ^ 31" "obj_wf v0" "fails m = []"
  shows "\<exists>d m1 w m2. RDB_obj_to_bin k P v m = (Inr d, m1) \<and> RDB_bin_to_obj k P L d v0 m1 = (Inr w, m2) \<and> restored_obj v w"
proof -
  have "works (RDB_obj_to_bin k P v) (\<lambda>d. d = Obj (Some RDB_BINARY) None (BinV (value_bytes P v t)))"
    unfolding RDB_obj_to_bin_def by (rule new_buffer_works[OF value_emits[OF assms(1)] assms(2)])
  then obtain d m1 where d: "RDB_obj_to_bin k P v m = (Inr d, m1)" "d = Obj (Some RDB_BINARY) None (BinV (value_bytes P v t))" "fails m1 = []"
    using worksD assms(4) by blast
  have "gives (RDB_deserialize_obj k P L (value_bytes P v t) 0 v0) (\<lambda>(w, i). restored_obj v w \<and> i = int (length (value_bytes P v t)))"
    using parsesD[OF value_parses[OF assms(1,3)], of "[]" "[]"] assms(2) by simp
  then have "gives (and_then (RDB_deserialize_obj k P L (value_bytes P v t) 0 v0) (\<lambda>(v, p). done_with v)) (restored_obj v)"
    by (rule gives_and_then_pair) (simp add: giving)
  then have "gives (RDB_bin_to_obj k P L d v0) (restored_obj v)" by (simp add: RDB_bin_to_obj_def RDB_obj_bin_def d(2))
  from gives_run[OF this d(3)] d(1) show ?thesis by blast
qed

text \<open>
  C10: An expression that is written to a binary object and read back has the same structure and the same
  meaning: variables and tables are the same, constants have the same value, operators the same names and arguments.
\<close>

theorem expr_round_trip:
  assumes "expr_form P tabname L n e bs" "length bs + 256 < 2 ^ 31" "n \<le> k" "fails m = []"
  shows "\<exists>v m1 e' m2. RDB_expr_to_bin k P tabname (Some e) m = (Inr v, m1) \<and> RDB_bin_to_expr k P L v m1 = (Inr (Some e'), m2)
     \<and> restored e e' \<and> meaning I env e' = meaning I env e"
proof -
  obtain v m1 where one: "RDB_expr_to_bin k P tabname (Some e) m = (Inr v, m1)" "v = Obj (Some RDB_BINARY) None (BinV bs)" "fails m1 = []"
    using worksD[OF expr_bin_works(1)[OF assms(1-3)] assms(4)] by blast
  obtain e' m2 where "RDB_bin_to_expr k P L v m1 = (Inr (Some e'), m2)" "restored e e'"
    using worksD[OF expr_bin_works(2)[OF assms(1-3)] one(3)] unfolding one(2) by blast
  then show ?thesis using one(1) restored_meaning by blast
qed

text \<open>\<open>A = 7\<close>\<close>

definition seven :: rdb_obj where
  "seven = Obj (Some RDB_INTEGER) None (IntV 7)"

definition sample_lookups :: lookups where
  "sample_lookups = \<lparr>get_type = sample_types, get_subtype = \<lambda>_ _. None, get_table = \<lambda>n. raise_err NAME_ERROR n, same_type = (=)\<rparr>"

lemma written_seven: "written_as 99 c_locale sample_lookups seven RDB_INTEGER"
  and seven_length: "length (value_bytes c_locale seven RDB_INTEGER) = 20"
proof -
  have "RDB_val_kind RDB_INTEGER = RDB_OB_INT" "RDB_type_is_scalar RDB_INTEGER" "\<not> RDB_type_is_dummy RDB_INTEGER" and len: "irep_length RDB_INTEGER = 4"
    by code_simp+
  then have st: "storable sub RDB_INTEGER seven" for sub
    by (intro storable_atom[of _ _ _ RDB_INTEGER]) (simp_all add: implements_def atom_ok_def seven_def)
  then have n: "length (stored c_locale RDB_INTEGER seven) = 4" using storable_length[OF st, of c_locale] len by simp
  have "sample_types ''integer'' = Inr RDB_INTEGER" by (simp add: sample_types_def)
  then have "catalogued sample_types RDB_INTEGER" unfolding RDB_INTEGER_def by (auto intro!: catalogued_scalar)
  then show "written_as 99 c_locale sample_lookups seven RDB_INTEGER"
    using st n by (simp add: written_as_def sample_lookups_def) (simp add: seven_def RDB_INTEGER_def builtin_info_def)
  show "length (value_bytes c_locale seven RDB_INTEGER) = 20"
    using n len by (simp add: value_bytes_def part_def) (simp add: RDB_INTEGER_def str_bytes_def)
qed

lemma expr_round_trip_witness:
  "\<exists>v m1 e' m2. RDB_expr_to_bin 101 c_locale (\<lambda>_. None) (Some (ExOp None ''='' [ExVar None ''A'', ExObj None seven] [])) mem_ok = (Inr v, m1)
     \<and> RDB_bin_to_expr 101 c_locale sample_lookups v m1 = (Inr (Some e'), m2)
     \<and> restored (ExOp None ''='' [ExVar None ''A'', ExObj None seven] []) e'"
proof -
  let ?as = "[ExVar None ''A'', ExObj None seven]"
  have "list_all2 (expr_form c_locale (\<lambda>_. None) sample_lookups 100) ?as
      [[char_of (2 :: nat)] @ str_bytes ''A'', [char_of (0 :: nat)] @ value_bytes c_locale seven RDB_INTEGER]"
    using form_var[of "''A''" c_locale "\<lambda>_. None" sample_lookups 99 None] form_obj[OF written_seven, of "\<lambda>_. None" None] by simp
  from form_op[OF _ this, of "''=''" None "[]"]
  obtain bs where form: "expr_form c_locale (\<lambda>_. None) sample_lookups 101 (ExOp None ''='' ?as []) bs" and len: "length bs < 99"
    by (fastforce simp: str_bytes_def seven_length optype_bytes_def)
  from expr_round_trip[OF form _ _ fails_mem_ok, of 101] len show ?thesis by fastforce
qed

definition fails_with :: "'v action \<Rightarrow> fault \<Rightarrow> bool" where
  "fails_with f e \<longleftrightarrow> (\<forall>m. fails m = [] \<longrightarrow> (\<exists>m'. f m = (Inl e, m')))"

lemma fails_then: "fails_with f e \<Longrightarrow> fails_with (and_then f g) e"
  unfolding fails_with_def and_then_def by fastforce

lemma works_fails: "works f R \<Longrightarrow> (\<And>v. R v \<Longrightarrow> fails_with (g v) e) \<Longrightarrow> fails_with (and_then f g) e"
  unfolding fails_with_def works_def and_then_def by fastforce

lemma raise_fails: "fails_with (raise_error t msg) (Raised (RdbError t msg))"
  by (auto simp: fails_with_def raise_error_def malloc_ok)

lemma restored_array:
  assumes "restored_obj v w" "kind_of (val_of v) = RDB_OB_ARRAY"
  shows "kind_of (val_of w) = RDB_OB_ARRAY"
proof -
  have "val_abs (val_of w) = val_abs (val_of v)" using assms(1) by (cases v; cases w) (simp add: restored_obj_def copied_def)
  then show ?thesis using assms(2) by (cases "val_of v"; cases "val_abs (val_of w)"; cases "val_of w" rule: val_abs.cases) auto
qed

lemma written_array:
  assumes "written_as k P L v (Array b)"
  shows "kind_of (val_of v) = RDB_OB_ARRAY" "scalar_only (typ_of v) = None"
proof -
  have st: "storable (get_subtype L) (Array b) v" using assms by (simp add: written_as_def)
  then show "kind_of (val_of v) = RDB_OB_ARRAY"
    by (auto elim!: storable.cases simp: implements_def atom_ok_def RDB_val_kind.simps split: rdb_val.splits)
  show "scalar_only (typ_of v) = None" using storable_typ[OF st] by simp
qed

text \<open>
  C11: The type of an array is lost when a constant is read back: an expression with an array constant can be
  written once, but the expression that is read from the binary object cannot be written again.
\<close>

theorem array_constant_written_once:
  assumes "written_as n P L v (Array b)" "length (value_bytes P v (Array b)) + 257 < 2 ^ 31" "n < k" "fails m = []"
  shows "\<exists>d m1 e' m2 m3. RDB_expr_to_bin k P tabname (Some (ExObj t v)) m = (Inr d, m1)
     \<and> RDB_bin_to_expr k P L d m1 = (Inr (Some e'), m2)
     \<and> RDB_expr_to_bin k P tabname (Some e') m2 = (raise_err INVALID_ARGUMENT_ERROR ''type is missing for non-tuple'', m3)"
proof -
  let ?e = "ExObj t v" and ?bs = "[char_of (0 :: nat)] @ value_bytes P v (Array b)"
  let ?err = "Raised (RdbError INVALID_ARGUMENT_ERROR ''type is missing for non-tuple'')"
  have form: "expr_form P tabname L (Suc n) ?e ?bs" by (rule form_obj[OF assms(1)])
  have len: "length ?bs + 256 < 2 ^ 31" "Suc n \<le> k" using assms(2,3) by simp_all
  obtain d m1 where d: "RDB_expr_to_bin k P tabname (Some ?e) m = (Inr d, m1)" "d = Obj (Some RDB_BINARY) None (BinV ?bs)" "fails m1 = []"
    using worksD[OF expr_bin_works(1)[OF form len] assms(4)] by blast
  obtain e' m2 where e': "RDB_bin_to_expr k P L d m1 = (Inr (Some e'), m2)" "restored ?e e'" "fails m2 = []"
    using worksD[OF expr_bin_works(2)[OF form len] d(3)] unfolding d(2) by blast
  obtain w where w: "e' = ExObj None w" "restored_obj v w" using e'(2) by (cases e') auto
  have kind: "kind_of (val_of w) = RDB_OB_ARRAY" using restored_array w(2) written_array[OF assms(1)] by blast
  have "typ_of w = None" using w(2) written_array[OF assms(1)] by (simp add: restored_obj_def)
  then have "fails_with (serialize_trobj k P w st) ?err" for st
    using kind by (simp add: serialize_trobj_def RDB_serialize_obj_def obj_type_or_new_def fails_then raise_fails)
  moreover have "works (RDB_serialize_byte P 0 (new_block P a [] RDB_BUF_INITLEN, 0)) (wrote ([] @ [char_of (0 :: nat)]))" for a
    by (rule emitsD[OF emits_works[OF emits_byte[of P 0]]]) (simp_all add: wrote_def)
  ultimately have "fails_with (RDB_serialize_expr k P tabname e' (new_block P a [] RDB_BUF_INITLEN, 0)) ?err" for a
    unfolding w(1) RDB_serialize_expr.simps[of k P tabname "ExObj None w"] rdb_expression.case by (intro works_fails) blast+
  then have "fails_with (RDB_expr_to_bin k P tabname (Some e')) ?err"
    unfolding RDB_expr_to_bin_def new_buffer_def option.case
    by (intro works_fails[OF works_gives[OF gives_alloc(1)]] fails_then)
  then show ?thesis using d(1) e'(1,3) unfolding fails_with_def by blast
qed

lemma storable_typed_array:
  assumes "storable sub (Array b) (Obj None i x)"
  shows "storable sub (Array b) (Obj (Some (Array b)) i x)" "stored P (Array b) (Obj (Some (Array b)) i x) = stored P (Array b) (Obj None i x)"
proof -
  have impl: "implements sub (Array b) (Obj (Some (Array b)) i x) (Array b)" "implements sub (Array b) (Obj None i x) (Array b)"
    by (simp_all add: implements_def scalar_only_def)
  have "storable sub (Array b) (Obj (Some (Array b)) i x) \<and> stored P (Array b) (Obj (Some (Array b)) i x) = stored P (Array b) (Obj None i x)"
    using assms
  proof (cases rule: storable.cases)
    case (storable_atom u)
    then show ?thesis by (auto simp: implements_def atom_ok_def RDB_val_kind.simps split: rdb_val.splits)
  next
    case (storable_tuple u slots cap n nts)
    then show ?thesis by (auto simp: implements_def RDB_val_kind.simps)
  next
    case (storable_array u n cap es t)
    then have u: "u = Array b" "x = ArrayV n cap es" by (auto simp: implements_def)
    have "storable sub (Array b) (Obj (Some (Array b)) i x)"
      by (rule storable.storable_array[OF impl(1), where n = n and cap = cap and es = es]) (use storable_array u in auto)
    then show ?thesis
      using stored_array[OF impl(1), of n cap es t P] stored_array[OF impl(2), of n cap es t P] storable_array u by simp
  qed
  then show "storable sub (Array b) (Obj (Some (Array b)) i x)" "stored P (Array b) (Obj (Some (Array b)) i x) = stored P (Array b) (Obj None i x)"
    by blast+
qed

lemma array_constant_written_once_witness:
  "\<exists>d m1 e' m2 m3. RDB_expr_to_bin 100 c_locale (\<lambda>_. None) (Some (ExObj None (Obj (Some (Array RDB_INTEGER)) None (val_of sample_array)))) mem_ok = (Inr d, m1)
     \<and> RDB_bin_to_expr 100 c_locale sample_lookups d m1 = (Inr (Some e'), m2)
     \<and> RDB_expr_to_bin 100 c_locale (\<lambda>_. None) (Some e') m2 = (raise_err INVALID_ARGUMENT_ERROR ''type is missing for non-tuple'', m3)"
proof -
  let ?v = "Obj (Some (Array RDB_INTEGER)) None (val_of sample_array)"
  have arr: "Obj None None (val_of sample_array) = sample_array" by (simp add: sample_array_def)
  have st: "storable sub (Array RDB_INTEGER) ?v" "length (stored c_locale (Array RDB_INTEGER) ?v) = 8" for sub
    using storable_typed_array[of sub RDB_INTEGER None "val_of sample_array", unfolded arr, OF storable_sample] sample_length by simp_all
  have "catalogued sample_types RDB_INTEGER" using written_seven by (simp add: written_as_def sample_lookups_def)
  then have w: "written_as 99 c_locale sample_lookups ?v (Array RDB_INTEGER)"
    using st catalogued_array by (simp add: written_as_def sample_lookups_def) (simp add: sample_array_def RDB_INTEGER_def builtin_info_def)
  have "length (value_bytes c_locale ?v (Array RDB_INTEGER)) < 99"
    using st(2) by (simp add: value_bytes_def part_def) (simp add: RDB_INTEGER_def str_bytes_def)
  with array_constant_written_once[OF w _ _ fails_mem_ok, of 100 "\<lambda>_. None" None] show ?thesis by simp
qed

end
