(* ===== verification/Tuple_Properties.thy ===== *)
theory Tuple_Properties
  imports Tuple_Ops Builtin_Ops
begin

text \<open>What the operations on tuples promise, and what they do when memory is short.\<close>

section \<open>Properties\<close>

lemma tuple_size_card:
  assumes "tuple_ok t"
  shows "RDB_tuple_size t = Inr (to_int (int (card (dom (tuple_map t)))))"
proof (cases "val_of t = Initial")
  case True
  then have "tuple_map t = (\<lambda>_. None)" by (simp add: tuple_map_def attrs_def RDB_tuple_get_def fun_eq_iff)
  then show ?thesis using True by (simp add: RDB_tuple_size_def to_int_def)
next
  case False
  then have "kind_of (val_of t) = RDB_OB_TUPLE"
    using assms by (cases "val_of t") (auto simp: tuple_ok_def tuple_inv_def tuple_tab_def)
  then obtain es h where "tuple_tab t = Inr h" "hashtable_entries h = Inr es"
    and es: "distinct (map fst es)" "map_of es = attrs t" "RDB_tuple_size t = Inr (to_int (int (length es)))"
    using tuple_entries[OF assms] by metis
  have "dom (tuple_map t) = set (map fst es)" using es(2) by (simp add: dom_tuple_map flip: dom_map_of_conv_image_fst)
  then show ?thesis using es(3) distinct_card[OF es(1)] by simp
qed

text \<open>C6: Copying a value without tables to a new object gives an object with the same value: the same scalar
  type, and the same content down to the attributes of tuples and the elements of arrays.  It fails only if
  memory is short.\<close>

theorem copy_keeps_value:
  assumes "obj_wf v" "RDB_copy_obj same P RDB_init_obj v m = (r, d, m')"
  shows "r = Inr () \<and> obj_wf d \<and> obj_abs d = obj_abs v \<or> fails m \<noteq> [] \<and> (r = NO_MEM \<or> r = Inl Silent)"
  using changesD(2)[OF copying_new[OF assms(1)] assms(2)] by (auto simp: copied_def)

definition sample_array :: rdb_obj where
  "sample_array = Obj None None (ArrayV 2 2 [Obj (Some RDB_INTEGER) None (IntV 7), Obj (Some RDB_BOOLEAN) None (BoolV True)])"

lemma copy_keeps_value_witness:
  "obj_abs (fst (snd (RDB_copy_obj (=) c_locale RDB_init_obj sample_array mem_ok)))
     = Value None None (Elems [Value (Some RDB_INTEGER) None (Atom (IntV 7)), Value (Some RDB_BOOLEAN) None (Atom (BoolV True))])"
proof -
  obtain r d m' where run: "RDB_copy_obj (=) c_locale RDB_init_obj sample_array mem_ok = (r, d, m')" by (metis prod_cases3)
  have "obj_wf sample_array" by (simp add: sample_array_def)
  from copy_keeps_value[OF this run] show ?thesis
    by (simp add: run) (simp add: sample_array_def scalar_only_def dummy_impl_def RDB_INTEGER_def RDB_BOOLEAN_def numeral_2_eq_2)
qed

text \<open>C12: A tuple refines a finite map from names to values: setting an attribute updates the map at that name and
  nowhere else, what is read is what the map holds, and the size is the size of the map.\<close>

theorem tuple_refines_map:
  assumes "tuple_ok t" "obj_wf v" "RDB_tuple_set same P t a (Some v) m = (r, t', m')"
  shows "r = Inr () \<and> tuple_ok t' \<and> tuple_map t' = (tuple_map t)(a \<mapsto> obj_abs v)
       \<and> (\<forall>b. \<exists>w. RDB_tuple_get t' b = Inr w \<and> map_option obj_abs w = tuple_map t' b)
       \<and> RDB_tuple_size t' = Inr (to_int (int (card (dom (tuple_map t')))))
     \<or> fails m \<noteq> [] \<and> (r = NO_MEM \<or> r = Inl Silent)"
  using changesD(2)[OF tuple_set_changes[OF assms(1,2)] assms(3)] tuple_get tuple_size_card
  by (auto simp: tuple_map_def)

text \<open>The sample tuples are made by the code.\<close>

definition int_value :: "i32 \<Rightarrow> rdb_obj" where
  "int_value i = Obj (Some RDB_INTEGER) None (IntV i)"

definition sample_tuple :: rdb_obj where
  "sample_tuple = fst (snd (RDB_tuple_set (=) c_locale RDB_init_obj ''A'' (Some (int_value 1)) mem_ok))"

definition sample_pair :: rdb_obj where
  "sample_pair = fst (snd (RDB_tuple_set (=) c_locale sample_tuple ''B'' (Some (int_value 2)) mem_ok))"

lemma set_sample:
  assumes "tuple_ok t"
  shows "tuple_ok (fst (snd (RDB_tuple_set (=) c_locale t a (Some (int_value i)) mem_ok)))"
    and "tuple_map (fst (snd (RDB_tuple_set (=) c_locale t a (Some (int_value i)) mem_ok))) = (tuple_map t)(a \<mapsto> obj_abs (int_value i))"
    and "kind_of (val_of (fst (snd (RDB_tuple_set (=) c_locale t a (Some (int_value i)) mem_ok)))) = RDB_OB_TUPLE"
proof -
  obtain r d m' where run: "RDB_tuple_set (=) c_locale t a (Some (int_value i)) mem_ok = (r, d, m')" by (metis prod_cases3)
  have "obj_wf (int_value i)" by (simp add: int_value_def)
  from changesD(2)[OF tuple_set_changes[OF assms this] run]
  show "tuple_ok (fst (snd (RDB_tuple_set (=) c_locale t a (Some (int_value i)) mem_ok)))"
    "tuple_map (fst (snd (RDB_tuple_set (=) c_locale t a (Some (int_value i)) mem_ok))) = (tuple_map t)(a \<mapsto> obj_abs (int_value i))"
    "kind_of (val_of (fst (snd (RDB_tuple_set (=) c_locale t a (Some (int_value i)) mem_ok)))) = RDB_OB_TUPLE"
    by (simp_all add: run)
qed

lemma sample_tuples:
  "tuple_ok sample_tuple" "tuple_map sample_tuple = [''A'' \<mapsto> obj_abs (int_value 1)]"
  "tuple_ok sample_pair" "tuple_map sample_pair = [''A'' \<mapsto> obj_abs (int_value 1), ''B'' \<mapsto> obj_abs (int_value 2)]"
  "kind_of (val_of sample_pair) = RDB_OB_TUPLE"
  using set_sample[OF tuple_init(1), of "''A''" 1] set_sample[of sample_tuple "''B''" 2]
  unfolding sample_tuple_def[symmetric] sample_pair_def[symmetric] by simp_all

lemma tuple_refines_map_witness:
  "case RDB_tuple_set (=) c_locale sample_tuple ''B'' (Some (int_value 2)) mem_ok of (r, t', m') \<Rightarrow>
     r = Inr () \<and> RDB_tuple_size t' = Inr 2 \<and> (\<exists>w. RDB_tuple_get t' ''B'' = Inr (Some w) \<and> obj_abs w = obj_abs (int_value 2))
     \<and> (\<exists>w. RDB_tuple_get t' ''A'' = Inr (Some w) \<and> obj_abs w = obj_abs (int_value 1)) \<and> RDB_tuple_get t' ''C'' = Inr None"
proof -
  obtain r d m' where run: "RDB_tuple_set (=) c_locale sample_tuple ''B'' (Some (int_value 2)) mem_ok = (r, d, m')" by (metis prod_cases3)
  have "obj_wf (int_value 2)" by (simp add: int_value_def)
  from tuple_refines_map[OF sample_tuples(1) this run]
  have got: "r = Inr ()" "RDB_tuple_size d = Inr (to_int (int (card (dom (tuple_map d)))))"
    "tuple_map d = [''A'' \<mapsto> obj_abs (int_value 1), ''B'' \<mapsto> obj_abs (int_value 2)]"
    and get: "\<exists>w. RDB_tuple_get d b = Inr w \<and> map_option obj_abs w = tuple_map d b" for b
    unfolding sample_tuples(2) by (auto simp only: fails_mem_ok)
  have "card (dom (tuple_map d)) = 2" by (simp add: got(3))
  then show ?thesis using got get[of "''A''"] get[of "''B''"] get[of "''C''"] by (auto simp: run to_int_def)
qed

text \<open>C35: With enough memory, projection, removal and renaming do to the map of a tuple what their names say, and
  the tuple they make is consistent.\<close>

theorem tuple_operators:
  assumes "tuple_ok t" "kind_of (val_of t) = RDB_OB_TUPLE" "obj_wf rest" "fails m = []"
  shows "(set names \<subseteq> dom (tuple_map t) \<longrightarrow> (\<exists>d m'. RDB_project_tuple same P t names rest m = (Inr (), d, m')
      \<and> tuple_ok d \<and> tuple_map d = tuple_map t |` set names))
    \<and> (\<exists>d m'. RDB_remove_tuple same P t names rest m = (Inr (), d, m') \<and> tuple_ok d
      \<and> tuple_map d = tuple_map t |` (- set names))
    \<and> (inj_on (renamed renv) (dom (tuple_map t)) \<longrightarrow> (\<exists>d m'. RDB_rename_tuple same P t renv RDB_init_obj m = (Inr (), d, m')
      \<and> tuple_ok d \<and> (\<forall>k \<in> dom (tuple_map t). tuple_map d (renamed renv k) = tuple_map t k)
      \<and> dom (tuple_map d) = renamed renv ` dom (tuple_map t)))"
  using achieves_run[OF project_achieves[OF assms(1,2) _ assms(3)] assms(4), of names same P]
    achieves_run[OF remove_achieves[OF assms(1,2,3)] assms(4), of same P names]
    achieves_run[OF rename_achieves[OF assms(1,2)] assms(4), of renv same P]
  by (simp_all add: becomes_def)

lemma tuple_operators_witness:
  "(\<exists>d m'. RDB_project_tuple (=) c_locale sample_pair [''B''] RDB_init_obj mem_ok = (Inr (), d, m')
      \<and> tuple_map d = [''B'' \<mapsto> obj_abs (int_value 2)])
   \<and> (\<exists>d m'. RDB_remove_tuple (=) c_locale sample_pair [''B''] RDB_init_obj mem_ok = (Inr (), d, m')
      \<and> tuple_map d = [''A'' \<mapsto> obj_abs (int_value 1)])
   \<and> (\<exists>d m'. RDB_rename_tuple (=) c_locale sample_pair [(''A'', ''C'')] RDB_init_obj mem_ok = (Inr (), d, m')
      \<and> tuple_map d ''C'' = Some (obj_abs (int_value 1)) \<and> dom (tuple_map d) = {''B'', ''C''})"
proof -
  note ops = tuple_operators[OF sample_tuples(3,5) init_obj_simps(4) fails_mem_ok]
  have "inj_on (renamed [(''A'', ''C'')]) (dom (tuple_map sample_pair))"
    by (auto simp: sample_tuples inj_on_def renamed_def Let_def)
  with ops[of "[''B'']" "(=)" c_locale "[(''A'', ''C'')]"]
  show ?thesis by (auto simp: sample_tuples restrict_map_def fun_eq_iff renamed_def Let_def)
qed



text \<open>When memory is short, projection can report success although an attribute is missing.\<close>

theorem project_loses_attribute:
  "\<exists>d m'. RDB_project_tuple (=) c_locale sample_tuple [''A''] RDB_init_obj \<lparr>fails = [True, False], next_addr = 1\<rparr> = (Inr (), d, m')
     \<and> RDB_tuple_get d ''A'' = Inr None \<and> RDB_tuple_get sample_tuple ''A'' \<noteq> Inr None"
proof -
  have at: "\<exists>v. RDB_tuple_get sample_tuple ''A'' = Inr (Some v)"
    using tuple_get[OF sample_tuples(1)] fun_cong[OF sample_tuples(2), of "''A''"] by (auto simp: tuple_map_def)
  have kind: "kind_of (val_of sample_tuple) = RDB_OB_TUPLE"
    using set_sample(3)[OF tuple_init(1), of "''A''" 1] by (simp add: sample_tuple_def)
  let ?lost = "Obj None None (TupleV None RDB_TUPLE_CAPACITY 0)"
  have "RDB_tuple_set (=) c_locale RDB_init_obj ''A'' (Some v) \<lparr>fails = [True, False], next_addr = 1\<rparr>
      = (NO_MEM, ?lost, \<lparr>fails = [False], next_addr = 1\<rparr>)" for v
    by (simp add: RDB_tuple_set_def with_entry_def and_then_change_def provide_entry_def tuple_tab_def init_tuple_def
      RDB_init_hashtable_def RDB_hashtable_get_def and_then_def RDB_alloc_def malloc_def RDB_init_obj_def with_tab_def)
  moreover have "RDB_tuple_get ?lost ''A'' = Inr None"
    by (simp add: RDB_tuple_get_def tuple_tab_def RDB_hashtable_get_def)
  ultimately show ?thesis using at kind wf_destroy(1)[OF init_obj_simps(4)]
    by (auto simp: RDB_project_tuple_def ignoring_def and_then_change_def changed_def)
qed

end
