(* ===== verification/Op_Laws.thy ===== *)
theory Op_Laws
  imports Builtin_Ops
begin

text \<open>
  What the built-in scalar operators compute: integer arithmetic is exact or an overflow is
  raised, conversions and strings have their round trips, and comparison of integers is
  correct exactly when their difference does not overflow.
\<close>

section \<open>Values\<close>

definition bool_obj :: "bool \<Rightarrow> rdb_obj" where "bool_obj b = Obj (Some RDB_BOOLEAN) None (BoolV b)"
definition int_obj :: "i32 \<Rightarrow> rdb_obj" where "int_obj i = Obj (Some RDB_INTEGER) None (IntV i)"
definition float_obj :: "double \<Rightarrow> rdb_obj" where "float_obj x = Obj (Some RDB_FLOAT) None (FloatV x)"
definition str_obj :: "string \<Rightarrow> rdb_obj" where "str_obj s = Obj (Some RDB_STRING) None (BinV (s @ [NUL]))"

lemmas obj_defs = bool_obj_def int_obj_def float_obj_def str_obj_def RDB_init_obj_def

lemma arg_objs [arguments]:
  "bool_arg (bool_obj b # vs) 0 = end_with (Inr b)" "int_arg (int_obj n # vs) 0 = end_with (Inr n)"
  "float_arg (float_obj x # vs) 0 = end_with (Inr x)" "bin_arg (str_obj s # vs) 0 = end_with (Inr (s @ [NUL]))"
  "NUL \<notin> set s \<Longrightarrow> str_arg (str_obj s # vs) 0 = end_with (Inr s)"
  by (simp_all add: obj_defs arguments c_str_def takeWhile_append)

lemma read_int [simp]: "typ_of (int_obj a) = Some RDB_INTEGER" "RDB_obj_int (int_obj a) = Inr a"
  by (simp_all add: int_obj_def RDB_obj_int_def)

lemma set_new [simp]:
  "RDB_bool_to_obj RDB_init_obj b = done_with (bool_obj b)" "RDB_int_to_obj RDB_init_obj n = done_with (int_obj n)"
  "RDB_float_to_obj RDB_init_obj x = done_with (float_obj x)"
  by (simp_all add: RDB_bool_to_obj_def RDB_int_to_obj_def RDB_float_to_obj_def set_scalar_def obj_defs)

lemma and_then_end [simp]: "and_then (end_with (Inr x)) f = f x" "and_then (done_with x) f = f x"
  by (simp_all add: and_then_def end_with_def done_with_def fun_eq_iff)

section \<open>Integers\<close>

definition exact_int :: "int \<Rightarrow> rdb_obj result" where
  "exact_int z =
     (if - (2 ^ 31) \<le> z \<and> z < 2 ^ 31 then Inr (int_obj (word_of_int z))
      else raise_err TYPE_CONSTRAINT_VIOLATION_ERROR ''integer overflow'')"

lemma sint_bounds: "- (2 ^ 31) \<le> sint (a :: i32)" "sint (a :: i32) < 2 ^ 31"
  using sint_ge[of a] sint_lt[of a] by simp_all

lemma sint_word_of_int: "- (2 ^ 31) \<le> z \<Longrightarrow> z < 2 ^ 31 \<Longrightarrow> sint (word_of_int z :: i32) = z"
  using to_int_id[of z] by (simp add: to_int_def)

lemma int_limits: "sint RDB_INT_MAX = 2 ^ 31 - 1" "sint RDB_INT_MIN = - (2 ^ 31)"
  by (simp_all add: RDB_INT_MAX_def RDB_INT_MIN_def)

lemma sint_eq: "- (2 ^ 31) \<le> z \<Longrightarrow> z < 2 ^ 31 \<Longrightarrow> w = word_of_int z \<Longrightarrow> sint (w :: i32) = z"
  using sint_word_of_int by simp

lemma limit_differences:
  fixes b :: i32
  shows "sint b > 0 \<Longrightarrow> sint (RDB_INT_MAX - b) = 2 ^ 31 - 1 - sint b"
    and "\<not> sint b > 0 \<Longrightarrow> sint (RDB_INT_MIN - b) = - (2 ^ 31) - sint b"
    and "sint b > 0 \<Longrightarrow> sint (RDB_INT_MIN + b) = - (2 ^ 31) + sint b"
    and "\<not> sint b > 0 \<Longrightarrow> sint (RDB_INT_MAX + b) = 2 ^ 31 - 1 + sint b"
  using sint_bounds[of b] by (auto intro!: sint_eq simp: RDB_INT_MAX_def RDB_INT_MIN_def)

lemma add_exact: "computes {} (add_int P [int_obj a, int_obj b] RDB_init_obj) (exact_int (sint a + sint b))"
  using sint_bounds[of a] sint_bounds[of b]
  by (auto simp: add_int_def arguments exact_int_def limit_differences intro!: computing)

lemma subtract_exact: "computes {} (subtract_int P [int_obj a, int_obj b] RDB_init_obj) (exact_int (sint a - sint b))"
  using sint_bounds[of a] sint_bounds[of b]
  by (auto simp: subtract_int_def arguments exact_int_def limit_differences intro!: computing)

lemma negate_exact: "computes {} (negate_int P [int_obj a] RDB_init_obj) (exact_int (- sint a))"
proof (cases "a = RDB_INT_MIN")
  case True
  then show ?thesis by (simp add: negate_int_def arguments exact_int_def int_limits computing)
next
  case False
  then have "sint a \<noteq> - (2 ^ 31)" using int_limits(2) signed_word_eqI by metis
  then show ?thesis using False sint_bounds[of a]
    by (auto simp: negate_int_def arguments exact_int_def intro!: computing)
qed

lemma product_64:
  fixes a b :: i32
  shows "sint (scast a * scast b :: 64 word) = sint a * sint b"
proof -
  have "\<bar>sint a\<bar> \<le> 2 ^ 31" "\<bar>sint b\<bar> \<le> 2 ^ 31" using sint_bounds[of a] sint_bounds[of b] by auto
  then have "\<bar>sint a * sint b\<bar> \<le> 2 ^ 31 * 2 ^ 31" unfolding abs_mult by (intro mult_mono) simp_all
  then have *: "- (2 ^ 63) \<le> sint a * sint b" "sint a * sint b < 2 ^ 63" by simp_all
  have "sint (scast a :: 64 word) = sint a" "sint (scast b :: 64 word) = sint b" by (simp_all add: sint_up_scast is_up)
  then show ?thesis using * by (simp add: sint_word_ariths signed_take_bit_int_eq_self)
qed

lemma multiply_exact: "computes {} (multiply_int P [int_obj a, int_obj b] RDB_init_obj) (exact_int (sint a * sint b))"
proof -
  have "ucast p = (word_of_int (sint p) :: i32)" for p :: "64 word"
    by (subst down_cast_same) (simp add: is_down, rule scast_eq)
  then have "ucast (scast a * scast b :: 64 word) = (word_of_int (sint a * sint b) :: i32)"
    by (simp only: product_64)
  then show ?thesis
    by (auto simp: multiply_int_def arguments exact_int_def product_64 int_limits Let_def intro!: computing)
qed


text \<open>Division.\<close>

lemma division_results:
  assumes "b \<noteq> 0" "\<not> (a = RDB_INT_MIN \<and> b = -1)"
  shows "computes {} (divide_int P [int_obj a, int_obj b] RDB_init_obj) (Inr (int_obj (word_of_int (sint a sdiv sint b))))"
    "computes {} (modulo P [int_obj a, int_obj b] RDB_init_obj) (Inr (int_obj (word_of_int (sint a smod sint b))))"
  using assms by (auto simp: divide_int_def modulo_def arguments intro!: computing)

lemma quotient_fits:
  fixes x y :: int
  assumes "\<bar>x\<bar> \<le> 2 ^ 31" "x < 2 ^ 31" "y \<noteq> 0" "\<not> (x = - (2 ^ 31) \<and> y = -1)"
  shows "- (2 ^ 31) \<le> x sdiv y" "x sdiv y < 2 ^ 31" "\<bar>x smod y\<bar> < \<bar>y\<bar>" "x smod y \<noteq> 0 \<Longrightarrow> sgn (x smod y) = sgn x"
    "x = x sdiv y * y + x smod y"
proof -
  have q: "x sdiv y = sgn x * sgn y * (\<bar>x\<bar> div \<bar>y\<bar>)" and r: "x smod y = sgn x * (\<bar>x\<bar> mod \<bar>y\<bar>)"
    by (simp_all add: signed_divide_int_def signed_modulo_int_def)
  have le: "\<bar>x\<bar> div \<bar>y\<bar> \<le> \<bar>x\<bar>" "0 \<le> \<bar>x\<bar> div \<bar>y\<bar>" using int_div_le_self[of "\<bar>x\<bar>" "\<bar>y\<bar>"] assms(3)
    by (cases "x = 0"; simp add: pos_imp_zdiv_nonneg_iff)+
  have b: "\<bar>x sdiv y\<bar> \<le> \<bar>x\<bar> div \<bar>y\<bar>" using le(2) by (auto simp: q sgn_if abs_mult)
  show "- (2 ^ 31) \<le> x sdiv y" using b le assms(1) by simp
  show "x sdiv y < 2 ^ 31"
  proof (cases "\<bar>x\<bar> < 2 ^ 31 \<or> x sdiv y < 0")
    case False
    then have x: "x = - (2 ^ 31)" using assms(1,2) by auto
    then have "\<bar>y\<bar> \<noteq> 1 \<or> y = 1" using assms(4) by auto
    then have "\<bar>x\<bar> div \<bar>y\<bar> < \<bar>x\<bar> \<or> x sdiv y = x" using assms(3) x by (auto simp: q intro!: int_div_less_self)
    then show ?thesis using b assms(1,2) by auto
  qed (use b le in auto)
  show "\<bar>x smod y\<bar> < \<bar>y\<bar>" using assms(3) by (auto simp: r abs_mult sgn_if)
  show "sgn (x smod y) = sgn x" if "x smod y \<noteq> 0"
  proof -
    have "0 < \<bar>x\<bar> mod \<bar>y\<bar>" using that assms(3) pos_mod_sign[of "\<bar>y\<bar>" "\<bar>x\<bar>"] by (auto simp: r less_le)
    then show ?thesis by (simp add: r sgn_mult)
  qed
  show "x = x sdiv y * y + x smod y" by (rule sdiv_mult_smod_eq [symmetric])
qed

text \<open>Conversion between integers and floats.\<close>

lemma float_of_int_trunc: "trunc (float_of_int (sint (a :: i32))) = Some (sint a)"
  using sint_bounds[of a] by (intro trunc_of_int) auto


lemma float_of_int_form:
  assumes "\<bar>i\<bar> < 2 ^ 53"
  shows "\<exists>s m e. float_of_int i = Finite s m e \<and> - 1074 \<le> e \<and> e \<le> 0 \<and> signed_by s m = i * 2 ^ nat (- e)"
proof -
  let ?n = "nat \<bar>i\<bar>"
  have "float_of_int i = (if ?n = 0 then Finite False 0 (- 1074)
      else Finite (i < 0) (?n * 2 ^ (53 - bit_length ?n)) (int (bit_length ?n) - 53))"
    using nearest_int[of ?n "i < 0"] assms by (auto simp: float_of_int_def nearest_scaled_def nearest_def)
  moreover have "bit_length ?n \<le> 53" using assms by (intro bit_length_le) auto
  moreover from this have "nat (53 - int (bit_length ?n)) = 53 - bit_length ?n" by auto
  ultimately show ?thesis by (auto simp: signed_by_def)
qed

lemma aligned_value:
  assumes "signed_by s m = i * 2 ^ nat (- e)" "e \<le> 0" "k \<le> e"
  shows "aligned s m e k = i * 2 ^ nat (- k)"
proof -
  have "nat (- k) = nat (- e) + nat (e - k)" using assms(2,3) by simp
  then show ?thesis using assms(1) by (simp add: aligned_def power_add)
qed

lemma fless_of_int:
  assumes "\<bar>i\<bar> < 2 ^ 53" "\<bar>j\<bar> < 2 ^ 53"
  shows "fless (float_of_int i) (float_of_int j) \<longleftrightarrow> i < j"
proof -
  obtain s m e t n f where i: "float_of_int i = Finite s m e" "e \<le> 0" "signed_by s m = i * 2 ^ nat (- e)"
    and j: "float_of_int j = Finite t n f" "f \<le> 0" "signed_by t n = j * 2 ^ nat (- f)"
    using float_of_int_form[OF assms(1)] float_of_int_form[OF assms(2)] by blast
  show ?thesis
    using aligned_value[OF i(3,2), of "min e f"] aligned_value[OF j(3,2), of "min e f"] by (simp add: i(1) j(1) Let_def)
qed


section \<open>Numbers in text\<close>

lemma digit_char: "n < 10 \<Longrightarrow> isdigit (char_of (48 + n)) \<and> of_char (char_of (48 + n) :: char) = (48 + n :: nat)"
  by (simp add: isdigit_def)

lemma print_nat_digits: "list_all isdigit (print_nat n) \<and> print_nat n \<noteq> [] \<and> digits_value (print_nat n) = n"
proof (induction n rule: print_nat.induct)
  case (1 n)
  show ?case
  proof (cases "n < 10")
    case True
    then show ?thesis using digit_char[of n] by (subst (1 2 3) print_nat.simps) (simp add: digits_value_def)
  next
    case False
    then show ?thesis using 1 digit_char[of "n mod 10"]
      by (subst (1 2 3) print_nat.simps) (simp add: digits_value_def)
  qed
qed

lemma digit_not_special: "isdigit c \<Longrightarrow> \<not> isspace c \<and> c \<noteq> CHR ''-'' \<and> c \<noteq> CHR ''+'' \<and> c \<noteq> NUL"
  by (auto simp: isdigit_def isspace_def Let_def)

lemma strtol_digits:
  assumes "list_all isdigit ds" "ds \<noteq> []"
  shows "takeWhile isdigit ds = ds" "dropWhile isdigit ds = []" "\<not> isspace (hd ds)" "hd ds \<noteq> CHR ''-''" "hd ds \<noteq> CHR ''+''"
    "dropWhile isspace ds = ds" "NUL \<notin> set ds"
  using assms digit_not_special by (cases ds; force simp: list_all_iff takeWhile_eq_all_conv)+

lemmas printed = print_nat_digits[THEN conjunct1, unfolded list_all_iff] print_nat_digits[THEN conjunct2, THEN conjunct1] print_nat_digits[THEN conjunct2, THEN conjunct2]
  strtol_digits[OF print_nat_digits[THEN conjunct1] print_nat_digits[THEN conjunct2, THEN conjunct1]]

lemma strtol_print:
  assumes "\<bar>i\<bar> < 2 ^ 63"
  shows "strtol (print_int i) = (i, [])" "NUL \<notin> set (print_int i)"
proof -
  have "\<not> isspace (CHR ''-'')" by (simp add: isspace_def)
  then show "strtol (print_int i) = (i, [])"
    using assms by (simp add: print_int_def strtol_def printed Let_def)
  show "NUL \<notin> set (print_int i)" by (simp add: print_int_def printed)
qed

section \<open>Strings\<close>

lemma write_all: "length d = length bs \<Longrightarrow> write_at d 0 bs = Inr bs"
  by (cases bs) (simp_all add: write_at_def)

lemma computes_set_len:
  assumes "\<And>d. length d = n \<Longrightarrow> computes E (g (Obj (Some RDB_STRING) None (BinV d))) r"
  shows "computes E (and_then (RDB_set_str_obj_len P RDB_init_obj n) g) r"
proof -
  have "and_then (RDB_set_str_obj_len P RDB_init_obj n) g
      = and_then RDB_alloc (\<lambda>a. g (Obj (Some RDB_STRING) None (BinV (new_block P a [] n))))"
    by (simp add: RDB_set_str_obj_len_def RDB_init_obj_def and_then_def done_with_def fun_eq_iff split: sum.splits prod.splits)
  then show ?thesis using assms by (auto intro!: computing simp: new_block_def)
qed

lemma computes_string_to_obj [computing]: "computes E (RDB_string_to_obj P RDB_init_obj s) (Inr (str_obj s))"
  by (auto simp: RDB_string_to_obj_def store_at_def RDB_obj_bin_def write_all str_obj_def intro!: computes_set_len computing)


lemma concat_result:
  assumes "NUL \<notin> set a" "NUL \<notin> set b"
  shows "computes E (op_concat P [str_obj a, str_obj b] RDB_init_obj) (Inr (str_obj (a @ b)))"
proof -
  have "computes E (and_then (store_at (Obj (Some RDB_STRING) None (BinV d)) 0 (a @ [NUL])) (\<lambda>v. store_at v (length a) (b @ [NUL])))
      (Inr (str_obj (a @ b)))" if "length d = length a + length b + 1" for d
  proof -
    have "write_at d 0 (a @ [NUL]) = Inr (a @ [NUL] @ drop (length a + 1) d)" using that by (simp add: write_at_def)
    then show ?thesis using that by (simp add: store_at_def RDB_obj_bin_def write_at_def str_obj_def computing)
  qed
  then show ?thesis using assms by (auto simp: op_concat_def arguments intro!: computes_set_len)
qed

lemma strncpy_inside: "NUL \<notin> set s \<Longrightarrow> n \<le> length s \<Longrightarrow> strncpy_bytes (s @ t) n = Inr (take n s)"
proof -
  assume "NUL \<notin> set s" "n \<le> length s"
  then have tw: "takeWhile (\<lambda>c. c \<noteq> NUL) (take n (s @ t)) = take n s"
    by (auto simp: takeWhile_eq_all_conv dest: in_set_takeD)
  show ?thesis using \<open>n \<le> length s\<close> unfolding strncpy_bytes_def tw by simp
qed

lemma computes_string_n:
  assumes "NUL \<notin> set s" "n \<le> length s"
  shows "computes E (RDB_string_n_to_obj P RDB_init_obj (s @ t) n) (Inr (str_obj (take n s)))"
proof -
  have "computes E (and_then (store_at (Obj (Some RDB_STRING) None (BinV d)) 0 (take n s)) (\<lambda>v'. store_at v' n [NUL]))
      (Inr (str_obj (take n s)))" if "length d = n + 1" for d
  proof -
    have "write_at d 0 (take n s) = Inr (take n s @ drop n d)"
      using that assms(2) by (cases "take n s = []") (auto simp: write_at_def)
    then show ?thesis using that assms(2) by (simp add: store_at_def RDB_obj_bin_def write_at_def str_obj_def computing)
  qed
  then show ?thesis using strncpy_inside[OF assms] by (auto simp: RDB_string_n_to_obj_def intro!: computes_set_len)
qed

text \<open>The check on the sum that can wrap is the right one.\<close>

lemma wrapped_check:
  fixes pos len :: i32
  assumes "0 \<le> sint pos" "0 \<le> sint len" "n < 2 ^ 31"
  shows "to_size (sint (pos + len)) > n \<longleftrightarrow> nat (sint pos) + nat (sint len) > n"
proof (cases "sint pos + sint len < 2 ^ 31")
  case True
  then have "sint (pos + len) = sint pos + sint len" using assms(1,2) by (simp add: sint_eq)
  then show ?thesis using assms True by (simp add: to_size_id nat_add_distrib)
next
  case False
  then have "\<not> to_size (sint (pos + len)) \<le> n" using wrapped_end[OF assms(1,2), of n] assms by fastforce
  then show ?thesis using False assms by auto
qed

lemma substr_b_result:
  fixes pos len :: i32
  assumes "NUL \<notin> set s" "length s < 2 ^ 31"
  shows "computes {} (op_substr_b P [str_obj s, int_obj pos, int_obj len] RDB_init_obj)
    (if 0 \<le> sint pos \<and> 0 \<le> sint len \<and> nat (sint pos) + nat (sint len) \<le> length s
     then Inr (str_obj (take (nat (sint len)) (drop (nat (sint pos)) s)))
     else raise_err INVALID_ARGUMENT_ERROR ''invalid substr_b argument'')"
proof -
  have "NUL \<notin> set (drop (nat (sint pos)) s)" using assms(1) by (auto dest: in_set_dropD)
  moreover have "c_str (s @ [NUL]) = Inr s" using assms(1) by (simp add: c_str_def takeWhile_append)
  ultimately show ?thesis
    using wrapped_check[of pos len "length s"] assms
    by (auto simp: op_substr_b_def arguments numeral_2_eq_2 intro!: computing computes_string_n)
qed


section \<open>Properties\<close>

lemma difference_sign:
  assumes "- (2 ^ 31) \<le> x" "x < 2 ^ 31" "- (2 ^ 31) \<le> y" "y < 2 ^ 31"
  shows "(to_int (x - y) < 0 \<longleftrightarrow> x < y) \<longleftrightarrow> - (2 ^ 31) \<le> x - y \<and> x - y < 2 ^ 31"
proof -
  consider "x - y < - (2 ^ 31)" | "- (2 ^ 31) \<le> x - y" "x - y < 2 ^ 31" | "2 ^ 31 \<le> x - y" by linarith
  then show ?thesis
  proof cases
    case 1
    then have "(x - y + 2 ^ 31 + 2 ^ 32) mod 2 ^ 32 = x - y + 2 ^ 31 + 2 ^ 32"
      using assms by (intro mod_pos_pos_trivial) auto
    then have "(x - y + 2 ^ 31) mod 2 ^ 32 = x - y + 2 ^ 31 + 2 ^ 32" by (metis mod_add_self2)
    then show ?thesis using assms 1 by (simp add: to_int_shift)
  next
    case 2
    then show ?thesis by (simp add: to_int_id)
  next
    case 3
    then show ?thesis using assms by (simp add: to_int_above)
  qed
qed

text \<open>
  C18: Addition, subtraction, multiplication and negation of integers give the exact result, and raise the overflow
  error exactly when it is not an integer of 32 bits.
\<close>

theorem int_arithmetic_exact:
  shows "computes {} (add_int P [int_obj a, int_obj b] RDB_init_obj) (exact_int (sint a + sint b))
    \<and> computes {} (subtract_int P [int_obj a, int_obj b] RDB_init_obj) (exact_int (sint a - sint b))
    \<and> computes {} (multiply_int P [int_obj a, int_obj b] RDB_init_obj) (exact_int (sint a * sint b))
    \<and> computes {} (negate_int P [int_obj a] RDB_init_obj) (exact_int (- sint a))"
  using add_exact subtract_exact multiply_exact negate_exact by blast

text \<open>
  Integer division and remainder belong together: the remainder is smaller than the divisor and has the
  sign of the dividend.
\<close>

theorem division_law:
  assumes "b \<noteq> 0" "\<not> (a = RDB_INT_MIN \<and> b = -1)"
  shows "\<exists>q r. computes {} (divide_int P [int_obj a, int_obj b] RDB_init_obj) (Inr (int_obj q))
    \<and> computes {} (modulo P [int_obj a, int_obj b] RDB_init_obj) (Inr (int_obj r))
    \<and> sint a = sint q * sint b + sint r \<and> \<bar>sint r\<bar> < \<bar>sint b\<bar> \<and> (r \<noteq> 0 \<longrightarrow> sgn (sint r) = sgn (sint a))"
proof -
  let ?q = "sint a sdiv sint b" and ?r = "sint a smod sint b"
  have "sint b \<noteq> 0" using assms(1) by (metis signed_0 signed_word_eqI)
  moreover have "\<not> (sint a = - (2 ^ 31) \<and> sint b = -1)"
    using assms(2) int_limits(2) by (metis signed_word_eqI sint_n1)
  ultimately have qr: "- (2 ^ 31) \<le> ?q" "?q < 2 ^ 31" "\<bar>?r\<bar> < \<bar>sint b\<bar>" "?r \<noteq> 0 \<Longrightarrow> sgn ?r = sgn (sint a)"
      "sint a = ?q * sint b + ?r"
    using quotient_fits[of "sint a" "sint b"] sint_bounds[of a] by auto
  moreover have "\<bar>sint b\<bar> \<le> 2 ^ 31" using sint_bounds[of b] by auto
  ultimately have "sint (word_of_int ?q :: i32) = ?q" "sint (word_of_int ?r :: i32) = ?r"
    by (auto intro!: sint_word_of_int)
  moreover from this have "(word_of_int ?r :: i32) \<noteq> 0 \<Longrightarrow> ?r \<noteq> 0" by auto
  ultimately show ?thesis using division_results[OF assms] qr
    by (intro exI[of _ "word_of_int ?q"] exI[of _ "word_of_int ?r"]) simp
qed

lemma division_law_witness:
  "\<exists>q r. computes {} (divide_int c_locale [int_obj (-7), int_obj 2] RDB_init_obj) (Inr (int_obj q))
    \<and> computes {} (modulo c_locale [int_obj (-7), int_obj 2] RDB_init_obj) (Inr (int_obj r))
    \<and> - 7 = sint q * 2 + sint r \<and> \<bar>sint r\<bar> < 2 \<and> (r \<noteq> 0 \<longrightarrow> sgn (sint r) = - 1)"
  using division_law[of 2 "-7" c_locale] by (simp add: RDB_INT_MIN_def)

text \<open>
  Converting any integer to a string and back, or to a float and back, gives the same integer.
\<close>

theorem integer_casts_round_trip:
  "computes {} (and_then (cast_as_string P [int_obj a] RDB_init_obj) (\<lambda>s. cast_as_integer_string P [s] RDB_init_obj))
     (Inr (int_obj a))
   \<and> computes {} (and_then (cast_as_float_int P [int_obj a] RDB_init_obj) (\<lambda>f. cast_as_integer_float P [f] RDB_init_obj))
     (Inr (int_obj a))"
proof -
  have "computes {} (cast_as_string P [int_obj a] RDB_init_obj) (Inr (str_obj (print_int (sint a))))"
    by (auto simp: cast_as_string_def arguments RDB_obj_to_string_def intro!: computing)
  moreover have "\<bar>sint a\<bar> < 2 ^ 63" "sint a \<le> sint RDB_INT_MAX" using sint_bounds[of a] int_limits(1) by auto
  then have "computes {} (cast_as_integer_string P [str_obj (print_int (sint a))] RDB_init_obj) (Inr (int_obj a))"
    using strtol_print[of "sint a"] by (auto simp: cast_as_integer_string_def arguments intro!: computing)
  moreover have "computes {} (cast_as_integer_float P [float_obj (float_of_int (sint a))] RDB_init_obj) (Inr (int_obj a))"
    using sint_bounds[of a] fless_of_int[of "sint RDB_INT_MAX" "sint a"] fless_of_int[of "sint a" "sint RDB_INT_MIN"]
    by (auto simp: cast_as_integer_float_def arguments float_of_int_trunc int_limits intro!: computing)
  ultimately show ?thesis by (auto simp: cast_as_float_int_def arguments intro!: computing)
qed

text \<open>
  The comparison of two integers gives the right answer if and only if their difference is an
  integer of 32 bits; otherwise the subtraction wraps and the answer is wrong.
\<close>

theorem int_comparison:
  "\<exists>z. computes {} (lt P [int_obj a, int_obj b] RDB_init_obj) (Inr (bool_obj z))
     \<and> ((z \<longleftrightarrow> sint a < sint b) \<longleftrightarrow> - (2 ^ 31) \<le> sint a - sint b \<and> sint a - sint b < 2 ^ 31)"
proof -
  have "computes {} (lt P [int_obj a, int_obj b] RDB_init_obj) (Inr (bool_obj (sint (a - b) < 0)))"
    by (auto simp: lt_def compare_with_def arguments compare_fn_def compare_int_def intro!: computing)
  moreover have "sint (a - b) = to_int (sint a - sint b)" by (simp add: to_int_def)
  then have "(sint (a - b) < 0 \<longleftrightarrow> sint a < sint b) \<longleftrightarrow> - (2 ^ 31) \<le> sint a - sint b \<and> sint a - sint b < 2 ^ 31"
    using difference_sign[of "sint a" "sint b"] sint_bounds[of a] sint_bounds[of b] by simp
  ultimately show ?thesis by blast
qed

lemma strstr_least:
  "strstr h n = (if \<exists>i \<le> length h. take (length n) (drop i h) = n
     then Some (LEAST i. take (length n) (drop i h) = n) else None)"
proof (induction h)
  case (Cons c h)
  show ?case
  proof (cases "take (length n) (c # h) = n")
    case True
    then have "(LEAST i. take (length n) (drop i (c # h)) = n) = 0" by (intro Least_equality) simp_all
    then show ?thesis using True by (auto intro: exI[of _ 0])
  next
    case False
    have ex: "(\<exists>i \<le> length (c # h). take (length n) (drop i (c # h)) = n) \<longleftrightarrow> (\<exists>i \<le> length h. take (length n) (drop i h) = n)"
      using False by (metis Suc_le_mono drop_Suc_Cons length_Cons not0_implies_Suc drop0)
    have "(LEAST i. take (length n) (drop i (c # h)) = n) = Suc (LEAST i. take (length n) (drop i h) = n)"
      if ex: "\<exists>i \<le> length h. take (length n) (drop i h) = n"
    proof -
      obtain i where "take (length n) (drop (Suc i) (c # h)) = n" using ex by auto
      from Least_Suc[of "\<lambda>i. take (length n) (drop i (c # h)) = n", OF this] False show ?thesis by simp
    qed
    then show ?thesis using False Cons unfolding ex by simp
  qed
qed (auto intro!: Least_equality[symmetric])

text \<open>
  The search in a string gives the first position at which the other string occurs, and \<open>-1\<close> only if there is none.
\<close>

theorem find_first:
  assumes "NUL \<notin> set h" "NUL \<notin> set n" "length h < 2 ^ 31"
  shows "\<exists>z. computes {} (op_strfind_b P [str_obj h, str_obj n] RDB_init_obj) (Inr (int_obj z))
    \<and> (if \<exists>i \<le> length h. take (length n) (drop i h) = n
       then sint z = int (LEAST i. take (length n) (drop i h) = n) else z = -1)"
proof (cases "\<exists>i \<le> length h. take (length n) (drop i h) = n")
  case True
  let ?i = "LEAST i. take (length n) (drop i h) = n"
  have "?i \<le> length h" using True by (meson Least_le le_trans)
  then have "sint (word_of_int (int ?i) :: i32) = int ?i" using assms(3) by (intro sint_word_of_int) auto
  then show ?thesis
    using True assms by (intro exI[of _ "of_nat ?i"]) (auto simp: op_strfind_b_def arguments strstr_least intro!: computing)
next
  case False
  then show ?thesis using assms by (auto simp: op_strfind_b_def arguments strstr_least intro!: exI[of _ "-1"] computing)
qed

lemma find_first_witness:
  "\<exists>z. computes {} (op_strfind_b c_locale [str_obj ''abab'', str_obj ''ba''] RDB_init_obj) (Inr (int_obj z)) \<and> sint z = 1"
proof -
  have "(LEAST i. take (length ''ba'') (drop i ''abab'') = ''ba'') = 1"
    by (intro Least_equality) (auto simp: Suc_le_eq intro: ccontr)
  moreover have "\<exists>i \<le> length ''abab''. take (length ''ba'') (drop i ''abab'') = ''ba''" by (intro exI[of _ 1]) simp
  moreover note find_first[of "''abab''" "''ba''" c_locale]
  ultimately show ?thesis by (simp only: if_True) auto
qed

text \<open>
  Concatenating two strings and taking the substrings at the length of the first gives them back; the
  concatenation starts with the first.
\<close>

theorem concat_and_substr:
  assumes "NUL \<notin> set a" "NUL \<notin> set b" "length a + length b < 2 ^ 31"
  shows "computes {} (op_concat P [str_obj a, str_obj b] RDB_init_obj) (Inr (str_obj (a @ b)))
    \<and> computes {} (op_strlen_b P [str_obj a] RDB_init_obj) (Inr (int_obj (of_nat (length a))))
    \<and> computes {} (op_substr_b P [str_obj (a @ b), int_obj 0, int_obj (of_nat (length a))] RDB_init_obj) (Inr (str_obj a))
    \<and> computes {} (op_substr_b P [str_obj (a @ b), int_obj (of_nat (length a)), int_obj (of_nat (length b))] RDB_init_obj)
        (Inr (str_obj b))
    \<and> computes {} (op_substr_b_remaining P [str_obj (a @ b), int_obj (of_nat (length a))] RDB_init_obj) (Inr (str_obj b))
    \<and> computes {} (op_starts_with P [str_obj (a @ b), str_obj a] RDB_init_obj) (Inr (bool_obj True))"
proof -
  have n: "sint (of_nat (length a) :: i32) = int (length a)" "sint (of_nat (length b) :: i32) = int (length b)"
    using sint_word_of_int[of "int (length a)"] sint_word_of_int[of "int (length b)"] assms(3) by simp_all
  have ab: "NUL \<notin> set (a @ b)" "length (a @ b) < 2 ^ 31" using assms by auto
  have "to_size (int (length a)) = length a" using assms(3) by (simp add: to_size_id)
  then have "computes {} (op_substr_b_remaining P [str_obj (a @ b), int_obj (of_nat (length a))] RDB_init_obj) (Inr (str_obj b))"
    using ab by (auto simp: op_substr_b_remaining_def arguments n simp del: set_append intro!: computing)
  moreover have "computes {} (op_starts_with P [str_obj (a @ b), str_obj a] RDB_init_obj) (Inr (bool_obj True))"
    "computes {} (op_strlen_b P [str_obj a] RDB_init_obj) (Inr (int_obj (of_nat (length a))))"
    using ab assms(1) by (auto simp: op_starts_with_def op_strlen_b_def arguments simp del: set_append intro!: computing)
  ultimately show ?thesis
    using concat_result[OF assms(1,2)] substr_b_result[OF ab, of P 0 "of_nat (length a)"]
      substr_b_result[OF ab, of P "of_nat (length a)" "of_nat (length b)"] by (simp add: n)
qed

lemma concat_and_substr_witness:
  "computes {} (op_concat c_locale [str_obj ''ab'', str_obj ''c''] RDB_init_obj) (Inr (str_obj ''abc''))"
  using concat_and_substr[of "''ab''" "''c''" c_locale] by simp

end
