(* ===== verification/Exec_Context.thy ===== *)
theory Exec_Context
  imports Hashmap
begin

text \<open>
  The execution context of \<^verbatim>\<open>obj/excontext.c\<close>: the error a failing call leaves
  behind and a map of properties.  Everywhere else in the development a failing call is the
  value \<open>Inl (Raised e)\<close>; this theory shows what the context then holds.
\<close>

section \<open>Error objects\<close>

text \<open>
  The part of an \<^verbatim>\<open>RDB_object\<close> an error uses: its type (\<open>None\<close> until it is set) and
  the string that represents its message.
\<close>

record error_obj =
  eo_type :: "rdb_error_type option"
  eo_msg :: "string option"

definition RDB_init_error_obj :: error_obj where
  "RDB_init_error_obj = \<lparr>eo_type = None, eo_msg = None\<rparr>"

record 'v exec_context =
  error_active :: bool
  error :: error_obj
  error_retryable :: bool
  pmap :: "'v hashmap"

definition RDB_init_exec_context :: "error_obj \<Rightarrow> 'v exec_context" where
  "RDB_init_exec_context uninit =
     \<lparr>error_active = False, error = uninit, error_retryable = False, pmap = RDB_init_hashmap 16\<rparr>"

text \<open>
  Error types have no clean-up function, so destroying the old error cannot fail.
\<close>

definition RDB_raise_err :: "'v exec_context \<Rightarrow> 'v exec_context" where
  "RDB_raise_err ec = ec\<lparr>error := RDB_init_error_obj, error_active := True\<rparr>"

definition RDB_get_err :: "'v exec_context \<Rightarrow> error_obj option" where
  "RDB_get_err ec = (if error_active ec then Some (error ec) else None)"

definition RDB_clear_err :: "'v exec_context \<Rightarrow> 'v exec_context" where
  "RDB_clear_err ec =
     (if error_active ec then ec\<lparr>error_active := False\<rparr> else ec)\<lparr>error_retryable := False\<rparr>"

definition RDB_err_retryable :: "'v exec_context \<Rightarrow> bool" where
  "RDB_err_retryable ec = (error_active ec \<and> error_retryable ec)"

text \<open>Raising an error that has no message.\<close>

definition raise_plain_err :: "rdb_error_type \<Rightarrow> 'v exec_context \<Rightarrow> 'v exec_context" where
  "raise_plain_err t ec =
     (let ec' = RDB_raise_err ec in ec'\<lparr>error := (error ec')\<lparr>eo_type := Some t\<rparr>\<rparr>)"

definition RDB_raise_no_memory :: "'v exec_context \<Rightarrow> 'v exec_context" where
  "RDB_raise_no_memory ec = raise_plain_err NO_MEMORY_ERROR ec"

text \<open>
  Setting the message allocates a buffer through \<^verbatim>\<open>RDB_alloc\<close>, which itself raises
  \<^verbatim>\<open>no_memory_error\<close> in the same context when it fails.
\<close>

definition raise_msg_err ::
  "rdb_error_type \<Rightarrow> string \<Rightarrow> 'v exec_context \<Rightarrow> mem \<Rightarrow> 'v exec_context \<times> mem" where
  "raise_msg_err errtyp msg ec m =
     (let ec' = RDB_raise_err ec in
      case malloc m of
        (None, m') \<Rightarrow> (RDB_raise_no_memory ec', m')
      | (Some _, m') \<Rightarrow>
          (ec'\<lparr>error := (error ec')\<lparr>eo_msg := Some msg, eo_type := Some errtyp\<rparr>\<rparr>, m'))"

section \<open>One function per error type\<close>

definition RDB_raise_no_running_tx :: "'v exec_context \<Rightarrow> 'v exec_context" where
  "RDB_raise_no_running_tx ec = raise_plain_err NO_RUNNING_TX_ERROR ec"
definition RDB_raise_not_found :: "string \<Rightarrow> 'v exec_context \<Rightarrow> mem \<Rightarrow> 'v exec_context \<times> mem" where
  "RDB_raise_not_found msg = raise_msg_err NOT_FOUND_ERROR msg"
definition RDB_raise_invalid_argument :: "string \<Rightarrow> 'v exec_context \<Rightarrow> mem \<Rightarrow> 'v exec_context \<times> mem" where
  "RDB_raise_invalid_argument msg = raise_msg_err INVALID_ARGUMENT_ERROR msg"
definition RDB_raise_type_mismatch :: "string \<Rightarrow> 'v exec_context \<Rightarrow> mem \<Rightarrow> 'v exec_context \<times> mem" where
  "RDB_raise_type_mismatch msg = raise_msg_err TYPE_MISMATCH_ERROR msg"
definition RDB_raise_operator_not_found :: "string \<Rightarrow> 'v exec_context \<Rightarrow> mem \<Rightarrow> 'v exec_context \<times> mem" where
  "RDB_raise_operator_not_found msg = raise_msg_err OPERATOR_NOT_FOUND_ERROR msg"
definition RDB_raise_type_not_found :: "string \<Rightarrow> 'v exec_context \<Rightarrow> mem \<Rightarrow> 'v exec_context \<times> mem" where
  "RDB_raise_type_not_found msg = raise_msg_err TYPE_NOT_FOUND_ERROR msg"
definition RDB_raise_type_constraint_violation :: "string \<Rightarrow> 'v exec_context \<Rightarrow> mem \<Rightarrow> 'v exec_context \<times> mem" where
  "RDB_raise_type_constraint_violation msg = raise_msg_err TYPE_CONSTRAINT_VIOLATION_ERROR msg"
definition RDB_raise_element_exists :: "string \<Rightarrow> 'v exec_context \<Rightarrow> mem \<Rightarrow> 'v exec_context \<times> mem" where
  "RDB_raise_element_exists msg = raise_msg_err ELEMENT_EXISTS_ERROR msg"
definition RDB_raise_key_violation :: "string \<Rightarrow> 'v exec_context \<Rightarrow> mem \<Rightarrow> 'v exec_context \<times> mem" where
  "RDB_raise_key_violation msg = raise_msg_err KEY_VIOLATION_ERROR msg"
definition RDB_raise_not_supported :: "string \<Rightarrow> 'v exec_context \<Rightarrow> mem \<Rightarrow> 'v exec_context \<times> mem" where
  "RDB_raise_not_supported msg = raise_msg_err NOT_SUPPORTED_ERROR msg"
definition RDB_raise_name :: "string \<Rightarrow> 'v exec_context \<Rightarrow> mem \<Rightarrow> 'v exec_context \<times> mem" where
  "RDB_raise_name msg = raise_msg_err NAME_ERROR msg"
definition RDB_raise_predicate_violation :: "string \<Rightarrow> 'v exec_context \<Rightarrow> mem \<Rightarrow> 'v exec_context \<times> mem" where
  "RDB_raise_predicate_violation msg = raise_msg_err PREDICATE_VIOLATION_ERROR msg"
definition RDB_raise_in_use :: "string \<Rightarrow> 'v exec_context \<Rightarrow> mem \<Rightarrow> 'v exec_context \<times> mem" where
  "RDB_raise_in_use msg = raise_msg_err IN_USE_ERROR msg"
definition RDB_raise_system :: "string \<Rightarrow> 'v exec_context \<Rightarrow> mem \<Rightarrow> 'v exec_context \<times> mem" where
  "RDB_raise_system msg = raise_msg_err SYSTEM_ERROR msg"
definition RDB_raise_resource_not_found :: "string \<Rightarrow> 'v exec_context \<Rightarrow> mem \<Rightarrow> 'v exec_context \<times> mem" where
  "RDB_raise_resource_not_found msg = raise_msg_err RESOURCE_NOT_FOUND_ERROR msg"
definition RDB_raise_internal :: "string \<Rightarrow> 'v exec_context \<Rightarrow> mem \<Rightarrow> 'v exec_context \<times> mem" where
  "RDB_raise_internal msg = raise_msg_err INTERNAL_ERROR msg"
definition RDB_raise_concurrency :: "'v exec_context \<Rightarrow> 'v exec_context" where
  "RDB_raise_concurrency ec = raise_plain_err CONCURRENCY_ERROR ec"
definition RDB_raise_aggregate_undefined :: "'v exec_context \<Rightarrow> 'v exec_context" where
  "RDB_raise_aggregate_undefined ec = raise_plain_err AGGREGATE_UNDEFINED_ERROR ec"
definition RDB_raise_version_mismatch :: "'v exec_context \<Rightarrow> 'v exec_context" where
  "RDB_raise_version_mismatch ec = raise_plain_err VERSION_MISMATCH_ERROR ec"
definition RDB_raise_deadlock :: "'v exec_context \<Rightarrow> 'v exec_context" where
  "RDB_raise_deadlock ec = raise_plain_err DEADLOCK_ERROR ec"
definition RDB_raise_data_corrupted :: "string \<Rightarrow> 'v exec_context \<Rightarrow> mem \<Rightarrow> 'v exec_context \<times> mem" where
  "RDB_raise_data_corrupted msg = raise_msg_err DATA_CORRUPTED_ERROR msg"
definition RDB_raise_run_recovery :: "string \<Rightarrow> 'v exec_context \<Rightarrow> mem \<Rightarrow> 'v exec_context \<times> mem" where
  "RDB_raise_run_recovery msg = raise_msg_err RUN_RECOVERY_ERROR msg"
definition RDB_raise_syntax :: "string \<Rightarrow> 'v exec_context \<Rightarrow> mem \<Rightarrow> 'v exec_context \<times> mem" where
  "RDB_raise_syntax msg = raise_msg_err SYNTAX_ERROR msg"
definition RDB_raise_connection :: "string \<Rightarrow> 'v exec_context \<Rightarrow> mem \<Rightarrow> 'v exec_context \<times> mem" where
  "RDB_raise_connection msg = raise_msg_err CONNECTION_ERROR msg"

section \<open>System error codes\<close>

text \<open>\<open>strerror\<close> is the C library's text for a code.\<close>

definition RDB_errno_to_error ::
  "(errcode \<Rightarrow> string) \<Rightarrow> errcode \<Rightarrow> 'v exec_context \<Rightarrow> mem \<Rightarrow> 'v exec_context \<times> mem" where
  "RDB_errno_to_error strerror errcode ec m =
     (case errcode of
        ENOMEM \<Rightarrow> (RDB_raise_no_memory ec, m)
      | EINVAL \<Rightarrow> RDB_raise_invalid_argument '''' ec m
      | ENOENT \<Rightarrow> RDB_raise_resource_not_found (strerror errcode) ec m
      | _ \<Rightarrow> RDB_raise_system (strerror errcode) ec m)"

section \<open>Properties of a context\<close>

text \<open>\<open>None\<close>: the call does not return.\<close>

definition RDB_ec_set_property ::
  "(errcode \<Rightarrow> string) \<Rightarrow> 'v exec_context \<Rightarrow> string \<Rightarrow> 'v option \<Rightarrow> mem
     \<Rightarrow> (bool \<times> 'v exec_context \<times> mem) option" where
  "RDB_ec_set_property strerror ec nm v m =
     (case RDB_hashmap_put (pmap ec) nm v m of
        None \<Rightarrow> None
      | Some (ret, pm, m') \<Rightarrow>
          if ret \<noteq> RDB_OK then
            (case RDB_errno_to_error strerror ret (ec\<lparr>pmap := pm\<rparr>) m' of
               (ec', m'') \<Rightarrow> Some (False, ec', m''))
          else Some (True, ec\<lparr>pmap := pm\<rparr>, m'))"

definition RDB_ec_property :: "'v exec_context \<Rightarrow> string \<Rightarrow> 'v option" where
  "RDB_ec_property ec nm = RDB_hashmap_get (pmap ec) nm"

section \<open>What the context holds after a raise\<close>

lemmas raise_simps = RDB_raise_err_def raise_plain_err_def raise_msg_err_def RDB_raise_no_memory_def
  RDB_init_error_obj_def Let_def

lemma raise_plain_err_holds:
  "RDB_get_err (raise_plain_err t ec) = Some \<lparr>eo_type = Some t, eo_msg = None\<rparr>"
  by (simp add: raise_simps RDB_get_err_def)

lemma raise_msg_err_holds:
  "raise_msg_err t msg ec m = (ec', m') \<Longrightarrow>
   RDB_get_err ec' = Some \<lparr>eo_type = Some t, eo_msg = Some msg\<rparr>
   \<or> RDB_get_err ec' = Some \<lparr>eo_type = Some NO_MEMORY_ERROR, eo_msg = None\<rparr> \<and> fst (malloc m) = None"
  by (auto simp: raise_simps RDB_get_err_def split: prod.splits option.splits)

lemma raise_keeps_properties:
  "pmap (raise_plain_err t ec) = pmap ec"
  "raise_msg_err t msg ec m = (ec', m') \<Longrightarrow> pmap ec' = pmap ec"
  by (auto simp: raise_simps split: prod.splits option.splits)

lemma set_property_cases:
  assumes "hashmap_inv (pmap ec)"
  shows "(\<exists>ec' m'. RDB_ec_set_property strerror ec nm v m = Some (True, ec', m')
            \<and> hashmap_inv (pmap ec') \<and> RDB_get_err ec' = RDB_get_err ec
            \<and> hashmap_abs (pmap ec') = (hashmap_abs (pmap ec))(nm \<mapsto> v))
       \<or> (\<exists>ec' m'. RDB_ec_set_property strerror ec nm v m = Some (False, ec', m')
            \<and> RDB_get_err ec' = Some \<lparr>eo_type = Some NO_MEMORY_ERROR, eo_msg = None\<rparr>
            \<and> fails m \<noteq> [])"
  using hashmap_put_cases[OF assms, of nm v m]
  by (elim disjE exE conjE)
     (simp_all add: RDB_ec_set_property_def RDB_errno_to_error_def RDB_get_err_def raise_simps)

section \<open>Properties\<close>

text \<open>
  Raising an error with a message always leaves an active error in the context: the one asked for,
  or, if there is no memory for the message, the out-of-memory error.  The properties of
  the context are kept, and clearing the error removes it.
\<close>

theorem raise_leaves_error:
  assumes "raise_msg_err t msg ec m = (ec', m')"
  shows "(RDB_get_err ec' = Some \<lparr>eo_type = Some t, eo_msg = Some msg\<rparr>
      \<or> RDB_get_err ec' = Some \<lparr>eo_type = Some NO_MEMORY_ERROR, eo_msg = None\<rparr> \<and> fst (malloc m) = None)
    \<and> pmap ec' = pmap ec \<and> RDB_get_err (RDB_clear_err ec') = None \<and> \<not> RDB_err_retryable (RDB_clear_err ec')"
  using raise_msg_err_holds[OF assms] raise_keeps_properties(2)[OF assms]
  by (simp add: RDB_get_err_def RDB_clear_err_def RDB_err_retryable_def)

theorem raise_leaves_error_witness:
  "RDB_get_err (fst (RDB_raise_not_found ''T1'' (RDB_init_exec_context RDB_init_error_obj :: bool exec_context) mem_ok))
     = Some \<lparr>eo_type = Some NOT_FOUND_ERROR, eo_msg = Some ''T1''\<rparr>"
proof -
  obtain ec m where run: "raise_msg_err NOT_FOUND_ERROR ''T1'' (RDB_init_exec_context RDB_init_error_obj :: bool exec_context) mem_ok = (ec, m)"
    by fastforce
  from raise_leaves_error[OF run] show ?thesis using run by (auto simp: RDB_raise_not_found_def malloc_def)
qed

text \<open>
  Setting a property of a context either stores it, with all other properties and the error state
  as before, or fails with the out-of-memory error raised.
\<close>

theorem set_property_result:
  assumes "hashmap_inv (pmap ec)"
  shows "case RDB_ec_set_property strerror ec nm v m of
      None \<Rightarrow> False
    | Some (True, ec', m') \<Rightarrow> RDB_get_err ec' = RDB_get_err ec \<and> hashmap_inv (pmap ec')
        \<and> (\<forall>j. RDB_ec_property ec' j = (if j = nm then v else RDB_ec_property ec j))
    | Some (False, ec', m') \<Rightarrow> fails m \<noteq> []
        \<and> RDB_get_err ec' = Some \<lparr>eo_type = Some NO_MEMORY_ERROR, eo_msg = None\<rparr>"
  using set_property_cases[OF assms, of strerror nm v m]
  by (auto simp: RDB_ec_property_def hashmap_get_abs)

theorem set_property_result_witness:
  "\<exists>ec' m'. RDB_ec_set_property (\<lambda>_. '''') (RDB_init_exec_context RDB_init_error_obj) ''TX'' (Some (3 :: nat)) mem_ok
       = Some (True, ec', m') \<and> RDB_ec_property ec' ''TX'' = Some 3"
proof -
  have "hashmap_inv (pmap (RDB_init_exec_context RDB_init_error_obj :: nat exec_context))"
    by (simp add: RDB_init_exec_context_def hashmap_inv_init)
  from set_property_result[OF this, where strerror = "\<lambda>_. ''''" and nm = "''TX''" and v = "Some 3" and m = mem_ok] show ?thesis
    by (auto split: option.splits prod.splits bool.splits)
qed

end
