(* ===== verification/Avl_Tree.thy ===== *)
theory Avl_Tree
  imports Duro_Prelude "HOL-Library.Sublist"
begin

text \<open>
  The balanced tree of \<^verbatim>\<open>treerec/tree.c\<close>.  A tree node is owned by the one pointer
  that leads to it from above, so nodes are nested values; the address of a node
  (\<open>nid\<close>) and its parent pointer (\<open>nparent\<close>, the address of the parent) are kept as
  fields, and every assignment to a \<^verbatim>\<open>parent\<close> field in the C code is an update of that
  field.  Dereferencing \<^verbatim>\<open>NULL\<close> is the fault \<open>Segfault\<close>.
\<close>

section \<open>Comparing keys\<close>

text \<open>
  \<^verbatim>\<open>memcmp\<close>: only the sign of its result is specified, and only the sign is used.
\<close>

fun memcmp :: "bytes \<Rightarrow> bytes \<Rightarrow> nat \<Rightarrow> int" where
  "memcmp (a # as) (b # bs) (Suc n) =
     (if a < b then -1 else if b < a then 1 else memcmp as bs n)"
| "memcmp _ _ _ = 0"

text \<open>
  \<^verbatim>\<open>abs(keylen - nodep->keylen)\<close>: the difference is taken in \<^verbatim>\<open>size_t\<close> and then
  converted to \<^verbatim>\<open>int\<close>.
\<close>

definition abs_size_diff :: "nat \<Rightarrow> nat \<Rightarrow> int" where
  "abs_size_diff a b = \<bar>sint (ucast (of_nat a - of_nat b :: u64) :: i32)\<bar>"

type_synonym comparison_func = "bytes \<Rightarrow> bytes \<Rightarrow> int"

definition compare_key :: "comparison_func option \<Rightarrow> bytes \<Rightarrow> bytes \<Rightarrow> int" where
  "compare_key cf key nodekey =
     (if length key > 0 \<and> length nodekey > 0 then
        (case cf of
           Some f \<Rightarrow> f key nodekey
         | None \<Rightarrow>
             (let res = memcmp key nodekey
                    (if length nodekey \<le> length key then length nodekey else length key) in
              if res \<noteq> 0 then res else abs_size_diff (length key) (length nodekey)))
      else abs_size_diff (length key) (length nodekey))"

section \<open>Nodes and trees\<close>

datatype tree =
    Null
  | Node (nid: nat) (nparent: "nat option") (nbalance: int) (nkey: bytes) (nvalue: bytes)
      (nleft: tree) (nright: tree)

record binary_tree =
  root :: tree
  comparison_fp :: "comparison_func option"

definition RDB_create_tree ::
  "comparison_func option \<Rightarrow> mem \<Rightarrow> binary_tree result \<times> mem" where
  "RDB_create_tree cf m =
     (case malloc m of
        (None, m') \<Rightarrow> (raise_err NO_MEMORY_ERROR '''', m')
      | (Some _, m') \<Rightarrow> (Inr \<lparr>root = Null, comparison_fp = cf\<rparr>, m'))"

text \<open>The node a search ends at; \<open>Null\<close> when there is none.\<close>

fun tree_find :: "comparison_func option \<Rightarrow> tree \<Rightarrow> bytes \<Rightarrow> tree" where
  "tree_find cf Null key = Null"
| "tree_find cf (Node i p b k v l r) key =
     (let cmpres = compare_key cf key k in
      if cmpres = 0 then Node i p b k v l r
      else if cmpres < 0 then tree_find cf l key
      else tree_find cf r key)"

definition RDB_tree_find :: "binary_tree \<Rightarrow> bytes \<Rightarrow> tree" where
  "RDB_tree_find treep key = tree_find (comparison_fp treep) (root treep) key"

definition create_node :: "nat option \<Rightarrow> bytes \<Rightarrow> bytes \<Rightarrow> mem \<Rightarrow> tree result \<times> mem" where
  "create_node parentp key val m =
     (case malloc m of
        (None, m') \<Rightarrow> (raise_err NO_MEMORY_ERROR '''', m')
      | (Some a, m') \<Rightarrow> (Inr (Node a parentp 0 key val Null Null), m'))"

text \<open>\<^verbatim>\<open>if (x != NULL) x->parent = p\<close>\<close>

fun set_parent :: "nat option \<Rightarrow> tree \<Rightarrow> tree" where
  "set_parent p Null = Null"
| "set_parent p (Node i p' b k v l r) = Node i p b k v l r"

section \<open>Insertion\<close>

text \<open>
  The rebalancing step of a node whose left subtree grew, and its mirror image; the
  second component is the flag \<^verbatim>\<open>*hp\<close>, which is set when the step is entered.
\<close>

fun left_grown :: "nat option \<Rightarrow> tree \<Rightarrow> (tree \<times> bool) result" where
  "left_grown parentp Null = Inl Segfault"
| "left_grown parentp (Node i p b k v l r) =
     (if b = 1 then Inr (Node i p 0 k v l r, False)
      else if b = 0 then Inr (Node i p (-1) k v l r, True)
      else if b = -1 then
        (case l of
           Null \<Rightarrow> Inl Segfault
         | Node i1 p1 b1 k1 v1 l1 r1 \<Rightarrow>
             if b1 = -1 then
               Inr (Node i1 parentp 0 k1 v1 l1
                      (Node i (Some i1) 0 k v (set_parent (Some i) r1) r), False)
             else
               (case r1 of
                  Null \<Rightarrow> Inl Segfault
                | Node i2 p2 b2 k2 v2 l2 r2 \<Rightarrow>
                    Inr (Node i2 parentp 0 k2 v2
                           (Node i1 (Some i2) (if b2 = 1 then -1 else 0) k1 v1 l1
                              (set_parent (Some i1) l2))
                           (Node i (Some i2) (if b2 = -1 then 1 else 0) k v
                              (set_parent (Some i) r2) r), False)))
      else Inr (Node i p b k v l r, True))"

fun right_grown :: "nat option \<Rightarrow> tree \<Rightarrow> (tree \<times> bool) result" where
  "right_grown parentp Null = Inl Segfault"
| "right_grown parentp (Node i p b k v l r) =
     (if b = -1 then Inr (Node i p 0 k v l r, False)
      else if b = 0 then Inr (Node i p 1 k v l r, True)
      else if b = 1 then
        (case r of
           Null \<Rightarrow> Inl Segfault
         | Node i1 p1 b1 k1 v1 l1 r1 \<Rightarrow>
             if b1 = 1 then
               Inr (Node i1 parentp 0 k1 v1
                      (Node i (Some i1) 0 k v l (set_parent (Some i) l1)) r1, False)
             else
               (case l1 of
                  Null \<Rightarrow> Inl Segfault
                | Node i2 p2 b2 k2 v2 l2 r2 \<Rightarrow>
                    Inr (Node i2 parentp 0 k2 v2
                           (Node i (Some i2) (if b2 = 1 then -1 else 0) k v l
                              (set_parent (Some i) l2))
                           (Node i1 (Some i2) (if b2 = -1 then 1 else 0) k1 v1
                              (set_parent (Some i1) r2) r1), False)))
      else Inr (Node i p b k v l r, True))"

text \<open>
  The result holds the new subtree, the flag \<^verbatim>\<open>*hp\<close> (the subtree grew) and the address
  of the inserted node.  An error leaves the tree as it was.
\<close>

fun avl_tree_insert ::
  "comparison_func option \<Rightarrow> tree \<Rightarrow> nat option \<Rightarrow> bytes \<Rightarrow> bytes \<Rightarrow> mem
     \<Rightarrow> (tree \<times> bool \<times> nat) result \<times> mem" where
  "avl_tree_insert cf Null parentp key val m =
     (case create_node parentp key val m of
        (Inl f, m') \<Rightarrow> (Inl f, m')
      | (Inr n, m') \<Rightarrow> (Inr (n, True, nid n), m'))"
| "avl_tree_insert cf (Node i p b k v l r) parentp key val m =
     (let cmpres = compare_key cf key k in
      if cmpres = 0 then (raise_err KEY_VIOLATION_ERROR '''', m)
      else if cmpres < 0 then
        (case avl_tree_insert cf l (Some i) key val m of
           (Inl f, m') \<Rightarrow> (Inl f, m')
         | (Inr (l', h, a), m') \<Rightarrow>
             if h then
               (case left_grown parentp (Node i p b k v l' r) of
                  Inl f \<Rightarrow> (Inl f, m')
                | Inr (t', h') \<Rightarrow> (Inr (t', h', a), m'))
             else (Inr (Node i p b k v l' r, False, a), m'))
      else
        (case avl_tree_insert cf r (Some i) key val m of
           (Inl f, m') \<Rightarrow> (Inl f, m')
         | (Inr (r', h, a), m') \<Rightarrow>
             if h then
               (case right_grown parentp (Node i p b k v l r') of
                  Inl f \<Rightarrow> (Inl f, m')
                | Inr (t', h') \<Rightarrow> (Inr (t', h', a), m'))
             else (Inr (Node i p b k v l r', False, a), m')))"

definition RDB_tree_insert ::
  "binary_tree \<Rightarrow> bytes \<Rightarrow> bytes \<Rightarrow> mem \<Rightarrow> (binary_tree \<times> nat) result \<times> mem" where
  "RDB_tree_insert treep key val m =
     (case avl_tree_insert (comparison_fp treep) (root treep) None key val m of
        (Inl f, m') \<Rightarrow> (Inl f, m')
      | (Inr (t', h, a), m') \<Rightarrow> (Inr (treep\<lparr>root := t'\<rparr>, a), m'))"

section \<open>Deletion\<close>

text \<open>Rebalancing after the left (right) subtree has shrunk; the flag is set on entry.\<close>

fun avl_balance_l :: "tree \<Rightarrow> (tree \<times> bool) result" where
  "avl_balance_l Null = Inl Segfault"
| "avl_balance_l (Node i p b k v l r) =
     (if b = -1 then Inr (Node i p 0 k v l r, True)
      else if b = 0 then Inr (Node i p 1 k v l r, False)
      else if b = 1 then
        (case r of
           Null \<Rightarrow> Inl Segfault
         | Node i1 p1 b1 k1 v1 l1 r1 \<Rightarrow>
             if b1 \<ge> 0 then
               Inr (Node i1 p (if b1 = 0 then -1 else 0) k1 v1
                      (Node i (Some i1) (if b1 = 0 then 1 else 0) k v l (set_parent (Some i) l1)) r1,
                    b1 \<noteq> 0)
             else
               (case l1 of
                  Null \<Rightarrow> Inl Segfault
                | Node i2 p2 b2 k2 v2 l2 r2 \<Rightarrow>
                    Inr (Node i2 p 0 k2 v2
                           (Node i (Some i2) (if b2 = 1 then -1 else 0) k v l
                              (set_parent (Some i) l2))
                           (Node i1 (Some i2) (if b2 = -1 then 1 else 0) k1 v1
                              (set_parent (Some i1) r2) r1), True)))
      else Inr (Node i p b k v l r, True))"

fun avl_balance_r :: "tree \<Rightarrow> (tree \<times> bool) result" where
  "avl_balance_r Null = Inl Segfault"
| "avl_balance_r (Node i p b k v l r) =
     (if b = 1 then Inr (Node i p 0 k v l r, True)
      else if b = 0 then Inr (Node i p (-1) k v l r, False)
      else if b = -1 then
        (case l of
           Null \<Rightarrow> Inl Segfault
         | Node i1 p1 b1 k1 v1 l1 r1 \<Rightarrow>
             if b1 \<le> 0 then
               Inr (Node i1 p (if b1 = 0 then 1 else 0) k1 v1 l1
                      (Node i (Some i1) (if b1 = 0 then -1 else 0) k v (set_parent (Some i) r1) r),
                    b1 \<noteq> 0)
             else
               (case r1 of
                  Null \<Rightarrow> Inl Segfault
                | Node i2 p2 b2 k2 v2 l2 r2 \<Rightarrow>
                    Inr (Node i2 p 0 k2 v2
                           (Node i1 (Some i2) (if b2 = 1 then -1 else 0) k1 v1 l1
                              (set_parent (Some i1) l2))
                           (Node i (Some i2) (if b2 = -1 then 1 else 0) k v
                              (set_parent (Some i) r2) r), True)))
      else Inr (Node i p b k v l r, True))"

text \<open>
  Unlinks the rightmost node and returns it, with the key and value that the caller's
  node takes over.
\<close>

fun del_rightmost :: "tree \<Rightarrow> (tree \<times> bool \<times> tree) result" where
  "del_rightmost Null = Inl Segfault"
| "del_rightmost (Node i p b k v l r) =
     (if r \<noteq> Null then
        (case del_rightmost r of
           Inl f \<Rightarrow> Inl f
         | Inr (r', h, d) \<Rightarrow>
             if h then
               (case avl_balance_r (Node i p b k v l r') of
                  Inl f \<Rightarrow> Inl f
                | Inr (t', h') \<Rightarrow> Inr (t', h', d))
             else Inr (Node i p b k v l r', False, d))
      else Inr (set_parent p l, True, Node i p b k v l Null))"

text \<open>Assignment to the parent field of the node at address \<open>a\<close>.\<close>

fun write_parent :: "nat \<Rightarrow> nat option \<Rightarrow> tree \<Rightarrow> tree" where
  "write_parent a q Null = Null"
| "write_parent a q (Node i p b k v l r) =
     Node i (if i = a then q else p) b k v (write_parent a q l) (write_parent a q r)"

text \<open>
  The two assignments that follow the unlinking of \<^verbatim>\<open>delnodep\<close>, when it is a node that
  \<open>del_rightmost\<close> has taken out (so it has no right child).
\<close>

definition fix_parent_of_left :: "tree \<Rightarrow> tree \<Rightarrow> tree" where
  "fix_parent_of_left d t =
     (if nleft d \<noteq> Null then write_parent (nid (nleft d)) (nparent d) t else t)"

fun avl_delete_node :: "comparison_func option \<Rightarrow> tree \<Rightarrow> bytes \<Rightarrow> (tree \<times> bool) result" where
  "avl_delete_node cf Null key = raise_err NOT_FOUND_ERROR ''''"
| "avl_delete_node cf (Node i p b k v l r) key =
     (let cmpres = compare_key cf key k in
      if cmpres < 0 then
        (case avl_delete_node cf l key of
           Inl f \<Rightarrow> Inl f
         | Inr (l', h) \<Rightarrow>
             if h then avl_balance_l (Node i p b k v l' r) else Inr (Node i p b k v l' r, False))
      else if cmpres > 0 then
        (case avl_delete_node cf r key of
           Inl f \<Rightarrow> Inl f
         | Inr (r', h) \<Rightarrow>
             if h then avl_balance_r (Node i p b k v l r') else Inr (Node i p b k v l r', False))
      else if r = Null then Inr (set_parent p l, True)
      else if l = Null then Inr (set_parent p r, True)
      else
        (case del_rightmost l of
           Inl f \<Rightarrow> Inl f
         | Inr (l', h, d) \<Rightarrow>
             (let t1 = Node i p b (nkey d) (nvalue d) l' r in
              if h then
                (case avl_balance_l t1 of
                   Inl f \<Rightarrow> Inl f
                 | Inr (t2, h') \<Rightarrow> Inr (fix_parent_of_left d t2, h'))
              else Inr (fix_parent_of_left d t1, False))))"

definition RDB_tree_delete_node :: "binary_tree \<Rightarrow> bytes \<Rightarrow> binary_tree result" where
  "RDB_tree_delete_node treep key =
     (case avl_delete_node (comparison_fp treep) (root treep) key of
        Inl f \<Rightarrow> Inl f
      | Inr (t', h) \<Rightarrow> Inr (treep\<lparr>root := t'\<rparr>))"

section \<open>The tree's structure\<close>

text \<open>
  What the code maintains: balances that tell the difference of the heights, parent
  pointers that lead to the parent, and an inorder sequence of (address, key, value).
\<close>

fun height :: "tree \<Rightarrow> nat" where
  "height Null = 0"
| "height (Node i p b k v l r) = Suc (max (height l) (height r))"

fun avl :: "tree \<Rightarrow> bool" where
  "avl Null = True"
| "avl (Node i p b k v l r) =
     (b = int (height r) - int (height l) \<and> -1 \<le> b \<and> b \<le> 1 \<and> avl l \<and> avl r)"

fun par_ok :: "nat option \<Rightarrow> tree \<Rightarrow> bool" where
  "par_ok q Null = True"
| "par_ok q (Node i p b k v l r) = (p = q \<and> par_ok (Some i) l \<and> par_ok (Some i) r)"

fun items :: "tree \<Rightarrow> (nat \<times> bytes \<times> bytes) list" where
  "items Null = []"
| "items (Node i p b k v l r) = items l @ (i, k, v) # items r"

fun links :: "tree \<Rightarrow> (nat \<times> nat option) list" where
  "links Null = []"
| "links (Node i p b k v l r) = links l @ (i, p) # links r"

definition recs :: "tree \<Rightarrow> (bytes \<times> bytes) list" where
  "recs t = map snd (items t)"

definition ids :: "tree \<Rightarrow> nat list" where
  "ids t = map fst (items t)"

lemma recs_simps [simp]:
  "recs Null = []" "recs (Node i p b k v l r) = recs l @ (k, v) # recs r"
  by (simp_all add: recs_def)

lemma ids_simps [simp]:
  "ids Null = []" "ids (Node i p b k v l r) = ids l @ i # ids r"
  by (simp_all add: ids_def)

lemma height_0 [simp]: "height t = 0 \<longleftrightarrow> t = Null" by (cases t) auto

lemma items_Null [simp]: "items t = [] \<longleftrightarrow> t = Null" by (cases t) auto

lemma set_parent_simps [simp]:
  "height (set_parent q t) = height t" "avl (set_parent q t) = avl t"
  "items (set_parent q t) = items t" "recs (set_parent q t) = recs t"
  "ids (set_parent q t) = ids t" "nbalance (set_parent q t) = nbalance t"
  "set_parent q t = Null \<longleftrightarrow> t = Null"
  by (cases t; simp)+

lemma par_ok_set_parent [intro, simp]: "par_ok p t \<Longrightarrow> par_ok q (set_parent q t)"
  by (cases t) auto

lemma avl_set_parent_nid [simp]: "nid (set_parent q t) = nid t" by (cases t) auto

lemma links_ids: "map fst (links t) = ids t"
  by (induction t) auto

lemma nid_in_ids [simp]: "t \<noteq> Null \<Longrightarrow> nid t \<in> set (ids t)" by (cases t) auto

subsection \<open>Rebalancing\<close>

lemma left_grown_ok:
  assumes "avl l'" "avl r" "par_ok (Some i) l'" "par_ok (Some i) r"
    and "b = int (height r) - int (height l)" "-1 \<le> b" "b \<le> 1"
    and "height l' = Suc (height l)" "l = Null \<or> nbalance l' \<noteq> 0"
  shows "\<exists>t h. left_grown q (Node i q b k v l' r) = Inr (t, h) \<and> avl t \<and> par_ok q t
     \<and> height t = Suc (max (height l) (height r)) + of_bool h \<and> (h \<longrightarrow> nbalance t \<noteq> 0)
     \<and> items t = items l' @ (i, k, v) # items r"
proof -
  consider "b = 1" | "b = 0" | "b = -1" using assms(6,7) by linarith
  then show ?thesis
  proof cases
    case 3
    then have "l \<noteq> Null" "l' \<noteq> Null" using assms by auto
    then obtain i1 p1 b1 k1 v1 l1 r1 where l': "l' = Node i1 p1 b1 k1 v1 l1 r1"
      by (cases l') auto
    show ?thesis
    proof (cases "b1 = -1")
      case True
      then show ?thesis using 3 assms l' by (auto simp: max_def split: if_splits)
    next
      case False
      then have "b1 = 1" using assms l' \<open>l \<noteq> Null\<close> by auto
      then have "r1 \<noteq> Null" using assms l' by auto
      then obtain i2 p2 b2 k2 v2 l2 r2 where "r1 = Node i2 p2 b2 k2 v2 l2 r2"
        by (cases r1) auto
      then show ?thesis using 3 assms l' \<open>b1 = 1\<close> by (auto simp: max_def split: if_splits)
    qed
  qed (use assms in \<open>auto simp: max_def split: if_splits\<close>)
qed

lemma right_grown_ok:
  assumes "avl l" "avl r'" "par_ok (Some i) l" "par_ok (Some i) r'"
    and "b = int (height r) - int (height l)" "-1 \<le> b" "b \<le> 1"
    and "height r' = Suc (height r)" "r = Null \<or> nbalance r' \<noteq> 0"
  shows "\<exists>t h. right_grown q (Node i q b k v l r') = Inr (t, h) \<and> avl t \<and> par_ok q t
     \<and> height t = Suc (max (height l) (height r)) + of_bool h \<and> (h \<longrightarrow> nbalance t \<noteq> 0)
     \<and> items t = items l @ (i, k, v) # items r'"
proof -
  consider "b = 1" | "b = 0" | "b = -1" using assms(6,7) by linarith
  then show ?thesis
  proof cases
    case 1
    then have "r \<noteq> Null" "r' \<noteq> Null" using assms by auto
    then obtain i1 p1 b1 k1 v1 l1 r1 where r': "r' = Node i1 p1 b1 k1 v1 l1 r1"
      by (cases r') auto
    show ?thesis
    proof (cases "b1 = 1")
      case True
      then show ?thesis using 1 assms r' by (auto simp: max_def split: if_splits)
    next
      case False
      then have "b1 = -1" using assms r' \<open>r \<noteq> Null\<close> by auto
      then have "l1 \<noteq> Null" using assms r' by auto
      then obtain i2 p2 b2 k2 v2 l2 r2 where "l1 = Node i2 p2 b2 k2 v2 l2 r2"
        by (cases l1) auto
      then show ?thesis using 1 assms r' \<open>b1 = -1\<close> by (auto simp: max_def split: if_splits)
    qed
  qed (use assms in \<open>auto simp: max_def split: if_splits\<close>)
qed

lemma avl_balance_l_ok:
  assumes "avl l'" "avl r" "par_ok (Some i) l'" "par_ok (Some i) r"
    and "b = int (height r) - int (height l)" "-1 \<le> b" "b \<le> 1"
    and "Suc (height l') = height l"
  shows "\<exists>t h. avl_balance_l (Node i q b k v l' r) = Inr (t, h) \<and> avl t \<and> par_ok q t
     \<and> height t + of_bool h = Suc (max (height l) (height r))
     \<and> items t = items l' @ (i, k, v) # items r \<and> set (links l') \<subseteq> set (links t)"
proof -
  consider "b = 1" | "b = 0" | "b = -1" using assms(6,7) by linarith
  then show ?thesis
  proof cases
    case 1
    then have "r \<noteq> Null" using assms by auto
    then obtain i1 p1 b1 k1 v1 l1 r1 where r: "r = Node i1 p1 b1 k1 v1 l1 r1"
      by (cases r) auto
    show ?thesis
    proof (cases "b1 \<ge> 0")
      case True
      then show ?thesis using 1 assms r by (auto simp: max_def split: if_splits)
    next
      case False
      then have "b1 = -1" using assms r by auto
      then have "l1 \<noteq> Null" using assms r by auto
      then obtain i2 p2 b2 k2 v2 l2 r2 where "l1 = Node i2 p2 b2 k2 v2 l2 r2"
        by (cases l1) auto
      then show ?thesis using 1 assms r \<open>b1 = -1\<close> by (auto simp: max_def split: if_splits)
    qed
  qed (use assms in \<open>auto simp: max_def split: if_splits\<close>)
qed

lemma avl_balance_r_ok:
  assumes "avl l" "avl r'" "par_ok (Some i) l" "par_ok (Some i) r'"
    and "b = int (height r) - int (height l)" "-1 \<le> b" "b \<le> 1"
    and "Suc (height r') = height r"
  shows "\<exists>t h. avl_balance_r (Node i q b k v l r') = Inr (t, h) \<and> avl t \<and> par_ok q t
     \<and> height t + of_bool h = Suc (max (height l) (height r))
     \<and> items t = items l @ (i, k, v) # items r' \<and> set (links r') \<subseteq> set (links t)"
proof -
  consider "b = 1" | "b = 0" | "b = -1" using assms(6,7) by linarith
  then show ?thesis
  proof cases
    case 3
    then have "l \<noteq> Null" using assms by auto
    then obtain i1 p1 b1 k1 v1 l1 r1 where l: "l = Node i1 p1 b1 k1 v1 l1 r1"
      by (cases l) auto
    show ?thesis
    proof (cases "b1 \<le> 0")
      case True
      then show ?thesis using 3 assms l by (auto simp: max_def split: if_splits)
    next
      case False
      then have "b1 = 1" using assms l by auto
      then have "r1 \<noteq> Null" using assms l by auto
      then obtain i2 p2 b2 k2 v2 l2 r2 where "r1 = Node i2 p2 b2 k2 v2 l2 r2"
        by (cases r1) auto
      then show ?thesis using 3 assms l \<open>b1 = 1\<close> by (auto simp: max_def split: if_splits)
    qed
  qed (use assms in \<open>auto simp: max_def split: if_splits\<close>)
qed


declare left_grown.simps [simp del] right_grown.simps [simp del]
declare avl_balance_l.simps [simp del] avl_balance_r.simps [simp del]

subsection \<open>Searching\<close>

text \<open>
  What a search for \<open>key\<close> needs of the tree: on the way it takes, the keys it leaves
  aside are all on the side it does not go to.
\<close>

abbreviation item_key :: "nat \<times> bytes \<times> bytes \<Rightarrow> bytes" where
  "item_key x \<equiv> fst (snd x)"

fun searchable :: "comparison_func option \<Rightarrow> bytes \<Rightarrow> tree \<Rightarrow> bool" where
  "searchable cf key Null = True"
| "searchable cf key (Node i p b k v l r) =
     (searchable cf key l \<and> searchable cf key r
      \<and> (compare_key cf key k \<le> 0 \<longrightarrow> (\<forall>x \<in> set (items r). compare_key cf key (item_key x) < 0))
      \<and> (compare_key cf key k \<ge> 0 \<longrightarrow> (\<forall>x \<in> set (items l). compare_key cf key (item_key x) > 0)))"

lemma searchable_set_parent [simp]: "searchable cf key (set_parent q t) = searchable cf key t"
  by (cases t) auto

lemma tree_find_found:
  "tree_find cf t key \<noteq> Null \<Longrightarrow>
    (nid (tree_find cf t key), nkey (tree_find cf t key), nvalue (tree_find cf t key)) \<in> set (items t)
    \<and> compare_key cf key (nkey (tree_find cf t key)) = 0"
  by (induction t) (auto simp: Let_def)

lemma tree_find_none:
  "searchable cf key t \<Longrightarrow> tree_find cf t key = Null \<Longrightarrow>
    \<forall>x \<in> set (items t). compare_key cf key (item_key x) \<noteq> 0"
  by (induction t) (fastforce simp: Let_def split: if_splits)+

lemma tree_find_unique:
  "searchable cf key t \<Longrightarrow> (i, k, v) \<in> set (items t) \<Longrightarrow> compare_key cf key k = 0 \<Longrightarrow>
    tree_find cf t key \<noteq> Null \<and> nid (tree_find cf t key) = i
    \<and> nkey (tree_find cf t key) = k \<and> nvalue (tree_find cf t key) = v"
  by (induction t) (fastforce simp: Let_def)+

subsection \<open>Insertion\<close>

definition inserted ::
  "comparison_func option \<Rightarrow> bytes \<Rightarrow> nat \<times> bytes \<times> bytes \<Rightarrow> tree \<Rightarrow> tree \<Rightarrow> bool" where
  "inserted cf key n t t' =
     (\<exists>xs ys. items t = xs @ ys \<and> items t' = xs @ n # ys
        \<and> (\<forall>x \<in> set xs. compare_key cf key (item_key x) > 0)
        \<and> (\<forall>y \<in> set ys. compare_key cf key (item_key y) < 0))"

lemma inserted_left:
  assumes "inserted cf key n l l'" "items t = items l @ (i, k, v) # items r"
    and "items t' = items l' @ (i, k, v) # items r" "compare_key cf key k < 0"
    and "\<forall>x \<in> set (items r). compare_key cf key (item_key x) < 0"
  shows "inserted cf key n t t'"
proof -
  obtain xs ys where "items l = xs @ ys" "items l' = xs @ n # ys"
    "\<forall>x \<in> set xs. compare_key cf key (item_key x) > 0"
    "\<forall>y \<in> set ys. compare_key cf key (item_key y) < 0"
    using assms(1) unfolding inserted_def by blast
  then show ?thesis unfolding inserted_def using assms
    by (intro exI[of _ xs] exI[of _ "ys @ (i, k, v) # items r"]) auto
qed

lemma inserted_right:
  assumes "inserted cf key n r r'" "items t = items l @ (i, k, v) # items r"
    and "items t' = items l @ (i, k, v) # items r'" "compare_key cf key k > 0"
    and "\<forall>x \<in> set (items l). compare_key cf key (item_key x) > 0"
  shows "inserted cf key n t t'"
proof -
  obtain xs ys where "items r = xs @ ys" "items r' = xs @ n # ys"
    "\<forall>x \<in> set xs. compare_key cf key (item_key x) > 0"
    "\<forall>y \<in> set ys. compare_key cf key (item_key y) < 0"
    using assms(1) unfolding inserted_def by blast
  then show ?thesis unfolding inserted_def using assms
    by (intro exI[of _ "items l @ (i, k, v) # xs"] exI[of _ ys]) auto
qed

text \<open>What a run of the insertion routine on a subtree gives.\<close>

definition insert_post ::
  "comparison_func option \<Rightarrow> tree \<Rightarrow> nat option \<Rightarrow> bytes \<Rightarrow> bytes \<Rightarrow> mem
     \<Rightarrow> (tree \<times> bool \<times> nat) result \<times> mem \<Rightarrow> bool" where
  "insert_post cf t q key val m out =
     (if \<exists>x \<in> set (items t). compare_key cf key (item_key x) = 0
      then out = (raise_err KEY_VIOLATION_ERROR '''', m)
      else case malloc m of
        (None, m') \<Rightarrow> out = (raise_err NO_MEMORY_ERROR '''', m')
      | (Some a, m') \<Rightarrow> (\<exists>t' h. out = (Inr (t', h, a), m') \<and> avl t' \<and> par_ok q t'
          \<and> height t' = height t + of_bool h \<and> (h \<longrightarrow> t = Null \<or> nbalance t' \<noteq> 0)
          \<and> inserted cf key (a, key, val) t t'))"

lemma insert_post_left:
  assumes post: "insert_post cf l (Some i) key val m (avl_tree_insert cf l (Some i) key val m)"
    and t: "avl (Node i q b k v l r)" "par_ok q (Node i q b k v l r)"
    and c: "compare_key cf key k < 0"
    and none_r: "\<forall>x \<in> set (items r). compare_key cf key (item_key x) < 0"
  shows "insert_post cf (Node i q b k v l r) q key val m
    (avl_tree_insert cf (Node i q b k v l r) q key val m)"
proof (cases "(\<exists>x \<in> set (items l). compare_key cf key (item_key x) = 0) \<or> fst (malloc m) = None")
  case True
  then show ?thesis using post c none_r
    by (cases "malloc m") (fastforce simp: insert_post_def Let_def split: if_splits)
next
  case False
  then obtain a m' where m: "malloc m = (Some a, m')" by (cases "malloc m") auto
  have no: "\<not> (\<exists>x \<in> set (items (Node i q b k v l r)). compare_key cf key (item_key x) = 0)"
    using False c none_r by auto
  obtain l' h where l': "avl_tree_insert cf l (Some i) key val m = (Inr (l', h, a), m')"
    "avl l'" "par_ok (Some i) l'" "height l' = height l + of_bool h"
    "h \<longrightarrow> l = Null \<or> nbalance l' \<noteq> 0" "inserted cf key (a, key, val) l l'"
    using post False m by (auto simp: insert_post_def)
  have ins: "items t = items l' @ (i, k, v) # items r
      \<Longrightarrow> inserted cf key (a, key, val) (Node i q b k v l r) t" for t
    using inserted_left[OF l'(6), of "Node i q b k v l r" i k v r t] c none_r by auto
  show ?thesis
  proof (cases h)
    case True
    then obtain t h' where "left_grown q (Node i q b k v l' r) = Inr (t, h')" "avl t"
      "par_ok q t" "height t = Suc (max (height l) (height r)) + of_bool h'"
      "h' \<longrightarrow> nbalance t \<noteq> 0" "items t = items l' @ (i, k, v) # items r"
      using left_grown_ok[of l' r i b l q k v] l' t by auto
    then show ?thesis using l' True c no m ins by (simp add: insert_post_def)
  next
    case False
    then show ?thesis using l' c no m t ins[of "Node i q b k v l' r"]
      by (auto simp: insert_post_def)
  qed
qed

lemma insert_post_right:
  assumes post: "insert_post cf r (Some i) key val m (avl_tree_insert cf r (Some i) key val m)"
    and t: "avl (Node i q b k v l r)" "par_ok q (Node i q b k v l r)"
    and c: "compare_key cf key k > 0"
    and none_l: "\<forall>x \<in> set (items l). compare_key cf key (item_key x) > 0"
  shows "insert_post cf (Node i q b k v l r) q key val m
    (avl_tree_insert cf (Node i q b k v l r) q key val m)"
proof (cases "(\<exists>x \<in> set (items r). compare_key cf key (item_key x) = 0) \<or> fst (malloc m) = None")
  case True
  then show ?thesis using post c none_l
    by (cases "malloc m") (fastforce simp: insert_post_def Let_def split: if_splits)
next
  case False
  then obtain a m' where m: "malloc m = (Some a, m')" by (cases "malloc m") auto
  have no: "\<not> (\<exists>x \<in> set (items (Node i q b k v l r)). compare_key cf key (item_key x) = 0)"
    using False c none_l by auto
  obtain r' h where r': "avl_tree_insert cf r (Some i) key val m = (Inr (r', h, a), m')"
    "avl r'" "par_ok (Some i) r'" "height r' = height r + of_bool h"
    "h \<longrightarrow> r = Null \<or> nbalance r' \<noteq> 0" "inserted cf key (a, key, val) r r'"
    using post False m by (auto simp: insert_post_def)
  have ins: "items t = items l @ (i, k, v) # items r'
      \<Longrightarrow> inserted cf key (a, key, val) (Node i q b k v l r) t" for t
    using inserted_right[OF r'(6), of "Node i q b k v l r" l i k v t] c none_l by auto
  show ?thesis
  proof (cases h)
    case True
    then obtain t h' where "right_grown q (Node i q b k v l r') = Inr (t, h')" "avl t"
      "par_ok q t" "height t = Suc (max (height l) (height r)) + of_bool h'"
      "h' \<longrightarrow> nbalance t \<noteq> 0" "items t = items l @ (i, k, v) # items r'"
      using right_grown_ok[of l r' i b r q k v] r' t by auto
    then show ?thesis using r' True c no m ins by (simp add: insert_post_def)
  next
    case False
    then show ?thesis using r' c no m t ins[of "Node i q b k v l r'"]
      by (auto simp: insert_post_def)
  qed
qed

lemma avl_tree_insert_post:
  "avl t \<Longrightarrow> par_ok q t \<Longrightarrow> searchable cf key t \<Longrightarrow>
    insert_post cf t q key val m (avl_tree_insert cf t q key val m)"
proof (induction t arbitrary: q)
  case Null
  then show ?case
    by (cases "malloc m"; cases "fst (malloc m)")
      (auto simp: insert_post_def create_node_def inserted_def intro: exI[of _ True])
next
  case (Node i p b k v l r)
  consider "compare_key cf key k = 0" | "compare_key cf key k < 0" | "compare_key cf key k > 0"
    by linarith
  then show ?case
  proof cases
    case 1
    then show ?thesis by (auto simp: insert_post_def)
  next
    case 2
    then show ?thesis using Node insert_post_left[of cf l i key val m q b k v r] by auto
  next
    case 3
    then show ?thesis using Node insert_post_right[of cf r i key val m q b k v l] by auto
  qed
qed

subsection \<open>Deletion\<close>

lemma write_parent_noop:
  "(\<forall>x \<in> set (links t). fst x = a \<longrightarrow> snd x = q) \<Longrightarrow> write_parent a q t = t"
  by (induction t) auto

lemma write_parent_same:
  assumes "(a, q) \<in> set (links t)" "distinct (ids t)"
  shows "write_parent a q t = t"
proof (rule write_parent_noop, intro ballI impI)
  fix x
  assume "x \<in> set (links t)" "fst x = a"
  moreover have "distinct (map fst (links t))" using assms(2) by (simp add: links_ids)
  ultimately show "snd x = q" using assms(1) by (metis eq_key_imp_eq_value prod.collapse)
qed

text \<open>
  The node taken out by \<open>del_rightmost\<close> holds the last record of the subtree, and its
  left child, if any, hangs below the parent of the node.
\<close>

lemma del_rightmost_post:
  "t \<noteq> Null \<Longrightarrow> avl t \<Longrightarrow> par_ok q t \<Longrightarrow>
    \<exists>t' h d. del_rightmost t = Inr (t', h, d) \<and> avl t' \<and> par_ok q t'
     \<and> height t' + of_bool h = height t
     \<and> items t = items t' @ [(nid d, nkey d, nvalue d)]
     \<and> (nleft d \<noteq> Null \<longrightarrow> (nid (nleft d), nparent d) \<in> set (links t'))"
proof (induction t arbitrary: q)
  case (Node i p b k v l r)
  show ?case
  proof (cases "r = Null")
    case True
    then show ?thesis using Node.prems by (cases l) auto
  next
    case False
    then obtain r' h d where d: "del_rightmost r = Inr (r', h, d)" "avl r'" "par_ok (Some i) r'"
      "height r' + of_bool h = height r" "items r = items r' @ [(nid d, nkey d, nvalue d)]"
      "nleft d \<noteq> Null \<longrightarrow> (nid (nleft d), nparent d) \<in> set (links r')"
      using Node.IH(2)[of "Some i"] Node.prems by auto
    show ?thesis
    proof (cases h)
      case True
      then obtain t h' where "avl_balance_r (Node i q b k v l r') = Inr (t, h')" "avl t"
        "par_ok q t" "height t + of_bool h' = Suc (max (height l) (height r))"
        "items t = items l @ (i, k, v) # items r'" "set (links r') \<subseteq> set (links t)"
        using avl_balance_r_ok[of l r' i b r q k v] d Node.prems by auto
      then show ?thesis using d True False Node.prems by auto
    next
      case hF: False
      then show ?thesis using d False Node.prems by auto
    qed
  qed
qed simp

text \<open>
  The record found goes; its node stays, with the record before it, if that record's node
  was taken out instead.  What comes after the record is left alone.
\<close>

definition deleted :: "comparison_func option \<Rightarrow> bytes \<Rightarrow> tree \<Rightarrow> tree \<Rightarrow> bool" where
  "deleted cf key t t' \<longleftrightarrow>
     (\<exists>us i k v ws. items t = us @ (i, k, v) # ws \<and> compare_key cf key k = 0
        \<and> (items t' = us @ ws \<or> (\<exists>us' d. us = us' @ [d] \<and> items t' = us' @ (i, snd d) # ws)))"

lemma deletedI:
  assumes "items t = us @ (i, k, v) # ws" "compare_key cf key k = 0"
    and "items t' = us @ ws \<or> (\<exists>us' d. us = us' @ [d] \<and> items t' = us' @ (i, snd d) # ws)"
  shows "deleted cf key t t'"
  using assms unfolding deleted_def by blast

lemma deleted_context:
  assumes "deleted cf key t t'" and "items u = as @ items t @ bs" "items u' = as @ items t' @ bs"
  shows "deleted cf key u u'"
proof -
  obtain us i k v ws where "items t = us @ (i, k, v) # ws" "compare_key cf key k = 0"
    "items t' = us @ ws \<or> (\<exists>us' d. us = us' @ [d] \<and> items t' = us' @ (i, snd d) # ws)"
    using assms(1) unfolding deleted_def by blast
  then show ?thesis using assms(2,3)
    by (intro deletedI[of u "as @ us" i k v "ws @ bs"]) auto
qed

lemma deleted_recs:
  assumes "deleted cf key t t'"
  shows "\<exists>xs k v ys. recs t = xs @ (k, v) # ys \<and> recs t' = xs @ ys \<and> compare_key cf key k = 0"
    "\<exists>us a ws. ids t = us @ a # ws \<and> ids t' = us @ ws"
proof -
  obtain us i k v ws where t: "items t = us @ (i, k, v) # ws" "compare_key cf key k = 0"
    "items t' = us @ ws \<or> (\<exists>us' d. us = us' @ [d] \<and> items t' = us' @ (i, snd d) # ws)"
    using assms unfolding deleted_def by blast
  have "recs t = map snd us @ (k, v) # map snd ws" "recs t' = map snd us @ map snd ws"
    using t by (auto simp: recs_def)
  then show "\<exists>xs k v ys. recs t = xs @ (k, v) # ys \<and> recs t' = xs @ ys \<and> compare_key cf key k = 0"
    using t(2) by blast
  show "\<exists>us a ws. ids t = us @ a # ws \<and> ids t' = us @ ws"
    using t(3)
  proof (elim disjE exE conjE)
    assume "items t' = us @ ws"
    then show ?thesis using t(1)
      by (intro exI[of _ "map fst us"] exI[of _ i] exI[of _ "map fst ws"]) (simp add: ids_def)
  next
    fix us' d assume "us = us' @ [d]" "items t' = us' @ (i, snd d) # ws"
    then show ?thesis using t(1)
      by (intro exI[of _ "map fst us'"] exI[of _ "fst d"] exI[of _ "i # map fst ws"]) (simp add: ids_def)
  qed
qed

lemma delete_root:
  assumes "avl (Node i q b k v l r)" "par_ok q (Node i q b k v l r)"
    and "distinct (ids (Node i q b k v l r))" "compare_key cf key k = 0"
  shows "\<exists>t' h. avl_delete_node cf (Node i q b k v l r) key = Inr (t', h) \<and> avl t' \<and> par_ok q t'
    \<and> height t' + of_bool h = height (Node i q b k v l r)
    \<and> deleted cf key (Node i q b k v l r) t'"
proof (cases "l = Null \<or> r = Null")
  case True
  let ?t = "set_parent q (if r = Null then l else r)"
  have "deleted cf key (Node i q b k v l r) ?t"
    using True assms(4) by (intro deletedI[of _ "items l" i k v "items r"]) auto
  moreover have "avl_delete_node cf (Node i q b k v l r) key = Inr (?t, True)"
    using True assms(4) by (cases "r = Null") auto
  moreover have "avl ?t" "par_ok q ?t" "height ?t + 1 = height (Node i q b k v l r)"
    using True assms(1,2) by auto
  ultimately show ?thesis by auto
next
  case False
  then obtain l' h d where d: "del_rightmost l = Inr (l', h, d)" "avl l'" "par_ok (Some i) l'"
    "height l' + of_bool h = height l" "items l = items l' @ [(nid d, nkey d, nvalue d)]"
    "nleft d \<noteq> Null \<longrightarrow> (nid (nleft d), nparent d) \<in> set (links l')"
    using del_rightmost_post[of l "Some i"] assms by auto
  let ?t1 = "Node i q b (nkey d) (nvalue d) l' r"
  have del: "items t = items l' @ (i, nkey d, nvalue d) # items r
      \<Longrightarrow> deleted cf key (Node i q b k v l r) t \<and> distinct (ids t)" for t
    using d(5) assms(3,4)
    by (intro conjI deletedI[of _ "items l" i k v "items r"]) (auto simp: ids_def)
  have fix_noop: "set (links l') \<subseteq> set (links t) \<Longrightarrow> distinct (ids t) \<Longrightarrow> fix_parent_of_left d t = t"
    for t using d(6) by (auto simp: fix_parent_of_left_def intro!: write_parent_same)
  show ?thesis
  proof (cases h)
    case True
    then obtain t h' where "avl_balance_l ?t1 = Inr (t, h')" "avl t" "par_ok q t"
      "height t + of_bool h' = Suc (max (height l) (height r))"
      "items t = items l' @ (i, nkey d, nvalue d) # items r" "set (links l') \<subseteq> set (links t)"
      using avl_balance_l_ok[of l' r i b l q "nkey d" "nvalue d"] d assms by auto
    then show ?thesis using False True d(1) assms del[of t] fix_noop[of t] by auto
  next
    case hF: False
    have fix1: "fix_parent_of_left d ?t1 = ?t1" by (rule fix_noop) (use del[of ?t1] in auto)
    have "avl_delete_node cf (Node i q b k v l r) key = Inr (?t1, False)"
      using False hF d(1) assms(4) fix1 by simp
    moreover have "avl ?t1" "par_ok q ?t1" "height ?t1 + of_bool False = height (Node i q b k v l r)"
      using hF d assms(1,2) by auto
    moreover have "deleted cf key (Node i q b k v l r) ?t1" using del[of ?t1] by simp
    ultimately show ?thesis by blast
  qed
qed

text \<open>What a run of the deletion routine on a subtree gives.\<close>

definition delete_post ::
  "comparison_func option \<Rightarrow> tree \<Rightarrow> nat option \<Rightarrow> bytes \<Rightarrow> (tree \<times> bool) result \<Rightarrow> bool" where
  "delete_post cf t q key out =
     (if \<exists>x \<in> set (items t). compare_key cf key (item_key x) = 0
      then \<exists>t' h. out = Inr (t', h) \<and> avl t' \<and> par_ok q t'
        \<and> height t' + of_bool h = height t \<and> deleted cf key t t'
      else out = raise_err NOT_FOUND_ERROR '''')"

lemma avl_delete_node_left:
  assumes "compare_key cf key k < 0"
  shows "avl_delete_node cf (Node i p b k v l r) key =
    (case avl_delete_node cf l key of
       Inl f \<Rightarrow> Inl f
     | Inr (l', h) \<Rightarrow>
         if h then avl_balance_l (Node i p b k v l' r) else Inr (Node i p b k v l' r, False))"
  using assms by simp

lemma avl_delete_node_right:
  assumes "compare_key cf key k > 0"
  shows "avl_delete_node cf (Node i p b k v l r) key =
    (case avl_delete_node cf r key of
       Inl f \<Rightarrow> Inl f
     | Inr (r', h) \<Rightarrow>
         if h then avl_balance_r (Node i p b k v l r') else Inr (Node i p b k v l r', False))"
  using assms by (simp add: Let_def)

declare avl_delete_node.simps(2) [simp del]

lemma delete_post_left:
  assumes post: "delete_post cf l (Some i) key (avl_delete_node cf l key)"
    and t: "avl (Node i q b k v l r)" "par_ok q (Node i q b k v l r)"
    and c: "compare_key cf key k < 0"
    and none_r: "\<forall>x \<in> set (items r). compare_key cf key (item_key x) < 0"
  shows "delete_post cf (Node i q b k v l r) q key
    (avl_delete_node cf (Node i q b k v l r) key)"
proof (cases "\<exists>x \<in> set (items l). compare_key cf key (item_key x) = 0")
  case False
  then have "avl_delete_node cf l key = raise_err NOT_FOUND_ERROR ''''"
    using post by (simp add: delete_post_def)
  then show ?thesis using False c none_r by (auto simp: delete_post_def avl_delete_node_left)
next
  case True
  then obtain l' h where l': "avl_delete_node cf l key = Inr (l', h)" "avl l'"
    "par_ok (Some i) l'" "height l' + of_bool h = height l" "deleted cf key l l'"
    using post by (auto simp: delete_post_def)
  have del: "deleted cf key (Node i q b k v l r) t"
    if "items t = items l' @ (i, k, v) # items r" for t
    using that deleted_context[OF l'(5), of "Node i q b k v l r" "[]" "(i, k, v) # items r" t] by auto
  show ?thesis
  proof (cases h)
    case hT: True
    then obtain t h' where "avl_balance_l (Node i q b k v l' r) = Inr (t, h')" "avl t"
      "par_ok q t" "height t + of_bool h' = Suc (max (height l) (height r))"
      "items t = items l' @ (i, k, v) # items r"
      using avl_balance_l_ok[of l' r i b l q k v] l' t by auto
    then show ?thesis using l' True hT c del[of t]
      by (auto simp: delete_post_def avl_delete_node_left)
  next
    case False
    then show ?thesis using l' True c del[of "Node i q b k v l' r"] t
      by (auto simp: delete_post_def avl_delete_node_left)
  qed
qed

lemma delete_post_right:
  assumes post: "delete_post cf r (Some i) key (avl_delete_node cf r key)"
    and t: "avl (Node i q b k v l r)" "par_ok q (Node i q b k v l r)"
    and c: "compare_key cf key k > 0"
    and none_l: "\<forall>x \<in> set (items l). compare_key cf key (item_key x) > 0"
  shows "delete_post cf (Node i q b k v l r) q key
    (avl_delete_node cf (Node i q b k v l r) key)"
proof (cases "\<exists>x \<in> set (items r). compare_key cf key (item_key x) = 0")
  case False
  then have "avl_delete_node cf r key = raise_err NOT_FOUND_ERROR ''''"
    using post by (simp add: delete_post_def)
  then show ?thesis using False c none_l by (auto simp: delete_post_def avl_delete_node_right)
next
  case True
  then obtain r' h where r': "avl_delete_node cf r key = Inr (r', h)" "avl r'"
    "par_ok (Some i) r'" "height r' + of_bool h = height r" "deleted cf key r r'"
    using post by (auto simp: delete_post_def)
  have del: "deleted cf key (Node i q b k v l r) t"
    if "items t = items l @ (i, k, v) # items r'" for t
    using that deleted_context[OF r'(5), of "Node i q b k v l r" "items l @ [(i, k, v)]" "[]" t] by auto
  show ?thesis
  proof (cases h)
    case hT: True
    then obtain t h' where "avl_balance_r (Node i q b k v l r') = Inr (t, h')" "avl t"
      "par_ok q t" "height t + of_bool h' = Suc (max (height l) (height r))"
      "items t = items l @ (i, k, v) # items r'"
      using avl_balance_r_ok[of l r' i b r q k v] r' t by auto
    then show ?thesis using r' True hT c del[of t]
      by (auto simp: delete_post_def avl_delete_node_right)
  next
    case False
    then show ?thesis using r' True c del[of "Node i q b k v l r'"] t
      by (auto simp: delete_post_def avl_delete_node_right)
  qed
qed

lemma avl_delete_node_post:
  "avl t \<Longrightarrow> par_ok q t \<Longrightarrow> searchable cf key t \<Longrightarrow> distinct (ids t) \<Longrightarrow>
    delete_post cf t q key (avl_delete_node cf t key)"
proof (induction t arbitrary: q)
  case (Node i p b k v l r)
  consider "compare_key cf key k = 0" | "compare_key cf key k < 0" | "compare_key cf key k > 0"
    by linarith
  then show ?case
  proof cases
    case 1
    then show ?thesis using delete_root[of i q b k v l r cf key] Node.prems
      by (auto simp: delete_post_def)
  next
    case 2
    then show ?thesis using Node delete_post_left[of cf l i key q b k v r] by auto
  next
    case 3
    then show ?thesis using Node delete_post_right[of cf r i key q b k v l] by auto
  qed
qed (simp add: delete_post_def)

section \<open>Trees under an order of the keys\<close>

text \<open>
  The contract of a comparison function on a set of keys: the sign of the result is a
  total preorder.
\<close>

locale key_order =
  fixes cf :: "comparison_func option" and K :: "bytes set"
  assumes cmp_refl: "x \<in> K \<Longrightarrow> compare_key cf x x = 0"
    and cmp_sym: "x \<in> K \<Longrightarrow> y \<in> K \<Longrightarrow> compare_key cf x y < 0 \<longleftrightarrow> compare_key cf y x > 0"
    and cmp_trans: "x \<in> K \<Longrightarrow> y \<in> K \<Longrightarrow> z \<in> K \<Longrightarrow>
      compare_key cf x y \<le> 0 \<Longrightarrow> compare_key cf y z \<le> 0 \<Longrightarrow> compare_key cf x z \<le> 0"

definition key_less :: "comparison_func option \<Rightarrow> bytes \<Rightarrow> bytes \<Rightarrow> bool" where
  "key_less cf x y \<longleftrightarrow> compare_key cf x y < 0"

definition tree_wf :: "comparison_func option \<Rightarrow> bytes set \<Rightarrow> mem \<Rightarrow> tree \<Rightarrow> bool" where
  "tree_wf cf K m t =
     (avl t \<and> par_ok None t \<and> distinct (ids t) \<and> (\<forall>a \<in> set (ids t). a < next_addr m)
      \<and> fst ` set (recs t) \<subseteq> K \<and> sorted_wrt (key_less cf) (map fst (recs t)))"

text \<open>The records of a tree as a partial map, the abstract view of the component.\<close>

definition rec_lookup :: "comparison_func option \<Rightarrow> (bytes \<times> bytes) list \<Rightarrow> bytes \<Rightarrow> (bytes \<times> bytes) option"
  where "rec_lookup cf rs key = find (\<lambda>(k, v). compare_key cf key k = 0) rs"

definition node_rec :: "tree \<Rightarrow> (bytes \<times> bytes) option" where
  "node_rec t = (if t = Null then None else Some (nkey t, nvalue t))"

lemma tree_wf_Null [simp]: "tree_wf cf K m Null"
  by (simp add: tree_wf_def)

lemma rec_lookup_None:
  "rec_lookup cf rs key = None \<longleftrightarrow> (\<forall>x \<in> set rs. compare_key cf key (fst x) \<noteq> 0)"
  by (auto simp: rec_lookup_def find_None_iff case_prod_beta)

context key_order
begin

lemma cmp_zero_sym:
  assumes "x \<in> K" "y \<in> K" "compare_key cf x y = 0"
  shows "compare_key cf y x = 0"
  using assms cmp_sym[of x y] cmp_sym[of y x] by linarith

lemma cmp_neg_sym: "x \<in> K \<Longrightarrow> y \<in> K \<Longrightarrow> compare_key cf x y > 0 \<longleftrightarrow> compare_key cf y x < 0"
  using cmp_sym by blast

lemma less_trans1:
  assumes "x \<in> K" "y \<in> K" "z \<in> K" "compare_key cf x y \<le> 0" "compare_key cf y z < 0"
  shows "compare_key cf x z < 0"
proof (rule ccontr)
  assume "\<not> ?thesis"
  then have "compare_key cf z x \<le> 0" using assms cmp_sym[of x z] cmp_sym[of z x] by linarith
  then have "compare_key cf z y \<le> 0" using assms cmp_trans by blast
  then show False using assms cmp_sym[of y z] by linarith
qed

lemma less_trans2:
  assumes "x \<in> K" "y \<in> K" "z \<in> K" "compare_key cf x y < 0" "compare_key cf y z \<le> 0"
  shows "compare_key cf x z < 0"
proof (rule ccontr)
  assume "\<not> ?thesis"
  then have "compare_key cf z x \<le> 0" using assms cmp_sym[of x z] cmp_sym[of z x] by linarith
  then have "compare_key cf y x \<le> 0" using assms cmp_trans by blast
  then show False using assms cmp_sym[of x y] by linarith
qed

lemma items_keys: "x \<in> set (items t) \<Longrightarrow> item_key x \<in> fst ` set (recs t)"
  by (force simp: recs_def)

lemma sorted_searchable:
  "key \<in> K \<Longrightarrow> fst ` set (recs t) \<subseteq> K \<Longrightarrow> sorted_wrt (key_less cf) (map fst (recs t))
    \<Longrightarrow> searchable cf key t"
proof (induction t)
  case (Node i p b k v l r)
  have K: "k \<in> K" "\<And>x. x \<in> set (items l) \<Longrightarrow> item_key x \<in> K"
    "\<And>x. x \<in> set (items r) \<Longrightarrow> item_key x \<in> K"
    using Node.prems(2) items_keys[of _ l] items_keys[of _ r] by auto blast+
  have "x \<in> set (items r) \<Longrightarrow> compare_key cf k (item_key x) < 0" for x
    using Node.prems items_keys[of x r] by (auto simp: sorted_wrt_append key_less_def)
  moreover have "compare_key cf k (item_key x) > 0" if "x \<in> set (items l)" for x
    using Node.prems items_keys[of x l] cmp_sym[of "item_key x" k] K that
    by (auto simp: sorted_wrt_append key_less_def)
  ultimately have "compare_key cf key k \<le> 0 \<longrightarrow> (\<forall>x \<in> set (items r). compare_key cf key (item_key x) < 0)"
    "compare_key cf key k \<ge> 0 \<longrightarrow> (\<forall>x \<in> set (items l). compare_key cf key (item_key x) > 0)"
    using less_trans1[of key k] less_trans2[of _ k key] K Node.prems(1) cmp_neg_sym[of key]
      cmp_sym[of key k] cmp_neg_sym[of k] by (smt (verit))+
  then show ?case using Node by (auto simp: sorted_wrt_append)
qed simp

lemma wf_searchable: "tree_wf cf K m t \<Longrightarrow> key \<in> K \<Longrightarrow> searchable cf key t"
  using sorted_searchable by (auto simp: tree_wf_def)

text \<open>At most one record has a key equal to the one looked for.\<close>

lemma rec_lookup_unique:
  assumes "sorted_wrt (key_less cf) (map fst rs)" "fst ` set rs \<subseteq> K" "key \<in> K"
    and "(k, v) \<in> set rs" "compare_key cf key k = 0"
  shows "rec_lookup cf rs key = Some (k, v)"
proof -
  obtain xs ys where rs: "rs = xs @ (k, v) # ys" using assms(4) split_list by metis
  have "compare_key cf key (fst x) \<noteq> 0" if "x \<in> set xs" for x
  proof
    assume "compare_key cf key (fst x) = 0"
    moreover have "fst x \<in> K" "k \<in> K" using assms(2) rs that by auto
    moreover have "compare_key cf (fst x) k < 0"
      using assms(1) rs that by (auto simp: sorted_wrt_append key_less_def)
    ultimately have "compare_key cf key k < 0" using less_trans1[of key "fst x" k] assms(3) by simp
    then show False using assms(5) by simp
  qed
  then have "find (\<lambda>(k, v). compare_key cf key k = 0) xs = None"
    by (auto simp: find_None_iff case_prod_beta)
  then show ?thesis using assms(5)
    unfolding rec_lookup_def rs by (induction xs) auto
qed

lemma tree_find_lookup:
  assumes "tree_wf cf K m t" "key \<in> K"
  shows "node_rec (tree_find cf t key) = rec_lookup cf (recs t) key"
proof (cases "tree_find cf t key = Null")
  case True
  then have "\<forall>x \<in> set (recs t). compare_key cf key (fst x) \<noteq> 0"
    using tree_find_none[OF wf_searchable[OF assms]] by (auto simp: recs_def)
  then have "rec_lookup cf (recs t) key = None" by (simp add: rec_lookup_None)
  then show ?thesis using True by (simp add: node_rec_def)
next
  case False
  let ?n = "tree_find cf t key"
  have "(nkey ?n, nvalue ?n) \<in> set (recs t)" "compare_key cf key (nkey ?n) = 0"
    using tree_find_found[OF False] by (force simp: recs_def)+
  then show ?thesis using False assms rec_lookup_unique[of "recs t" key]
    by (simp add: node_rec_def tree_wf_def)
qed

end

text \<open>Recombining the list of records with one more, or one less, in the middle.\<close>

lemma rec_lookup_insert:
  "rec_lookup cf (xs @ ys) k = None \<or> compare_key cf k key \<noteq> 0 \<Longrightarrow>
   rec_lookup cf (xs @ (key, val) # ys) k =
     (if compare_key cf k key = 0 then Some (key, val) else rec_lookup cf (xs @ ys) k)"
  by (induction xs) (auto simp: rec_lookup_def split: if_splits)

context key_order
begin

lemma cmp_zero_trans:
  "x \<in> K \<Longrightarrow> y \<in> K \<Longrightarrow> z \<in> K \<Longrightarrow> compare_key cf x y = 0 \<Longrightarrow> compare_key cf y z = 0
    \<Longrightarrow> compare_key cf x z = 0"
  using cmp_trans[of x y z] less_trans1[of z y x] cmp_trans[of z y x] cmp_zero_sym[of x y]
    cmp_zero_sym[of y z] cmp_sym[of z x] cmp_sym[of x z]
  by (smt (verit))

lemma lookup_cong:
  assumes "x \<in> K" "y \<in> K" "compare_key cf x y = 0" "fst ` set rs \<subseteq> K"
  shows "rec_lookup cf rs x = rec_lookup cf rs y"
proof -
  have "compare_key cf x (fst r) = 0 \<longleftrightarrow> compare_key cf y (fst r) = 0" if "r \<in> set rs" for r
    using cmp_zero_trans[of x y "fst r"] cmp_zero_trans[of y x "fst r"] cmp_zero_sym assms that
    by (meson image_subset_iff)
  then show ?thesis unfolding rec_lookup_def
    by (intro find_cong) (auto simp: case_prod_beta)
qed

lemma sorted_insert:
  assumes "sorted_wrt (key_less cf) (map fst (xs @ ys))" "fst ` set (xs @ ys) \<subseteq> K" "key \<in> K"
    and "\<forall>x \<in> set xs. compare_key cf key (fst x) > 0"
    and "\<forall>y \<in> set ys. compare_key cf key (fst y) < 0"
  shows "sorted_wrt (key_less cf) (map fst (xs @ (key, val) # ys))"
  using assms cmp_sym by (auto simp: sorted_wrt_append key_less_def image_subset_iff)

lemma avl_tree_insert_wf:
  assumes wf: "tree_wf cf K m t" and key: "key \<in> K"
  shows "if rec_lookup cf (recs t) key \<noteq> None
    then avl_tree_insert cf t None key val m = (raise_err KEY_VIOLATION_ERROR '''', m)
    else case malloc m of
      (None, m') \<Rightarrow> avl_tree_insert cf t None key val m = (raise_err NO_MEMORY_ERROR '''', m')
    | (Some a, m') \<Rightarrow> \<exists>t' h xs ys. avl_tree_insert cf t None key val m = (Inr (t', h, a), m')
        \<and> tree_wf cf K m' t' \<and> recs t = xs @ ys \<and> recs t' = xs @ (key, val) # ys
        \<and> (a, key, val) \<in> set (items t')"
proof -
  have post: "insert_post cf t None key val m (avl_tree_insert cf t None key val m)"
    using wf wf_searchable[OF wf key] by (intro avl_tree_insert_post) (auto simp: tree_wf_def)
  have none: "rec_lookup cf (recs t) key = None
      \<longleftrightarrow> \<not> (\<exists>x \<in> set (items t). compare_key cf key (item_key x) = 0)"
    by (auto simp: rec_lookup_None recs_def)
  show ?thesis
  proof (cases "rec_lookup cf (recs t) key = None \<and> fst (malloc m) \<noteq> None")
    case False
    then show ?thesis using post none by (cases "malloc m") (auto simp: insert_post_def)
  next
    case True
    then obtain a m' where m: "malloc m = (Some a, m')" by (cases "malloc m") auto
    then have a: "a = next_addr m" "next_addr m' = Suc a" by (auto elim: malloc_cases)
    obtain t' h where t': "avl_tree_insert cf t None key val m = (Inr (t', h, a), m')" "avl t'"
      "par_ok None t'" "inserted cf key (a, key, val) t t'"
      using post True none m by (auto simp: insert_post_def)
    then obtain xs ys where xy: "items t = xs @ ys" "items t' = xs @ (a, key, val) # ys"
      "\<forall>x \<in> set xs. compare_key cf key (item_key x) > 0"
      "\<forall>y \<in> set ys. compare_key cf key (item_key y) < 0"
      unfolding inserted_def by blast
    then have recs: "recs t = map snd xs @ map snd ys"
      "recs t' = map snd xs @ (key, val) # map snd ys" by (auto simp: recs_def)
    have "ids t = map fst xs @ map fst ys" "ids t' = map fst xs @ a # map fst ys"
      using xy by (auto simp: ids_def)
    moreover have "distinct (ids t)" "\<forall>b \<in> set (ids t). b < a"
      using wf a by (auto simp: tree_wf_def)
    ultimately have "distinct (ids t')" "\<forall>b \<in> set (ids t'). b < next_addr m'"
      using a(2) by (auto simp: less_Suc_eq)
    moreover have "sorted_wrt (key_less cf) (map fst (recs t'))"
      unfolding recs(2) using wf xy key recs(1) by (intro sorted_insert) (auto simp: tree_wf_def)
    moreover have "fst ` set (recs t') \<subseteq> K" using wf key recs by (auto simp: tree_wf_def)
    ultimately have "tree_wf cf K m' t'" using t' by (simp add: tree_wf_def)
    then show ?thesis using True m t'(1) recs xy by auto
  qed
qed

lemma avl_delete_node_wf:
  assumes wf: "tree_wf cf K m t" and key: "key \<in> K"
  shows "if rec_lookup cf (recs t) key = None
    then avl_delete_node cf t key = raise_err NOT_FOUND_ERROR ''''
    else \<exists>t' h xs k v ys. avl_delete_node cf t key = Inr (t', h) \<and> tree_wf cf K m t'
      \<and> recs t = xs @ (k, v) # ys \<and> recs t' = xs @ ys \<and> compare_key cf key k = 0
      \<and> deleted cf key t t'"
proof -
  have post: "delete_post cf t None key (avl_delete_node cf t key)"
    using wf wf_searchable[OF wf key] by (intro avl_delete_node_post) (auto simp: tree_wf_def)
  have none: "rec_lookup cf (recs t) key = None
      \<longleftrightarrow> \<not> (\<exists>x \<in> set (items t). compare_key cf key (item_key x) = 0)"
    by (auto simp: rec_lookup_None recs_def)
  show ?thesis
  proof (cases "rec_lookup cf (recs t) key = None")
    case True
    then show ?thesis using post none by (simp add: delete_post_def)
  next
    case False
    then obtain t' h where t': "avl_delete_node cf t key = Inr (t', h)" "avl t'" "par_ok None t'"
      "deleted cf key t t'"
      using post none by (auto simp: delete_post_def)
    obtain xs k v ys us a ws where d: "recs t = xs @ (k, v) # ys" "recs t' = xs @ ys"
      "compare_key cf key k = 0" "ids t = us @ a # ws" "ids t' = us @ ws"
      using deleted_recs[OF t'(4)] by blast
    have "tree_wf cf K m t'"
      using wf t' d by (auto simp: tree_wf_def sorted_wrt_append)
    then show ?thesis using False t'(1,4) d by auto
  qed
qed

text \<open>The tree as a finite map: lookups after an insertion and after a deletion.\<close>

lemma insert_lookup:
  assumes "tree_wf cf K m t" "key \<in> K" "k \<in> K"
    and "avl_tree_insert cf t None key val m = (Inr (t', h, a), m')"
  shows "rec_lookup cf (recs t') k =
    (if compare_key cf k key = 0 then Some (key, val) else rec_lookup cf (recs t) k)"
proof -
  have none: "rec_lookup cf (recs t) key = None"
    using avl_tree_insert_wf[OF assms(1,2), of val] assms(4) by (cases "rec_lookup cf (recs t) key") auto
  have "\<exists>xs ys. recs t = xs @ ys \<and> recs t' = xs @ (key, val) # ys"
    using avl_tree_insert_wf[OF assms(1,2), of val] assms(4) none
    by (auto split: prod.splits option.splits)
  moreover have "compare_key cf k key = 0 \<Longrightarrow> rec_lookup cf (recs t) k = None"
    using none lookup_cong[of k key "recs t"] assms(1-3) by (simp add: tree_wf_def)
  ultimately show ?thesis using rec_lookup_insert by metis
qed

lemma delete_lookup:
  assumes wf: "tree_wf cf K m t" "key \<in> K" "k \<in> K"
    and del: "avl_delete_node cf t key = Inr (t', h)"
  shows "rec_lookup cf (recs t') k =
    (if compare_key cf k key = 0 then None else rec_lookup cf (recs t) k)"
proof -
  have some: "rec_lookup cf (recs t) key \<noteq> None"
    using avl_delete_node_wf[OF wf(1,2)] del by (auto split: if_splits)
  then obtain xs k' v ys where d: "recs t = xs @ (k', v) # ys" "recs t' = xs @ ys"
    "compare_key cf key k' = 0" "tree_wf cf K m t'"
    using avl_delete_node_wf[OF wf(1,2)] del by auto
  have K: "k' \<in> K" "fst ` set (recs t') \<subseteq> K" using wf d by (auto simp: tree_wf_def)
  have "rec_lookup cf (xs @ ys) k' = None"
  proof -
    have "\<forall>x \<in> set xs. compare_key cf (fst x) k' < 0" "\<forall>y \<in> set ys. compare_key cf k' (fst y) < 0"
      using wf(1) d(1) by (auto simp: tree_wf_def sorted_wrt_append key_less_def)
    moreover have "fst ` set (xs @ ys) \<subseteq> K" using K(2) d(2) by simp
    ultimately have "compare_key cf k' (fst x) \<noteq> 0" if "x \<in> set (xs @ ys)" for x
      using cmp_sym[of "fst x" k'] K(1) that by (fastforce simp: image_subset_iff)
    then show ?thesis by (auto simp: rec_lookup_None)
  qed
  moreover have iff: "compare_key cf k key = 0 \<longleftrightarrow> compare_key cf k k' = 0"
    using cmp_zero_trans[of k key k'] cmp_zero_trans[of k k' key] cmp_zero_sym[of key k'] wf K d(3)
    by blast
  moreover have "compare_key cf k k' = 0 \<Longrightarrow> rec_lookup cf (xs @ ys) k = rec_lookup cf (xs @ ys) k'"
    using lookup_cong[of k k' "xs @ ys"] wf(3) K d(2) by simp
  ultimately show ?thesis using rec_lookup_insert[of cf xs ys k k' v] d by auto
qed

end

section \<open>The built-in order\<close>

text \<open>
  Without a comparison function keys are ordered by their bytes, as long as no key is a
  proper prefix of another.  (A key and a proper prefix of it each come out as greater than
  the other, see \<open>prefix_keys_break_tree\<close>.)
\<close>

lemma memcmp_cases: "memcmp x y n = -1 \<or> memcmp x y n = 0 \<or> memcmp x y n = 1"
  by (induction x y n rule: memcmp.induct) auto

lemma memcmp_flip: "memcmp y x n = - memcmp x y n"
  by (induction x y n rule: memcmp.induct) auto

abbreviation common_len :: "bytes \<Rightarrow> bytes \<Rightarrow> nat" where
  "common_len x y \<equiv> (if length y \<le> length x then length y else length x)"

lemma memcmp_common_0:
  "memcmp x y (common_len x y) = 0 \<Longrightarrow> prefix x y \<or> prefix y x"
proof (induction x arbitrary: y)
  case (Cons a x)
  then show ?case by (cases y) (auto split: if_splits)
qed simp

lemma memcmp_self [simp]: "memcmp x x n = 0"
  using memcmp_flip[of x x n] by simp

lemma memcmp_trans:
  "memcmp x y (common_len x y) < 0 \<Longrightarrow> memcmp y z (common_len y z) < 0
    \<Longrightarrow> memcmp x z (common_len x z) < 0"
proof (induction x arbitrary: y z)
  case (Cons a x)
  then obtain b y' where y: "y = b # y'" by (cases y) auto
  then obtain c z' where z: "z = c # z'" using Cons.prems by (cases z) auto
  then show ?case using Cons.prems Cons.IH[of y' z'] y by (auto split: if_splits)
qed simp

lemma abs_size_diff_self [simp]: "abs_size_diff n n = 0"
  by (simp add: abs_size_diff_def)

lemma compare_key_same [simp]: "compare_key None x x = 0"
  by (simp add: compare_key_def Let_def)

definition prefix_free :: "bytes set \<Rightarrow> bool" where
  "prefix_free K \<longleftrightarrow> (\<forall>x \<in> K. \<forall>y \<in> K. prefix x y \<longrightarrow> x = y)"

locale prefix_free_keys =
  fixes K :: "bytes set"
  assumes prefix_free: "prefix_free K"
begin

lemma compare_key_bytes:
  assumes "x \<in> K" "y \<in> K"
  shows "compare_key None x y = memcmp x y (common_len x y)"
proof (cases "x = y")
  case False
  then have "\<not> prefix x y" "\<not> prefix y x" using prefix_free assms by (auto simp: prefix_free_def)
  then have "x \<noteq> []" "y \<noteq> []" "memcmp x y (common_len x y) \<noteq> 0"
    using memcmp_common_0[of x y] by auto
  then show ?thesis by (simp add: compare_key_def Let_def)
qed simp

lemma memcmp_eq_0:
  "x \<in> K \<Longrightarrow> y \<in> K \<Longrightarrow> memcmp x y (common_len x y) = 0 \<longleftrightarrow> x = y"
  using memcmp_common_0[of x y] prefix_free unfolding prefix_free_def by fastforce

lemma compare_key_eq_0: "x \<in> K \<Longrightarrow> y \<in> K \<Longrightarrow> compare_key None x y = 0 \<longleftrightarrow> x = y"
  by (simp only: compare_key_bytes memcmp_eq_0)

lemma bytes_key_order: "key_order None K"
proof
  fix x y z
  assume K: "x \<in> K" "y \<in> K"
  then show "compare_key None x x = 0" by simp
  have "common_len x y = common_len y x" by auto
  then show "compare_key None x y < 0 \<longleftrightarrow> compare_key None y x > 0"
    using K memcmp_flip[of y x] by (simp only: compare_key_bytes) simp
  assume z: "z \<in> K" and le: "compare_key None x y \<le> 0" "compare_key None y z \<le> 0"
  show "compare_key None x z \<le> 0"
  proof (cases "x = y \<or> y = z")
    case False
    then have "memcmp x y (common_len x y) \<noteq> 0" "memcmp y z (common_len y z) \<noteq> 0"
      using K z memcmp_eq_0 by blast+
    then have "memcmp x y (common_len x y) < 0" "memcmp y z (common_len y z) < 0"
      using le K z by (simp_all only: compare_key_bytes)
    then have "memcmp x z (common_len x z) < 0" by (rule memcmp_trans)
    then show ?thesis using compare_key_bytes[OF K(1) z] by linarith
  qed (use le in auto)
qed

end

sublocale prefix_free_keys \<subseteq> key_order None K
  by (rule bytes_key_order)

interpretation fixed_length: prefix_free_keys "{k. length k = n}" for n
  by unfold_locales (auto simp: prefix_free_def prefix_def)

lemma rec_lookup_map_of:
  assumes "prefix_free K" "fst ` set rs \<subseteq> K" "key \<in> K"
  shows "map_option snd (rec_lookup None rs key) = map_of rs key"
proof -
  have eq: "compare_key None key (fst r) = 0 \<longleftrightarrow> fst r = key" if "r \<in> set rs" for r
    using assms that prefix_free_keys.compare_key_eq_0[of K key "fst r"]
    by (auto simp: prefix_free_keys_def)
  have "rec_lookup None rs key = find (\<lambda>r. fst r = key) rs"
    unfolding rec_lookup_def using eq by (intro find_cong) (auto simp: case_prod_beta)
  moreover have "map_option snd (find (\<lambda>r. fst r = key) rs) = map_of rs key"
    by (induction rs) auto
  ultimately show ?thesis by simp
qed

section \<open>Cost of a search\<close>

text \<open>The number of comparisons made by a search, and its bound.\<close>

fun find_steps :: "comparison_func option \<Rightarrow> tree \<Rightarrow> bytes \<Rightarrow> nat" where
  "find_steps cf Null key = 0"
| "find_steps cf (Node i p b k v l r) key =
     (let cmpres = compare_key cf key k in
      if cmpres = 0 then 1
      else if cmpres < 0 then Suc (find_steps cf l key)
      else Suc (find_steps cf r key))"

lemma find_steps_height: "find_steps cf t key \<le> height t"
  by (induction t) (auto simp: Let_def max_def)

lemma avl_height_bound: "avl t \<Longrightarrow> 2 ^ (height t div 2) \<le> length (items t) + 1"
proof (induction t)
  case (Node i p b k v l r)
  let ?h = "height (Node i p b k v l r)"
  have "?h div 2 \<le> Suc (height l div 2)" "?h div 2 \<le> Suc (height r div 2)"
    using Node.prems by (auto simp: max_def)
  then have "(2::nat) ^ (?h div 2) \<le> 2 * 2 ^ (height l div 2)"
    "(2::nat) ^ (?h div 2) \<le> 2 * 2 ^ (height r div 2)"
    using power_increasing[of "?h div 2" "Suc _" "2::nat"] by (metis one_le_numeral power_Suc)+
  then show ?case using Node by simp
qed simp

lemma find_steps_bound: "avl t \<Longrightarrow> 2 ^ (find_steps cf t key div 2) \<le> length (items t) + 1"
  using avl_height_bound[of t] find_steps_height[of cf t key]
    power_increasing[of "find_steps cf t key div 2" "height t div 2" "2::nat"]
  by (meson div_le_mono le_trans one_le_numeral)

section \<open>The tree handed to the callers\<close>

definition bt_wf :: "bytes set \<Rightarrow> mem \<Rightarrow> binary_tree \<Rightarrow> bool" where
  "bt_wf K m treep = tree_wf (comparison_fp treep) K m (root treep)"

definition bt_lookup :: "binary_tree \<Rightarrow> bytes \<Rightarrow> (bytes \<times> bytes) option" where
  "bt_lookup treep key = rec_lookup (comparison_fp treep) (recs (root treep)) key"

lemma bt_create:
  "RDB_create_tree cf m = (Inr treep, m') \<Longrightarrow> bt_wf K m' treep \<and> bt_lookup treep key = None"
  by (auto simp: RDB_create_tree_def bt_wf_def bt_lookup_def rec_lookup_def
      split: prod.splits option.splits)

lemma tree_wf_mono: "tree_wf cf K m t \<Longrightarrow> next_addr m \<le> next_addr m' \<Longrightarrow> tree_wf cf K m' t"
  by (fastforce simp: tree_wf_def)

context key_order
begin

lemma bt_find:
  "comparison_fp treep = cf \<Longrightarrow> bt_wf K m treep \<Longrightarrow> key \<in> K \<Longrightarrow>
    node_rec (RDB_tree_find treep key) = bt_lookup treep key"
  using tree_find_lookup by (simp add: bt_wf_def bt_lookup_def RDB_tree_find_def)

lemma distinct_keys:
  fixes rs :: "(bytes \<times> bytes) list"
  assumes "sorted_wrt (key_less cf) (map fst rs)" "fst ` set rs \<subseteq> K"
    and "r \<in> set rs" "s \<in> set rs" "r \<noteq> s"
  shows "compare_key cf (fst r) (fst s) \<noteq> 0"
proof
  assume eq: "compare_key cf (fst r) (fst s) = 0"
  have K: "fst r \<in> K" using assms(2,3) by auto
  have "rec_lookup cf rs (fst r) = Some (fst r, snd r)"
    using assms(3) cmp_refl[OF K] by (intro rec_lookup_unique[OF assms(1,2) K]) auto
  moreover have "rec_lookup cf rs (fst r) = Some (fst s, snd s)"
    using assms(4) eq by (intro rec_lookup_unique[OF assms(1,2) K]) auto
  ultimately show False using assms(5) by (simp add: prod_eq_iff)
qed

lemma delete_recs_set:
  assumes wf: "tree_wf cf K m t" and key: "key \<in> K"
    and d: "recs t = xs @ (k, v) # ys" "compare_key cf key k = 0"
  shows "set (xs @ ys) = {r \<in> set (recs t). compare_key cf key (fst r) \<noteq> 0}"
proof -
  have s: "sorted_wrt (key_less cf) (map fst (recs t))" "fst ` set (recs t) \<subseteq> K"
    using wf by (auto simp: tree_wf_def)
  have uniq: "r = (k, v)" if "r \<in> set (recs t)" "compare_key cf key (fst r) = 0" for r
    using rec_lookup_unique[OF s key, of "fst r" "snd r"] rec_lookup_unique[OF s key, of k v] that d
    by auto
  have "(k, v) \<notin> set (xs @ ys)"
  proof
    assume "(k, v) \<in> set (xs @ ys)"
    then have "compare_key cf k k < 0"
      using s(1) d(1) by (auto simp: sorted_wrt_append key_less_def)
    moreover have "k \<in> K" using s(2) d(1) by auto
    ultimately show False using cmp_refl by auto
  qed
  then have "compare_key cf key (fst r) \<noteq> 0" if "r \<in> set (xs @ ys)" for r
    using uniq[of r] that d(1) by auto
  then show ?thesis using d by auto
qed

lemma bt_insert:
  assumes "comparison_fp treep = cf" "bt_wf K m treep" "key \<in> K"
  shows "case RDB_tree_insert treep key val m of
      (Inr (treep', a), m') \<Rightarrow> bt_lookup treep key = None \<and> malloc m = (Some a, m')
        \<and> bt_wf K m' treep' \<and> comparison_fp treep' = cf
        \<and> set (recs (root treep')) = insert (key, val) (set (recs (root treep)))
        \<and> (\<forall>k \<in> K. bt_lookup treep' k =
             (if compare_key cf k key = 0 then Some (key, val) else bt_lookup treep k))
    | (Inl f, m') \<Rightarrow>
        (f = Raised (RdbError KEY_VIOLATION_ERROR '''') \<and> bt_lookup treep key \<noteq> None \<and> m' = m)
        \<or> (f = Raised (RdbError NO_MEMORY_ERROR '''') \<and> bt_lookup treep key = None
           \<and> malloc m = (None, m'))"
proof -
  have wf: "tree_wf cf K m (root treep)" using assms by (simp add: bt_wf_def)
  note post = avl_tree_insert_wf[OF wf assms(3), of val]
  show ?thesis
  proof (cases "bt_lookup treep key = None \<and> fst (malloc m) \<noteq> None")
    case True
    then obtain a m' where m: "malloc m = (Some a, m')" by (cases "malloc m") auto
    then obtain t' h where t': "avl_tree_insert cf (root treep) None key val m = (Inr (t', h, a), m')"
      "tree_wf cf K m' t'" "set (recs t') = insert (key, val) (set (recs (root treep)))"
      using post True assms(1) by (auto simp: bt_lookup_def)
    then show ?thesis using True m assms(1) insert_lookup[OF wf assms(3) _ t'(1)]
      by (simp add: RDB_tree_insert_def bt_wf_def bt_lookup_def)
  next
    case False
    then show ?thesis using post assms(1)
      by (cases "malloc m"; cases "bt_lookup treep key")
        (auto simp: RDB_tree_insert_def bt_lookup_def split: if_splits)
  qed
qed

lemma bt_delete:
  assumes "comparison_fp treep = cf" "bt_wf K m treep" "key \<in> K"
  shows "case RDB_tree_delete_node treep key of
      Inr treep' \<Rightarrow> bt_lookup treep key \<noteq> None \<and> bt_wf K m treep' \<and> comparison_fp treep' = cf
        \<and> set (recs (root treep')) = {r \<in> set (recs (root treep)). compare_key cf key (fst r) \<noteq> 0}
        \<and> deleted cf key (root treep) (root treep')
        \<and> (\<forall>k \<in> K. bt_lookup treep' k =
             (if compare_key cf k key = 0 then None else bt_lookup treep k))
    | Inl f \<Rightarrow> f = Raised (RdbError NOT_FOUND_ERROR '''') \<and> bt_lookup treep key = None"
proof -
  have wf: "tree_wf cf K m (root treep)" using assms by (simp add: bt_wf_def)
  note post = avl_delete_node_wf[OF wf assms(3)]
  show ?thesis
  proof (cases "bt_lookup treep key = None")
    case True
    then show ?thesis using post assms(1) by (simp add: RDB_tree_delete_node_def bt_lookup_def)
  next
    case False
    then obtain t' h where t': "avl_delete_node cf (root treep) key = Inr (t', h)" "tree_wf cf K m t'"
      "set (recs t') = {r \<in> set (recs (root treep)). compare_key cf key (fst r) \<noteq> 0}"
      "deleted cf key (root treep) t'"
      using post assms(1) delete_recs_set[OF wf assms(3)] by (force simp: bt_lookup_def)
    then show ?thesis using False assms(1) delete_lookup[OF wf assms(3) _ t'(1)]
      by (simp add: RDB_tree_delete_node_def bt_wf_def bt_lookup_def)
  qed
qed

end

section \<open>Properties\<close>

text \<open>
  C4: inserting into a balanced tree whose keys are ordered by its comparison function.  A key
  that is present is refused; otherwise, if there is memory for the node, the new tree is
  well-formed (balanced, with correct parent links and sorted keys), the key is found with
  its value, and every other search ends as before.
\<close>

theorem tree_insert_map:
  assumes "key_order (comparison_fp t) K" "bt_wf K m t" "key \<in> K"
  shows "case RDB_tree_insert t key val m of
      (Inr (t', a), m') \<Rightarrow> RDB_tree_find t key = Null \<and> bt_wf K m' t'
        \<and> (\<forall>k \<in> K. node_rec (RDB_tree_find t' k)
             = (if compare_key (comparison_fp t) k key = 0 then Some (key, val) else node_rec (RDB_tree_find t k)))
    | (Inl f, m') \<Rightarrow>
        f = Raised (RdbError KEY_VIOLATION_ERROR '''') \<and> RDB_tree_find t key \<noteq> Null
        \<or> f = Raised (RdbError NO_MEMORY_ERROR '''') \<and> RDB_tree_find t key = Null \<and> fst (malloc m) = None"
proof -
  have found: "RDB_tree_find t k = Null \<longleftrightarrow> bt_lookup t k = None" if "k \<in> K" for k
    using key_order.bt_find[OF assms(1) refl assms(2) that] by (metis node_rec_def option.distinct(1))
  have find': "node_rec (RDB_tree_find t' k) = bt_lookup t' k"
    if "bt_wf K m' t'" "comparison_fp t' = comparison_fp t" "k \<in> K" for t' m' k
    using key_order.bt_find[of "comparison_fp t'" K] assms(1) that by simp
  show ?thesis
    using key_order.bt_insert[OF assms(1) refl assms(2,3), of val] found[OF assms(3)] find' assms(2)
    by (auto split: prod.splits sum.splits)
qed

theorem tree_insert_map_witness:
  "RDB_tree_find \<lparr>root = Null, comparison_fp = None\<rparr> [7] = Null
     \<and> (\<exists>t'. fst (RDB_tree_insert \<lparr>root = Null, comparison_fp = None\<rparr> [7] [1] mem_ok) = Inr t')"
proof -
  have "bt_wf {k. length k = 1} mem_ok \<lparr>root = Null, comparison_fp = None\<rparr>" by (simp add: bt_wf_def)
  from tree_insert_map[OF _ this, of "[7]" "[1]"] show ?thesis
    using fixed_length.key_order_axioms[of 1] by (auto simp: malloc_def mem_ok_def RDB_tree_find_def split: prod.splits sum.splits)
qed

text \<open>
  C19: deleting a key from such a tree keeps it well-formed and removes exactly that key; a
  key that is absent is reported.
\<close>

theorem tree_delete_map:
  assumes "key_order (comparison_fp t) K" "bt_wf K m t" "key \<in> K"
  shows "case RDB_tree_delete_node t key of
      Inr t' \<Rightarrow> RDB_tree_find t key \<noteq> Null \<and> bt_wf K m t'
        \<and> (\<forall>k \<in> K. node_rec (RDB_tree_find t' k)
             = (if compare_key (comparison_fp t) k key = 0 then None else node_rec (RDB_tree_find t k)))
    | Inl f \<Rightarrow> f = Raised (RdbError NOT_FOUND_ERROR '''') \<and> RDB_tree_find t key = Null"
proof -
  have found: "RDB_tree_find t k = Null \<longleftrightarrow> bt_lookup t k = None" if "k \<in> K" for k
    using key_order.bt_find[OF assms(1) refl assms(2) that] by (metis node_rec_def option.distinct(1))
  have find': "node_rec (RDB_tree_find t' k) = bt_lookup t' k"
    if "bt_wf K m t'" "comparison_fp t' = comparison_fp t" "k \<in> K" for t' k
    using key_order.bt_find[of "comparison_fp t'" K] assms(1) that by simp
  show ?thesis
    using key_order.bt_delete[OF assms(1) refl assms(2,3)] found[OF assms(3)] find' assms(2)
    by (auto split: sum.splits)
qed

theorem tree_delete_map_witness:
  "RDB_tree_delete_node \<lparr>root = Null, comparison_fp = None\<rparr> [7] = raise_err NOT_FOUND_ERROR ''''"
proof -
  have "bt_wf {k. length k = 1} mem_ok \<lparr>root = Null, comparison_fp = None\<rparr>" by (simp add: bt_wf_def)
  from tree_delete_map[OF _ this, of "[7]"] show ?thesis
    using fixed_length.key_order_axioms[of 1] by (auto simp: RDB_tree_find_def split: sum.splits)
qed



definition insert_keys :: "bytes list \<Rightarrow> binary_tree \<times> mem \<Rightarrow> binary_tree \<times> mem" where
  "insert_keys ks = fold (\<lambda>k (t, m). case RDB_tree_insert t k [] m of
     (Inr (t', a), m') \<Rightarrow> (t', m') | (Inl _, m') \<Rightarrow> (t, m')) ks"

text \<open>
  The order of \<^verbatim>\<open>compare_key\<close> is no order once a key is a prefix of another: after three
  inserts a key that is in the tree is not found, and can be inserted a second time.
\<close>

theorem prefix_keys_break_tree:
  "let t = insert_keys [[1, 2], [1], [2]] (\<lparr>root = Null, comparison_fp = None\<rparr>, mem_ok) in
     map fst (recs (root (fst t))) = [[1, 2], [1], [2]] \<and> RDB_tree_find (fst t) [1, 2] = Null
     \<and> map fst (recs (root (fst (insert_keys [[1, 2]] t)))) = [[1, 2], [1], [1, 2], [2]]"
  by code_simp

end
