(* ===== verification/Record_Fields.thy ===== *)
theory Record_Fields
  imports C_Strings
begin

text \<open>
  Records as byte strings: \<^verbatim>\<open>treerec/field.c\<close> and the storage-independent part of
  \<^verbatim>\<open>RDB_recmap\<close> (\<^verbatim>\<open>rec/recmap.c\<close>).  The key of a record and its data part are each
  stored as the fixed-length fields, then the variable-length fields, then a table with
  the length of each variable-length field in four bytes.
\<close>

section \<open>Description of a record map\<close>

definition RDB_VARIABLE_LEN :: int where "RDB_VARIABLE_LEN = -1"
definition RDB_UNIQUE :: int where "RDB_UNIQUE = 1"
definition RECLEN_SIZE :: nat where "RECLEN_SIZE = 4"

record field_info =
  fi_len :: int
  fi_attrname :: "string option"
  fi_flags :: int

text \<open>
  A comparison function is closed over the environment and the argument that are passed
  to it on every call.
\<close>

record compare_field =
  cf_fno :: nat
  comparep :: "bytes \<Rightarrow> bytes \<Rightarrow> int"
  cf_asc :: bool

record recmap =
  namp :: "string option"
  filenamp :: "string option"
  fieldcount :: nat
  keyfieldcount :: nat
  fieldinfos :: "field_info list"
  varkeyfieldcount :: nat
  vardatafieldcount :: nat
  cmpv :: "compare_field list"
  dup_keys :: bool
  delayed_deletion :: bool

text \<open>
  A value to be stored or compared: \<open>copyfp\<close> tells the bytes the copy function writes for
  the data it is given and the length (for \<^verbatim>\<open>memcpy\<close>, the leading bytes of the data).
\<close>

record rdb_field =
  no :: nat
  datap :: bytes
  flen :: nat
  copyfp :: "bytes \<Rightarrow> nat \<Rightarrow> bytes"

definition memcpy :: "bytes \<Rightarrow> nat \<Rightarrow> bytes" where
  "memcpy src n = take n src"

abbreviation field_bytes :: "rdb_field \<Rightarrow> bytes" where
  "field_bytes f \<equiv> copyfp f (datap f) (flen f)"

definition dup_opt :: "string option \<Rightarrow> mem \<Rightarrow> string option option \<times> mem" where
  "dup_opt so m =
     (case so of
        None \<Rightarrow> (Some None, m)
      | Some s \<Rightarrow> (case RDB_dup_str s m of (None, m') \<Rightarrow> (None, m') | (Some d, m') \<Rightarrow> (Some (Some d), m')))"

definition count_var :: "field_info list \<Rightarrow> nat" where
  "count_var fis = length (filter (\<lambda>fi. fi_len fi = RDB_VARIABLE_LEN) fis)"

definition RDB_new_recmap ::
  "string option \<Rightarrow> string option \<Rightarrow> field_info list \<Rightarrow> nat \<Rightarrow> int \<Rightarrow> mem \<Rightarrow> recmap result \<times> mem" where
  "RDB_new_recmap nm filenm fieldinfov keyfieldc flags m =
     (case malloc m of
        (None, m1) \<Rightarrow> (raise_err NO_MEMORY_ERROR '''', m1)
      | (Some _, m1) \<Rightarrow>
     (case dup_opt nm m1 of
        (None, m2) \<Rightarrow> (raise_err NO_MEMORY_ERROR '''', m2)
      | (Some nm', m2) \<Rightarrow>
     (case dup_opt filenm m2 of
        (None, m3) \<Rightarrow> (raise_err NO_MEMORY_ERROR '''', m3)
      | (Some filenm', m3) \<Rightarrow>
     (case malloc m3 of
        (None, m4) \<Rightarrow> (raise_err NO_MEMORY_ERROR '''', m4)
      | (Some _, m4) \<Rightarrow>
         (Inr \<lparr>namp = nm', filenamp = filenm', fieldcount = length fieldinfov,
               keyfieldcount = keyfieldc, fieldinfos = fieldinfov,
               varkeyfieldcount = count_var (take keyfieldc fieldinfov),
               vardatafieldcount = count_var (drop keyfieldc fieldinfov),
               cmpv = [], dup_keys = (flags mod 2 = 0), delayed_deletion = False\<rparr>, m4)))))"

section \<open>Error codes\<close>

text \<open>The messages of the C library.\<close>

fun strerror :: "errcode \<Rightarrow> string" where
  "strerror RDB_OK = ''Success''"
| "strerror ENOMEM = ''Cannot allocate memory''"
| "strerror EINVAL = ''Invalid argument''"
| "strerror ENOENT = ''No such file or directory''"
| "strerror _ = ''Unknown error''"

fun RDB_errcode_to_error :: "errcode \<Rightarrow> 'a result" where
  "RDB_errcode_to_error ENOMEM = raise_err NO_MEMORY_ERROR ''''"
| "RDB_errcode_to_error EINVAL = raise_err INVALID_ARGUMENT_ERROR ''''"
| "RDB_errcode_to_error ENOENT = raise_err RESOURCE_NOT_FOUND_ERROR (strerror ENOENT)"
| "RDB_errcode_to_error c = raise_err SYSTEM_ERROR (strerror c)"

section \<open>The length table\<close>

text \<open>
  \<^verbatim>\<open>databp[3] << 24\<close> is computed in \<^verbatim>\<open>int\<close>, so it is negative when the topmost
  bit is set, and is then widened to \<^verbatim>\<open>size_t\<close>.
\<close>

definition get_len :: "bytes \<Rightarrow> nat" where
  "get_len databp =
     unat ((ucast (databp ! 0) :: u64)
           + scast (push_bit 8 (ucast (databp ! 1)) :: i32)
           + scast (push_bit 16 (ucast (databp ! 2)) :: i32)
           + scast (push_bit 24 (ucast (databp ! 3)) :: i32))"

definition set_len :: "nat \<Rightarrow> bytes" where
  "set_len len =
     [of_nat (len AND 0xff), of_nat (drop_bit 8 len), of_nat (drop_bit 16 len), of_nat (drop_bit 24 len)]"

definition RDB_get_vflen :: "bytes \<Rightarrow> nat \<Rightarrow> nat \<Rightarrow> nat result" where
  "RDB_get_vflen databp vfcnt vpos =
     rbind (read_at databp (int (length databp) - int (vfcnt * RECLEN_SIZE) + int (vpos * RECLEN_SIZE)) 4)
       (\<lambda>bs. Inr (get_len bs))"

section \<open>Locating a field\<close>

definition is_var :: "recmap \<Rightarrow> nat \<Rightarrow> bool" where
  "is_var rmp i \<longleftrightarrow> fi_len (fieldinfos rmp ! i) = RDB_VARIABLE_LEN"

text \<open>The loop that adds the lengths of the fixed-length fields among \<open>is\<close>.\<close>

fun add_fixed :: "recmap \<Rightarrow> nat list \<Rightarrow> int \<Rightarrow> int" where
  "add_fixed rmp [] offs = offs"
| "add_fixed rmp (i # is) offs =
     add_fixed rmp is (if \<not> is_var rmp i then to_int (offs + fi_len (fieldinfos rmp ! i)) else offs)"

text \<open>The loop that adds the lengths of the variable-length fields at \<open>is\<close> of the table.\<close>

fun add_var :: "bytes \<Rightarrow> nat \<Rightarrow> nat list \<Rightarrow> int \<Rightarrow> int result" where
  "add_var databp vfcnt [] offs = Inr offs"
| "add_var databp vfcnt (i # is) offs =
     rbind (RDB_get_vflen databp vfcnt i)
       (\<lambda>l. add_var databp vfcnt is (to_int (offs + int l)))"

text \<open>
  The result is the offset, the length and, for a variable-length field, the position in
  the table (which is indeterminate for a fixed-length one).  The first component of the
  sum is a negative return value.  Key fields are counted from field 0 on, data fields
  from field \<open>keyfieldcount\<close> on.
\<close>

definition RDB_get_field ::
  "recmap \<Rightarrow> nat \<Rightarrow> bytes \<Rightarrow> (errcode + int \<times> nat \<times> nat option) result" where
  "RDB_get_field rmp fno databp =
     (if length (fieldinfos rmp) \<le> fno then Inl Segfault
      else
        let (first, last, vfcnt) =
              (if fno < keyfieldcount rmp then (0, keyfieldcount rmp, varkeyfieldcount rmp)
               else (keyfieldcount rmp, fieldcount rmp, vardatafieldcount rmp)) in
        rbind
          (if \<not> is_var rmp fno then
             Inr (add_fixed rmp [first ..< fno] 0, to_size (fi_len (fieldinfos rmp ! fno)), None)
           else
             (let vpos = length (filter (is_var rmp) [first ..< fno]) in
              rbind (add_var databp vfcnt [0 ..< vpos] (add_fixed rmp [first ..< last] 0))
                (\<lambda>offs. rbind (RDB_get_vflen databp vfcnt vpos)
                  (\<lambda>l. Inr (offs, l, Some vpos)))))
          (\<lambda>(offs, l, vpos).
             if length databp < l then Inr (Inl RDB_RECORD_CORRUPTED)
             else if offs < 0 then Inr (Inl (Errno offs))
             else Inr (Inr (offs, l, vpos))))"

section \<open>Building and reading a record\<close>

text \<open>The loop over the fixed-length fields, and the loop over the others with their number.\<close>

fun copy_fixed :: "rdb_field list \<Rightarrow> bytes \<Rightarrow> int \<Rightarrow> (bytes \<times> int) result" where
  "copy_fixed [] databp offs = Inr (databp, offs)"
| "copy_fixed (f # fs) databp offs =
     rbind (write_at databp offs (field_bytes f))
       (\<lambda>d. copy_fixed fs d (to_int (offs + int (flen f))))"

fun copy_var :: "nat \<Rightarrow> nat \<Rightarrow> rdb_field list \<Rightarrow> bytes \<Rightarrow> int \<Rightarrow> bytes result" where
  "copy_var vfldc i [] databp offs = Inr databp"
| "copy_var vfldc i (f # fs) databp offs =
     rbind (write_at databp offs (field_bytes f))
       (\<lambda>d. rbind
          (write_at d (int (length databp) - int (vfldc * RECLEN_SIZE) + int (i * RECLEN_SIZE))
             (set_len (flen f)))
          (\<lambda>d'. copy_var vfldc (Suc i) fs d' (to_int (offs + int (flen f)))))"

definition malloc_if :: "bool \<Rightarrow> mem \<Rightarrow> bool \<times> mem" where
  "malloc_if b m = (if b then (case malloc m of (None, m') \<Rightarrow> (False, m') | (Some _, m') \<Rightarrow> (True, m'))
                    else (True, m))"

text \<open>
  The new block is filled with zeros here; \<open>fields_to_mem_encodes\<close> shows that every byte
  of it is written.
\<close>

definition RDB_fields_to_mem ::
  "recmap \<Rightarrow> rdb_field list \<Rightarrow> mem \<Rightarrow> (errcode + bytes) result \<times> mem" where
  "RDB_fields_to_mem rmp fldv m =
     (if \<exists>f \<in> set fldv. length (fieldinfos rmp) \<le> no f then (Inl Segfault, m)
      else
        let size = sum_list (map (\<lambda>f. flen f + (if is_var rmp (no f) then RECLEN_SIZE else 0)) fldv);
            vfldv = filter (\<lambda>f. is_var rmp (no f)) fldv;
            ffldv = filter (\<lambda>f. \<not> is_var rmp (no f)) fldv in
        case malloc_if (size > 0) m of (ok1, m1) \<Rightarrow>
        if \<not> ok1 then (Inr (Inl ENOMEM), m1) else
        case malloc_if (length ffldv > 0) m1 of (ok2, m2) \<Rightarrow>
        if \<not> ok2 then (Inr (Inl ENOMEM), m2) else
        case malloc_if (length vfldv > 0) m2 of (ok3, m3) \<Rightarrow>
        if \<not> ok3 then (Inr (Inl ENOMEM), m3) else
        (rbind (copy_fixed ffldv (replicate size 0) 0)
           (\<lambda>(d, offs). rbind (copy_var (length vfldv) 0 vfldv d offs) (\<lambda>d'. Inr (Inr d'))), m3))"

text \<open>
  Reads the fields whose numbers are given; the result is the code and the fields, where
  those read before an error are set.  A data pointer is the rest of the block from the
  offset on.
\<close>

fun RDB_get_mem_fields ::
  "recmap \<Rightarrow> bytes \<Rightarrow> bytes \<Rightarrow> rdb_field list \<Rightarrow> (errcode \<times> rdb_field list) result" where
  "RDB_get_mem_fields rmp key val [] = Inr (RDB_OK, [])"
| "RDB_get_mem_fields rmp key val (f # fs) =
     (let block = (if no f < keyfieldcount rmp then key else val) in
      rbind (RDB_get_field rmp (no f) block)
        (\<lambda>r. case r of
           Inl c \<Rightarrow> Inr (c, f # fs)
         | Inr (offs, l, vpos) \<Rightarrow>
             rbind (RDB_get_mem_fields rmp key val fs)
               (\<lambda>(c, fs'). Inr (c, f\<lparr>flen := l, datap := drop (nat offs) block\<rparr> # fs'))))"

text \<open>
  Changing one field in place.  The two \<^verbatim>\<open>memmove\<close> calls and the \<^verbatim>\<open>realloc\<close> between
  them give the block with the bytes after the field moved; the block is left as it is
  when \<^verbatim>\<open>realloc\<close> fails, except that a shrinking field has already had them moved.
\<close>

definition memmove_within :: "bytes \<Rightarrow> int \<Rightarrow> int \<Rightarrow> int \<Rightarrow> bytes result" where
  "memmove_within d dst src n =
     (if n < 0 then Inl Segfault else rbind (read_at d src (nat n)) (\<lambda>bs. write_at d dst bs))"

definition realloc_to :: "bytes \<Rightarrow> nat \<Rightarrow> bytes" where
  "realloc_to d n = take n d @ replicate (n - length d) 0"

definition RDB_set_field_mem ::
  "recmap \<Rightarrow> bytes \<Rightarrow> rdb_field \<Rightarrow> nat \<Rightarrow> mem \<Rightarrow> (errcode \<times> bytes) result \<times> mem" where
  "RDB_set_field_mem rmp d f varfieldc m =
     (case RDB_get_field rmp (no f) d of
        Inl e \<Rightarrow> (Inl e, m)
      | Inr (Inl c) \<Rightarrow> (Inr (c, d), m)
      | Inr (Inr (offs, oldlen, vpos)) \<Rightarrow>
          if oldlen = flen f then (rbind (write_at d offs (field_bytes f)) (\<lambda>d'. Inr (RDB_OK, d')), m)
          else
            let size = int (length d); new = int (flen f); old = int oldlen; n = size - offs - old in
            (case (if new < old then memmove_within d (offs + new) (offs + old) n else Inr d) of
               Inl e \<Rightarrow> (Inl e, m)
             | Inr d1 \<Rightarrow>
                 (case malloc m of
                    (None, m') \<Rightarrow> (Inr (ENOMEM, d1), m')
                  | (Some _, m') \<Rightarrow>
                      (let d2 = realloc_to d1 (nat (size + new - old)) in
                       (rbind (if new > old then memmove_within d2 (offs + new) (offs + old) n else Inr d2)
                          (\<lambda>d3. case vpos of
                              None \<Rightarrow> Inl Segfault
                            | Some v \<Rightarrow>
                                rbind
                                  (write_at d3 (int (length d3) - int (varfieldc * RECLEN_SIZE)
                                                + int (v * RECLEN_SIZE)) (set_len (flen f)))
                                  (\<lambda>d4. rbind (write_at d4 offs (field_bytes f))
                                     (\<lambda>d5. Inr (RDB_OK, d5)))), m')))))"

section \<open>The length table: proofs\<close>

lemma length_set_len [simp]: "length (set_len n) = 4"
  by (simp add: set_len_def)

lemma set_len_eq: "set_len n = map (\<lambda>i. of_nat (n div 2 ^ (8 * i))) [0, 1, 2, 3]"
proof -
  have "n AND 255 = take_bit 8 n" by (simp add: take_bit_eq_mask mask_eq_exp_minus_1)
  then have "(of_nat (n AND 255) :: u8) = of_nat n"
    by (simp add: word_unat_eq_iff unat_of_nat take_bit_eq_mod)
  then show ?thesis by (simp add: set_len_def drop_bit_eq_div)
qed

lemma scast_push_byte:
  assumes "unat b * 2 ^ k < 2 ^ 31"
  shows "(scast (push_bit k (ucast (b :: u8)) :: i32) :: u64) = of_nat (unat b * 2 ^ k)"
proof -
  have "push_bit k (ucast b :: i32) = of_nat (unat b * 2 ^ k)"
    by (simp add: push_bit_eq_mult)
  moreover have "sint (of_nat (unat b * 2 ^ k) :: i32) = int (unat b * 2 ^ k)"
  proof -
    have "int (unat b * 2 ^ k) < 2 ^ 31" using assms by (metis of_nat_less_numeral_power_cancel_iff)
    then have "to_int (int (unat b * 2 ^ k)) = int (unat b * 2 ^ k)" by (intro to_int_id) (smt (verit) of_nat_0_le_iff, simp)
    then show ?thesis by (simp only: to_int_def of_int_of_nat_eq)
  qed
  ultimately show ?thesis
    by (metis of_int_of_nat_eq scast_eq)
qed

lemma horner_256:
  fixes n :: nat
  assumes "n = d0 + 256 * a" "a = d1 + 256 * b" "b = d2 + 256 * c"
  shows "n = d0 + d1 * 256 + d2 * 65536 + c * 16777216"
  unfolding assms by simp

lemma base_256:
  fixes n :: nat
  shows "n = n mod 256 + n div 256 mod 256 * 256 + n div 65536 mod 256 * 65536
    + n div 16777216 * 16777216"
proof -
  let ?a = "n div 256"
  have "n = n mod 256 + ?a mod 256 * 256 + ?a div 256 mod 256 * 65536 + ?a div 256 div 256 * 16777216"
    by (rule horner_256) (simp_all only: mod_mult_div_eq)
  moreover have "n div 65536 = ?a div 256" "n div 16777216 = ?a div 256 div 256"
    by (simp_all add: div_mult2_eq [symmetric])
  ultimately show ?thesis by simp
qed

lemma get_len_set_len:
  assumes "n < 2 ^ 31"
  shows "get_len (set_len n) = n"
proof -
  have b: "unat (of_nat k :: u8) = k mod 256" for k by (simp add: unat_of_nat)
  have "n div 16777216 < 128" using assms by (simp add: less_mult_imp_div_less)
  then have p3: "scast (push_bit 24 (ucast (of_nat (n div 16777216) :: u8)) :: i32)
      = (of_nat (n div 16777216 * 16777216) :: u64)"
    by (subst scast_push_byte) (simp_all add: b)
  have p2: "scast (push_bit 16 (ucast (of_nat (n div 65536) :: u8)) :: i32)
      = (of_nat (n div 65536 mod 256 * 65536) :: u64)"
    using mod_less_divisor[of 256 "n div 65536"]
    by (subst scast_push_byte) (simp_all add: b)
  have p1: "scast (push_bit 8 (ucast (of_nat (n div 256) :: u8)) :: i32)
      = (of_nat (n div 256 mod 256 * 256) :: u64)"
    using mod_less_divisor[of 256 "n div 256"]
    by (subst scast_push_byte) (simp_all add: b)
  have p0: "ucast (of_nat n :: u8) = (of_nat (n mod 256) :: u64)"
    using b[of n] by (metis of_nat_unat)
  have "get_len (set_len n) =
      unat (of_nat (n mod 256) + of_nat (n div 256 mod 256 * 256)
        + of_nat (n div 65536 mod 256 * 65536) + of_nat (n div 16777216 * 16777216) :: u64)"
    unfolding get_len_def set_len_eq using p0 p1 p2 p3 by simp
  also have "\<dots> = unat (of_nat n :: u64)"
    by (simp only: of_nat_add [symmetric] base_256 [symmetric])
  also have "\<dots> = n" using assms by (simp add: unat_of_nat)
  finally show ?thesis .
qed

section \<open>Encoding: proofs\<close>

text \<open>A sequence of values that fit the fields they are for, and its encoding.\<close>

definition field_ok :: "recmap \<Rightarrow> rdb_field \<Rightarrow> bool" where
  "field_ok rmp f \<longleftrightarrow>
     no f < length (fieldinfos rmp) \<and> length (field_bytes f) = flen f
     \<and> (is_var rmp (no f) \<or> fi_len (fieldinfos rmp ! no f) = int (flen f))"

definition var_fields :: "recmap \<Rightarrow> rdb_field list \<Rightarrow> rdb_field list" where
  "var_fields rmp fs = filter (\<lambda>f. is_var rmp (no f)) fs"

definition fixed_fields :: "recmap \<Rightarrow> rdb_field list \<Rightarrow> rdb_field list" where
  "fixed_fields rmp fs = filter (\<lambda>f. \<not> is_var rmp (no f)) fs"

definition encode :: "recmap \<Rightarrow> rdb_field list \<Rightarrow> bytes" where
  "encode rmp fs = concat (map field_bytes (fixed_fields rmp fs))
     @ concat (map field_bytes (var_fields rmp fs))
     @ concat (map (\<lambda>f. set_len (flen f)) (var_fields rmp fs))"

abbreviation lens :: "rdb_field list \<Rightarrow> nat" where
  "lens fs \<equiv> sum_list (map flen fs)"

definition rec_size :: "recmap \<Rightarrow> rdb_field list \<Rightarrow> nat" where
  "rec_size rmp fs = lens fs + RECLEN_SIZE * length (var_fields rmp fs)"

definition rec_ok :: "recmap \<Rightarrow> rdb_field list \<Rightarrow> bool" where
  "rec_ok rmp fs \<longleftrightarrow> (\<forall>f \<in> set fs. field_ok rmp f) \<and> rec_size rmp fs < 2 ^ 31"

lemma lens_split: "lens fs = lens (fixed_fields rmp fs) + lens (var_fields rmp fs)"
  by (induction fs) (auto simp: fixed_fields_def var_fields_def)

lemma length_concat_fields:
  "\<forall>f \<in> set fs. length (field_bytes f) = flen f \<Longrightarrow> length (concat (map field_bytes fs)) = lens fs"
  by (induction fs) auto

lemma length_concat_lens [simp]: "length (concat (map (\<lambda>f. set_len (flen f)) fs)) = 4 * length fs"
  by (induction fs) auto

lemma fields_subset:
  "set (var_fields rmp fs) \<subseteq> set fs" "set (fixed_fields rmp fs) \<subseteq> set fs"
  by (auto simp: var_fields_def fixed_fields_def)

lemma length_encode:
  "\<forall>f \<in> set fs. field_ok rmp f \<Longrightarrow> length (encode rmp fs) = rec_size rmp fs"
  using fields_subset[of rmp fs] lens_split[of fs rmp]
  by (simp add: encode_def rec_size_def RECLEN_SIZE_def length_concat_fields field_ok_def subset_iff)

lemma copy_fixed_fills:
  "\<forall>f \<in> set fs. length (field_bytes f) = flen f \<Longrightarrow> length pre + lens fs < 2 ^ 31
    \<Longrightarrow> length mid = lens fs
    \<Longrightarrow> copy_fixed fs (pre @ mid @ rest) (int (length pre))
      = Inr (pre @ concat (map field_bytes fs) @ rest, int (length pre + lens fs))"
proof (induction fs arbitrary: pre mid)
  case (Cons f fs)
  obtain a b where ab: "mid = a @ b" "length a = flen f" "length b = lens fs"
    using Cons.prems(3) by (metis append_take_drop_id diff_add_inverse le_add1 length_drop length_take
        list.simps(9) min.absorb2 sum_list.Cons)
  have "write_at (pre @ mid @ rest) (int (length pre)) (field_bytes f)
      = Inr (pre @ field_bytes f @ b @ rest)"
    using write_at_append[of "int (length pre)" pre a "field_bytes f" "b @ rest"] ab Cons.prems by simp
  moreover have "to_int (int (length pre) + int (flen f)) = int (length (pre @ field_bytes f))"
    using Cons.prems by (subst to_int_id) auto
  ultimately show ?case
    using Cons.IH[of "pre @ field_bytes f" b] Cons.prems ab by (simp add: algebra_simps)
qed simp

lemma copy_var_fills:
  "\<forall>f \<in> set fs. length (field_bytes f) = flen f \<Longrightarrow> length pre + lens fs < 2 ^ 31
    \<Longrightarrow> length mid = lens fs \<Longrightarrow> length tab = 4 * i \<Longrightarrow> length rest = 4 * length fs
    \<Longrightarrow> n = i + length fs
    \<Longrightarrow> copy_var n i fs (pre @ mid @ tab @ rest) (int (length pre))
      = Inr (pre @ concat (map field_bytes fs) @ tab @ concat (map (\<lambda>f. set_len (flen f)) fs))"
proof (induction fs arbitrary: pre mid tab rest i)
  case (Cons f fs)
  obtain a b where ab: "mid = a @ b" "length a = flen f" "length b = lens fs"
    using Cons.prems(3) by (metis append_take_drop_id diff_add_inverse le_add1 length_drop length_take
        list.simps(9) min.absorb2 sum_list.Cons)
  obtain c d where cd: "rest = c @ d" "length c = 4" "length d = 4 * length fs"
    using Cons.prems(5) by (metis add_diff_cancel_left' append_take_drop_id le_add1 length_Cons length_drop
        length_take min.absorb2 mult_Suc_right)
  let ?blk = "pre @ mid @ tab @ rest"
  have "write_at ?blk (int (length pre)) (field_bytes f) = Inr (pre @ field_bytes f @ b @ tab @ rest)"
    using write_at_append[of "int (length pre)" pre a "field_bytes f" "b @ tab @ rest"] ab Cons.prems
    by simp
  moreover have "write_at (pre @ field_bytes f @ b @ tab @ rest)
      (int (length ?blk) - int (n * RECLEN_SIZE) + int (i * RECLEN_SIZE)) (set_len (flen f))
      = Inr (pre @ field_bytes f @ b @ tab @ set_len (flen f) @ d)"
    using write_at_append[of _ "pre @ field_bytes f @ b @ tab" c "set_len (flen f)" d] ab cd Cons.prems
    by (simp add: RECLEN_SIZE_def algebra_simps)
  moreover have "to_int (int (length pre) + int (flen f)) = int (length (pre @ field_bytes f))"
    using Cons.prems by (subst to_int_id) auto
  ultimately show ?case
    using Cons.IH[of "pre @ field_bytes f" b "tab @ set_len (flen f)" "Suc i" d] Cons.prems ab cd
    by simp
qed simp

lemma malloc_if_ok: "fails m = [] \<Longrightarrow> \<exists>m'. malloc_if b m = (True, m') \<and> fails m' = []"
  by (simp add: malloc_if_def malloc_ok)

lemma fields_to_mem_encodes:
  assumes "rec_ok rmp fs" "RDB_fields_to_mem rmp fs m = (r, m')"
  shows "r = Inr (Inr (encode rmp fs)) \<or> r = Inr (Inl ENOMEM) \<and> fails m \<noteq> []"
proof -
  let ?v = "var_fields rmp fs" and ?f = "fixed_fields rmp fs"
  have ok: "\<forall>f \<in> set fs. field_ok rmp f" and small: "rec_size rmp fs < 2 ^ 31"
    using assms(1) by (auto simp: rec_ok_def)
  have len: "\<forall>f \<in> set ?v. length (field_bytes f) = flen f" "\<forall>f \<in> set ?f. length (field_bytes f) = flen f"
    using ok fields_subset[of rmp fs] by (auto simp: field_ok_def)
  have size: "sum_list (map (\<lambda>f. flen f + (if is_var rmp (no f) then RECLEN_SIZE else 0)) fs)
      = rec_size rmp fs"
    by (induction fs) (auto simp: rec_size_def var_fields_def)
  have split: "replicate (rec_size rmp fs) (0::u8) =
      replicate (lens ?f) 0 @ replicate (lens ?v) 0 @ [] @ replicate (4 * length ?v) 0"
    using lens_split[of fs rmp] by (simp add: rec_size_def RECLEN_SIZE_def replicate_add [symmetric] add_ac)
  have cf: "copy_fixed ?f (replicate (rec_size rmp fs) 0) 0
      = Inr (concat (map field_bytes ?f) @ replicate (lens ?v) 0 @ [] @ replicate (4 * length ?v) 0,
             int (lens ?f))"
    using copy_fixed_fills[OF len(2), of "[]"] small lens_split[of fs rmp]
    unfolding split by (simp add: rec_size_def)
  have cv: "copy_var (length ?v) 0 ?v
      (concat (map field_bytes ?f) @ replicate (lens ?v) 0 @ [] @ replicate (4 * length ?v) 0) (int (lens ?f))
      = Inr (encode rmp fs)"
    using copy_var_fills[OF len(1), of "concat (map field_bytes ?f)" "replicate (lens ?v) 0" "[]" 0
        "replicate (4 * length ?v) 0" "length ?v"] small lens_split[of fs rmp]
    by (simp add: rec_size_def length_concat_fields[OF len(2)] encode_def)
  have in_range: "\<not> (\<exists>f \<in> set fs. length (fieldinfos rmp) \<le> no f)" using ok by (auto simp: field_ok_def)
  note simps = RDB_fields_to_mem_def size Let_def var_fields_def [symmetric] fixed_fields_def [symmetric]
  show ?thesis
  proof (cases "fails m = []")
    case True
    obtain m1 where m1: "malloc_if (rec_size rmp fs > 0) m = (True, m1)" "fails m1 = []"
      using malloc_if_ok[OF True] by blast
    obtain m2 where m2: "malloc_if (length ?f > 0) m1 = (True, m2)" "fails m2 = []"
      using malloc_if_ok[OF m1(2)] by blast
    obtain m3 where "malloc_if (length ?v > 0) m2 = (True, m3)"
      using malloc_if_ok[OF m2(2)] by blast
    then show ?thesis using assms(2) in_range cf cv m1 m2 by (simp add: simps)
  next
    case False
    then show ?thesis using assms(2) in_range cf cv
      by (auto simp: simps split: prod.splits if_splits)
  qed
qed

lemma fields_to_mem_succeeds:
  "rec_ok rmp fs \<Longrightarrow> fails m = [] \<Longrightarrow>
    \<exists>m'. RDB_fields_to_mem rmp fs m = (Inr (Inr (encode rmp fs)), m')"
  using fields_to_mem_encodes by (metis surj_pair)

section \<open>Field access: proofs\<close>

definition recmap_ok :: "recmap \<Rightarrow> bool" where
  "recmap_ok rmp \<longleftrightarrow>
     fieldcount rmp = length (fieldinfos rmp) \<and> keyfieldcount rmp \<le> fieldcount rmp
     \<and> varkeyfieldcount rmp = count_var (take (keyfieldcount rmp) (fieldinfos rmp))
     \<and> vardatafieldcount rmp = count_var (drop (keyfieldcount rmp) (fieldinfos rmp))
     \<and> (\<forall>fi \<in> set (fieldinfos rmp). fi_len fi = RDB_VARIABLE_LEN \<or> 0 \<le> fi_len fi \<and> fi_len fi < 2 ^ 31)"

lemma new_recmap_ok:
  assumes "RDB_new_recmap nm filenm fis keyfc flags m = (Inr rmp, m')" "keyfc \<le> length fis"
    and "\<forall>fi \<in> set fis. fi_len fi = RDB_VARIABLE_LEN \<or> 0 \<le> fi_len fi \<and> fi_len fi < 2 ^ 31"
  shows "recmap_ok rmp" "fieldinfos rmp = fis" "keyfieldcount rmp = keyfc" "cmpv rmp = []"
  using assms by (auto simp: RDB_new_recmap_def recmap_ok_def split: prod.splits option.splits)

text \<open>The fields that make up the key, or the data part, of one record in order.\<close>

definition key_rec :: "recmap \<Rightarrow> rdb_field list \<Rightarrow> bool" where
  "key_rec rmp fs \<longleftrightarrow> rec_ok rmp fs \<and> map no fs = [0 ..< keyfieldcount rmp]"

definition data_rec :: "recmap \<Rightarrow> rdb_field list \<Rightarrow> bool" where
  "data_rec rmp fs \<longleftrightarrow> rec_ok rmp fs \<and> map no fs = [keyfieldcount rmp ..< fieldcount rmp]"

lemma count_var_fields:
  "map no fs = [a ..< b] \<Longrightarrow> b \<le> length (fieldinfos rmp)
    \<Longrightarrow> length (var_fields rmp fs) = count_var (take (b - a) (drop a (fieldinfos rmp)))"
proof -
  assume a: "map no fs = [a ..< b]" "b \<le> length (fieldinfos rmp)"
  have "length (var_fields rmp fs) = length (filter (is_var rmp) (map no fs))"
    by (induction fs) (auto simp: var_fields_def)
  also have "\<dots> = length (filter (\<lambda>fi. fi_len fi = RDB_VARIABLE_LEN) (map ((!) (fieldinfos rmp)) [a ..< b]))"
    by (simp add: a filter_map is_var_def[abs_def] comp_def)
  also have "map ((!) (fieldinfos rmp)) [a ..< b] = take (b - a) (drop a (fieldinfos rmp))"
    using a(2) by (intro nth_equalityI) auto
  finally show ?thesis by (simp add: count_var_def)
qed

lemma add_fixed_fields:
  "\<forall>f \<in> set as. field_ok rmp f \<Longrightarrow> 0 \<le> offs \<Longrightarrow> offs + int (lens (fixed_fields rmp as)) < 2 ^ 31
    \<Longrightarrow> add_fixed rmp (map no as) offs = offs + int (lens (fixed_fields rmp as))"
proof (induction as arbitrary: offs)
  case (Cons f as)
  show ?case
  proof (cases "is_var rmp (no f)")
    case True
    then show ?thesis using Cons by (simp add: fixed_fields_def)
  next
    case False
    then have "to_int (offs + fi_len (fieldinfos rmp ! no f)) = offs + int (flen f)"
      using Cons.prems by (subst to_int_id) (auto simp: field_ok_def fixed_fields_def)
    then show ?thesis using False Cons by (simp add: fixed_fields_def)
  qed
qed (simp add: fixed_fields_def)

lemma get_vflen_encode:
  assumes "rec_ok rmp fs" "i < length (var_fields rmp fs)"
  shows "RDB_get_vflen (encode rmp fs) (length (var_fields rmp fs)) i = Inr (flen (var_fields rmp fs ! i))"
proof -
  let ?v = "var_fields rmp fs"
  let ?tab = "\<lambda>gs. concat (map (\<lambda>f. set_len (flen f)) gs)"
  define body where "body = concat (map field_bytes (fixed_fields rmp fs)) @ concat (map field_bytes ?v)"
  have v: "?v = take i ?v @ ?v ! i # drop (Suc i) ?v" using assms(2) id_take_nth_drop by blast
  have "encode rmp fs = body @ ?tab ?v" by (simp add: encode_def body_def)
  also have "?tab ?v = ?tab (take i ?v) @ set_len (flen (?v ! i)) @ ?tab (drop (Suc i) ?v)"
    by (subst v) simp
  finally have enc: "encode rmp fs
      = (body @ ?tab (take i ?v)) @ set_len (flen (?v ! i)) @ ?tab (drop (Suc i) ?v)" by simp
  have len: "length (encode rmp fs) = length body + 4 * length ?v"
    by (simp add: encode_def body_def)
  have pos: "int (length (encode rmp fs)) - int (length ?v * RECLEN_SIZE) + int (i * RECLEN_SIZE)
      = int (length (body @ ?tab (take i ?v)))"
    using assms(2) unfolding len by (simp add: RECLEN_SIZE_def)
  have "?v ! i \<in> set fs" using assms(2) fields_subset[of rmp fs] nth_mem by blast
  then have "flen (?v ! i) \<le> lens fs" by (simp add: member_le_sum_list)
  then have "flen (?v ! i) < 2 ^ 31" using assms(1) by (auto simp: rec_ok_def rec_size_def)
  then show ?thesis
    unfolding RDB_get_vflen_def pos by (subst enc) (simp add: read_at_append get_len_set_len del: append_assoc)
qed

lemma add_var_encode:
  assumes "rec_ok rmp fs" "offs + int (lens (var_fields rmp fs)) < 2 ^ 31" "0 \<le> offs"
  shows "k \<le> length (var_fields rmp fs) \<Longrightarrow>
    add_var (encode rmp fs) (length (var_fields rmp fs)) [0 ..< k] offs
      = Inr (offs + int (lens (take k (var_fields rmp fs))))"
proof (induction k)
  case (Suc k)
  let ?v = "var_fields rmp fs"
  have app: "add_var d n (ks @ js) p = rbind (add_var d n ks p) (add_var d n js)" for d n ks js p
  proof (induction ks arbitrary: p)
    case (Cons a ks)
    then show ?case by (cases "RDB_get_vflen d n a") auto
  qed simp
  have le: "lens (take (Suc k) ?v) \<le> lens ?v"
    by (metis append_take_drop_id le_add1 map_append sum_list_append)
  have sum: "lens (take (Suc k) ?v) = lens (take k ?v) + flen (?v ! k)"
    using Suc.prems by (simp add: take_Suc_conv_app_nth)
  have "to_int (offs + int (lens (take k ?v)) + int (flen (?v ! k)))
      = offs + int (lens (take (Suc k) ?v))"
    using assms(2,3) le sum by (subst to_int_id) auto
  then show ?case using Suc get_vflen_encode[OF assms(1), of k] by (simp add: app)
qed simp

lemma section_fields [simp]:
  "var_fields rmp (as @ bs) = var_fields rmp as @ var_fields rmp bs"
  "var_fields rmp (f # fs) = (if is_var rmp (no f) then f # var_fields rmp fs else var_fields rmp fs)"
  "fixed_fields rmp (as @ bs) = fixed_fields rmp as @ fixed_fields rmp bs"
  "fixed_fields rmp (f # fs) = (if is_var rmp (no f) then fixed_fields rmp fs else f # fixed_fields rmp fs)"
  by (auto simp: var_fields_def fixed_fields_def)

lemma var_fields_is_var: "f \<in> set (var_fields rmp fs) \<Longrightarrow> is_var rmp (no f)"
  by (auto simp: var_fields_def)

text \<open>Where the field after \<open>as\<close> starts.\<close>

definition field_start :: "recmap \<Rightarrow> rdb_field list \<Rightarrow> rdb_field \<Rightarrow> rdb_field list \<Rightarrow> nat" where
  "field_start rmp as f bs =
     (if is_var rmp (no f) then lens (fixed_fields rmp (as @ bs)) + lens (var_fields rmp as)
      else lens (fixed_fields rmp as))"

definition table_pos :: "recmap \<Rightarrow> rdb_field list \<Rightarrow> rdb_field \<Rightarrow> nat option" where
  "table_pos rmp as f = (if is_var rmp (no f) then Some (length (var_fields rmp as)) else None)"

text \<open>The bytes before and after a field; what follows a field depends on its length only.\<close>

definition enc_before :: "recmap \<Rightarrow> rdb_field list \<Rightarrow> rdb_field \<Rightarrow> rdb_field list \<Rightarrow> bytes" where
  "enc_before rmp as f bs =
     (if is_var rmp (no f)
      then concat (map field_bytes (fixed_fields rmp (as @ bs))) @ concat (map field_bytes (var_fields rmp as))
      else concat (map field_bytes (fixed_fields rmp as)))"

definition enc_middle :: "recmap \<Rightarrow> rdb_field list \<Rightarrow> rdb_field \<Rightarrow> rdb_field list \<Rightarrow> bytes" where
  "enc_middle rmp as f bs =
     (if is_var rmp (no f)
      then concat (map field_bytes (var_fields rmp bs)) @ concat (map (\<lambda>f. set_len (flen f)) (var_fields rmp as))
      else concat (map field_bytes (fixed_fields rmp bs)) @ concat (map field_bytes (var_fields rmp (as @ bs)))
        @ concat (map (\<lambda>f. set_len (flen f)) (var_fields rmp (as @ bs))))"

definition enc_after :: "recmap \<Rightarrow> rdb_field \<Rightarrow> rdb_field list \<Rightarrow> bytes" where
  "enc_after rmp f bs =
     (if is_var rmp (no f) then concat (map (\<lambda>f. set_len (flen f)) (var_fields rmp bs)) else [])"

definition enc_entry :: "recmap \<Rightarrow> rdb_field \<Rightarrow> bytes" where
  "enc_entry rmp f = (if is_var rmp (no f) then set_len (flen f) else [])"

lemma encode_at:
  "encode rmp (as @ f # bs)
    = enc_before rmp as f bs @ field_bytes f @ enc_middle rmp as f bs @ enc_entry rmp f @ enc_after rmp f bs"
  by (simp add: encode_def enc_before_def enc_middle_def enc_entry_def enc_after_def)

lemma length_enc_before:
  "\<forall>f \<in> set (as @ bs). length (field_bytes f) = flen f
    \<Longrightarrow> length (enc_before rmp as f bs) = field_start rmp as f bs"
  using fields_subset[of rmp as] fields_subset[of rmp bs]
  by (auto simp: enc_before_def field_start_def length_concat_fields subset_iff)

lemma rec_field_len: "rec_ok rmp fs \<Longrightarrow> f \<in> set fs \<Longrightarrow> flen f < 2 ^ 31"
  using member_le_sum_list[of "flen f" "map flen fs"] by (auto simp: rec_ok_def rec_size_def)

lemma get_field_at:
  assumes ok: "recmap_ok rmp" "rec_ok rmp fs" and fs: "fs = as @ f # bs"
    and nos: "map no fs = [a ..< b]"
    and sect: "a = 0 \<and> b = keyfieldcount rmp \<or> a = keyfieldcount rmp \<and> b = fieldcount rmp"
  shows "RDB_get_field rmp (no f) (encode rmp fs)
    = Inr (Inr (int (field_start rmp as f bs), flen f, table_pos rmp as f))"
proof -
  let ?v = "var_fields rmp fs"
  have "no f = map no fs ! length as" unfolding fs by (simp add: nth_append)
  also have "\<dots> = a + length as"
  proof -
    have "length as < b - a" using arg_cong[OF nos, of length] by (simp add: fs)
    then show ?thesis unfolding nos by simp
  qed
  finally have nf: "no f = a + length as" .
  have len: "b = a + length fs" using arg_cong[OF nos, of length] fs by simp
  have no_as: "map no as = [a ..< no f]"
  proof -
    have "map no as = take (length as) (map no fs)" by (simp add: fs)
    also have "\<dots> = take (length as) [a ..< b]" by (simp only: nos)
    also have "\<dots> = [a ..< no f]" using len nf fs by simp
    finally show ?thesis .
  qed
  have range: "no f < length (fieldinfos rmp)" "b \<le> length (fieldinfos rmp)"
    using ok fs sect by (auto simp: rec_ok_def field_ok_def recmap_ok_def)
  have cnt: "(if no f < keyfieldcount rmp then (0, keyfieldcount rmp, varkeyfieldcount rmp)
      else (keyfieldcount rmp, fieldcount rmp, vardatafieldcount rmp)) = (a, b, length ?v)"
    using sect count_var_fields[OF nos range(2)] ok(1) nf len fs by (auto simp: recmap_ok_def)
  have okf: "\<forall>f \<in> set as. field_ok rmp f" "\<forall>f \<in> set fs. field_ok rmp f" "field_ok rmp f"
    using ok(2) fs by (auto simp: rec_ok_def)
  have small: "rec_size rmp fs < 2 ^ 31" using ok(2) by (simp add: rec_ok_def)
  have split: "lens fs = lens (fixed_fields rmp fs) + lens ?v" by (rule lens_split)
  have long: "\<not> length (encode rmp fs) < flen f" "flen f < 2 ^ 31"
    using rec_field_len[OF ok(2)] member_le_sum_list[of "flen f" "map flen fs"] length_encode[OF okf(2)] fs
    by (auto simp: rec_size_def)
  show ?thesis
  proof (cases "is_var rmp (no f)")
    case False
    then have "add_fixed rmp [a ..< no f] 0 = int (lens (fixed_fields rmp as))"
      using add_fixed_fields[OF okf(1), of 0] no_as small split fs by (simp add: rec_size_def)
    moreover have "to_size (fi_len (fieldinfos rmp ! no f)) = flen f"
      using False okf(3) long(2) by (subst to_size_id) (auto simp: field_ok_def)
    ultimately show ?thesis
      using False range(1) cnt long by (simp add: RDB_get_field_def field_start_def table_pos_def)
  next
    case True
    have fixed: "add_fixed rmp [a ..< b] 0 = int (lens (fixed_fields rmp fs))"
      using add_fixed_fields[OF okf(2), of 0] nos small split by (simp add: rec_size_def)
    have vpos: "length (filter (is_var rmp) [a ..< no f]) = length (var_fields rmp as)"
      unfolding no_as [symmetric] by (simp add: filter_map var_fields_def comp_def)
    have v: "?v = var_fields rmp as @ f # var_fields rmp bs" using True fs by simp
    have "add_var (encode rmp fs) (length ?v) [0 ..< length (var_fields rmp as)]
        (int (lens (fixed_fields rmp fs)))
      = Inr (int (lens (fixed_fields rmp fs)) + int (lens (var_fields rmp as)))"
      using add_var_encode[OF ok(2), of "int (lens (fixed_fields rmp fs))" "length (var_fields rmp as)"]
        small split v by (simp add: rec_size_def)
    moreover have "RDB_get_vflen (encode rmp fs) (length ?v) (length (var_fields rmp as)) = Inr (flen f)"
      using get_vflen_encode[OF ok(2), of "length (var_fields rmp as)"] v by simp
    ultimately show ?thesis
      using True range(1) cnt long fixed vpos fs
      by (simp add: RDB_get_field_def field_start_def table_pos_def)
  qed
qed

text \<open>The round trip: reading a field of an encoded record gives what was stored in it.\<close>

lemma get_field_encode:
  assumes "recmap_ok rmp" "key_rec rmp fs \<or> data_rec rmp fs" "f \<in> set fs"
  shows "\<exists>offs vpos. RDB_get_field rmp (no f) (encode rmp fs) = Inr (Inr (int offs, flen f, vpos))
    \<and> read_at (encode rmp fs) (int offs) (flen f) = Inr (field_bytes f)"
proof -
  obtain as bs where fs: "fs = as @ f # bs" using assms(3) split_list by metis
  have ok: "rec_ok rmp fs" using assms(2) by (auto simp: key_rec_def data_rec_def)
  then have len: "\<forall>f \<in> set fs. length (field_bytes f) = flen f" by (auto simp: rec_ok_def field_ok_def)
  have "RDB_get_field rmp (no f) (encode rmp fs)
      = Inr (Inr (int (field_start rmp as f bs), flen f, table_pos rmp as f))"
    using get_field_at[OF assms(1) ok fs] assms(2) unfolding key_rec_def data_rec_def by blast
  moreover have "read_at (encode rmp fs) (int (field_start rmp as f bs)) (flen f) = Inr (field_bytes f)"
    unfolding fs encode_at using len fs by (intro read_at_append) (auto simp: length_enc_before)
  ultimately show ?thesis by blast
qed

section \<open>Changing a field: proofs\<close>

lemma memmove_within_at:
  assumes "src = int s" "dst = int t" "n = int (length S)" "S \<noteq> []"
    and "s + length S \<le> length d" "t + length S \<le> length d" "take (length S) (drop s d) = S"
  shows "memmove_within d dst src n = Inr (take t d @ S @ drop (t + length S) d)"
  using assms by (auto simp: memmove_within_def read_at_def write_at_def)

lemma shrink_field:
  assumes "new < length F" "S \<noteq> []"
  shows "\<exists>d1 X. memmove_within (P @ F @ S) (int (length P) + int new) (int (length P) + int (length F))
      (int (length S)) = Inr d1
    \<and> length X = new \<and> realloc_to d1 (length P + new + length S) = P @ X @ S"
proof -
  let ?d1 = "take (length P + new) (P @ F @ S) @ S @ drop (length P + new + length S) (P @ F @ S)"
  have "memmove_within (P @ F @ S) (int (length P) + int new) (int (length P) + int (length F))
      (int (length S)) = Inr ?d1"
    by (rule memmove_within_at[where s = "length P + length F"]) (use assms in auto)
  moreover have "realloc_to ?d1 (length P + new + length S) = P @ take new F @ S"
    using assms by (simp add: realloc_to_def)
  ultimately show ?thesis using assms by (intro exI[of _ ?d1] exI[of _ "take new F"]) auto
qed

lemma grow_field:
  assumes "length F < new" "S \<noteq> []"
  shows "\<exists>X. memmove_within (realloc_to (P @ F @ S) (length P + new + length S))
      (int (length P) + int new) (int (length P) + int (length F)) (int (length S)) = Inr (P @ X @ S)
    \<and> length X = new"
proof -
  let ?d = "realloc_to (P @ F @ S) (length P + new + length S)"
  have d: "?d = P @ F @ S @ replicate (new - length F) 0" using assms by (simp add: realloc_to_def)
  have "memmove_within ?d (int (length P) + int new) (int (length P) + int (length F)) (int (length S))
      = Inr (take (length P + new) ?d @ S @ drop (length P + new + length S) ?d)"
    by (rule memmove_within_at[where s = "length P + length F"]) (use assms in \<open>auto simp: d\<close>)
  moreover have "drop (length P + new + length S) ?d = []" using assms by (simp add: d)
  moreover have "take (length P + new) ?d = P @ take new (drop (length P) ?d)" by (simp add: d)
  moreover have "length (take new (drop (length P) ?d)) = new" using assms by (simp add: d)
  ultimately show ?thesis by (metis append_Nil2 append_assoc)
qed

lemma enc_parts_cong:
  assumes "no g = no f"
  shows "enc_before rmp as g bs = enc_before rmp as f bs" "enc_middle rmp as g bs = enc_middle rmp as f bs"
    "enc_after rmp g bs = enc_after rmp f bs" "flen g = flen f \<Longrightarrow> enc_entry rmp g = enc_entry rmp f"
  using assms by (auto simp: enc_before_def enc_middle_def enc_after_def enc_entry_def)

lemma write_field_and_length:
  assumes var: "is_var rmp (no g)" and len: "length X = flen g" "length (field_bytes g) = flen g"
    and offs: "offs = int (length (enc_before rmp as g bs))"
    and n: "n = length (var_fields rmp (as @ g # bs))" and e: "length e = 4"
  shows "rbind
      (write_at (enc_before rmp as g bs @ X @ enc_middle rmp as g bs @ e @ enc_after rmp g bs)
         (int (length (enc_before rmp as g bs @ X @ enc_middle rmp as g bs @ e @ enc_after rmp g bs))
          - int (n * RECLEN_SIZE) + int (length (var_fields rmp as) * RECLEN_SIZE)) (set_len (flen g)))
      (\<lambda>d4. rbind (write_at d4 offs (field_bytes g)) (\<lambda>d5. Inr (RDB_OK, d5)))
    = Inr (RDB_OK, encode rmp (as @ g # bs))"
proof -
  let ?P = "enc_before rmp as g bs" and ?M = "enc_middle rmp as g bs" and ?A = "enc_after rmp g bs"
  have pos: "int (length (?P @ X @ ?M @ e @ ?A)) - int (n * RECLEN_SIZE)
      + int (length (var_fields rmp as) * RECLEN_SIZE) = int (length (?P @ X @ ?M))"
    using var n e by (simp add: RECLEN_SIZE_def enc_after_def)
  have "write_at (?P @ X @ ?M @ e @ ?A)
      (int (length (?P @ X @ ?M @ e @ ?A)) - int (n * RECLEN_SIZE)
       + int (length (var_fields rmp as) * RECLEN_SIZE)) (set_len (flen g))
      = Inr (?P @ X @ ?M @ set_len (flen g) @ ?A)"
    using write_at_append[OF pos, of e "set_len (flen g)" ?A] e by simp
  moreover have "write_at (?P @ X @ ?M @ set_len (flen g) @ ?A) offs (field_bytes g)
      = Inr (encode rmp (as @ g # bs))"
    using write_at_append[of offs ?P X "field_bytes g"] len offs var
    unfolding encode_at by (simp add: enc_entry_def)
  ultimately show ?thesis by simp
qed

lemma set_field_encode:
  assumes ok: "recmap_ok rmp" "rec_ok rmp (as @ f # bs)" "field_ok rmp g"
    and nos: "no g = no f" "map no (as @ f # bs) = [a ..< b]"
    and sect: "a = 0 \<and> b = keyfieldcount rmp \<or> a = keyfieldcount rmp \<and> b = fieldcount rmp"
    and n: "n = length (var_fields rmp (as @ f # bs))"
    and run: "RDB_set_field_mem rmp (encode rmp (as @ f # bs)) g n m = (r, m')"
  shows "r = Inr (RDB_OK, encode rmp (as @ g # bs)) \<or> (\<exists>d. r = Inr (ENOMEM, d)) \<and> fails m \<noteq> []"
proof -
  let ?P = "enc_before rmp as f bs" and ?F = "field_bytes f"
  let ?S = "enc_middle rmp as f bs @ enc_entry rmp f @ enc_after rmp f bs"
  note cong = enc_parts_cong[OF nos(1)]
  have d: "encode rmp (as @ f # bs) = ?P @ ?F @ ?S" by (rule encode_at)
  have lens: "\<forall>f \<in> set (as @ bs). length (field_bytes f) = flen f" "length ?F = flen f"
    "length (field_bytes g) = flen g"
    using ok by (auto simp: rec_ok_def field_ok_def)
  have P: "field_start rmp as f bs = length ?P" using length_enc_before[OF lens(1)] by simp
  note get = get_field_at[OF ok(1,2) refl nos(2) sect, folded nos(1)]
  show ?thesis
  proof (cases "flen g = flen f")
    case True
    have "write_at (?P @ ?F @ ?S) (int (length ?P)) (field_bytes g) = Inr (?P @ field_bytes g @ ?S)"
      using lens True by (intro write_at_append) auto
    moreover have "?P @ field_bytes g @ ?S = encode rmp (as @ g # bs)"
      using cong(1-3) cong(4)[OF True] by (simp add: encode_at)
    ultimately show ?thesis using run True get by (simp add: RDB_set_field_mem_def P d)
  next
    case False
    have var: "is_var rmp (no f)" using ok False nos by (auto simp: rec_ok_def field_ok_def)
    then have e: "length (enc_entry rmp f) = 4" by (simp add: enc_entry_def)
    then have S: "?S \<noteq> []" by auto
    have fin: "length X = flen g \<Longrightarrow>
      rbind (write_at (?P @ X @ ?S)
          (int (length (?P @ X @ ?S)) - int (n * RECLEN_SIZE) + int (length (var_fields rmp as) * RECLEN_SIZE))
          (set_len (flen g)))
        (\<lambda>d4. rbind (write_at d4 (int (length ?P)) (field_bytes g)) (\<lambda>d5. Inr (RDB_OK, d5)))
      = Inr (RDB_OK, encode rmp (as @ g # bs))" for X
      using write_field_and_length[of rmp g X "int (length ?P)" as bs n "enc_entry rmp f"]
        var nos lens n e cong by simp
    have n_eq: "int (length (?P @ ?F @ ?S)) - int (length ?P) - int (flen f) = int (length ?S)"
      using lens by simp
    have size_eq: "nat (int (length (?P @ ?F @ ?S)) + int (flen g) - int (flen f))
        = length ?P + flen g + length ?S"
      using lens by simp
    show ?thesis
    proof (cases "flen g < flen f")
      case True
      obtain d1 X where "memmove_within (?P @ ?F @ ?S) (int (length ?P) + int (flen g))
          (int (length ?P) + int (flen f)) (int (length ?S)) = Inr d1" "length X = flen g"
        "realloc_to d1 (length ?P + flen g + length ?S) = ?P @ X @ ?S"
        using shrink_field[of "flen g" ?F ?S ?P] True S lens(2) by auto
      then show ?thesis using run True get var fin[of X] n_eq size_eq
        unfolding RDB_set_field_mem_def d P Let_def
        by (cases "malloc m"; cases "fst (malloc m)") (auto simp: malloc_ok table_pos_def)
    next
      case False2: False
      then have grow: "flen f < flen g" using False by simp
      obtain X where "memmove_within (realloc_to (?P @ ?F @ ?S) (length ?P + flen g + length ?S))
          (int (length ?P) + int (flen g)) (int (length ?P) + int (flen f)) (int (length ?S))
          = Inr (?P @ X @ ?S)" "length X = flen g"
        using grow_field[of ?F "flen g" ?S ?P] grow S lens(2) by auto
      then show ?thesis using run grow get var fin[of X] n_eq size_eq
        unfolding RDB_set_field_mem_def d P Let_def
        by (cases "malloc m"; cases "fst (malloc m)") (auto simp: malloc_ok table_pos_def)
    qed
  qed
qed

section \<open>Properties\<close>

text \<open>
  C22: every field of a key or of the data part of a record can be read back from the block
  \<^verbatim>\<open>RDB_fields_to_mem\<close> makes: with its length, and with its bytes at the offset returned.
\<close>

theorem field_round_trip:
  assumes "recmap_ok rmp" "key_rec rmp fs \<or> data_rec rmp fs" "f \<in> set fs"
    and "RDB_fields_to_mem rmp fs m = (Inr (Inr d), m')"
  shows "\<exists>offs vpos. RDB_get_field rmp (no f) d = Inr (Inr (int offs, flen f, vpos))
    \<and> read_at d (int offs) (flen f) = Inr (field_bytes f)"
proof -
  have "rec_ok rmp fs" using assms(2) by (auto simp: key_rec_def data_rec_def)
  then have "d = encode rmp fs" using fields_to_mem_encodes[OF _ assms(4)] by auto
  then show ?thesis using get_field_encode[OF assms(1-3)] by blast
qed

text \<open>A key of one byte, and two data fields of which the first one has variable length.\<close>

definition two_fields :: recmap where
  "two_fields = \<lparr>namp = None, filenamp = None, fieldcount = 3, keyfieldcount = 1,
     fieldinfos = [\<lparr>fi_len = 1, fi_attrname = None, fi_flags = 0\<rparr>,
       \<lparr>fi_len = RDB_VARIABLE_LEN, fi_attrname = None, fi_flags = 0\<rparr>, \<lparr>fi_len = 1, fi_attrname = None, fi_flags = 0\<rparr>],
     varkeyfieldcount = 0, vardatafieldcount = 1, cmpv = [], dup_keys = False, delayed_deletion = False\<rparr>"

definition bytes_field :: "nat \<Rightarrow> bytes \<Rightarrow> rdb_field" where
  "bytes_field i b = \<lparr>no = i, datap = b, flen = length b, copyfp = memcpy\<rparr>"

lemma two_fields_ok: "recmap_ok two_fields"
  "length b < 1000 \<Longrightarrow> data_rec two_fields [bytes_field 1 b, bytes_field 2 [c]]"
  by (simp_all add: recmap_ok_def data_rec_def rec_ok_def field_ok_def two_fields_def bytes_field_def memcpy_def
      is_var_def rec_size_def var_fields_def count_var_def RDB_VARIABLE_LEN_def RECLEN_SIZE_def
      upt_rec)

lemma set_len_small [simp]: "set_len (Suc (Suc 0)) = [2, 0, 0, 0]" "set_len (Suc (Suc (Suc 0))) = [3, 0, 0, 0]" "set_len (Suc (Suc (Suc (Suc (Suc 0))))) = [5, 0, 0, 0]"
proof -
  have "set_len 2 = [2, 0, 0, 0]" "set_len 3 = [3, 0, 0, 0]" "set_len 5 = [5, 0, 0, 0]" by (simp_all add: set_len_def)
  then show "set_len (Suc (Suc 0)) = [2, 0, 0, 0]" "set_len (Suc (Suc (Suc 0))) = [3, 0, 0, 0]" "set_len (Suc (Suc (Suc (Suc (Suc 0))))) = [5, 0, 0, 0]"
    by (simp_all add: numeral_eq_Suc)
qed

lemma two_fields_run:
  "fst (RDB_fields_to_mem two_fields [bytes_field 1 [7, 8, 9], bytes_field 2 [5]] mem_ok)
     = Inr (Inr [5, 7, 8, 9, 3, 0, 0, 0])"
  by (simp add: RDB_fields_to_mem_def two_fields_def bytes_field_def is_var_def malloc_if_def malloc_def mem_ok_def
      Let_def write_at_def memcpy_def RECLEN_SIZE_def RDB_VARIABLE_LEN_def set_len_small to_int_def)

theorem field_round_trip_witness:
  "\<exists>offs vpos. RDB_get_field two_fields 1 [5, 7, 8, 9, 3, 0, 0, 0] = Inr (Inr (int offs, 3, vpos))
     \<and> read_at ([5, 7, 8, 9, 3, 0, 0, 0] :: bytes) (int offs) 3 = Inr [7, 8, 9]"
proof -
  let ?fs = "[bytes_field 1 [7, 8, 9], bytes_field 2 [5]]"
  obtain m where run: "RDB_fields_to_mem two_fields ?fs mem_ok = (Inr (Inr [5, 7, 8, 9, 3, 0, 0, 0]), m)"
    using two_fields_run by (metis prod.collapse)
  show ?thesis
    using field_round_trip[OF two_fields_ok(1) _ _ run, of "bytes_field 1 [7, 8, 9]"] two_fields_ok(2)[of "[7, 8, 9]" 5]
    by (simp add: bytes_field_def memcpy_def numeral_3_eq_3)
qed



text \<open>
  When there is no memory for a shrinking field, the block has already been changed: here the
  value of three bytes is lost, the field reads as an empty one afterwards.
\<close>

theorem set_field_shrink_corrupts:
  "fst (RDB_set_field_mem two_fields [5, 7, 8, 9, 3, 0, 0, 0] (bytes_field 1 [1]) 1 \<lparr>fails = [True], next_addr = 1\<rparr>)
     = Inr (ENOMEM, [5, 7, 3, 0, 0, 0, 0, 0])
   \<and> RDB_get_field two_fields 1 [5, 7, 8, 9, 3, 0, 0, 0] = Inr (Inr (1, 3, Some 0))
   \<and> RDB_get_field two_fields 1 [5, 7, 3, 0, 0, 0, 0, 0] = Inr (Inr (1, 0, Some 0))"
  by code_simp

text \<open>The length stored for a field is read back unless it is \<open>2 ^ 31\<close> bytes or more.\<close>

theorem length_round_trip:
  assumes "n < 2 ^ 31"
  shows "get_len (set_len n) = n"
  using assms by (rule get_len_set_len)

theorem length_round_trip_witness: "get_len (set_len 70000) = 70000"
  by (rule length_round_trip) simp

text \<open>A length of \<open>2 ^ 31\<close> is read back with its sign bits extended to 64 bits.\<close>

theorem length_sign_extended: "get_len (set_len (2 ^ 31)) = 2 ^ 64 - 2 ^ 31"
  by (simp add: get_len_def set_len_def)

end
