(* ===== verification/Tree_Recmap.thy ===== *)
theory Tree_Recmap
  imports Avl_Tree Record_Fields
begin

text \<open>
  Record maps kept in a balanced tree: \<^verbatim>\<open>treerec/treerecmap.c\<close>, and the part of
  \<^verbatim>\<open>treerec/treeindex.c\<close> that orders the entries of an index.  A function that fails may
  already have changed the map, so the map is part of every result.
\<close>

section \<open>The map and its indexes\<close>

record tree_index =
  ix_fieldv :: "nat list"
  ix_cmpv :: "compare_field list option"
  ix_treep :: binary_tree

record tree_recmap =
  desc :: recmap
  treep :: binary_tree
  indexes :: "tree_index list"

section \<open>Comparing keys\<close>

text \<open>A negative return value of a function that returns an offset or an error code.\<close>

fun code_int :: "errcode \<Rightarrow> int" where
  "code_int RDB_OK = 0"
| "code_int ENOENT = 2"
| "code_int ENOMEM = 12"
| "code_int EINVAL = 22"
| "code_int RDB_RECORD_CORRUPTED = -202"
| "code_int (Errno n) = n"

fun compare_fields :: "recmap \<Rightarrow> compare_field list \<Rightarrow> bytes \<Rightarrow> bytes \<Rightarrow> int result" where
  "compare_fields rmp [] d1 d2 = Inr 0"
| "compare_fields rmp (c # cs) d1 d2 =
     rbind (RDB_get_field rmp (cf_fno c) d1)
       (\<lambda>g1. case g1 of Inl e \<Rightarrow> Inr (code_int e) | Inr (offs1, len1, vp1) \<Rightarrow>
     rbind (RDB_get_field rmp (cf_fno c) d2)
       (\<lambda>g2. case g2 of Inl e \<Rightarrow> Inr (code_int e) | Inr (offs2, len2, vp2) \<Rightarrow>
     rbind (read_at d1 offs1 len1) (\<lambda>b1.
     rbind (read_at d2 offs2 len2) (\<lambda>b2.
       let res = comparep c b1 b2 in
       if res \<noteq> 0 then Inr (if \<not> cf_asc c then - res else res)
       else compare_fields rmp cs d1 d2))))"

definition recmap_compare_key :: "recmap \<Rightarrow> bytes \<Rightarrow> bytes \<Rightarrow> int result" where
  "recmap_compare_key rmp d1 d2 =
     rbind (compare_fields rmp (cmpv rmp) d1 d2)
       (\<lambda>res. if res \<noteq> 0 then Inr res
          else if length (cmpv rmp) = fieldcount rmp then Inr 0
          else
            (let res = memcmp d1 d2 (if length d1 \<le> length d2 then length d1 else length d2) in
             Inr (if res \<noteq> 0 then res else abs_size_diff (length d1) (length d2))))"

text \<open>
  The function pointer with its argument, as the tree calls it.  On the keys of a map it
  never faults (\<open>compare_fields_encode\<close>), so the value for a fault is of no account.
\<close>

definition recmap_comparison :: "recmap \<Rightarrow> comparison_func" where
  "recmap_comparison rmp d1 d2 = (case recmap_compare_key rmp d1 d2 of Inr x \<Rightarrow> x | Inl _ \<Rightarrow> 0)"

section \<open>Creating a map\<close>

definition RDB_create_tree_recmap ::
  "field_info list \<Rightarrow> nat \<Rightarrow> compare_field list \<Rightarrow> int \<Rightarrow> mem \<Rightarrow> tree_recmap result \<times> mem" where
  "RDB_create_tree_recmap fieldinfov keyfieldc cmpv' flags m =
     (case RDB_new_recmap None None fieldinfov keyfieldc flags m of
        (Inl e, m1) \<Rightarrow> (Inl e, m1)
      | (Inr rmp, m1) \<Rightarrow>
     (let rmp' = rmp\<lparr>cmpv := cmpv'\<rparr> in
      case RDB_create_tree (Some (recmap_comparison rmp')) m1 of
        (Inl e, m2) \<Rightarrow> (Inl e, m2)
      | (Inr tr, m2) \<Rightarrow>
     (case malloc_if (length cmpv' > 0) m2 of (ok, m3) \<Rightarrow>
        if \<not> ok then (raise_err NO_MEMORY_ERROR '''', m3)
        else if flags mod 2 = 0 then (raise_err NOT_SUPPORTED_ERROR ''RDB_UNIQUE is required'', m3)
        else (Inr \<lparr>desc = rmp', treep = tr, indexes = []\<rparr>, m3))))"

section \<open>Keys and values in memory\<close>

fun number_fields :: "nat \<Rightarrow> rdb_field list \<Rightarrow> rdb_field list" where
  "number_fields i [] = []"
| "number_fields i (f # fs) = f\<lparr>no := i\<rparr> # number_fields (Suc i) fs"

definition key_to_mem :: "recmap \<Rightarrow> rdb_field list \<Rightarrow> mem \<Rightarrow> (errcode + bytes) result \<times> mem" where
  "key_to_mem rmp fldv m =
     (if length fldv < keyfieldcount rmp then (Inl Segfault, m)
      else RDB_fields_to_mem rmp (number_fields 0 (take (keyfieldcount rmp) fldv)) m)"

definition value_to_mem :: "recmap \<Rightarrow> rdb_field list \<Rightarrow> mem \<Rightarrow> (errcode + bytes) result \<times> mem" where
  "value_to_mem rmp fldv m =
     (if length fldv < fieldcount rmp then (Inl Segfault, m)
      else RDB_fields_to_mem rmp
             (number_fields (keyfieldcount rmp)
                (take (fieldcount rmp - keyfieldcount rmp) (drop (keyfieldcount rmp) fldv))) m)"

definition index_field :: "nat \<Rightarrow> rdb_field" where
  "index_field i = \<lparr>no = i, datap = [], flen = 0, copyfp = memcpy\<rparr>"

definition RDB_make_skey ::
  "recmap \<Rightarrow> tree_index \<Rightarrow> bytes \<Rightarrow> bytes \<Rightarrow> mem \<Rightarrow> (errcode + bytes) result \<times> mem" where
  "RDB_make_skey rmp ixp key val m =
     (case malloc m of
        (None, m1) \<Rightarrow> (Inr (Inl ENOMEM), m1)
      | (Some _, m1) \<Rightarrow>
          (case RDB_get_mem_fields rmp key val (map index_field (ix_fieldv ixp)) of
             Inl e \<Rightarrow> (Inl e, m1)
           | Inr (c, fieldv) \<Rightarrow>
               if c \<noteq> RDB_OK then (Inr (Inl c), m1) else RDB_fields_to_mem rmp fieldv m1))"

section \<open>Keeping the indexes\<close>

fun check_in_indexes ::
  "recmap \<Rightarrow> tree_index list \<Rightarrow> bytes \<Rightarrow> bytes \<Rightarrow> mem \<Rightarrow> unit result \<times> mem" where
  "check_in_indexes rmp [] key val m = (Inr (), m)"
| "check_in_indexes rmp (ixp # ixs) key val m =
     (case RDB_make_skey rmp ixp key val m of
        (Inl e, m1) \<Rightarrow> (Inl e, m1)
      | (Inr (Inl c), m1) \<Rightarrow> (RDB_errcode_to_error c, m1)
      | (Inr (Inr skey), m1) \<Rightarrow>
          if RDB_tree_find (ix_treep ixp) skey \<noteq> Null then (raise_err KEY_VIOLATION_ERROR '''', m1)
          else check_in_indexes rmp ixs key val m1)"

text \<open>The indexes before the one at which the loop stops are already changed.\<close>

fun insert_into_indexes ::
  "recmap \<Rightarrow> tree_index list \<Rightarrow> bytes \<Rightarrow> bytes \<Rightarrow> mem \<Rightarrow> unit result \<times> tree_index list \<times> mem" where
  "insert_into_indexes rmp [] key val m = (Inr (), [], m)"
| "insert_into_indexes rmp (ixp # ixs) key val m =
     (case RDB_make_skey rmp ixp key val m of
        (Inl e, m1) \<Rightarrow> (Inl e, ixp # ixs, m1)
      | (Inr (Inl c), m1) \<Rightarrow> (RDB_errcode_to_error c, ixp # ixs, m1)
      | (Inr (Inr skey), m1) \<Rightarrow>
     (case malloc m1 of
        (None, m2) \<Rightarrow> (raise_err NO_MEMORY_ERROR '''', ixp # ixs, m2)
      | (Some _, m2) \<Rightarrow>
     (case RDB_tree_insert (ix_treep ixp) skey key m2 of
        (Inl e, m3) \<Rightarrow> (Inl e, ixp # ixs, m3)
      | (Inr (tr, a), m3) \<Rightarrow>
          (case insert_into_indexes rmp ixs key val m3 of
             (r, ixs', m4) \<Rightarrow> (r, ixp\<lparr>ix_treep := tr\<rparr> # ixs', m4)))))"

fun delete_from_indexes ::
  "recmap \<Rightarrow> tree_index list \<Rightarrow> bytes \<Rightarrow> bytes \<Rightarrow> mem \<Rightarrow> unit result \<times> tree_index list \<times> mem" where
  "delete_from_indexes rmp [] key val m = (Inr (), [], m)"
| "delete_from_indexes rmp (ixp # ixs) key val m =
     (case RDB_make_skey rmp ixp key val m of
        (Inl e, m1) \<Rightarrow> (Inl e, ixp # ixs, m1)
      | (Inr (Inl c), m1) \<Rightarrow> (RDB_errcode_to_error c, ixp # ixs, m1)
      | (Inr (Inr skey), m1) \<Rightarrow>
     (case RDB_tree_delete_node (ix_treep ixp) skey of
        Inl e \<Rightarrow> (Inl e, ixp # ixs, m1)
      | Inr tr \<Rightarrow>
          (case delete_from_indexes rmp ixs key val m1 of
             (r, ixs', m2) \<Rightarrow> (r, ixp\<lparr>ix_treep := tr\<rparr> # ixs', m2))))"

definition RDB_delete_from_tree_indexes ::
  "tree_recmap \<Rightarrow> tree \<Rightarrow> mem \<Rightarrow> unit result \<times> tree_recmap \<times> mem" where
  "RDB_delete_from_tree_indexes rm nodep m =
     (case delete_from_indexes (desc rm) (indexes rm) (nkey nodep) (nvalue nodep) m of
        (r, ixs, m') \<Rightarrow> (r, rm\<lparr>indexes := ixs\<rparr>, m'))"

section \<open>Deleting and inserting records\<close>

definition delete_tree_node :: "tree_recmap \<Rightarrow> bytes \<Rightarrow> unit result \<times> tree_recmap" where
  "delete_tree_node rm key =
     (case RDB_tree_delete_node (treep rm) key of
        Inl e \<Rightarrow> (Inl e, rm)
      | Inr tr \<Rightarrow> (Inr (), rm\<lparr>treep := tr\<rparr>))"

definition delete_tree_rec_by_key ::
  "tree_recmap \<Rightarrow> bytes \<Rightarrow> mem \<Rightarrow> unit result \<times> tree_recmap \<times> mem" where
  "delete_tree_rec_by_key rm key m =
     (let nodep = RDB_tree_find (treep rm) key in
      if indexes rm \<noteq> [] \<and> nodep \<noteq> Null then
        (case RDB_delete_from_tree_indexes rm nodep m of
           (Inl e, rm', m') \<Rightarrow> (Inl e, rm', m')
         | (Inr _, rm', m') \<Rightarrow>
             (case delete_tree_node rm' key of (r, rm'') \<Rightarrow> (r, rm'', m')))
      else (case delete_tree_node rm key of (r, rm'') \<Rightarrow> (r, rm'', m)))"

text \<open>
  The flag tells whether the blocks of the key and the value had been handed over to a
  tree node when the call failed; the node, and the blocks with it, are then deleted again
  (or, if that fails, stay in the tree).
\<close>

definition insert_tree_rec_kv ::
  "tree_recmap \<Rightarrow> bytes \<Rightarrow> bytes \<Rightarrow> mem \<Rightarrow> unit result \<times> bool \<times> tree_recmap \<times> mem" where
  "insert_tree_rec_kv rm key val m =
     (case check_in_indexes (desc rm) (indexes rm) key val m of
        (Inl e, m1) \<Rightarrow> (Inl e, False, rm, m1)
      | (Inr _, m1) \<Rightarrow>
     (case RDB_tree_insert (treep rm) key val m1 of
        (Inl e, m2) \<Rightarrow> (Inl e, False, rm, m2)
      | (Inr (tr, a), m2) \<Rightarrow>
     (case insert_into_indexes (desc rm) (indexes rm) key val m2 of
        (Inr _, ixs, m3) \<Rightarrow> (Inr (), True, rm\<lparr>treep := tr, indexes := ixs\<rparr>, m3)
      | (Inl (Raised e), ixs, m3) \<Rightarrow>
          (case delete_tree_rec_by_key (rm\<lparr>treep := tr, indexes := ixs\<rparr>) key m3 of
             (Inl e', rm', m4) \<Rightarrow> (Inl e', True, rm', m4)
           | (Inr _, rm', m4) \<Rightarrow> (Inl (Raised e), True, rm', m4))
      | (Inl e, ixs, m3) \<Rightarrow> (Inl e, True, rm\<lparr>treep := tr, indexes := ixs\<rparr>, m3))))"

text \<open>
  A key or value block is not empty exactly if it was allocated; freeing one that a tree
  node has taken over is undefined.
\<close>

definition RDB_insert_tree_rec ::
  "tree_recmap \<Rightarrow> rdb_field list \<Rightarrow> mem \<Rightarrow> unit result \<times> tree_recmap \<times> mem" where
  "RDB_insert_tree_rec rm flds m =
     (case key_to_mem (desc rm) flds m of
        (Inl e, m1) \<Rightarrow> (Inl e, rm, m1)
      | (Inr (Inl c), m1) \<Rightarrow> (RDB_errcode_to_error c, rm, m1)
      | (Inr (Inr key), m1) \<Rightarrow>
     (case value_to_mem (desc rm) flds m1 of
        (Inl e, m2) \<Rightarrow> (Inl e, rm, m2)
      | (Inr (Inl c), m2) \<Rightarrow> (RDB_errcode_to_error c, rm, m2)
      | (Inr (Inr val), m2) \<Rightarrow>
     (case insert_tree_rec_kv rm key val m2 of
        (Inr _, handed, rm', m3) \<Rightarrow> (Inr (), rm', m3)
      | (Inl e, handed, rm', m3) \<Rightarrow>
          (if handed \<and> (key \<noteq> [] \<or> val \<noteq> []) then Inl Segfault else Inl e, rm', m3))))"

definition RDB_delete_tree_rec ::
  "tree_recmap \<Rightarrow> rdb_field list \<Rightarrow> mem \<Rightarrow> unit result \<times> tree_recmap \<times> mem" where
  "RDB_delete_tree_rec rm keyv m =
     (case key_to_mem (desc rm) keyv m of
        (Inl e, m1) \<Rightarrow> (Inl e, rm, m1)
      | (Inr (Inl c), m1) \<Rightarrow> (RDB_errcode_to_error c, rm, m1)
      | (Inr (Inr key), m1) \<Rightarrow> delete_tree_rec_by_key rm key m1)"

section \<open>Updating records\<close>

definition RDB_recmap_is_key_update :: "tree_recmap \<Rightarrow> rdb_field list \<Rightarrow> bool" where
  "RDB_recmap_is_key_update rm fieldv =
     (\<exists>f \<in> set fieldv. no f < keyfieldcount (desc rm)
        \<or> (\<exists>ixp \<in> set (indexes rm). no f \<in> set (ix_fieldv ixp)))"

text \<open>Assignment to the value of the node at address \<open>a\<close>.\<close>

fun write_value :: "nat \<Rightarrow> bytes \<Rightarrow> tree \<Rightarrow> tree" where
  "write_value a v' Null = Null"
| "write_value a v' (Node i p b k v l r) =
     Node i p b k (if i = a then v' else v) (write_value a v' l) (write_value a v' r)"

text \<open>
  The loops that set the given fields; the first one changes the key block or the value
  block, the second one the value only.  The code of the failing call is returned with the
  blocks as they are then.
\<close>

fun set_fields_kv ::
  "recmap \<Rightarrow> bytes \<Rightarrow> bytes \<Rightarrow> rdb_field list \<Rightarrow> mem \<Rightarrow> (errcode \<times> bytes \<times> bytes) result \<times> mem" where
  "set_fields_kv rmp key val [] m = (Inr (RDB_OK, key, val), m)"
| "set_fields_kv rmp key val (f # fs) m =
     (if no f < keyfieldcount rmp then
        (case RDB_set_field_mem rmp key f (varkeyfieldcount rmp) m of
           (Inl e, m1) \<Rightarrow> (Inl e, m1)
         | (Inr (c, key'), m1) \<Rightarrow>
             if c \<noteq> RDB_OK then (Inr (c, key', val), m1) else set_fields_kv rmp key' val fs m1)
      else
        (case RDB_set_field_mem rmp val f (vardatafieldcount rmp) m of
           (Inl e, m1) \<Rightarrow> (Inl e, m1)
         | (Inr (c, val'), m1) \<Rightarrow>
             if c \<noteq> RDB_OK then (Inr (c, key, val'), m1) else set_fields_kv rmp key val' fs m1))"

fun set_value_fields ::
  "recmap \<Rightarrow> bytes \<Rightarrow> rdb_field list \<Rightarrow> mem \<Rightarrow> (errcode \<times> bytes) result \<times> mem" where
  "set_value_fields rmp val [] m = (Inr (RDB_OK, val), m)"
| "set_value_fields rmp val (f # fs) m =
     (case RDB_set_field_mem rmp val f (vardatafieldcount rmp) m of
        (Inl e, m1) \<Rightarrow> (Inl e, m1)
      | (Inr (c, val'), m1) \<Rightarrow>
          if c \<noteq> RDB_OK then (Inr (c, val'), m1) else set_value_fields rmp val' fs m1)"

text \<open>
  The last part of an update that has deleted the record: the changed record is inserted, or
  else, if that violates a key, the old one (\<open>key2\<close>, \<open>val2\<close>) again.  Blocks that were
  handed over to a node are freed once more on the error path.
\<close>

definition reinsert ::
  "tree_recmap \<Rightarrow> bytes \<Rightarrow> bytes \<Rightarrow> bytes \<Rightarrow> bytes \<Rightarrow> mem \<Rightarrow> unit result \<times> tree_recmap \<times> mem" where
  "reinsert rm key val key2 val2 m =
     (case insert_tree_rec_kv rm key val m of
        (Inr _, handed, rm1, m1) \<Rightarrow> (Inr (), rm1, m1)
      | (Inl e, handed, rm1, m1) \<Rightarrow>
          (case (if has_type KEY_VIOLATION_ERROR e
                 then insert_tree_rec_kv rm1 key2 val2 m1
                 else (Inl e, False, rm1, m1)) of
             (r, handed2, rm2, m2) \<Rightarrow>
               (if handed \<and> (key \<noteq> [] \<or> val \<noteq> [])
                   \<or> handed2 \<and> failed r \<and> (key2 \<noteq> [] \<or> val2 \<noteq> [])
                then Inl Segfault
                else (case r of Inl e' \<Rightarrow> Inl e' | Inr _ \<Rightarrow> Inl e), rm2, m2)))"

definition delete_update_reinsert_tree_node ::
  "tree_recmap \<Rightarrow> tree \<Rightarrow> rdb_field list \<Rightarrow> mem \<Rightarrow> unit result \<times> tree_recmap \<times> mem" where
  "delete_update_reinsert_tree_node rm nodep fieldv m =
     (let key = nkey nodep; val = nvalue nodep in
      case malloc_if (key \<noteq> []) m of (ok1, m1) \<Rightarrow>
      if \<not> ok1 then (raise_err NO_MEMORY_ERROR '''', rm, m1) else
      case malloc_if (val \<noteq> []) m1 of (ok2, m2) \<Rightarrow>
      if \<not> ok2 then (raise_err NO_MEMORY_ERROR '''', rm, m2) else
      case delete_tree_rec_by_key rm key m2 of
        (Inl e, rm1, m3) \<Rightarrow> (Inl e, rm1, m3)
      | (Inr _, rm1, m3) \<Rightarrow>
      (case malloc_if (key \<noteq> []) m3 of (ok3, m4) \<Rightarrow>
      if \<not> ok3 then (raise_err NO_MEMORY_ERROR '''', rm1, m4) else
      case malloc_if (val \<noteq> []) m4 of (ok4, m5) \<Rightarrow>
      if \<not> ok4 then (raise_err NO_MEMORY_ERROR '''', rm1, m5) else
      case set_fields_kv (desc rm1) key val fieldv m5 of
        (Inl e, m6) \<Rightarrow> (Inl e, rm1, m6)
      | (Inr (c, key', val'), m6) \<Rightarrow>
          if c \<noteq> RDB_OK then (raise_err NO_MEMORY_ERROR '''', rm1, m6) else
          reinsert rm1 key' val' key val m6))"

definition RDB_update_tree_node ::
  "tree_recmap \<Rightarrow> tree \<Rightarrow> rdb_field list \<Rightarrow> mem \<Rightarrow> unit result \<times> tree_recmap \<times> mem" where
  "RDB_update_tree_node rm nodep fieldv m =
     (if RDB_recmap_is_key_update rm fieldv then delete_update_reinsert_tree_node rm nodep fieldv m
      else
        (case set_value_fields (desc rm) (nvalue nodep) fieldv m of
           (Inl e, m1) \<Rightarrow> (Inl e, rm, m1)
         | (Inr (c, val'), m1) \<Rightarrow>
             (if c \<noteq> RDB_OK then RDB_errcode_to_error c else Inr (),
              rm\<lparr>treep := (treep rm)\<lparr>root := write_value (nid nodep) val' (root (treep rm))\<rparr>\<rparr>, m1)))"

definition RDB_update_tree_rec ::
  "tree_recmap \<Rightarrow> rdb_field list \<Rightarrow> rdb_field list \<Rightarrow> mem \<Rightarrow> unit result \<times> tree_recmap \<times> mem" where
  "RDB_update_tree_rec rm keyv fieldv m =
     (case key_to_mem (desc rm) keyv m of
        (Inl e, m1) \<Rightarrow> (Inl e, rm, m1)
      | (Inr (Inl c), m1) \<Rightarrow> (RDB_errcode_to_error c, rm, m1)
      | (Inr (Inr key), m1) \<Rightarrow>
          (let nodep = RDB_tree_find (treep rm) key in
           if nodep = Null then (raise_err NOT_FOUND_ERROR '''', rm, m1)
           else RDB_update_tree_node rm nodep fieldv m1))"

section \<open>Reading records\<close>

definition RDB_get_tree_fields ::
  "tree_recmap \<Rightarrow> rdb_field list \<Rightarrow> rdb_field list \<Rightarrow> mem \<Rightarrow> rdb_field list result \<times> mem" where
  "RDB_get_tree_fields rm keyv retfieldv m =
     (case key_to_mem (desc rm) keyv m of
        (Inl e, m1) \<Rightarrow> (Inl e, m1)
      | (Inr (Inl c), m1) \<Rightarrow> (RDB_errcode_to_error c, m1)
      | (Inr (Inr key), m1) \<Rightarrow>
          (let nodep = RDB_tree_find (treep rm) key in
           if nodep = Null then (raise_err NOT_FOUND_ERROR '''', m1)
           else
             (case RDB_get_mem_fields (desc rm) key (nvalue nodep) retfieldv of
                Inl e \<Rightarrow> (Inl e, m1)
              | Inr (c, fs) \<Rightarrow> (if c \<noteq> RDB_OK then RDB_errcode_to_error c else Inr fs, m1))))"

definition RDB_contains_tree_rec ::
  "tree_recmap \<Rightarrow> rdb_field list \<Rightarrow> mem \<Rightarrow> unit result \<times> mem" where
  "RDB_contains_tree_rec rm flds m =
     (case key_to_mem (desc rm) flds m of
        (Inl e, m1) \<Rightarrow> (Inl e, m1)
      | (Inr (Inl c), m1) \<Rightarrow> (RDB_errcode_to_error c, m1)
      | (Inr (Inr key), m1) \<Rightarrow>
          (let nodep = RDB_tree_find (treep rm) key in
           if nodep = Null then (raise_err NOT_FOUND_ERROR '''', m1)
           else
             (case value_to_mem (desc rm) flds m1 of
                (Inl e, m2) \<Rightarrow> (Inl e, m2)
              | (Inr (Inl c), m2) \<Rightarrow> (RDB_errcode_to_error c, m2)
              | (Inr (Inr value2), m2) \<Rightarrow>
                  if length (nvalue nodep) \<noteq> length value2 then (raise_err NOT_FOUND_ERROR '''', m2)
                  else if memcmp (nvalue nodep) value2 (length (nvalue nodep)) \<noteq> 0
                  then (raise_err NOT_FOUND_ERROR '''', m2)
                  else (Inr (), m2))))"

definition RDB_tree_recmap_est_size :: "tree_recmap \<Rightarrow> nat" where
  "RDB_tree_recmap_est_size rm = 1"

section \<open>Memory\<close>

lemma malloc_if_mem: "malloc_if b m = (ok, m') \<Longrightarrow> mem_le m m' \<and> (\<not> ok \<longrightarrow> fails m \<noteq> [])"
  by (auto simp: malloc_if_def malloc_mem_le malloc_None_fails split: if_splits prod.splits option.splits)

lemma fields_to_mem_mem:
  assumes "RDB_fields_to_mem rmp fs m = (r, m')"
  shows "mem_le m m'"
proof -
  have le: "malloc_if b k = (ok, k') \<Longrightarrow> mem_le m k \<Longrightarrow> mem_le m k'" for b k ok k'
    using malloc_if_mem mem_le_trans by blast
  show ?thesis
    using assms le[OF _ mem_le_refl]
    by (auto simp: RDB_fields_to_mem_def Let_def split: if_splits prod.splits) (blast intro: le)+
qed

section \<open>Records as lists of fields\<close>

text \<open>All fields of a record in the order of their numbers, and the two blocks it becomes.\<close>

definition full_rec :: "recmap \<Rightarrow> rdb_field list \<Rightarrow> bool" where
  "full_rec rmp fs \<longleftrightarrow> map no fs = [0 ..< fieldcount rmp]
     \<and> rec_ok rmp (take (keyfieldcount rmp) fs) \<and> rec_ok rmp (drop (keyfieldcount rmp) fs)"

definition rec_key :: "recmap \<Rightarrow> rdb_field list \<Rightarrow> bytes" where
  "rec_key rmp fs = encode rmp (take (keyfieldcount rmp) fs)"

definition rec_val :: "recmap \<Rightarrow> rdb_field list \<Rightarrow> bytes" where
  "rec_val rmp fs = encode rmp (drop (keyfieldcount rmp) fs)"

lemma full_rec_parts:
  assumes "recmap_ok rmp" "full_rec rmp fs"
  shows "key_rec rmp (take (keyfieldcount rmp) fs)" "data_rec rmp (drop (keyfieldcount rmp) fs)"
    "length fs = fieldcount rmp" "\<And>i. i < fieldcount rmp \<Longrightarrow> no (fs ! i) = i"
proof -
  have kf: "keyfieldcount rmp \<le> fieldcount rmp" using assms(1) by (simp add: recmap_ok_def)
  have nos: "map no fs = [0 ..< fieldcount rmp]" using assms(2) by (simp add: full_rec_def)
  show "key_rec rmp (take (keyfieldcount rmp) fs)" "data_rec rmp (drop (keyfieldcount rmp) fs)"
    using assms kf by (simp_all add: full_rec_def key_rec_def data_rec_def take_map [symmetric]
        drop_map [symmetric])
  show len: "length fs = fieldcount rmp" using arg_cong[OF nos, of length] by simp
  show "no (fs ! i) = i" if "i < fieldcount rmp" for i
    using that len nos by (metis add_0 nth_map nth_upt)
qed

lemma number_fields_id: "map no fs = [i ..< i + length fs] \<Longrightarrow> number_fields i fs = fs"
proof (induction fs arbitrary: i)
  case (Cons f fs)
  then have "no f = i" "map no fs = [Suc i ..< Suc i + length fs]"
    by (simp_all add: upt_rec)
  then show ?case using Cons.IH[of "Suc i"] by simp
qed simp

lemma key_rec_number: "key_rec rmp fs \<Longrightarrow> number_fields 0 fs = fs"
  by (metis add_0 diff_zero key_rec_def length_map length_upt number_fields_id)

lemma data_rec_number: "data_rec rmp fs \<Longrightarrow> number_fields (keyfieldcount rmp) fs = fs"
proof (cases "fs = []")
  case False
  assume "data_rec rmp fs"
  then have "map no fs = [keyfieldcount rmp ..< fieldcount rmp]" by (simp add: data_rec_def)
  moreover from this have "length fs = fieldcount rmp - keyfieldcount rmp"
    by (metis length_map length_upt)
  moreover have "0 < length fs" using False by simp
  ultimately show ?thesis by (intro number_fields_id) auto
qed simp

lemma key_to_mem_full:
  assumes "recmap_ok rmp" "full_rec rmp fs" "key_to_mem rmp fs m = (r, m')"
  shows "mem_le m m' \<and> (r = Inr (Inr (rec_key rmp fs)) \<or> r = Inr (Inl ENOMEM) \<and> fails m \<noteq> [])"
proof -
  note parts = full_rec_parts[OF assms(1,2)]
  have kf: "keyfieldcount rmp \<le> length fs" using assms(1) parts(3) by (simp add: recmap_ok_def)
  have run: "RDB_fields_to_mem rmp (take (keyfieldcount rmp) fs) m = (r, m')"
    using assms(3) kf key_rec_number[OF parts(1)] by (simp add: key_to_mem_def)
  then show ?thesis
    using fields_to_mem_encodes[OF _ run] fields_to_mem_mem[OF run] parts(1)
    by (auto simp: rec_key_def key_rec_def)
qed

lemma value_to_mem_full:
  assumes "recmap_ok rmp" "full_rec rmp fs" "value_to_mem rmp fs m = (r, m')"
  shows "mem_le m m' \<and> (r = Inr (Inr (rec_val rmp fs)) \<or> r = Inr (Inl ENOMEM) \<and> fails m \<noteq> [])"
proof -
  note parts = full_rec_parts[OF assms(1,2)]
  have "take (fieldcount rmp - keyfieldcount rmp) (drop (keyfieldcount rmp) fs)
      = drop (keyfieldcount rmp) fs" using parts(3) by simp
  then have run: "RDB_fields_to_mem rmp (drop (keyfieldcount rmp) fs) m = (r, m')"
    using assms(3) parts(3) data_rec_number[OF parts(2)] by (simp add: value_to_mem_def)
  then show ?thesis
    using fields_to_mem_encodes[OF _ run] fields_to_mem_mem[OF run] parts(2)
    by (auto simp: rec_val_def data_rec_def)
qed

text \<open>What \<open>RDB_get_mem_fields\<close> puts into a field.\<close>

definition fetched :: "rdb_field list \<Rightarrow> rdb_field \<Rightarrow> rdb_field \<Rightarrow> bool" where
  "fetched fs g g' \<longleftrightarrow> no g' = no g \<and> copyfp g' = copyfp g \<and> flen g' = flen (fs ! no g)
     \<and> take (flen g') (datap g') = field_bytes (fs ! no g)"

lemma get_mem_fields_full:
  assumes rmp: "recmap_ok rmp" and fs: "full_rec rmp fs"
  shows "\<forall>g \<in> set gs. no g < fieldcount rmp \<Longrightarrow>
    \<exists>gs'. RDB_get_mem_fields rmp (rec_key rmp fs) (rec_val rmp fs) gs = Inr (RDB_OK, gs')
      \<and> list_all2 (fetched fs) gs gs'"
proof (induction gs)
  case (Cons g gs)
  note parts = full_rec_parts[OF rmp fs]
  let ?f = "fs ! no g"
  let ?blk = "if no g < keyfieldcount rmp then rec_key rmp fs else rec_val rmp fs"
  have n: "no g < fieldcount rmp" "no ?f = no g" using Cons.prems parts by auto
  have "\<exists>offs vpos. RDB_get_field rmp (no g) ?blk = Inr (Inr (int offs, flen ?f, vpos))
      \<and> read_at ?blk (int offs) (flen ?f) = Inr (field_bytes ?f)"
  proof (cases "no g < keyfieldcount rmp")
    case True
    then have "?f \<in> set (take (keyfieldcount rmp) fs)"
      using n(1) parts(3) by (auto simp: in_set_conv_nth)
    then show ?thesis
      using get_field_encode[OF rmp, of "take (keyfieldcount rmp) fs" ?f] parts(1) True n(2)
      by (simp add: rec_key_def)
  next
    case False
    then have "?f \<in> set (drop (keyfieldcount rmp) fs)"
      using n(1) parts(3) by (auto simp: in_set_conv_nth intro!: exI[of _ "no g - keyfieldcount rmp"])
    then show ?thesis
      using get_field_encode[OF rmp, of "drop (keyfieldcount rmp) fs" ?f] parts(2) False n(2)
      by (simp add: rec_val_def)
  qed
  then obtain offs vpos where get: "RDB_get_field rmp (no g) ?blk = Inr (Inr (int offs, flen ?f, vpos))"
    "read_at ?blk (int offs) (flen ?f) = Inr (field_bytes ?f)" by blast
  have "take (flen ?f) (drop offs ?blk) = field_bytes ?f"
    using get(2) by (auto simp: read_at_def split: if_splits)
  then have "fetched fs g (g\<lparr>flen := flen ?f, datap := drop offs ?blk\<rparr>)"
    by (simp add: fetched_def)
  moreover obtain gs' where "RDB_get_mem_fields rmp (rec_key rmp fs) (rec_val rmp fs) gs = Inr (RDB_OK, gs')"
    "list_all2 (fetched fs) gs gs'" using Cons by auto
  ultimately show ?case using get(1) by (simp add: Let_def)
qed simp

section \<open>Keys of an index\<close>

text \<open>The entry of an index for a record: the fields of the index, encoded on their own.\<close>

definition skey_of :: "recmap \<Rightarrow> tree_index \<Rightarrow> bytes \<times> bytes \<Rightarrow> bytes" where
  "skey_of rmp ixp kv =
     (case RDB_get_mem_fields rmp (fst kv) (snd kv) (map index_field (ix_fieldv ixp)) of
        Inl f \<Rightarrow> []
      | Inr (c, gs) \<Rightarrow> encode rmp gs)"

definition index_rec :: "tree_index \<Rightarrow> rdb_field list \<Rightarrow> rdb_field list" where
  "index_rec ixp fs = map ((!) fs) (ix_fieldv ixp)"

text \<open>What the functions below need of a record: the entry can be computed.\<close>

definition skey_ok :: "recmap \<Rightarrow> tree_index \<Rightarrow> bytes \<times> bytes \<Rightarrow> bool" where
  "skey_ok rmp ixp kv \<longleftrightarrow>
     (\<forall>m r m'. RDB_make_skey rmp ixp (fst kv) (snd kv) m = (r, m') \<longrightarrow> mem_le m m'
        \<and> (r = Inr (Inr (skey_of rmp ixp kv)) \<or> r = Inr (Inl ENOMEM) \<and> fails m \<noteq> []))"

lemma encode_cong:
  assumes "list_all2 (\<lambda>f g. no f = no g \<and> flen f = flen g \<and> field_bytes f = field_bytes g) fs gs"
  shows "encode rmp fs = encode rmp gs"
proof -
  have "map field_bytes (var_fields rmp fs) = map field_bytes (var_fields rmp gs)
    \<and> map field_bytes (fixed_fields rmp fs) = map field_bytes (fixed_fields rmp gs)
    \<and> map (\<lambda>f. set_len (flen f)) (var_fields rmp fs) = map (\<lambda>f. set_len (flen f)) (var_fields rmp gs)"
    using assms by (induction rule: list_all2_induct) (auto simp: var_fields_def fixed_fields_def)
  then show ?thesis by (simp only: encode_def)
qed

lemma rec_ok_cong:
  assumes "list_all2 (\<lambda>f g. no f = no g \<and> flen f = flen g \<and> field_bytes f = field_bytes g) fs gs"
  shows "rec_ok rmp fs = rec_ok rmp gs"
proof -
  have "(\<forall>f \<in> set fs. field_ok rmp f) = (\<forall>f \<in> set gs. field_ok rmp f) \<and> rec_size rmp fs = rec_size rmp gs"
    using assms
    by (induction rule: list_all2_induct) (auto simp: field_ok_def rec_size_def var_fields_def)
  then show ?thesis by (simp add: rec_ok_def)
qed

lemma skey_full:
  assumes rmp: "recmap_ok rmp" and fs: "full_rec rmp fs"
    and ix: "\<forall>i \<in> set (ix_fieldv ixp). i < fieldcount rmp" "rec_ok rmp (index_rec ixp fs)"
  shows "skey_of rmp ixp (rec_key rmp fs, rec_val rmp fs) = encode rmp (index_rec ixp fs)"
    "skey_ok rmp ixp (rec_key rmp fs, rec_val rmp fs)"
proof -
  let ?is = "ix_fieldv ixp"
  obtain gs where gs: "RDB_get_mem_fields rmp (rec_key rmp fs) (rec_val rmp fs) (map index_field ?is)
      = Inr (RDB_OK, gs)" "list_all2 (fetched fs) (map index_field ?is) gs"
    using get_mem_fields_full[OF rmp fs, of "map index_field ?is"] ix(1)
    by (auto simp: index_field_def)
  have "list_all2 (\<lambda>f g. no f = no g \<and> flen f = flen g \<and> field_bytes f = field_bytes g)
      gs (index_rec ixp fs)"
    unfolding index_rec_def list_all2_conv_all_nth
  proof (intro conjI allI impI)
    fix i assume i: "i < length gs"
    have len: "length gs = length ?is" using gs(2) by (auto dest: list_all2_lengthD)
    have "fetched fs (index_field (?is ! i)) (gs ! i)"
      using gs(2) i len by (auto simp: list_all2_conv_all_nth)
    moreover have "no (fs ! (?is ! i)) = ?is ! i"
      using full_rec_parts(4)[OF rmp fs] ix(1) i len by auto
    ultimately show "no (gs ! i) = no (map ((!) fs) ?is ! i)" "flen (gs ! i) = flen (map ((!) fs) ?is ! i)"
      "field_bytes (gs ! i) = field_bytes (map ((!) fs) ?is ! i)"
      using i len by (auto simp: fetched_def index_field_def memcpy_def)
  qed (use gs(2) in \<open>auto dest: list_all2_lengthD\<close>)
  then have enc: "encode rmp gs = encode rmp (index_rec ixp fs)" and ok: "rec_ok rmp gs"
    using encode_cong rec_ok_cong ix(2) by blast+
  show sk: "skey_of rmp ixp (rec_key rmp fs, rec_val rmp fs) = encode rmp (index_rec ixp fs)"
    by (simp add: skey_of_def gs(1) enc)
  show "skey_ok rmp ixp (rec_key rmp fs, rec_val rmp fs)"
    unfolding skey_ok_def sk fst_conv snd_conv
  proof (intro allI impI)
    fix m r m'
    assume run: "RDB_make_skey rmp ixp (rec_key rmp fs) (rec_val rmp fs) m = (r, m')"
    show "mem_le m m' \<and> (r = Inr (Inr (encode rmp (index_rec ixp fs))) \<or> r = Inr (Inl ENOMEM) \<and> fails m \<noteq> [])"
    proof (cases "malloc m")
      case (Pair a m1)
      have le: "mem_le m m1" using Pair by (rule malloc_mem_le)
      show ?thesis
      proof (cases a)
        case None
        then show ?thesis using run Pair le malloc_None_fails by (auto simp: RDB_make_skey_def)
      next
        case (Some x)
        then have f: "RDB_fields_to_mem rmp gs m1 = (r, m')"
          using run Pair gs(1) by (simp add: RDB_make_skey_def)
        then show ?thesis
          using fields_to_mem_encodes[OF ok f] fields_to_mem_mem[OF f] le enc
          by (metis mem_le_fails mem_le_trans)
      qed
    qed
  qed
qed

section \<open>Keeping the indexes: proofs\<close>

abbreviation KEY_VIOL :: "'a result" where "KEY_VIOL \<equiv> raise_err KEY_VIOLATION_ERROR ''''"

text \<open>
  An index holds, for each of the records \<open>rs\<close>, the entry that leads to the key.  \<open>R\<close> is
  the set of the records that can be stored at all.
\<close>

definition index_entry :: "recmap \<Rightarrow> tree_index \<Rightarrow> bytes \<times> bytes \<Rightarrow> bytes \<times> bytes" where
  "index_entry rmp ixp kv = (skey_of rmp ixp kv, fst kv)"

definition index_sig :: "tree_index \<Rightarrow> nat list \<times> comparison_func option" where
  "index_sig ixp = (ix_fieldv ixp, comparison_fp (ix_treep ixp))"

definition index_ok :: "recmap \<Rightarrow> (bytes \<times> bytes) set \<Rightarrow> tree_index \<Rightarrow> bool" where
  "index_ok rmp R ixp \<longleftrightarrow>
     key_order (comparison_fp (ix_treep ixp)) (skey_of rmp ixp ` R) \<and> (\<forall>kv \<in> R. skey_ok rmp ixp kv)"

definition index_inv ::
  "recmap \<Rightarrow> (bytes \<times> bytes) set \<Rightarrow> mem \<Rightarrow> (bytes \<times> bytes) set \<Rightarrow> tree_index \<Rightarrow> bool" where
  "index_inv rmp R m rs ixp \<longleftrightarrow>
     index_ok rmp R ixp \<and> bt_wf (skey_of rmp ixp ` R) m (ix_treep ixp)
     \<and> set (recs (root (ix_treep ixp))) = index_entry rmp ixp ` rs"

text \<open>No record of the map has the values of \<open>kv\<close> in the fields of the index.\<close>

definition index_free :: "recmap \<Rightarrow> bytes \<times> bytes \<Rightarrow> tree_index \<Rightarrow> bool" where
  "index_free rmp kv ixp \<longleftrightarrow> bt_lookup (ix_treep ixp) (skey_of rmp ixp kv) = None"

lemma make_skey_update [simp]: "RDB_make_skey rmp (ixp\<lparr>ix_treep := tr\<rparr>) = RDB_make_skey rmp ixp"
  by (intro ext) (simp add: RDB_make_skey_def split: option.split prod.split)

lemma ix_treep_update [simp]:
  "skey_of rmp (ixp\<lparr>ix_treep := tr\<rparr>) kv = skey_of rmp ixp kv"
  "skey_ok rmp (ixp\<lparr>ix_treep := tr\<rparr>) kv = skey_ok rmp ixp kv"
  "index_entry rmp (ixp\<lparr>ix_treep := tr\<rparr>) kv = index_entry rmp ixp kv"
  by (simp_all add: skey_of_def skey_ok_def index_entry_def)

lemma bt_wf_mono: "bt_wf K m tr \<Longrightarrow> mem_le m m' \<Longrightarrow> bt_wf K m' tr"
  by (auto simp: bt_wf_def mem_le_def intro: tree_wf_mono)

lemma index_inv_mono: "index_inv rmp R m rs ixp \<Longrightarrow> mem_le m m' \<Longrightarrow> index_inv rmp R m' rs ixp"
  by (auto simp: index_inv_def intro: bt_wf_mono)

lemma skey_run:
  assumes "index_ok rmp R ixp" "kv \<in> R" "RDB_make_skey rmp ixp (fst kv) (snd kv) m = (r, m')"
  shows "mem_le m m'" "r = Inr (Inr (skey_of rmp ixp kv)) \<or> r = Inr (Inl ENOMEM) \<and> fails m \<noteq> []"
  using assms unfolding index_ok_def skey_ok_def by blast+

lemma check_in_indexes_result:
  "\<forall>ixp \<in> set ixs. index_inv rmp R m0 rs ixp \<Longrightarrow> kv \<in> R \<Longrightarrow>
    check_in_indexes rmp ixs (fst kv) (snd kv) m = (r, m') \<Longrightarrow>
    mem_le m m' \<and> (r = Inr () \<and> (\<forall>ixp \<in> set ixs. index_free rmp kv ixp)
      \<or> r = KEY_VIOL \<and> (\<exists>ixp \<in> set ixs. \<not> index_free rmp kv ixp)
      \<or> r = NO_MEM \<and> fails m \<noteq> [])"
proof (induction ixs arbitrary: m)
  case (Cons ixp ixs)
  have ix: "index_ok rmp R ixp" "bt_wf (skey_of rmp ixp ` R) m0 (ix_treep ixp)"
    using Cons.prems by (auto simp: index_inv_def)
  obtain s m1 where s: "RDB_make_skey rmp ixp (fst kv) (snd kv) m = (s, m1)" by fastforce
  note sk = skey_run[OF ix(1) Cons.prems(2) s]
  show ?case
  proof (cases "s = Inr (Inl ENOMEM)")
    case True
    then show ?thesis using Cons.prems(3) s sk by auto
  next
    case False
    then have s': "s = Inr (Inr (skey_of rmp ixp kv))" using sk by blast
    have "node_rec (RDB_tree_find (ix_treep ixp) (skey_of rmp ixp kv))
        = bt_lookup (ix_treep ixp) (skey_of rmp ixp kv)"
      using ix Cons.prems(2) by (intro key_order.bt_find) (auto simp: index_ok_def)
    then have free: "RDB_tree_find (ix_treep ixp) (skey_of rmp ixp kv) = Null \<longleftrightarrow> index_free rmp kv ixp"
      by (cases "bt_lookup (ix_treep ixp) (skey_of rmp ixp kv)")
        (auto simp: index_free_def node_rec_def split: if_splits)
    show ?thesis
    proof (cases "index_free rmp kv ixp")
      case True
      then have "check_in_indexes rmp ixs (fst kv) (snd kv) m1 = (r, m')"
        using Cons.prems(3) s s' free by simp
      then show ?thesis using Cons.IH[of m1] Cons.prems True sk(1) mem_le_fails
        by (auto intro: mem_le_trans)
    next
      case F: False
      then show ?thesis using Cons.prems(3) s s' free sk(1) by auto
    qed
  qed
qed auto

lemma index_insert:
  assumes inv: "index_inv rmp R m rs ixp" and kv: "kv \<in> R" "index_free rmp kv ixp"
    and run: "RDB_tree_insert (ix_treep ixp) (skey_of rmp ixp kv) (fst kv) m = (r, m')"
  shows "mem_le m m'
    \<and> ((\<exists>tr a. r = Inr (tr, a) \<and> index_inv rmp R m' (insert kv rs) (ixp\<lparr>ix_treep := tr\<rparr>)
          \<and> comparison_fp tr = comparison_fp (ix_treep ixp))
       \<or> r = NO_MEM \<and> fails m \<noteq> [])"
proof -
  have ko: "key_order (comparison_fp (ix_treep ixp)) (skey_of rmp ixp ` R)"
    and wf: "bt_wf (skey_of rmp ixp ` R) m (ix_treep ixp)"
    using inv by (auto simp: index_inv_def index_ok_def)
  note ins = key_order.bt_insert[OF ko refl wf, of "skey_of rmp ixp kv" "fst kv"]
  show ?thesis
  proof (cases r)
    case (Inl f)
    then show ?thesis using ins run kv
      by (auto simp: index_free_def malloc_mem_le malloc_None_fails)
  next
    case (Inr p)
    obtain tr a where p: "p = (tr, a)" by fastforce
    then show ?thesis using ins run kv Inr inv
      by (auto simp: index_inv_def index_ok_def index_entry_def malloc_mem_le)
  qed
qed

lemma insert_into_indexes_result:
  "\<forall>ixp \<in> set ixs. index_inv rmp R m rs ixp \<and> index_free rmp kv ixp \<Longrightarrow> kv \<in> R \<Longrightarrow>
    insert_into_indexes rmp ixs (fst kv) (snd kv) m = (r, ixs', m') \<Longrightarrow>
    mem_le m m' \<and> (r = Inr () \<and> (\<forall>ixp \<in> set ixs'. index_inv rmp R m' (insert kv rs) ixp)
        \<and> map index_sig ixs' = map index_sig ixs
      \<or> r = NO_MEM \<and> fails m \<noteq> [])"
proof (induction ixs arbitrary: m ixs' r m')
  case (Cons ixp ixs)
  have ix: "index_inv rmp R m rs ixp" "index_ok rmp R ixp" "index_free rmp kv ixp"
    using Cons.prems by (auto simp: index_inv_def)
  obtain s m1 where s: "RDB_make_skey rmp ixp (fst kv) (snd kv) m = (s, m1)" by fastforce
  note sk = skey_run[OF ix(2) Cons.prems(2) s]
  obtain k m2 where k: "malloc m1 = (k, m2)" by fastforce
  have le2: "mem_le m m2" using sk(1) malloc_mem_le[OF k] mem_le_trans by blast
  show ?case
  proof (cases "s = Inr (Inl ENOMEM) \<or> k = None")
    case True
    then show ?thesis using Cons.prems(3) s sk k le2 malloc_None_fails mem_le_fails
      by (auto split: prod.splits)
  next
    case False
    then have s': "s = Inr (Inr (skey_of rmp ixp kv))" using sk by blast
    obtain t m3 where t: "RDB_tree_insert (ix_treep ixp) (skey_of rmp ixp kv) (fst kv) m2 = (t, m3)"
      by fastforce
    note ins = index_insert[OF index_inv_mono[OF ix(1) le2] Cons.prems(2) ix(3) t]
    have le3: "mem_le m m3" using ins le2 mem_le_trans by blast
    show ?thesis
    proof (cases "t = NO_MEM")
      case True
      then show ?thesis using Cons.prems(3) s s' k False t ins le2 le3 mem_le_fails by auto
    next
      case tF: False
      then obtain tr a where tr: "t = Inr (tr, a)"
        "index_inv rmp R m3 (insert kv rs) (ixp\<lparr>ix_treep := tr\<rparr>)"
        "comparison_fp tr = comparison_fp (ix_treep ixp)" using ins by blast
      obtain q ixs2 m4 where rest: "insert_into_indexes rmp ixs (fst kv) (snd kv) m3 = (q, ixs2, m4)"
        by (metis prod_cases3)
      have "\<forall>ixp \<in> set ixs. index_inv rmp R m3 rs ixp \<and> index_free rmp kv ixp"
        using Cons.prems(1) index_inv_mono le3 by auto
      note IH = Cons.IH[OF this Cons.prems(2) rest]
      have "r = q" "ixs' = ixp\<lparr>ix_treep := tr\<rparr> # ixs2" "m' = m4"
        using Cons.prems(3) s s' k False t tr rest by auto
      then show ?thesis using IH tr(2,3) le3 mem_le_fails
        by (auto simp: index_sig_def intro: mem_le_trans index_inv_mono)
    qed
  qed
qed auto

lemma index_delete:
  assumes inv: "index_inv rmp R m rs ixp" and kv: "kv \<in> R" "kv \<in> rs" and inj: "inj_on fst rs"
  shows "\<exists>tr. RDB_tree_delete_node (ix_treep ixp) (skey_of rmp ixp kv) = Inr tr
    \<and> index_inv rmp R m (rs - {kv}) (ixp\<lparr>ix_treep := tr\<rparr>)
    \<and> comparison_fp tr = comparison_fp (ix_treep ixp)"
proof -
  let ?cf = "comparison_fp (ix_treep ixp)" and ?K = "skey_of rmp ixp ` R"
  let ?es = "recs (root (ix_treep ixp))"
  have ko: "key_order ?cf ?K" and wf: "bt_wf ?K m (ix_treep ixp)" and es: "set ?es = index_entry rmp ixp ` rs"
    using inv by (auto simp: index_inv_def index_ok_def)
  have sorted: "sorted_wrt (key_less ?cf) (map fst ?es)" "fst ` set ?es \<subseteq> ?K"
    using wf by (auto simp: bt_wf_def tree_wf_def)
  have self: "compare_key ?cf (skey_of rmp ixp kv) (skey_of rmp ixp kv) = 0"
    using key_order.cmp_refl[OF ko] kv(1) by blast
  have e: "index_entry rmp ixp kv \<in> set ?es" using es kv(2) by simp
  have some: "bt_lookup (ix_treep ixp) (skey_of rmp ixp kv) \<noteq> None"
    using key_order.rec_lookup_unique[OF ko sorted, of "skey_of rmp ixp kv"] e self kv(1)
    by (auto simp: bt_lookup_def index_entry_def)
  have others: "{r \<in> set ?es. compare_key ?cf (skey_of rmp ixp kv) (fst r) \<noteq> 0}
      = index_entry rmp ixp ` (rs - {kv})"
  proof (intro set_eqI iffI)
    fix r assume "r \<in> {r \<in> set ?es. compare_key ?cf (skey_of rmp ixp kv) (fst r) \<noteq> 0}"
    then show "r \<in> index_entry rmp ixp ` (rs - {kv})" using es self by (auto simp: index_entry_def)
  next
    fix r assume "r \<in> index_entry rmp ixp ` (rs - {kv})"
    then obtain kv2 where kv2: "kv2 \<in> rs" "kv2 \<noteq> kv" "r = index_entry rmp ixp kv2" by auto
    then have "fst kv2 \<noteq> fst kv" using inj kv(2) by (auto dest: inj_onD)
    then have "index_entry rmp ixp kv \<noteq> r" using kv2(3) by (simp add: index_entry_def)
    moreover have "r \<in> set ?es" using es kv2 by simp
    ultimately show "r \<in> {r \<in> set ?es. compare_key ?cf (skey_of rmp ixp kv) (fst r) \<noteq> 0}"
      using key_order.distinct_keys[OF ko sorted e, of r] by (simp add: index_entry_def)
  qed
  show ?thesis
    using key_order.bt_delete[OF ko refl wf, of "skey_of rmp ixp kv"] some kv(1) inv others
    by (cases "RDB_tree_delete_node (ix_treep ixp) (skey_of rmp ixp kv)")
      (auto simp: index_inv_def index_ok_def)
qed

lemma delete_from_indexes_result:
  "\<forall>ixp \<in> set ixs. index_inv rmp R m rs ixp \<Longrightarrow> kv \<in> R \<Longrightarrow> kv \<in> rs \<Longrightarrow> inj_on fst rs \<Longrightarrow>
    delete_from_indexes rmp ixs (fst kv) (snd kv) m = (r, ixs', m') \<Longrightarrow>
    mem_le m m' \<and> (r = Inr () \<and> (\<forall>ixp \<in> set ixs'. index_inv rmp R m' (rs - {kv}) ixp)
        \<and> map index_sig ixs' = map index_sig ixs
      \<or> r = NO_MEM \<and> fails m \<noteq> [])"
proof (induction ixs arbitrary: m ixs' r m')
  case (Cons ixp ixs)
  have ix: "index_inv rmp R m rs ixp" "index_ok rmp R ixp"
    using Cons.prems by (auto simp: index_inv_def)
  obtain s m1 where s: "RDB_make_skey rmp ixp (fst kv) (snd kv) m = (s, m1)" by fastforce
  note sk = skey_run[OF ix(2) Cons.prems(2) s]
  show ?case
  proof (cases "s = Inr (Inl ENOMEM)")
    case True
    then show ?thesis using Cons.prems(5) s sk by auto
  next
    case False
    then have s': "s = Inr (Inr (skey_of rmp ixp kv))" using sk by blast
    obtain tr where tr: "RDB_tree_delete_node (ix_treep ixp) (skey_of rmp ixp kv) = Inr tr"
      "index_inv rmp R m1 (rs - {kv}) (ixp\<lparr>ix_treep := tr\<rparr>)"
      "comparison_fp tr = comparison_fp (ix_treep ixp)"
      using index_delete[OF index_inv_mono[OF ix(1) sk(1)] Cons.prems(2-4)] by blast
    obtain q ixs2 m2 where rest: "delete_from_indexes rmp ixs (fst kv) (snd kv) m1 = (q, ixs2, m2)"
      by (metis prod_cases3)
    have "\<forall>ixp \<in> set ixs. index_inv rmp R m1 rs ixp"
      using Cons.prems(1) index_inv_mono sk(1) by auto
    note IH = Cons.IH[OF this Cons.prems(2-4) rest]
    have "r = q" "ixs' = ixp\<lparr>ix_treep := tr\<rparr> # ixs2" "m' = m2"
      using Cons.prems(5) s s' tr rest by auto
    then show ?thesis using IH tr(2,3) sk(1) mem_le_fails
      by (auto simp: index_sig_def intro: mem_le_trans index_inv_mono)
  qed
qed auto

section \<open>The map: proofs\<close>

abbreviation NOT_FOUND :: "'a result" where "NOT_FOUND \<equiv> raise_err NOT_FOUND_ERROR ''''"

definition records :: "tree_recmap \<Rightarrow> (bytes \<times> bytes) set" where
  "records rm = set (recs (root (treep rm)))"

definition recmap_inv :: "(bytes \<times> bytes) set \<Rightarrow> mem \<Rightarrow> tree_recmap \<Rightarrow> bool" where
  "recmap_inv R m rm \<longleftrightarrow>
     recmap_ok (desc rm) \<and> key_order (comparison_fp (treep rm)) (fst ` R)
     \<and> bt_wf (fst ` R) m (treep rm) \<and> records rm \<subseteq> R
     \<and> (\<forall>ixp \<in> set (indexes rm). index_inv (desc rm) R m (records rm) ixp)"

text \<open>The record with a given key, and what keeps a record from being inserted.\<close>

definition find_rec :: "tree_recmap \<Rightarrow> bytes \<Rightarrow> (bytes \<times> bytes) option" where
  "find_rec rm key = bt_lookup (treep rm) key"

definition conflicts :: "tree_recmap \<Rightarrow> bytes \<times> bytes \<Rightarrow> bool" where
  "conflicts rm kv \<longleftrightarrow>
     find_rec rm (fst kv) \<noteq> None \<or> (\<exists>ixp \<in> set (indexes rm). \<not> index_free (desc rm) kv ixp)"

lemma recmap_invD:
  assumes "recmap_inv R m rm"
  shows "recmap_ok (desc rm)" "key_order (comparison_fp (treep rm)) (fst ` R)"
    "bt_wf (fst ` R) m (treep rm)" "records rm \<subseteq> R"
    "\<And>ixp. ixp \<in> set (indexes rm) \<Longrightarrow> index_inv (desc rm) R m (records rm) ixp"
  using assms by (auto simp: recmap_inv_def)

lemma recmap_inv_mono: "recmap_inv R m rm \<Longrightarrow> mem_le m m' \<Longrightarrow> recmap_inv R m' rm"
  by (auto simp: recmap_inv_def intro: bt_wf_mono index_inv_mono)

lemma recmap_sorted:
  assumes "recmap_inv R m rm"
  shows "sorted_wrt (key_less (comparison_fp (treep rm))) (map fst (recs (root (treep rm))))"
    "fst ` set (recs (root (treep rm))) \<subseteq> fst ` R"
  using recmap_invD(3)[OF assms] by (auto simp: bt_wf_def tree_wf_def)

lemma inj_on_records: "recmap_inv R m rm \<Longrightarrow> inj_on fst (records rm)"
proof (rule inj_onI, rule ccontr)
  fix r s assume inv: "recmap_inv R m rm" and rs: "r \<in> records rm" "s \<in> records rm" "fst r = fst s" "r \<noteq> s"
  note ko = recmap_invD(2)[OF inv]
  have "fst s \<in> fst ` R" using recmap_sorted(2)[OF inv] rs by (auto simp: records_def)
  then have "compare_key (comparison_fp (treep rm)) (fst r) (fst s) = 0"
    using key_order.cmp_refl[OF ko] rs(3) by metis
  then show False
    using key_order.distinct_keys[OF ko recmap_sorted[OF inv], of r s] rs by (auto simp: records_def)
qed

lemma find_rec_Some:
  assumes "recmap_inv R m rm" "key \<in> fst ` R"
  shows "find_rec rm key = Some kv \<longleftrightarrow>
    kv \<in> records rm \<and> compare_key (comparison_fp (treep rm)) key (fst kv) = 0"
proof
  assume "find_rec rm key = Some kv"
  then show "kv \<in> records rm \<and> compare_key (comparison_fp (treep rm)) key (fst kv) = 0"
    by (auto simp: find_rec_def bt_lookup_def rec_lookup_def records_def find_Some_iff case_prod_beta)
next
  assume "kv \<in> records rm \<and> compare_key (comparison_fp (treep rm)) key (fst kv) = 0"
  then show "find_rec rm key = Some kv"
    using key_order.rec_lookup_unique[OF recmap_invD(2)[OF assms(1)] recmap_sorted[OF assms(1)] assms(2),
        of "fst kv" "snd kv"]
    by (simp add: find_rec_def bt_lookup_def records_def)
qed

lemma find_rec_self:
  assumes "recmap_inv R m rm" "kv \<in> records rm"
  shows "find_rec rm (fst kv) = Some kv"
proof -
  have K: "fst kv \<in> fst ` R" using assms recmap_invD(4)[OF assms(1)] by auto
  then show ?thesis
    using find_rec_Some[OF assms(1) K] assms(2) key_order.cmp_refl[OF recmap_invD(2)[OF assms(1)] K]
    by blast
qed

lemma find_rec_node:
  assumes "recmap_inv R m rm" "key \<in> fst ` R"
  shows "node_rec (RDB_tree_find (treep rm) key) = find_rec rm key"
  using key_order.bt_find[OF recmap_invD(2)[OF assms(1)] refl recmap_invD(3)[OF assms(1)] assms(2)]
  by (simp add: find_rec_def)

lemma tree_insert_rec:
  assumes inv: "recmap_inv R m rm" and kv: "kv \<in> R"
    and run: "RDB_tree_insert (treep rm) (fst kv) (snd kv) m = (r, m')"
  shows "mem_le m m' \<and>
    ((\<exists>tr a. r = Inr (tr, a) \<and> find_rec rm (fst kv) = None \<and> bt_wf (fst ` R) m' tr
        \<and> comparison_fp tr = comparison_fp (treep rm) \<and> set (recs (root tr)) = insert kv (records rm))
     \<or> r = KEY_VIOL \<and> find_rec rm (fst kv) \<noteq> None \<or> r = NO_MEM \<and> fails m \<noteq> [])"
proof -
  note ins = key_order.bt_insert[OF recmap_invD(2)[OF inv] refl recmap_invD(3)[OF inv],
      of "fst kv" "snd kv"]
  show ?thesis using ins run kv
    by (cases r) (auto simp: find_rec_def records_def malloc_mem_le malloc_None_fails)
qed

text \<open>However a deletion ends, no address is handed out twice.\<close>

lemma make_skey_mem: "RDB_make_skey rmp ixp key val m = (r, m') \<Longrightarrow> mem_le m m'"
  by (auto simp: RDB_make_skey_def malloc_mem_le split: prod.splits option.splits sum.splits if_splits
      dest!: malloc_mem_le fields_to_mem_mem intro: mem_le_trans)

lemma delete_from_indexes_mem:
  "delete_from_indexes rmp ixs key val m = (r, ixs', m') \<Longrightarrow> mem_le m m'"
proof (induction ixs arbitrary: m r ixs' m')
  case (Cons ixp ixs)
  obtain s m1 where s: "RDB_make_skey rmp ixp key val m = (s, m1)" by fastforce
  obtain q ixs2 m2 where q: "delete_from_indexes rmp ixs key val m1 = (q, ixs2, m2)"
    by (metis prod_cases3)
  have "m' = m1 \<or> m' = m2"
    using Cons.prems s q by (auto split: sum.splits)
  then show ?case using make_skey_mem[OF s] Cons.IH[OF q] mem_le_trans by blast
qed simp

lemma delete_by_key_mem: "delete_tree_rec_by_key rm key m = (r, rm', m') \<Longrightarrow> mem_le m m'"
  by (auto simp: delete_tree_rec_by_key_def RDB_delete_from_tree_indexes_def Let_def
      split: if_splits prod.splits sum.splits dest!: delete_from_indexes_mem)

definition insert_result ::
  "(bytes \<times> bytes) set \<Rightarrow> mem \<Rightarrow> tree_recmap \<Rightarrow> bytes \<times> bytes
    \<Rightarrow> unit result \<Rightarrow> bool \<Rightarrow> tree_recmap \<Rightarrow> mem \<Rightarrow> bool" where
  "insert_result R m rm kv r handed rm' m' \<longleftrightarrow> mem_le m m' \<and>
     (r = Inr () \<and> \<not> conflicts rm kv \<and> recmap_inv R m' rm' \<and> records rm' = insert kv (records rm)
        \<and> desc rm' = desc rm \<and> comparison_fp (treep rm') = comparison_fp (treep rm)
        \<and> map index_sig (indexes rm') = map index_sig (indexes rm)
      \<or> r = KEY_VIOL \<and> conflicts rm kv \<and> \<not> handed \<and> rm' = rm
      \<or> r = NO_MEM \<and> \<not> handed \<and> rm' = rm \<and> fails m \<noteq> []
      \<or> (\<exists>e. r = Inl e) \<and> handed \<and> fails m \<noteq> [])"

lemma insert_tree_rec_kv_result:
  assumes inv: "recmap_inv R m rm" and kv: "kv \<in> R"
    and run: "insert_tree_rec_kv rm (fst kv) (snd kv) m = (r, handed, rm', m')"
  shows "insert_result R m rm kv r handed rm' m'"
proof -
  obtain c m1 where c: "check_in_indexes (desc rm) (indexes rm) (fst kv) (snd kv) m = (c, m1)" by fastforce
  have "\<forall>ixp \<in> set (indexes rm). index_inv (desc rm) R m (records rm) ixp"
    using recmap_invD(5)[OF inv] by simp
  note chk = check_in_indexes_result[OF this kv c]
  note ir = insert_result_def conflicts_def
  show ?thesis
  proof (cases "c = Inr ()")
    case False
    then obtain e where e: "c = Inl e" by (cases c) auto
    then have "r = Inl e" "\<not> handed" "rm' = rm" "m' = m1"
      using run c by (auto simp: insert_tree_rec_kv_def)
    then show ?thesis using chk e False unfolding ir by auto
  next
    case True
    then have free: "\<forall>ixp \<in> set (indexes rm). index_free (desc rm) kv ixp" and le1: "mem_le m m1"
      using chk by auto
    note inv1 = recmap_inv_mono[OF inv le1]
    obtain t m2 where t: "RDB_tree_insert (treep rm) (fst kv) (snd kv) m1 = (t, m2)" by fastforce
    note ins = tree_insert_rec[OF inv1 kv t]
    have le2: "mem_le m m2" using ins le1 mem_le_trans by blast
    show ?thesis
    proof (cases "\<exists>tr a. t = Inr (tr, a)")
      case F: False
      then obtain e where e: "t = Inl e" by (cases t) auto
      then have "r = Inl e" "\<not> handed" "rm' = rm" "m' = m2"
        using run c True t by (auto simp: insert_tree_rec_kv_def)
      then show ?thesis using ins e le2 mem_le_fails[OF le1] F unfolding ir by auto
    next
      case T: True
      then obtain tr a where tr: "t = Inr (tr, a)" "find_rec rm (fst kv) = None" "bt_wf (fst ` R) m2 tr"
        "comparison_fp tr = comparison_fp (treep rm)" "set (recs (root tr)) = insert kv (records rm)"
        using ins by auto
      obtain q ixs m3 where q: "insert_into_indexes (desc rm) (indexes rm) (fst kv) (snd kv) m2 = (q, ixs, m3)"
        by (metis prod_cases3)
      have "\<forall>ixp \<in> set (indexes rm). index_inv (desc rm) R m2 (records rm) ixp \<and> index_free (desc rm) kv ixp"
        using recmap_invD(5)[OF inv] index_inv_mono le2 free by blast
      note idx = insert_into_indexes_result[OF this kv q]
      show ?thesis
      proof (cases "q = Inr ()")
        case qT: True
        then have "rm' = rm\<lparr>treep := tr, indexes := ixs\<rparr>" "r = Inr ()" "m' = m3"
          using run c True t tr(1) q by (auto simp: insert_tree_rec_kv_def)
        then show ?thesis
          using idx qT tr le2 inv free kv
          by (auto simp: ir recmap_inv_def records_def intro: bt_wf_mono mem_le_trans)
      next
        case qF: False
        then have qe: "q = NO_MEM" "fails m2 \<noteq> []" "mem_le m2 m3" using idx by auto
        obtain d rm2 m4 where d: "delete_tree_rec_by_key (rm\<lparr>treep := tr, indexes := ixs\<rparr>) (fst kv) m3 = (d, rm2, m4)"
          by (metis prod_cases3)
        then have "handed" "\<exists>e. r = Inl e" "m' = m4"
          using run c True t tr(1) q qe(1) by (cases d; auto simp: insert_tree_rec_kv_def)+
        moreover have "fails m \<noteq> []" using qe(2) le2 mem_le_fails by blast
        ultimately show ?thesis using delete_by_key_mem[OF d] le2 qe(3) mem_le_trans
          unfolding insert_result_def by metis
      qed
    qed
  qed
qed

definition delete_result ::
  "(bytes \<times> bytes) set \<Rightarrow> mem \<Rightarrow> tree_recmap \<Rightarrow> bytes \<Rightarrow> unit result \<Rightarrow> tree_recmap \<Rightarrow> mem \<Rightarrow> bool" where
  "delete_result R m rm key r rm' m' \<longleftrightarrow> mem_le m m' \<and>
     (case find_rec rm key of
        None \<Rightarrow> r = NOT_FOUND \<and> rm' = rm
      | Some kv \<Rightarrow>
          r = Inr () \<and> recmap_inv R m' rm' \<and> records rm' = records rm - {kv} \<and> desc rm' = desc rm
            \<and> comparison_fp (treep rm') = comparison_fp (treep rm)
            \<and> map index_sig (indexes rm') = map index_sig (indexes rm)
            \<and> deleted (comparison_fp (treep rm)) key (root (treep rm)) (root (treep rm'))
          \<or> r = NO_MEM \<and> fails m \<noteq> [])"

lemma delete_tree_node_result:
  assumes wf: "bt_wf K m (treep rm)" "key_order (comparison_fp (treep rm)) K" "key \<in> K"
    and run: "delete_tree_node rm key = (r, rm')"
  shows "case find_rec rm key of
      None \<Rightarrow> r = NOT_FOUND \<and> rm' = rm
    | Some kv \<Rightarrow> \<exists>tr. r = Inr () \<and> rm' = rm\<lparr>treep := tr\<rparr> \<and> bt_wf K m tr
        \<and> comparison_fp tr = comparison_fp (treep rm)
        \<and> set (recs (root tr)) = {s \<in> records rm. compare_key (comparison_fp (treep rm)) key (fst s) \<noteq> 0}
        \<and> deleted (comparison_fp (treep rm)) key (root (treep rm)) (root tr)"
  using key_order.bt_delete[OF wf(2) refl wf(1,3)] run
  by (cases "RDB_tree_delete_node (treep rm) key"; cases "find_rec rm key")
    (auto simp: delete_tree_node_def find_rec_def records_def)

lemma delete_removes_one:
  assumes inv: "recmap_inv R m rm" and key: "key \<in> fst ` R" and kv: "find_rec rm key = Some kv"
  shows "{s \<in> records rm. compare_key (comparison_fp (treep rm)) key (fst s) \<noteq> 0} = records rm - {kv}"
proof -
  have "compare_key (comparison_fp (treep rm)) key (fst s) = 0 \<longleftrightarrow> s = kv" if "s \<in> records rm" for s
    using find_rec_Some[OF inv key, of s] find_rec_Some[OF inv key, of kv] kv that by (metis option.inject)
  moreover have "kv \<in> records rm" using find_rec_Some[OF inv key, of kv] kv by blast
  ultimately show ?thesis by blast
qed

lemma delete_tree_rec_by_key_result:
  assumes inv: "recmap_inv R m rm" and key: "key \<in> fst ` R"
    and run: "delete_tree_rec_by_key rm key m = (r, rm', m')"
  shows "delete_result R m rm key r rm' m'"
proof -
  note D = recmap_invD[OF inv]
  let ?n = "RDB_tree_find (treep rm) key"
  have node: "node_rec ?n = find_rec rm key" by (rule find_rec_node[OF inv key])
  show ?thesis
  proof (cases "find_rec rm key")
    case None
    then have "?n = Null" using node by (simp add: node_rec_def split: if_splits)
    then show ?thesis using None run delete_tree_node_result[OF D(3,2) key]
      by (auto simp: delete_tree_rec_by_key_def delete_result_def split: prod.splits)
  next
    case (Some kv)
    then have n: "?n \<noteq> Null" "fst kv = nkey ?n" "snd kv = nvalue ?n"
      using node by (auto simp: node_rec_def split: if_splits)
    have kv: "kv \<in> records rm" "kv \<in> R" using find_rec_Some[OF inv key, of kv] Some D(4) by blast+
    obtain q ixs m1 where q: "delete_from_indexes (desc rm) (indexes rm) (fst kv) (snd kv) m = (q, ixs, m1)"
      by (metis prod_cases3)
    have "\<forall>ixp \<in> set (indexes rm). index_inv (desc rm) R m (records rm) ixp" using D(5) by simp
    note del = delete_from_indexes_result[OF this kv(2,1) inj_on_records[OF inv] q]
    show ?thesis
    proof (cases "q = Inr ()")
      case False
      then have "indexes rm \<noteq> []" "q = NO_MEM" using del q by (cases "indexes rm"; auto)+
      then show ?thesis using run q n del False Some
        by (auto simp: delete_tree_rec_by_key_def RDB_delete_from_tree_indexes_def delete_result_def)
    next
      case True
      let ?rm1 = "rm\<lparr>indexes := ixs\<rparr>"
      have eq: "find_rec ?rm1 key = Some kv" "records ?rm1 = records rm"
        using Some by (simp_all add: find_rec_def records_def)
      obtain d rm2 where d: "delete_tree_node ?rm1 key = (d, rm2)" by fastforce
      have "indexes rm = [] \<Longrightarrow> ?rm1 = rm \<and> m1 = m" using q by auto
      then have "indexes rm = [] \<Longrightarrow> delete_tree_node rm key = (d, rm2) \<and> m1 = m" using d by simp
      then have "r = d" "rm' = rm2" "m' = m1"
        using run q n d True
        by (auto simp: delete_tree_rec_by_key_def RDB_delete_from_tree_indexes_def split: if_splits)
      moreover have "bt_wf (fst ` R) m1 (treep ?rm1)" using D(3) del bt_wf_mono by auto
      ultimately show ?thesis
        using delete_tree_node_result[of "fst ` R" m1 ?rm1 key d rm2] D d eq del True key Some
          delete_removes_one[OF inv key Some]
        by (auto simp: delete_result_def recmap_inv_def records_def)
    qed
  qed
qed

section \<open>The operations\<close>

text \<open>
  A map whose records are made of values that fit the fields.  \<open>R\<close> are the encodings of
  the records \<open>F\<close> that may occur.
\<close>

definition enc :: "recmap \<Rightarrow> rdb_field list \<Rightarrow> bytes \<times> bytes" where
  "enc rmp fs = (rec_key rmp fs, rec_val rmp fs)"

definition map_wf :: "(rdb_field list) set \<Rightarrow> mem \<Rightarrow> tree_recmap \<Rightarrow> bool" where
  "map_wf F m rm \<longleftrightarrow> (\<forall>fs \<in> F. full_rec (desc rm) fs) \<and> recmap_inv (enc (desc rm) ` F) m rm
     \<and> comparison_fp (treep rm) = Some (recmap_comparison (desc rm))
     \<and> (\<forall>s \<in> set (map index_sig (indexes rm)). \<forall>i \<in> set (fst s). i < fieldcount (desc rm))"

lemma map_wfD:
  assumes "map_wf F m rm"
  shows "recmap_ok (desc rm)" "\<And>fs. fs \<in> F \<Longrightarrow> full_rec (desc rm) fs"
    "recmap_inv (enc (desc rm) ` F) m rm" "\<And>fs. fs \<in> F \<Longrightarrow> enc (desc rm) fs \<in> enc (desc rm) ` F"
    "\<And>fs. fs \<in> F \<Longrightarrow> rec_key (desc rm) fs \<in> fst ` enc (desc rm) ` F"
    "comparison_fp (treep rm) = Some (recmap_comparison (desc rm))"
  using assms by (auto simp: map_wf_def recmap_inv_def enc_def image_image)

lemma map_wf_key_run:
  assumes "map_wf F m rm" "fs \<in> F" "key_to_mem (desc rm) fs m = (r, m')"
  shows "mem_le m m'" "r = Inr (Inr (rec_key (desc rm) fs)) \<or> r = Inr (Inl ENOMEM) \<and> fails m \<noteq> []"
  using key_to_mem_full[OF _ _ assms(3)] map_wfD(1,2)[OF assms(1)] assms(2) by blast+

lemma map_wf_value_run:
  assumes "map_wf F m rm" "fs \<in> F" "value_to_mem (desc rm) fs m1 = (r, m')"
  shows "mem_le m1 m'" "r = Inr (Inr (rec_val (desc rm) fs)) \<or> r = Inr (Inl ENOMEM) \<and> fails m1 \<noteq> []"
  using value_to_mem_full[OF _ _ assms(3)] map_wfD(1,2)[OF assms(1)] assms(2) by blast+

lemma map_wfI:
  assumes "map_wf F m rm" "recmap_inv (enc (desc rm) ` F) m' rm'" "desc rm' = desc rm"
    "map index_sig (indexes rm') = map index_sig (indexes rm)"
    "comparison_fp (treep rm') = comparison_fp (treep rm)"
  shows "map_wf F m' rm'"
  using assms(1,2) unfolding map_wf_def assms(3,4,5) by blast

lemma map_wf_mono: "map_wf F m rm \<Longrightarrow> mem_le m m' \<Longrightarrow> map_wf F m' rm"
  by (auto simp: map_wf_def intro: recmap_inv_mono)

lemma RDB_insert_tree_rec_result:
  assumes wf: "map_wf F m rm" and fs: "fs \<in> F"
    and run: "RDB_insert_tree_rec rm fs m = (r, rm', m')"
  shows "mem_le m m' \<and>
    (r = Inr () \<and> \<not> conflicts rm (enc (desc rm) fs) \<and> map_wf F m' rm' \<and> desc rm' = desc rm
       \<and> records rm' = insert (enc (desc rm) fs) (records rm)
       \<and> map index_sig (indexes rm') = map index_sig (indexes rm)
     \<or> r = KEY_VIOL \<and> conflicts rm (enc (desc rm) fs) \<and> rm' = rm
     \<or> r = NO_MEM \<and> rm' = rm \<and> fails m \<noteq> []
     \<or> (\<exists>e. r = Inl e) \<and> (rec_key (desc rm) fs \<noteq> [] \<or> rec_val (desc rm) fs \<noteq> [] \<longrightarrow> r = Inl Segfault)
        \<and> fails m \<noteq> [])"
proof -
  let ?kv = "enc (desc rm) fs"
  obtain k m1 where k: "key_to_mem (desc rm) fs m = (k, m1)" by fastforce
  note kr = map_wf_key_run[OF wf fs k]
  obtain v m2 where v: "value_to_mem (desc rm) fs m1 = (v, m2)" by fastforce
  note vr = map_wf_value_run[OF wf fs v]
  have le2: "mem_le m m2" using kr(1) vr(1) by (rule mem_le_trans)
  show ?thesis
  proof (cases "k = Inr (Inl ENOMEM) \<or> v = Inr (Inl ENOMEM)")
    case True
    then have "r = NO_MEM" "rm' = rm" "m' = m1 \<or> m' = m2"
      using run k v kr(2) by (auto simp: RDB_insert_tree_rec_def)
    moreover have "fails m \<noteq> []" using True kr(2) vr(2) mem_le_fails[OF kr(1)] by auto
    ultimately show ?thesis using kr(1) le2 by blast
  next
    case False
    obtain q h rm1 m3 where q: "insert_tree_rec_kv rm (fst ?kv) (snd ?kv) m2 = (q, h, rm1, m3)"
      by (metis prod_cases4)
    note res = insert_tree_rec_kv_result[OF recmap_inv_mono[OF map_wfD(3)[OF wf] le2]
        map_wfD(4)[OF wf fs] q]
    have runs: "rm' = rm1" "m' = m3" "r = (case q of Inr _ \<Rightarrow> Inr () | Inl e \<Rightarrow>
        if h \<and> (rec_key (desc rm) fs \<noteq> [] \<or> rec_val (desc rm) fs \<noteq> []) then Inl Segfault else Inl e)"
      using run k v kr vr False q by (auto simp: RDB_insert_tree_rec_def enc_def split: sum.splits)
    have le3: "mem_le m m3" using res le2 mem_le_trans unfolding insert_result_def by blast
    from res consider "q = Inr ()" "\<not> conflicts rm ?kv" "recmap_inv (enc (desc rm) ` F) m3 rm1"
        "records rm1 = insert ?kv (records rm)" "desc rm1 = desc rm"
        "map index_sig (indexes rm1) = map index_sig (indexes rm)"
        "comparison_fp (treep rm1) = comparison_fp (treep rm)"
      | "q = KEY_VIOL" "conflicts rm ?kv" "\<not> h" "rm1 = rm"
      | "q = NO_MEM" "\<not> h" "rm1 = rm" "fails m2 \<noteq> []"
      | e where "q = Inl e" "h" "fails m2 \<noteq> []"
      unfolding insert_result_def by blast
    then show ?thesis
    proof cases
      case 1
      then show ?thesis using runs le3 by (auto intro: map_wfI[OF wf])
    next
      case 2
      then show ?thesis using runs le3 by simp
    next
      case 3
      then show ?thesis using runs le3 mem_le_fails[OF le2] by simp
    next
      case 4
      then show ?thesis using runs le3 mem_le_fails[OF le2] by simp
    qed
  qed
qed

lemma RDB_delete_tree_rec_result:
  assumes wf: "map_wf F m rm" and fs: "fs \<in> F"
    and run: "RDB_delete_tree_rec rm fs m = (r, rm', m')"
  shows "mem_le m m' \<and>
    (r = NO_MEM \<and> fails m \<noteq> []
     \<or> (case find_rec rm (rec_key (desc rm) fs) of
          None \<Rightarrow> r = NOT_FOUND \<and> rm' = rm
        | Some kv \<Rightarrow> r = Inr () \<and> map_wf F m' rm' \<and> records rm' = records rm - {kv}
            \<and> desc rm' = desc rm \<and> map index_sig (indexes rm') = map index_sig (indexes rm)))"
proof -
  obtain k m1 where k: "key_to_mem (desc rm) fs m = (k, m1)" by fastforce
  note kr = map_wf_key_run[OF wf fs k]
  show ?thesis
  proof (cases "k = Inr (Inl ENOMEM)")
    case True
    then show ?thesis using run k kr by (auto simp: RDB_delete_tree_rec_def)
  next
    case False
    then have del: "delete_tree_rec_by_key rm (rec_key (desc rm) fs) m1 = (r, rm', m')"
      using run k kr by (auto simp: RDB_delete_tree_rec_def)
    note res = delete_tree_rec_by_key_result[OF recmap_inv_mono[OF map_wfD(3)[OF wf] kr(1)]
        map_wfD(5)[OF wf fs] del]
    show ?thesis
    proof (cases "find_rec rm (rec_key (desc rm) fs)")
      case None
      then show ?thesis using res kr(1) mem_le_trans unfolding delete_result_def by auto
    next
      case (Some kv)
      then show ?thesis using res mem_le_trans[OF kr(1)] mem_le_fails[OF kr(1)] map_wfI[OF wf, of m' rm']
        unfolding delete_result_def by auto
    qed
  qed
qed

subsection \<open>Conflicts\<close>

text \<open>Two records conflict if they agree on the key, or on the fields of an index.\<close>

definition conflict_with :: "tree_recmap \<Rightarrow> bytes \<times> bytes \<Rightarrow> bytes \<times> bytes \<Rightarrow> bool" where
  "conflict_with rm kv kv' \<longleftrightarrow>
     compare_key (comparison_fp (treep rm)) (fst kv) (fst kv') = 0
     \<or> (\<exists>ixp \<in> set (indexes rm). compare_key (comparison_fp (ix_treep ixp))
          (skey_of (desc rm) ixp kv) (skey_of (desc rm) ixp kv') = 0)"

lemma index_free_iff:
  assumes "index_inv rmp R m rs ixp"
  shows "\<not> index_free rmp kv ixp \<longleftrightarrow> (\<exists>kv' \<in> rs.
    compare_key (comparison_fp (ix_treep ixp)) (skey_of rmp ixp kv) (skey_of rmp ixp kv') = 0)"
  using assms
  by (auto simp: index_free_def bt_lookup_def rec_lookup_None index_inv_def index_entry_def)

lemma conflicts_iff:
  assumes "recmap_inv R m rm"
  shows "conflicts rm kv \<longleftrightarrow> (\<exists>kv' \<in> records rm. conflict_with rm kv kv')"
proof -
  have "find_rec rm (fst kv) \<noteq> None \<longleftrightarrow>
      (\<exists>kv' \<in> records rm. compare_key (comparison_fp (treep rm)) (fst kv) (fst kv') = 0)"
    unfolding find_rec_def bt_lookup_def rec_lookup_None records_def by blast
  then show ?thesis
    using index_free_iff[OF recmap_invD(5)[OF assms], of _ kv]
    unfolding conflicts_def conflict_with_def by blast
qed

lemma skey_of_sig: "ix_fieldv ixp = ix_fieldv ixp' \<Longrightarrow> skey_of rmp ixp kv = skey_of rmp ixp' kv"
  by (simp add: skey_of_def)

lemma conflict_with_sig:
  assumes "conflict_with a kv kv'" and "desc b = desc a"
    and "comparison_fp (treep b) = comparison_fp (treep a)"
    and sig: "map index_sig (indexes b) = map index_sig (indexes a)"
  shows "conflict_with b kv kv'"
  using assms(1) unfolding conflict_with_def
proof (elim disjE bexE)
  fix ixp
  assume ixp: "ixp \<in> set (indexes a)" and eq: "compare_key (comparison_fp (ix_treep ixp))
    (skey_of (desc a) ixp kv) (skey_of (desc a) ixp kv') = 0"
  have "index_sig ixp \<in> set (map index_sig (indexes b))" using ixp sig by simp
  then obtain ixp2 where ixp2: "ixp2 \<in> set (indexes b)" "index_sig ixp2 = index_sig ixp" by auto
  then have "skey_of (desc b) ixp2 kv = skey_of (desc a) ixp kv"
    "skey_of (desc b) ixp2 kv' = skey_of (desc a) ixp kv'"
    "comparison_fp (ix_treep ixp2) = comparison_fp (ix_treep ixp)"
    using assms(2) skey_of_sig[of ixp2 ixp] by (auto simp: index_sig_def simp del: split_paired_All)
  then show "compare_key (comparison_fp (treep b)) (fst kv) (fst kv') = 0
    \<or> (\<exists>ixp \<in> set (indexes b). compare_key (comparison_fp (ix_treep ixp))
          (skey_of (desc b) ixp kv) (skey_of (desc b) ixp kv') = 0)"
    using eq ixp2(1) by metis
qed (use assms(3) in simp)

lemma conflict_with_cong:
  assumes "desc rm' = desc rm" "comparison_fp (treep rm') = comparison_fp (treep rm)"
    "map index_sig (indexes rm') = map index_sig (indexes rm)"
  shows "conflict_with rm' = conflict_with rm"
  using conflict_with_sig[of rm _ _ rm'] conflict_with_sig[of rm' _ _ rm] assms
  by (auto simp: fun_eq_iff)

lemma stored_no_conflict:
  assumes inv: "recmap_inv R m rm" and kv: "kv \<in> records rm" "kv' \<in> records rm" "kv \<noteq> kv'"
  shows "\<not> conflict_with rm kv kv'"
proof -
  have keys: "fst kv \<noteq> fst kv'" using inj_on_records[OF inv] kv by (auto dest: inj_onD)
  have "compare_key (comparison_fp (ix_treep ixp)) (skey_of (desc rm) ixp kv) (skey_of (desc rm) ixp kv') \<noteq> 0"
    if "ixp \<in> set (indexes rm)" for ixp
  proof -
    note I = recmap_invD(5)[OF inv that]
    let ?es = "recs (root (ix_treep ixp))"
    have ko: "key_order (comparison_fp (ix_treep ixp)) (skey_of (desc rm) ixp ` R)"
      using I by (simp add: index_inv_def index_ok_def)
    have srt: "sorted_wrt (key_less (comparison_fp (ix_treep ixp))) (map fst ?es)"
      "fst ` set ?es \<subseteq> skey_of (desc rm) ixp ` R"
      using I by (auto simp: index_inv_def bt_wf_def tree_wf_def)
    have "index_entry (desc rm) ixp kv \<in> set ?es" "index_entry (desc rm) ixp kv' \<in> set ?es"
      using I kv by (auto simp: index_inv_def)
    moreover have "index_entry (desc rm) ixp kv \<noteq> index_entry (desc rm) ixp kv'"
      using keys by (simp add: index_entry_def)
    ultimately show ?thesis
      using key_order.distinct_keys[OF ko srt] by (fastforce simp: index_entry_def)
  qed
  moreover have "compare_key (comparison_fp (treep rm)) (fst kv) (fst kv') \<noteq> 0"
    using key_order.distinct_keys[OF recmap_invD(2)[OF inv] recmap_sorted[OF inv], of kv kv'] kv
    by (simp add: records_def)
  ultimately show ?thesis by (simp add: conflict_with_def)
qed

subsection \<open>Looking up\<close>

lemma memcmp_equal: "length x = length y \<Longrightarrow> memcmp x y (length x) = 0 \<longleftrightarrow> x = y"
  by (induction x y rule: list_induct2) auto

lemma RDB_contains_tree_rec_result:
  assumes wf: "map_wf F m rm" and fs: "fs \<in> F"
    and run: "RDB_contains_tree_rec rm fs m = (r, m')"
  shows "mem_le m m' \<and> (r = NO_MEM \<and> fails m \<noteq> []
    \<or> r = (case find_rec rm (rec_key (desc rm) fs) of
             None \<Rightarrow> NOT_FOUND
           | Some kv \<Rightarrow> if snd kv = rec_val (desc rm) fs then Inr () else NOT_FOUND))"
proof -
  obtain k m1 where k: "key_to_mem (desc rm) fs m = (k, m1)" by fastforce
  note kr = map_wf_key_run[OF wf fs k]
  obtain v m2 where v: "value_to_mem (desc rm) fs m1 = (v, m2)" by fastforce
  note vr = map_wf_value_run[OF wf fs v]
  let ?n = "RDB_tree_find (treep rm) (rec_key (desc rm) fs)"
  have node: "node_rec ?n = find_rec rm (rec_key (desc rm) fs)"
    by (rule find_rec_node[OF map_wfD(3)[OF wf] map_wfD(5)[OF wf fs]])
  show ?thesis
  proof (cases "k = Inr (Inl ENOMEM)")
    case True
    then show ?thesis using run k kr by (auto simp: RDB_contains_tree_rec_def)
  next
    case kF: False
    show ?thesis
    proof (cases "?n = Null")
      case True
      moreover from True have "find_rec rm (rec_key (desc rm) fs) = None"
        using node by (simp add: node_rec_def)
      ultimately show ?thesis using run k kr kF by (auto simp: RDB_contains_tree_rec_def)
    next
      case nF: False
      then have found: "find_rec rm (rec_key (desc rm) fs) = Some (nkey ?n, nvalue ?n)"
        using node by (simp add: node_rec_def)
      have le: "mem_le m m2" using kr(1) vr(1) by (rule mem_le_trans)
      show ?thesis
        using run k kr kF v vr nF found le mem_le_fails[OF kr(1)]
          memcmp_equal[of "nvalue ?n" "rec_val (desc rm) fs"]
        by (auto simp: RDB_contains_tree_rec_def Let_def split: if_splits)
    qed
  qed
qed

lemma get_mem_fields_value_only:
  "\<forall>g \<in> set gs. keyfieldcount rmp \<le> no g \<Longrightarrow>
    RDB_get_mem_fields rmp key val gs = RDB_get_mem_fields rmp key' val gs"
proof (induction gs)
  case (Cons g gs)
  then have "RDB_get_mem_fields rmp key val gs = RDB_get_mem_fields rmp key' val gs" by simp
  then show ?case using Cons.prems by simp
qed simp

lemma RDB_get_tree_fields_result:
  assumes wf: "map_wf F m rm" and fs: "fs \<in> F"
    and gs: "\<forall>g \<in> set gs. keyfieldcount (desc rm) \<le> no g \<and> no g < fieldcount (desc rm)"
    and run: "RDB_get_tree_fields rm fs gs m = (r, m')"
  shows "mem_le m m' \<and> (r = NO_MEM \<and> fails m \<noteq> []
    \<or> find_rec rm (rec_key (desc rm) fs) = None \<and> r = NOT_FOUND
    \<or> (\<exists>fs2 \<in> F. \<exists>gs'. find_rec rm (rec_key (desc rm) fs) = Some (enc (desc rm) fs2)
         \<and> r = Inr gs' \<and> list_all2 (fetched fs2) gs gs'))"
proof -
  obtain k m1 where k: "key_to_mem (desc rm) fs m = (k, m1)" by fastforce
  note kr = map_wf_key_run[OF wf fs k]
  let ?n = "RDB_tree_find (treep rm) (rec_key (desc rm) fs)"
  have node: "node_rec ?n = find_rec rm (rec_key (desc rm) fs)"
    by (rule find_rec_node[OF map_wfD(3)[OF wf] map_wfD(5)[OF wf fs]])
  show ?thesis
  proof (cases "k = Inr (Inl ENOMEM) \<or> ?n = Null")
    case True
    then show ?thesis using run k kr node by (auto simp: RDB_get_tree_fields_def node_rec_def)
  next
    case False
    then have found: "find_rec rm (rec_key (desc rm) fs) = Some (nkey ?n, nvalue ?n)"
      using node by (simp add: node_rec_def)
    then have "(nkey ?n, nvalue ?n) \<in> records rm"
      using find_rec_Some[OF map_wfD(3)[OF wf] map_wfD(5)[OF wf fs]] by blast
    then obtain fs2 where fs2: "fs2 \<in> F" "enc (desc rm) fs2 = (nkey ?n, nvalue ?n)"
      using recmap_invD(4)[OF map_wfD(3)[OF wf]] by auto
    have "\<forall>g \<in> set gs. no g < fieldcount (desc rm)" "\<forall>g \<in> set gs. keyfieldcount (desc rm) \<le> no g"
      using gs by auto
    then obtain gs' where "RDB_get_mem_fields (desc rm) (rec_key (desc rm) fs) (nvalue ?n) gs = Inr (RDB_OK, gs')"
      "list_all2 (fetched fs2) gs gs'"
      using get_mem_fields_full[OF map_wfD(1)[OF wf] map_wfD(2)[OF wf fs2(1)], of gs] fs2(2)
        get_mem_fields_value_only[of gs "desc rm" "rec_key (desc rm) fs" "nvalue ?n" "rec_key (desc rm) fs2"]
      by (auto simp: enc_def)
    then show ?thesis using run k kr False found fs2 by (auto simp: RDB_get_tree_fields_def)
  qed
qed

subsection \<open>Updating\<close>

definition set_field :: "rdb_field list \<Rightarrow> rdb_field \<Rightarrow> rdb_field list" where
  "set_field fs g = fs[no g := g]"

definition set_fields :: "rdb_field list \<Rightarrow> rdb_field list \<Rightarrow> rdb_field list" where
  "set_fields fs gs = foldl set_field fs gs"

lemma set_fields_simps [simp]:
  "set_fields fs [] = fs" "set_fields fs (g # gs) = set_fields (set_field fs g) gs"
  by (simp_all add: set_fields_def)

text \<open>The new values fit, and what they make of a record is a record that may occur.\<close>

definition updates_ok :: "recmap \<Rightarrow> (rdb_field list) set \<Rightarrow> rdb_field list \<Rightarrow> bool" where
  "updates_ok rmp F gs \<longleftrightarrow>
     (\<forall>g \<in> set gs. no g < fieldcount rmp \<and> field_ok rmp g \<and> (\<forall>fs \<in> F. set_field fs g \<in> F))"

lemma updates_ok_Cons [simp]:
  "updates_ok rmp F (g # gs) \<longleftrightarrow> no g < fieldcount rmp \<and> field_ok rmp g
     \<and> (\<forall>fs \<in> F. set_field fs g \<in> F) \<and> updates_ok rmp F gs"
  by (auto simp: updates_ok_def)

lemma set_fields_in: "updates_ok rmp F gs \<Longrightarrow> fs \<in> F \<Longrightarrow> set_fields fs gs \<in> F"
  by (induction gs arbitrary: fs) auto

lemma set_field_mem_mem:
  "RDB_set_field_mem rmp d f n m = (r, m') \<Longrightarrow> mem_le m m'"
  by (auto simp: RDB_set_field_mem_def Let_def malloc_mem_le
      split: sum.splits prod.splits if_splits option.splits)

lemma set_key_field:
  assumes "recmap_ok rmp" "full_rec rmp fs" "field_ok rmp g" "no g < keyfieldcount rmp"
    and run: "RDB_set_field_mem rmp (rec_key rmp fs) g (varkeyfieldcount rmp) m = (r, m')"
  shows "r = Inr (RDB_OK, rec_key rmp (set_field fs g)) \<or> (\<exists>d. r = Inr (ENOMEM, d)) \<and> fails m \<noteq> []"
    "rec_val rmp (set_field fs g) = rec_val rmp fs"
proof -
  note parts = full_rec_parts[OF assms(1,2)]
  let ?ks = "take (keyfieldcount rmp) fs" and ?i = "no g"
  have kf: "keyfieldcount rmp \<le> fieldcount rmp" "fieldcount rmp = length (fieldinfos rmp)"
    using assms(1) by (auto simp: recmap_ok_def)
  have i: "?i < length ?ks" using assms(4) kf parts(3) by simp
  have split: "?ks = take ?i ?ks @ ?ks ! ?i # drop (Suc ?i) ?ks" using i id_take_nth_drop by blast
  have new: "take (keyfieldcount rmp) (set_field fs g) = take ?i ?ks @ g # drop (Suc ?i) ?ks"
    unfolding set_field_def take_update_swap using i by (rule upd_conv_take_nth_drop)
  have nos: "map no ?ks = [0 ..< keyfieldcount rmp]" "rec_ok rmp ?ks"
    using parts(1) by (auto simp: key_rec_def)
  have n: "varkeyfieldcount rmp = length (var_fields rmp ?ks)"
    using count_var_fields[OF nos(1), of rmp] assms(1) kf by (simp add: recmap_ok_def)
  have "no (?ks ! ?i) = ?i" using parts(4)[of ?i] i kf assms(4) by simp
  then show "r = Inr (RDB_OK, rec_key rmp (set_field fs g)) \<or> (\<exists>d. r = Inr (ENOMEM, d)) \<and> fails m \<noteq> []"
    using set_field_encode[OF assms(1), of "take ?i ?ks" "?ks ! ?i" "drop (Suc ?i) ?ks" g 0
        "keyfieldcount rmp" "varkeyfieldcount rmp" m r m'] assms(3) nos n run
    unfolding split [symmetric] rec_key_def new by simp
  show "rec_val rmp (set_field fs g) = rec_val rmp fs"
    using assms(4) by (simp add: rec_val_def set_field_def)
qed

lemma set_data_field:
  assumes "recmap_ok rmp" "full_rec rmp fs" "field_ok rmp g" "\<not> no g < keyfieldcount rmp"
    and "no g < fieldcount rmp"
    and run: "RDB_set_field_mem rmp (rec_val rmp fs) g (vardatafieldcount rmp) m = (r, m')"
  shows "r = Inr (RDB_OK, rec_val rmp (set_field fs g)) \<or> (\<exists>d. r = Inr (ENOMEM, d)) \<and> fails m \<noteq> []"
    "rec_key rmp (set_field fs g) = rec_key rmp fs"
proof -
  note parts = full_rec_parts[OF assms(1,2)]
  let ?k = "keyfieldcount rmp"
  let ?vs = "drop ?k fs" and ?i = "no g - keyfieldcount rmp"
  have kf: "?k \<le> fieldcount rmp" "fieldcount rmp = length (fieldinfos rmp)"
    using assms(1) by (auto simp: recmap_ok_def)
  have i: "?i < length ?vs" "no g = ?k + ?i" using assms(4,5) parts(3) by auto
  have split: "?vs = take ?i ?vs @ ?vs ! ?i # drop (Suc ?i) ?vs" using i id_take_nth_drop by blast
  have new: "drop ?k (set_field fs g) = take ?i ?vs @ g # drop (Suc ?i) ?vs"
  proof -
    have "drop ?k (set_field fs g) = ?vs[?i := g]"
      using assms(4) unfolding set_field_def by (intro drop_update_swap) simp
    also have "\<dots> = take ?i ?vs @ g # drop (Suc ?i) ?vs" using i(1) by (rule upd_conv_take_nth_drop)
    finally show ?thesis .
  qed
  have nos: "map no ?vs = [?k ..< fieldcount rmp]" "rec_ok rmp ?vs"
    using parts(2) by (auto simp: data_rec_def)
  have n: "vardatafieldcount rmp = length (var_fields rmp ?vs)"
    using count_var_fields[OF nos(1), of rmp] assms(1) kf by (simp add: recmap_ok_def)
  have "no (?vs ! ?i) = no g" using parts(4)[of "no g"] i assms(5) parts(3) by simp
  then show "r = Inr (RDB_OK, rec_val rmp (set_field fs g)) \<or> (\<exists>d. r = Inr (ENOMEM, d)) \<and> fails m \<noteq> []"
    using set_field_encode[OF assms(1), of "take ?i ?vs" "?vs ! ?i" "drop (Suc ?i) ?vs" g ?k
        "fieldcount rmp" "vardatafieldcount rmp" m r m'] assms(3) nos n run
    unfolding split [symmetric] rec_val_def new by simp
  show "rec_key rmp (set_field fs g) = rec_key rmp fs"
    using assms(4) by (simp add: rec_key_def set_field_def)
qed

lemma set_value_fields_result:
  assumes rmp: "recmap_ok rmp" and F: "\<forall>fs \<in> F. full_rec rmp fs"
  shows "fs \<in> F \<Longrightarrow> updates_ok rmp F gs \<Longrightarrow> \<forall>g \<in> set gs. \<not> no g < keyfieldcount rmp \<Longrightarrow>
    set_value_fields rmp (rec_val rmp fs) gs m = (r, m') \<Longrightarrow>
    mem_le m m' \<and> rec_key rmp (set_fields fs gs) = rec_key rmp fs
      \<and> (r = Inr (RDB_OK, rec_val rmp (set_fields fs gs)) \<or> (\<exists>d. r = Inr (ENOMEM, d)) \<and> fails m \<noteq> [])"
proof (induction gs arbitrary: fs m r m')
  case (Cons g gs)
  obtain q m1 where q: "RDB_set_field_mem rmp (rec_val rmp fs) g (vardatafieldcount rmp) m = (q, m1)"
    by fastforce
  note le = set_field_mem_mem[OF q]
  have g: "full_rec rmp fs" "field_ok rmp g" "\<not> no g < keyfieldcount rmp" "no g < fieldcount rmp"
    "set_field fs g \<in> F" "updates_ok rmp F gs"
    using Cons.prems F by auto
  note one = set_data_field[OF rmp g(1-4) q]
  have key: "rec_key rmp (set_fields (set_field fs g) gs) = rec_key rmp fs"
    using Cons.IH[OF g(5,6), of m1] Cons.prems(3) one(2)
    by (cases "set_value_fields rmp (rec_val rmp (set_field fs g)) gs m1") auto
  show ?case
  proof (cases "q = Inr (RDB_OK, rec_val rmp (set_field fs g))")
    case True
    then have "set_value_fields rmp (rec_val rmp (set_field fs g)) gs m1 = (r, m')"
      using Cons.prems(4) q by simp
    then show ?thesis using Cons.IH[OF g(5,6)] Cons.prems(3) key le mem_le_fails[OF le] mem_le_trans[OF le]
      by auto
  next
    case False
    then show ?thesis using one(1) q Cons.prems(4) le key by auto
  qed
qed auto

lemma set_fields_kv_result:
  assumes rmp: "recmap_ok rmp" and F: "\<forall>fs \<in> F. full_rec rmp fs"
  shows "fs \<in> F \<Longrightarrow> updates_ok rmp F gs \<Longrightarrow>
    set_fields_kv rmp (rec_key rmp fs) (rec_val rmp fs) gs m = (r, m') \<Longrightarrow>
    mem_le m m' \<and> (r = Inr (RDB_OK, rec_key rmp (set_fields fs gs), rec_val rmp (set_fields fs gs))
      \<or> (\<exists>d. r = Inr (ENOMEM, d)) \<and> fails m \<noteq> [])"
proof (induction gs arbitrary: fs m r m')
  case (Cons g gs)
  have g: "full_rec rmp fs" "field_ok rmp g" "no g < fieldcount rmp" "set_field fs g \<in> F" "updates_ok rmp F gs"
    using Cons.prems F by auto
  let ?blk = "if no g < keyfieldcount rmp then rec_key rmp fs else rec_val rmp fs"
  let ?n = "if no g < keyfieldcount rmp then varkeyfieldcount rmp else vardatafieldcount rmp"
  obtain q m1 where q: "RDB_set_field_mem rmp ?blk g ?n m = (q, m1)" by fastforce
  note le = set_field_mem_mem[OF q]
  show ?case
  proof (cases "\<exists>d. q = Inr (ENOMEM, d) \<and> fails m \<noteq> []")
    case True
    then show ?thesis using q Cons.prems(3) le by (auto split: if_splits)
  next
    case False
    then have "set_fields_kv rmp (rec_key rmp (set_field fs g)) (rec_val rmp (set_field fs g)) gs m1 = (r, m')"
      using set_key_field[OF rmp g(1,2), of m q m1] set_data_field[OF rmp g(1,2) _ g(3), of m q m1]
        q Cons.prems(3) by (auto split: if_splits)
    from Cons.IH[OF g(4,5) this] show ?thesis
      using mem_le_fails[OF le] mem_le_trans[OF le, of m'] unfolding set_fields_simps by blast
  qed
qed auto

text \<open>Changing the value of one node.\<close>

lemma write_value_frame:
  "ids (write_value a v' t) = ids t" "height (write_value a v' t) = height t"
  "avl (write_value a v' t) = avl t" "par_ok q (write_value a v' t) = par_ok q t"
  "map fst (recs (write_value a v' t)) = map fst (recs t)"
  by (induction t arbitrary: q) auto

lemma write_value_items:
  "items (write_value a v' t) = map (\<lambda>(i, k, v). (i, k, if i = a then v' else v)) (items t)"
  by (induction t) auto

lemma write_value_recs:
  assumes "distinct (ids t)" "distinct (map fst (recs t))" "(a, k, v) \<in> set (items t)"
  shows "set (recs (write_value a v' t)) = insert (k, v') (set (recs t) - {(k, v)})"
proof -
  obtain xs ys where xy: "items t = xs @ (a, k, v) # ys" using assms(3) split_list by metis
  then have "a \<notin> fst ` set xs" "a \<notin> fst ` set ys" using assms(1) by (auto simp: ids_def)
  then have "map (\<lambda>(i, k, v). (i, k, if i = a then v' else v)) xs = xs"
    "map (\<lambda>(i, k, v). (i, k, if i = a then v' else v)) ys = ys"
    by (force intro: map_idI)+
  moreover define X Y where "X = map snd xs" and "Y = map snd ys"
  ultimately have new: "recs (write_value a v' t) = X @ (k, v') # Y"
    unfolding recs_def write_value_items xy by simp
  have old: "recs t = X @ (k, v) # Y" by (simp add: recs_def xy X_def Y_def)
  have "k \<notin> fst ` set X" "k \<notin> fst ` set Y" using assms(2) unfolding old by auto
  then have "(k, v) \<notin> set X" "(k, v) \<notin> set Y" by force+
  then show ?thesis unfolding old new by auto
qed

context key_order
begin

lemma sorted_distinct: "sorted_wrt (key_less cf) ks \<Longrightarrow> set ks \<subseteq> K \<Longrightarrow> distinct ks"
  using cmp_refl by (induction ks) (fastforce simp: key_less_def)+

end

lemma RDB_tree_find_item:
  "RDB_tree_find bt key = n \<Longrightarrow> n \<noteq> Null \<Longrightarrow> (nid n, nkey n, nvalue n) \<in> set (items (root bt))"
  using tree_find_found[of "comparison_fp bt" "root bt" key] by (auto simp: RDB_tree_find_def)

text \<open>An index entry does not change with fields that are not part of the index.\<close>

lemma skey_set_fields:
  assumes rmp: "recmap_ok rmp" and fs: "full_rec rmp fs" "full_rec rmp fs2"
    and ix: "\<forall>i \<in> set (ix_fieldv ixp). i < fieldcount rmp \<and> fs ! i = fs2 ! i"
  shows "skey_of rmp ixp (enc rmp fs) = skey_of rmp ixp (enc rmp fs2)"
proof -
  let ?gs = "map index_field (ix_fieldv ixp)"
  have lt: "\<forall>g \<in> set ?gs. no g < fieldcount rmp" using ix by (auto simp: index_field_def)
  obtain gs1 gs2 where gs: "RDB_get_mem_fields rmp (rec_key rmp fs) (rec_val rmp fs) ?gs = Inr (RDB_OK, gs1)"
    "list_all2 (fetched fs) ?gs gs1"
    "RDB_get_mem_fields rmp (rec_key rmp fs2) (rec_val rmp fs2) ?gs = Inr (RDB_OK, gs2)"
    "list_all2 (fetched fs2) ?gs gs2"
    using get_mem_fields_full[OF rmp fs(1) lt] get_mem_fields_full[OF rmp fs(2) lt] by blast
  have "list_all2 (\<lambda>f g. no f = no g \<and> flen f = flen g \<and> field_bytes f = field_bytes g) gs1 gs2"
    unfolding list_all2_conv_all_nth
  proof (intro conjI allI impI)
    have len: "length gs1 = length (ix_fieldv ixp)" "length gs2 = length (ix_fieldv ixp)"
      using gs(2,4) by (auto dest: list_all2_lengthD)
    then show "length gs1 = length gs2" by simp
    fix i assume i: "i < length gs1"
    let ?f = "index_field (ix_fieldv ixp ! i)"
    have "fetched fs ?f (gs1 ! i)" "fetched fs2 ?f (gs2 ! i)"
      using gs(2,4) i len by (auto simp: list_all2_conv_all_nth)
    moreover have "fs ! no ?f = fs2 ! no ?f" using ix i len by (simp add: index_field_def)
    ultimately show "no (gs1 ! i) = no (gs2 ! i)" "flen (gs1 ! i) = flen (gs2 ! i)"
      "field_bytes (gs1 ! i) = field_bytes (gs2 ! i)"
      by (auto simp: fetched_def index_field_def memcpy_def)
  qed
  then show ?thesis using gs(1,3) encode_cong by (simp add: skey_of_def enc_def)
qed

lemma set_fields_other: "\<forall>g \<in> set gs. no g \<noteq> i \<Longrightarrow> set_fields fs gs ! i = fs ! i"
  by (induction gs arbitrary: fs) (auto simp: set_field_def)

text \<open>
  What an update of the record \<open>old\<close> to \<open>new\<close> gives: the new record, unless it is in
  conflict with another one, in which case the records stay as they are.
\<close>

definition update_result ::
  "(rdb_field list) set \<Rightarrow> mem \<Rightarrow> tree_recmap \<Rightarrow> bytes \<times> bytes \<Rightarrow> bytes \<times> bytes
    \<Rightarrow> unit result \<Rightarrow> tree_recmap \<Rightarrow> mem \<Rightarrow> bool" where
  "update_result F m rm old new r rm' m' \<longleftrightarrow>
     (let others = records rm - {old} in
      (if \<exists>kv \<in> others. conflict_with rm new kv then r = KEY_VIOL \<and> records rm' = records rm
       else r = Inr () \<and> records rm' = insert new others)
      \<and> map_wf F m' rm' \<and> desc rm' = desc rm \<and> map index_sig (indexes rm') = map index_sig (indexes rm)
      \<and> mem_le m m')
     \<or> (\<exists>e. r = Inl e) \<and> fails m \<noteq> []"

lemma update_value_wf:
  assumes wf: "map_wf F m rm" and le: "mem_le m m'" and old: "fs \<in> F" "enc (desc rm) fs \<in> records rm"
    and new: "fs' \<in> F" "rec_key (desc rm) fs' = rec_key (desc rm) fs"
    and ix: "\<And>ixp. ixp \<in> set (indexes rm) \<Longrightarrow>
      skey_of (desc rm) ixp (enc (desc rm) fs') = skey_of (desc rm) ixp (enc (desc rm) fs)"
    and a: "(a, enc (desc rm) fs) \<in> set (items (root (treep rm)))"
    and rm': "rm' = rm\<lparr>treep := (treep rm)\<lparr>root := write_value a (rec_val (desc rm) fs') (root (treep rm))\<rparr>\<rparr>"
  shows "update_result F m rm (enc (desc rm) fs) (enc (desc rm) fs') (Inr ()) rm' m'"
proof -
  let ?rmp = "desc rm" and ?R = "enc (desc rm) ` F"
  let ?old = "enc ?rmp fs" and ?new = "enc ?rmp fs'" and ?t = "root (treep rm)"
  note inv = map_wfD(3)[OF wf]
  note D = recmap_invD[OF inv]
  have keys: "fst ?new = fst ?old" "?old = (rec_key ?rmp fs, rec_val ?rmp fs)"
    "?new = (rec_key ?rmp fs, rec_val ?rmp fs')"
    using new(2) by (simp_all add: enc_def)
  have tw: "distinct (ids ?t)" "distinct (map fst (recs ?t))"
    using D(3) key_order.sorted_distinct[OF D(2)] recmap_sorted[OF inv] by (auto simp: bt_wf_def tree_wf_def)
  have recs': "records rm' = insert ?new (records rm - {?old})"
    using write_value_recs[OF tw] a keys unfolding records_def rm' by simp
  have wf': "bt_wf (fst ` ?R) m' (treep rm')"
    using bt_wf_mono[OF D(3) le] write_value_frame(5)[of a "rec_val ?rmp fs'" ?t]
    by (simp add: rm' bt_wf_def tree_wf_def write_value_frame flip: set_map)
  have idx: "index_inv ?rmp ?R m' (records rm') ixp" if "ixp \<in> set (indexes rm)" for ixp
  proof -
    have "index_entry ?rmp ixp ?new = index_entry ?rmp ixp ?old"
      using ix[OF that] keys by (simp add: index_entry_def)
    then have "index_entry ?rmp ixp ` records rm' = index_entry ?rmp ixp ` records rm"
      using recs' old(2) by auto
    then show ?thesis using index_inv_mono[OF D(5)[OF that] le] by (simp add: index_inv_def)
  qed
  have "records rm' \<subseteq> ?R" using recs' D(4) map_wfD(4)[OF wf new(1)] by auto
  then have "recmap_inv ?R m' rm'"
    using D(1,2) wf' idx by (simp add: recmap_inv_def rm')
  then have mw: "map_wf F m' rm'" using map_wfI[OF wf, of m' rm'] by (simp add: rm')
  have "\<not> conflict_with rm ?new kv" if "kv \<in> records rm - {?old}" for kv
    using stored_no_conflict[OF inv old(2), of kv] that ix keys(1) by (auto simp: conflict_with_def)
  then show ?thesis using mw recs' le by (simp add: update_result_def Let_def rm')
qed

lemma delete_old:
  assumes wf: "map_wf F m rm" and fs: "fs \<in> F" "enc (desc rm) fs \<in> records rm"
    and run: "delete_tree_rec_by_key rm (rec_key (desc rm) fs) m = (r, rm1, m1)"
  shows "mem_le m m1 \<and> (r = NO_MEM \<and> fails m \<noteq> []
    \<or> r = Inr () \<and> map_wf F m1 rm1 \<and> records rm1 = records rm - {enc (desc rm) fs}
      \<and> desc rm1 = desc rm \<and> map index_sig (indexes rm1) = map index_sig (indexes rm)
      \<and> conflict_with rm1 = conflict_with rm)"
proof -
  have "find_rec rm (rec_key (desc rm) fs) = Some (enc (desc rm) fs)"
    using find_rec_self[OF map_wfD(3)[OF wf] fs(2)] by (simp add: enc_def)
  then show ?thesis
    using delete_tree_rec_by_key_result[OF map_wfD(3)[OF wf] map_wfD(5)[OF wf fs(1)] run]
      map_wfI[OF wf, of m1 rm1] conflict_with_cong[of rm1 rm]
    unfolding delete_result_def by auto
qed

lemma insert_new:
  assumes wf: "map_wf F m rm" and fs: "fs \<in> F"
    and run: "insert_tree_rec_kv rm (rec_key (desc rm) fs) (rec_val (desc rm) fs) m = (r, handed, rm', m')"
  shows "mem_le m m' \<and>
    (r = Inr () \<and> \<not> (\<exists>kv \<in> records rm. conflict_with rm (enc (desc rm) fs) kv) \<and> map_wf F m' rm'
        \<and> records rm' = insert (enc (desc rm) fs) (records rm) \<and> desc rm' = desc rm
        \<and> map index_sig (indexes rm') = map index_sig (indexes rm)
      \<or> r = KEY_VIOL \<and> (\<exists>kv \<in> records rm. conflict_with rm (enc (desc rm) fs) kv) \<and> \<not> handed \<and> rm' = rm
      \<or> (\<exists>e. r = Inl e) \<and> fails m \<noteq> [])"
proof -
  have "insert_tree_rec_kv rm (fst (enc (desc rm) fs)) (snd (enc (desc rm) fs)) m = (r, handed, rm', m')"
    using run by (simp add: enc_def)
  from insert_tree_rec_kv_result[OF map_wfD(3)[OF wf] map_wfD(4)[OF wf fs] this] show ?thesis
    using map_wfI[OF wf, of m' rm'] conflicts_iff[OF map_wfD(3)[OF wf]]
    unfolding insert_result_def by blast
qed

lemma reinsert_result:
  assumes wf: "map_wf F m rm" and wf1: "map_wf F m1 rm1" and rm1: "records rm1 = records rm - {old}"
      "desc rm1 = desc rm" "map index_sig (indexes rm1) = map index_sig (indexes rm)"
      "conflict_with rm1 = conflict_with rm"
    and old: "old = enc (desc rm) fs" "fs \<in> F" "old \<in> records rm"
    and new: "new = enc (desc rm) fs'" "fs' \<in> F"
    and le: "mem_le m m1" and run: "reinsert rm1 (fst new) (snd new) (fst old) (snd old) m1 = (r, rm', m')"
  shows "update_result F m rm old new r rm' m'"
proof -
  obtain q h rm2 m2 where q: "insert_tree_rec_kv rm1 (fst new) (snd new) m1 = (q, h, rm2, m2)"
    by (metis prod_cases4)
  have ins': "mem_le m1 m2 \<and>
    (q = Inr () \<and> \<not> (\<exists>kv \<in> records rm - {old}. conflict_with rm new kv) \<and> map_wf F m2 rm2
        \<and> records rm2 = insert new (records rm - {old}) \<and> desc rm2 = desc rm
        \<and> map index_sig (indexes rm2) = map index_sig (indexes rm)
      \<or> q = KEY_VIOL \<and> (\<exists>kv \<in> records rm - {old}. conflict_with rm new kv) \<and> \<not> h \<and> rm2 = rm1
      \<or> (\<exists>e. q = Inl e) \<and> fails m1 \<noteq> [])"
    using insert_new[OF wf1 new(2)] q rm1 new(1) by (simp add: enc_def)
  then consider (ok) "q = Inr ()" | (viol) "q = KEY_VIOL" "\<exists>kv \<in> records rm - {old}. conflict_with rm new kv"
      "\<not> h" "rm2 = rm1"
    | (oom) e where "q = Inl e" "fails m1 \<noteq> []" by blast
  then show ?thesis
  proof cases
    case ok
    have "mem_le m m2" using le ins' mem_le_trans by blast
    then show ?thesis using ok run q ins' by (auto simp: reinsert_def failed_iff update_result_def Let_def)
  next
    case oom
    then have "\<exists>e. r = Inl e" using run q by (auto simp: reinsert_def failed_iff split: prod.splits sum.splits if_splits)
    then show ?thesis using mem_le_fails[OF le] oom by (simp add: update_result_def)
  next
    case viol
    obtain q2 h2 rm3 m3 where q2: "insert_tree_rec_kv rm1 (fst old) (snd old) m2 = (q2, h2, rm3, m3)"
      by (metis prod_cases4)
    have le2: "mem_le m m2" using le ins' mem_le_trans by blast
    have none: "\<not> (\<exists>kv \<in> records rm1. conflict_with rm1 old kv)"
      using stored_no_conflict[OF map_wfD(3)[OF wf] old(3)] rm1 by auto
    have "mem_le m1 m2" using ins' by blast
    note ins2 = insert_new[OF map_wf_mono[OF wf1 this] old(2)]
    have "mem_le m m3" using ins2 q2 old rm1(2) le2 mem_le_trans by (auto simp: enc_def)
    have "(\<exists>e. q2 = Inl e) \<and> fails m2 \<noteq> [] \<or> q2 = Inr () \<and> map_wf F m3 rm3 \<and> records rm3 = records rm
        \<and> desc rm3 = desc rm \<and> map index_sig (indexes rm3) = map index_sig (indexes rm)"
      using ins2 q2 none rm1 old by (auto simp: enc_def)
    then show ?thesis
    proof (elim disjE conjE)
      assume "q2 = Inr ()" "map_wf F m3 rm3" "records rm3 = records rm" "desc rm3 = desc rm"
        "map index_sig (indexes rm3) = map index_sig (indexes rm)"
      then show ?thesis using run q viol q2 \<open>mem_le m m3\<close>
        by (auto simp: reinsert_def failed_iff update_result_def Let_def)
    next
      assume "\<exists>e. q2 = Inl e" "fails m2 \<noteq> []"
      then show ?thesis using run q viol q2 mem_le_fails[OF le2]
        by (auto simp: reinsert_def failed_iff update_result_def split: if_splits)
    qed
  qed
qed

lemma delete_update_reinsert_result:
  assumes wf: "map_wf F m rm" and fs: "fs \<in> F" "enc (desc rm) fs \<in> records rm"
    and node: "nkey n = rec_key (desc rm) fs" "nvalue n = rec_val (desc rm) fs"
    and gs: "updates_ok (desc rm) F gs"
    and run: "delete_update_reinsert_tree_node rm n gs m = (r, rm', m')"
  shows "update_result F m rm (enc (desc rm) fs) (enc (desc rm) (set_fields fs gs)) r rm' m'"
proof -
  let ?rmp = "desc rm"
  let ?k = "rec_key ?rmp fs" and ?v = "rec_val ?rmp fs"
  obtain o1 m1 where m1: "malloc_if (?k \<noteq> []) m = (o1, m1)" by fastforce
  obtain o2 m2 where m2: "malloc_if (?v \<noteq> []) m1 = (o2, m2)" by fastforce
  obtain d rm1 m3 where d: "delete_tree_rec_by_key rm ?k m2 = (d, rm1, m3)" by (metis prod_cases3)
  obtain o3 m4 where m4: "malloc_if (?k \<noteq> []) m3 = (o3, m4)" by fastforce
  obtain o4 m5 where m5: "malloc_if (?v \<noteq> []) m4 = (o4, m5)" by fastforce
  obtain s m6 where s: "set_fields_kv ?rmp ?k ?v gs m5 = (s, m6)" by fastforce
  have le2: "mem_le m m2" using malloc_if_mem[OF m1] malloc_if_mem[OF m2] mem_le_trans by blast
  note del = delete_old[OF map_wf_mono[OF wf le2] fs d]
  have le3: "mem_le m m3" using le2 del mem_le_trans by blast
  have le5: "mem_le m m5" using le3 malloc_if_mem[OF m4] malloc_if_mem[OF m5] mem_le_trans by blast
  have F: "\<forall>fs \<in> F. full_rec ?rmp fs" using map_wfD(2)[OF wf] by blast
  note st = set_fields_kv_result[OF map_wfD(1)[OF wf] F fs(1) gs s]
  have le6: "mem_le m m6" using le5 st mem_le_trans by blast
  have oom: "\<not> o1 \<Longrightarrow> fails m \<noteq> []" "\<not> o2 \<Longrightarrow> fails m \<noteq> []" "\<not> o3 \<Longrightarrow> fails m \<noteq> []" "\<not> o4 \<Longrightarrow> fails m \<noteq> []"
    using malloc_if_mem[OF m1] malloc_if_mem[OF m2] malloc_if_mem[OF m4] malloc_if_mem[OF m5]
      mem_le_fails le3 mem_le_trans by blast+
  note simps = delete_update_reinsert_tree_node_def Let_def node m1 m2 d m4 m5 s
  show ?thesis
  proof (cases "o1 \<and> o2 \<and> d = Inr () \<and> o3 \<and> o4 \<and> (\<exists>k v. s = Inr (RDB_OK, k, v))")
    case True
    then have rm1: "map_wf F m3 rm1" "records rm1 = records rm - {enc ?rmp fs}" "desc rm1 = ?rmp"
      "map index_sig (indexes rm1) = map index_sig (indexes rm)" "conflict_with rm1 = conflict_with rm"
      using del by auto
    have s': "s = Inr (RDB_OK, rec_key ?rmp (set_fields fs gs), rec_val ?rmp (set_fields fs gs))"
      using True st by auto
    have run': "reinsert rm1 (fst (enc ?rmp (set_fields fs gs))) (snd (enc ?rmp (set_fields fs gs)))
        (fst (enc ?rmp fs)) (snd (enc ?rmp fs)) m6 = (r, rm', m')"
      using run True rm1(3) s' by (simp add: simps enc_def)
    have le36: "mem_le m3 m6"
      using malloc_if_mem[OF m4] malloc_if_mem[OF m5] st mem_le_trans by blast
    show ?thesis
      using reinsert_result[OF wf map_wf_mono[OF rm1(1) le36] rm1(2-5) refl fs refl
          set_fields_in[OF gs fs(1)] le6 run'] .
  next
    case False
    have "\<exists>e. r = Inl e"
      using run False del st by (auto simp: simps split: if_splits)
    moreover have "fails m \<noteq> []"
      using False oom del st mem_le_fails[OF le2] mem_le_fails[OF le5] by blast
    ultimately show ?thesis by (simp add: update_result_def)
  qed
qed

lemma update_tree_node_result:
  assumes wf: "map_wf F m rm" and fs: "fs \<in> F" "enc (desc rm) fs \<in> records rm"
    and node: "nkey n = rec_key (desc rm) fs" "nvalue n = rec_val (desc rm) fs"
      "n \<noteq> Null \<and> (nid n, enc (desc rm) fs) \<in> set (items (root (treep rm)))"
    and gs: "updates_ok (desc rm) F gs"
    and run: "RDB_update_tree_node rm n gs m = (r, rm', m')"
  shows "update_result F m rm (enc (desc rm) fs) (enc (desc rm) (set_fields fs gs)) r rm' m'"
proof (cases "RDB_recmap_is_key_update rm gs")
  case True
  then have "delete_update_reinsert_tree_node rm n gs m = (r, rm', m')"
    using run by (simp add: RDB_update_tree_node_def)
  then show ?thesis using delete_update_reinsert_result[OF wf fs node(1,2) gs] by blast
next
  case False
  have F: "\<forall>fs \<in> F. full_rec (desc rm) fs" using map_wfD(2)[OF wf] by blast
  have data: "\<forall>g \<in> set gs. \<not> no g < keyfieldcount (desc rm)"
    using False by (auto simp: RDB_recmap_is_key_update_def)
  obtain s m1 where s: "set_value_fields (desc rm) (rec_val (desc rm) fs) gs m = (s, m1)" by fastforce
  note st = set_value_fields_result[OF map_wfD(1)[OF wf] F fs(1) gs data s]
  show ?thesis
  proof (cases "s = Inr (RDB_OK, rec_val (desc rm) (set_fields fs gs))")
    case True
    have new: "set_fields fs gs \<in> F" by (rule set_fields_in[OF gs fs(1)])
    have ix: "skey_of (desc rm) ixp (enc (desc rm) (set_fields fs gs)) = skey_of (desc rm) ixp (enc (desc rm) fs)"
      if "ixp \<in> set (indexes rm)" for ixp
    proof (rule skey_set_fields[OF map_wfD(1)[OF wf]])
      show "\<forall>i \<in> set (ix_fieldv ixp). i < fieldcount (desc rm) \<and> set_fields fs gs ! i = fs ! i"
      proof (intro ballI conjI set_fields_other)
        fix i assume i: "i \<in> set (ix_fieldv ixp)"
        then show "i < fieldcount (desc rm)" using wf that by (force simp: map_wf_def index_sig_def)
        fix g assume "g \<in> set gs"
        then show "no g \<noteq> i" using False that i by (auto simp: RDB_recmap_is_key_update_def)
      qed
    qed (use F new fs(1) in auto)
    have "r = Inr ()" "m' = m1"
      "rm' = rm\<lparr>treep := (treep rm)\<lparr>root := write_value (nid n) (rec_val (desc rm) (set_fields fs gs)) (root (treep rm))\<rparr>\<rparr>"
      using run s True False node(2) by (auto simp: RDB_update_tree_node_def)
    then show ?thesis
      using update_value_wf[OF wf _ fs new _ ix, of m1 "nid n" rm'] st node(3) by simp
  next
    case F2: False
    then have "\<exists>e. r = Inl e" "fails m \<noteq> []"
      using st run s False node(2) by (auto simp: RDB_update_tree_node_def)
    then show ?thesis by (simp add: update_result_def)
  qed
qed

lemma RDB_update_tree_rec_result:
  assumes wf: "map_wf F m rm" and fs: "fs \<in> F" and gs: "updates_ok (desc rm) F gs"
    and run: "RDB_update_tree_rec rm fs gs m = (r, rm', m')"
  shows "r = NO_MEM \<and> fails m \<noteq> [] \<and> rm' = rm
    \<or> find_rec rm (rec_key (desc rm) fs) = None \<and> r = NOT_FOUND \<and> rm' = rm \<and> mem_le m m'
    \<or> (\<exists>fs2 \<in> F. find_rec rm (rec_key (desc rm) fs) = Some (enc (desc rm) fs2)
         \<and> update_result F m rm (enc (desc rm) fs2) (enc (desc rm) (set_fields fs2 gs)) r rm' m')"
proof -
  obtain k m1 where k: "key_to_mem (desc rm) fs m = (k, m1)" by fastforce
  note kr = map_wf_key_run[OF wf fs k]
  note wf1 = map_wf_mono[OF wf kr(1)]
  let ?n = "RDB_tree_find (treep rm) (rec_key (desc rm) fs)"
  have node: "node_rec ?n = find_rec rm (rec_key (desc rm) fs)"
    by (rule find_rec_node[OF map_wfD(3)[OF wf] map_wfD(5)[OF wf fs]])
  show ?thesis
  proof (cases "k = Inr (Inl ENOMEM) \<or> ?n = Null")
    case True
    then show ?thesis using run k kr node by (auto simp: RDB_update_tree_rec_def node_rec_def)
  next
    case False
    then have found: "find_rec rm (rec_key (desc rm) fs) = Some (nkey ?n, nvalue ?n)"
      using node by (simp add: node_rec_def)
    then have st: "(nkey ?n, nvalue ?n) \<in> records rm"
      using find_rec_Some[OF map_wfD(3)[OF wf] map_wfD(5)[OF wf fs]] by blast
    then obtain fs2 where fs2: "fs2 \<in> F" "enc (desc rm) fs2 = (nkey ?n, nvalue ?n)"
      using recmap_invD(4)[OF map_wfD(3)[OF wf]] by auto
    have nd: "nkey ?n = rec_key (desc rm) fs2" "nvalue ?n = rec_val (desc rm) fs2"
      "enc (desc rm) fs2 \<in> records rm" using fs2(2) st by (auto simp: enc_def)
    have run1: "RDB_update_tree_node rm ?n gs m1 = (r, rm', m')"
      using run k kr False by (auto simp: RDB_update_tree_rec_def)
    have "update_result F m1 rm (enc (desc rm) fs2) (enc (desc rm) (set_fields fs2 gs)) r rm' m'"
      using RDB_tree_find_item[OF refl, of "treep rm" "rec_key (desc rm) fs"] False fs2(2)
      by (intro update_tree_node_result[OF wf1 fs2(1) nd(3,1,2) _ gs run1]) simp
    then have "update_result F m rm (enc (desc rm) fs2) (enc (desc rm) (set_fields fs2 gs)) r rm' m'"
      using mem_le_fails[OF kr(1)] mem_le_trans[OF kr(1), of m'] unfolding update_result_def Let_def by metis
    then show ?thesis using found fs2 by metis
  qed
qed

end
