(* ===== verification/Recmap_Order.thy ===== *)
theory Recmap_Order
  imports Tree_Recmap
begin

text \<open>
  When the comparison function of a record map (\<^verbatim>\<open>compare_key\<close> of
  \<^verbatim>\<open>treerec/treerecmap.c\<close>) is an order of its keys, and the creation of a map.
\<close>

section \<open>The order of the keys\<close>

text \<open>The law a comparison function has to obey on the values it is given.\<close>

definition total_preorder_on :: "'a set \<Rightarrow> ('a \<Rightarrow> 'a \<Rightarrow> int) \<Rightarrow> bool" where
  "total_preorder_on V c \<longleftrightarrow>
     (\<forall>x \<in> V. c x x = 0) \<and> (\<forall>x \<in> V. \<forall>y \<in> V. c x y < 0 \<longleftrightarrow> c y x > 0)
     \<and> (\<forall>x \<in> V. \<forall>y \<in> V. \<forall>z \<in> V. c x y \<le> 0 \<longrightarrow> c y z \<le> 0 \<longrightarrow> c x z \<le> 0)"

lemma key_order_iff: "key_order cf K \<longleftrightarrow> total_preorder_on K (compare_key cf)"
  unfolding key_order_def total_preorder_on_def by blast

lemma total_preorder_onD:
  assumes "total_preorder_on V c" "x \<in> V"
  shows "c x x = 0" "y \<in> V \<Longrightarrow> c x y < 0 \<longleftrightarrow> c y x > 0"
    "y \<in> V \<Longrightarrow> z \<in> V \<Longrightarrow> c x y \<le> 0 \<Longrightarrow> c y z \<le> 0 \<Longrightarrow> c x z \<le> 0"
  using assms unfolding total_preorder_on_def by blast+

lemma total_preorder_onI:
  assumes "\<And>x. x \<in> V \<Longrightarrow> c x x = 0" "\<And>x y. x \<in> V \<Longrightarrow> y \<in> V \<Longrightarrow> c x y < 0 \<longleftrightarrow> c y x > 0"
    "\<And>x y z. x \<in> V \<Longrightarrow> y \<in> V \<Longrightarrow> z \<in> V \<Longrightarrow> c x y \<le> 0 \<Longrightarrow> c y z \<le> 0 \<Longrightarrow> c x z \<le> 0"
  shows "total_preorder_on V c"
  using assms unfolding total_preorder_on_def by blast

lemma total_preorder_cong:
  assumes "total_preorder_on V c" "\<And>x y. x \<in> V \<Longrightarrow> y \<in> V \<Longrightarrow> d x y = c x y"
  shows "total_preorder_on V d"
  by (rule total_preorder_onI; simp only: assms(2)) (rule total_preorder_onD[OF assms(1)]; assumption)+

lemma total_preorder_neg: "total_preorder_on V c \<Longrightarrow> total_preorder_on V (\<lambda>x y. - c x y)"
  unfolding total_preorder_on_def
proof (intro conjI ballI impI)
  fix x y z
  assume c: "(\<forall>x\<in>V. c x x = 0) \<and> (\<forall>x\<in>V. \<forall>y\<in>V. (c x y < 0) = (0 < c y x)) \<and>
    (\<forall>x\<in>V. \<forall>y\<in>V. \<forall>z\<in>V. c x y \<le> 0 \<longrightarrow> c y z \<le> 0 \<longrightarrow> c x z \<le> 0)"
  assume xyz: "x \<in> V" "y \<in> V" "z \<in> V" and "- c x y \<le> 0" "- c y z \<le> 0"
  then have "c y x \<le> 0" "c z y \<le> 0" using c by (smt (verit))+
  then have "c z x \<le> 0" using c xyz by blast
  then show "- c x z \<le> 0" using c xyz by (smt (verit))
qed (smt (verit))+

lemma total_preorder_image:
  "total_preorder_on (f ` V) c \<Longrightarrow> total_preorder_on V (\<lambda>x y. c (f x) (f y))"
  unfolding total_preorder_on_def by blast

lemma total_preorder_const: "total_preorder_on V (\<lambda>x y. 0)"
  by (simp add: total_preorder_on_def)

lemma total_preorder_lex:
  assumes c: "total_preorder_on V c" and d: "total_preorder_on V d"
  shows "total_preorder_on V (\<lambda>x y. if c x y \<noteq> 0 then c x y else d x y)"
proof -
  have eq: "c x y = 0 \<longleftrightarrow> c y x = 0" if "x \<in> V" "y \<in> V" for x y
    using c that unfolding total_preorder_on_def by (smt (verit))
  have tr: "c x z \<le> 0" if "x \<in> V" "y \<in> V" "z \<in> V" "c x y \<le> 0" "c y z \<le> 0" for x y z
    using c that unfolding total_preorder_on_def by blast
  have zero: "c x z = 0 \<Longrightarrow> c x y = 0 \<and> c y z = 0"
    if "x \<in> V" "y \<in> V" "z \<in> V" "c x y \<le> 0" "c y z \<le> 0" for x y z
    using tr[of z x y] tr[of y z x] eq[of x z] eq[of x y] eq[of y z] c that
    unfolding total_preorder_on_def by (smt (verit))
  show ?thesis
  proof (rule total_preorder_onI)
    fix x y z assume V: "x \<in> V" "y \<in> V" "z \<in> V"
      and le: "(if c x y \<noteq> 0 then c x y else d x y) \<le> 0" "(if c y z \<noteq> 0 then c y z else d y z) \<le> 0"
    have cle: "c x y \<le> 0" "c y z \<le> 0" using le by (auto split: if_splits)
    show "(if c x z \<noteq> 0 then c x z else d x z) \<le> 0"
    proof (cases "c x z = 0")
      case True
      then have "d x y \<le> 0" "d y z \<le> 0" using zero[OF V cle] le by auto
      then show ?thesis using True total_preorder_onD(3)[OF d V] by simp
    next
      case False
      then show ?thesis using tr[OF V cle] by simp
    qed
  next
    fix x y assume V: "x \<in> V" "y \<in> V"
    show "((if c x y \<noteq> 0 then c x y else d x y) < 0) = (0 < (if c y x \<noteq> 0 then c y x else d y x))"
    proof (cases "c x y = 0")
      case True
      then have "c y x = 0" using eq[OF V] by blast
      with True show ?thesis using total_preorder_onD(2)[OF d V] by simp
    next
      case False
      then have "c y x \<noteq> 0" using eq[OF V] by blast
      with False show ?thesis using total_preorder_onD(2)[OF c V] by simp
    qed
  qed (use total_preorder_onD(1)[OF c] total_preorder_onD(1)[OF d] in simp)
qed

text \<open>The order of records by the fields of a sorted map.\<close>

fun cmp_rec :: "compare_field list \<Rightarrow> rdb_field list \<Rightarrow> rdb_field list \<Rightarrow> int" where
  "cmp_rec [] fs gs = 0"
| "cmp_rec (c # cs) fs gs =
     (let res = comparep c (field_bytes (fs ! cf_fno c)) (field_bytes (gs ! cf_fno c)) in
      if res \<noteq> 0 then (if \<not> cf_asc c then - res else res) else cmp_rec cs fs gs)"

lemma cmp_rec_preorder:
  "\<forall>c \<in> set cs. total_preorder_on ((\<lambda>fs. field_bytes (fs ! cf_fno c)) ` V) (comparep c)
    \<Longrightarrow> total_preorder_on V (cmp_rec cs)"
proof (induction cs)
  case (Cons c cs)
  define d where "d x y = comparep c (field_bytes (x ! cf_fno c)) (field_bytes (y ! cf_fno c))" for x y
  define e where "e x y = (if \<not> cf_asc c then - d x y else d x y)" for x y
  have "total_preorder_on ((\<lambda>fs. field_bytes (fs ! cf_fno c)) ` V) (comparep c)" using Cons.prems by simp
  from total_preorder_image[OF this] have "total_preorder_on V d"
    by (simp only: d_def[abs_def])
  moreover have "e = d \<or> e = (\<lambda>x y. - d x y)" by (auto simp: e_def fun_eq_iff)
  ultimately have e: "total_preorder_on V e" using total_preorder_neg[of V d] by metis
  have "total_preorder_on V (cmp_rec cs)" by (rule Cons.IH) (use Cons.prems in simp)
  note lex = total_preorder_lex[OF e this]
  have "cmp_rec (c # cs) x y = (if e x y \<noteq> 0 then e x y else cmp_rec cs x y)" for x y
    by (simp add: e_def d_def Let_def)
  then show ?case using total_preorder_cong[OF lex, of "cmp_rec (c # cs)"] by blast
qed (simp add: total_preorder_on_def)

lemma key_rec_nth:
  assumes "key_rec rmp fs" "i < keyfieldcount rmp"
  shows "fs ! i \<in> set fs" "no (fs ! i) = i"
proof -
  have nos: "map no fs = [0 ..< keyfieldcount rmp]" using assms(1) by (simp add: key_rec_def)
  then have len: "length fs = keyfieldcount rmp" by (metis diff_zero length_map length_upt)
  then show "fs ! i \<in> set fs" using assms(2) by simp
  show "no (fs ! i) = i" using nos len assms(2) by (metis add_0 nth_map nth_upt)
qed

text \<open>On encoded keys the comparison function of a map never faults.\<close>

lemma compare_fields_encode:
  assumes rmp: "recmap_ok rmp" and fs: "key_rec rmp fs" and gs: "key_rec rmp gs"
  shows "\<forall>c \<in> set cs. cf_fno c < keyfieldcount rmp \<Longrightarrow>
    compare_fields rmp cs (encode rmp fs) (encode rmp gs) = Inr (cmp_rec cs fs gs)"
proof (induction cs)
  case (Cons c cs)
  then have i: "cf_fno c < keyfieldcount rmp" by simp
  note f = key_rec_nth[OF fs i] and g = key_rec_nth[OF gs i]
  obtain o1 v1 where "RDB_get_field rmp (cf_fno c) (encode rmp fs) = Inr (Inr (int o1, flen (fs ! cf_fno c), v1))"
    "read_at (encode rmp fs) (int o1) (flen (fs ! cf_fno c)) = Inr (field_bytes (fs ! cf_fno c))"
    using get_field_encode[OF rmp, of fs "fs ! cf_fno c"] fs f by auto
  moreover obtain o2 v2 where
    "RDB_get_field rmp (cf_fno c) (encode rmp gs) = Inr (Inr (int o2, flen (gs ! cf_fno c), v2))"
    "read_at (encode rmp gs) (int o2) (flen (gs ! cf_fno c)) = Inr (field_bytes (gs ! cf_fno c))"
    using get_field_encode[OF rmp, of gs "gs ! cf_fno c"] gs g by auto
  ultimately show ?case using Cons by (simp add: Let_def)
qed simp


text \<open>
  The keys of a map are totally ordered by it, if the comparison functions are total
  preorders and either compare all fields or leave keys of which none is a prefix of another.
\<close>

lemma recmap_comparison_encode:
  assumes "recmap_ok rmp" "key_rec rmp fs" "key_rec rmp gs"
    and "\<forall>c \<in> set (cmpv rmp). cf_fno c < keyfieldcount rmp"
  shows "recmap_comparison rmp (encode rmp fs) (encode rmp gs) =
    (if cmp_rec (cmpv rmp) fs gs \<noteq> 0 then cmp_rec (cmpv rmp) fs gs
     else if length (cmpv rmp) = fieldcount rmp then 0
     else let x = encode rmp fs; y = encode rmp gs;
              res = memcmp x y (if length x \<le> length y then length x else length y) in
          if res \<noteq> 0 then res else abs_size_diff (length x) (length y))"
  using compare_fields_encode[OF assms(1-3), of "cmpv rmp"] assms(4)
  by (simp add: recmap_comparison_def recmap_compare_key_def Let_def)

lemma total_preorder_on_image:
  "total_preorder_on V (\<lambda>x y. c (f x) (f y)) \<Longrightarrow> total_preorder_on (f ` V) c"
  unfolding total_preorder_on_def by blast

lemma recmap_key_order:
  assumes rmp: "recmap_ok rmp" and F: "\<forall>ks \<in> F. key_rec rmp ks" "[] \<notin> encode rmp ` F"
    and fno: "\<forall>c \<in> set (cmpv rmp). cf_fno c < keyfieldcount rmp"
    and cmp: "\<forall>c \<in> set (cmpv rmp). total_preorder_on ((\<lambda>ks. field_bytes (ks ! cf_fno c)) ` F) (comparep c)"
    and rest: "length (cmpv rmp) = fieldcount rmp \<or> prefix_free (encode rmp ` F)"
  shows "key_order (Some (recmap_comparison rmp)) (encode rmp ` F)"
proof -
  define d where "d x y =
    (if length (cmpv rmp) = fieldcount rmp then 0 else compare_key None (encode rmp x) (encode rmp y))"
    for x y
  have "total_preorder_on F d"
  proof (cases "length (cmpv rmp) = fieldcount rmp")
    case True
    then have "d = (\<lambda>x y. 0)" by (simp add: d_def fun_eq_iff)
    then show ?thesis by (simp only: total_preorder_const)
  next
    case False
    then have "prefix_free_keys (encode rmp ` F)" using rest by (simp add: prefix_free_keys_def)
    then have interpret_free: "total_preorder_on (encode rmp ` F) (compare_key None)"
      using prefix_free_keys.bytes_key_order key_order_iff by blast
    have "d = (\<lambda>x y. compare_key None (encode rmp x) (encode rmp y))"
      using False by (simp add: d_def fun_eq_iff)
    then show ?thesis using total_preorder_image[OF interpret_free] by (simp only:)
  qed
  then have lex: "total_preorder_on F (\<lambda>x y. if cmp_rec (cmpv rmp) x y \<noteq> 0 then cmp_rec (cmpv rmp) x y else d x y)"
    using total_preorder_lex[OF cmp_rec_preorder[OF cmp]] by blast
  have "compare_key (Some (recmap_comparison rmp)) (encode rmp x) (encode rmp y)
      = (if cmp_rec (cmpv rmp) x y \<noteq> 0 then cmp_rec (cmpv rmp) x y else d x y)" if "x \<in> F" "y \<in> F" for x y
  proof -
    have ne: "encode rmp x \<noteq> []" "encode rmp y \<noteq> []" using F(2) that by (auto simp: image_iff)
    have min: "(if length b \<le> length a then length b else length a)
        = (if length a \<le> length b then length a else length b)" for a b :: bytes by auto
    show ?thesis
      using ne recmap_comparison_encode[OF rmp _ _ fno, of x y] F(1) that
      by (auto simp: compare_key_def d_def Let_def min)
  qed
  then have "total_preorder_on F (\<lambda>x y. compare_key (Some (recmap_comparison rmp)) (encode rmp x) (encode rmp y))"
    by (intro total_preorder_cong[OF lex]) blast
  then show ?thesis unfolding key_order_iff by (rule total_preorder_on_image)
qed

text \<open>
  Keys made of null-terminated values, such as strings, and of fixed-length fields are never
  proper prefixes of one another.
\<close>

definition nul_terminated :: "bytes \<Rightarrow> bool" where
  "nul_terminated b \<longleftrightarrow> b \<noteq> [] \<and> last b = 0 \<and> 0 \<notin> set (butlast b)"

lemma nul_terminated_prefix:
  "nul_terminated a \<Longrightarrow> nul_terminated b \<Longrightarrow> prefix (a @ x) (b @ y) \<Longrightarrow> a = b \<and> prefix x y"
proof (induction a arbitrary: b)
  case (Cons c a)
  obtain e b' where b: "b = e # b'" using Cons.prems(2) by (cases b) (auto simp: nul_terminated_def)
  then have ce: "c = e" "prefix (a @ x) (b' @ y)" using Cons.prems(3) by auto
  show ?case
  proof (cases "a = [] \<or> b' = []")
    case True
    then have "a = []" "b' = []"
      using Cons.prems(1,2) b ce(1) by (auto simp: nul_terminated_def split: if_splits)
    then show ?thesis using ce b by simp
  next
    case False
    then have "nul_terminated a" "nul_terminated b'"
      using Cons.prems(1,2) b by (auto simp: nul_terminated_def)
    then show ?thesis using Cons.IH[of b'] ce b by simp
  qed
qed (simp add: nul_terminated_def)

lemma nul_terminated_concat:
  "list_all2 (\<lambda>a b. nul_terminated a \<and> nul_terminated b) as bs
    \<Longrightarrow> prefix (concat as @ x) (concat bs @ y) \<Longrightarrow> as = bs \<and> prefix x y"
proof (induction rule: list_all2_induct)
  case (Cons a as b bs)
  then show ?case using nul_terminated_prefix[of a b "concat as @ x" "concat bs @ y"] by auto
qed simp

lemma prefix_same_length:
  "length p = length q \<Longrightarrow> prefix (p @ x) (q @ y) \<Longrightarrow> p = q \<and> prefix x y"
  by (induction p q rule: list_induct2) auto

lemma same_nos_fields:
  assumes "map no fs = map no gs"
  shows "list_all2 (\<lambda>f g. no f = no g) (fixed_fields rmp fs) (fixed_fields rmp gs)"
    "list_all2 (\<lambda>f g. no f = no g) (var_fields rmp fs) (var_fields rmp gs)"
proof -
  have "list_all2 (\<lambda>f g. no f = no g) fs gs"
    using assms by (induction fs gs rule: list_induct2') auto
  then show "list_all2 (\<lambda>f g. no f = no g) (fixed_fields rmp fs) (fixed_fields rmp gs)"
    "list_all2 (\<lambda>f g. no f = no g) (var_fields rmp fs) (var_fields rmp gs)"
    by (induction rule: list_all2_induct) (auto simp: fixed_fields_def var_fields_def)
qed

lemma encode_prefix_free:
  assumes F: "\<forall>ks \<in> F. key_rec rmp ks" "\<forall>ks \<in> F. \<forall>f \<in> set (var_fields rmp ks). nul_terminated (field_bytes f)"
  shows "prefix_free (encode rmp ` F)"
  unfolding prefix_free_def
proof (intro ballI impI, elim imageE)
  fix x y fs gs
  assume xy: "prefix x y" "x = encode rmp fs" "fs \<in> F" "y = encode rmp gs" "gs \<in> F"
  let ?c = "\<lambda>hs. concat (map field_bytes hs)"
  have ok: "\<forall>f \<in> set fs. field_ok rmp f" "\<forall>f \<in> set gs. field_ok rmp f" and nos: "map no fs = map no gs"
    using F(1) xy by (auto simp: key_rec_def rec_ok_def)
  note same = same_nos_fields[OF nos, of rmp]
  have fl: "flen f = flen g" if "f \<in> set (fixed_fields rmp fs)" "g \<in> set (fixed_fields rmp gs)" "no f = no g" for f g
    using ok that by (fastforce simp: field_ok_def fixed_fields_def)
  have "map flen (fixed_fields rmp fs) = map flen (fixed_fields rmp gs)"
    using same(1) fl by (auto simp: list_all2_conv_all_nth intro!: nth_equalityI)
  moreover have "length (?c (fixed_fields rmp hs)) = lens (fixed_fields rmp hs)" if "hs = fs \<or> hs = gs" for hs
    using ok that fields_subset[of rmp hs] by (intro length_concat_fields) (auto simp: field_ok_def)
  ultimately have "length (?c (fixed_fields rmp fs)) = length (?c (fixed_fields rmp gs))" by simp
  moreover have "prefix (?c (fixed_fields rmp fs) @ (?c (var_fields rmp fs)
        @ concat (map (\<lambda>f. set_len (flen f)) (var_fields rmp fs))))
      (?c (fixed_fields rmp gs) @ (?c (var_fields rmp gs)
        @ concat (map (\<lambda>f. set_len (flen f)) (var_fields rmp gs))))"
    using xy(1,2,4) by (simp only: encode_def)
  ultimately have 1: "?c (fixed_fields rmp fs) = ?c (fixed_fields rmp gs)"
    and 2: "prefix (concat (map field_bytes (var_fields rmp fs)) @ concat (map (\<lambda>f. set_len (flen f)) (var_fields rmp fs)))
      (concat (map field_bytes (var_fields rmp gs)) @ concat (map (\<lambda>f. set_len (flen f)) (var_fields rmp gs)))"
    using prefix_same_length by blast+
  have "list_all2 (\<lambda>a b. nul_terminated a \<and> nul_terminated b)
      (map field_bytes (var_fields rmp fs)) (map field_bytes (var_fields rmp gs))"
    using same(2) F(2) xy by (auto simp: list_all2_conv_all_nth)
  from nul_terminated_concat[OF this 2]
  have v: "map field_bytes (var_fields rmp fs) = map field_bytes (var_fields rmp gs)" by blast
  have "flen f = length (field_bytes f)" if "f \<in> set (var_fields rmp hs)" "hs = fs \<or> hs = gs" for f hs
    using ok that by (auto simp: field_ok_def var_fields_def)
  then have lens: "map (\<lambda>f. set_len (flen f)) (var_fields rmp hs)
      = map (\<lambda>b. set_len (length b)) (map field_bytes (var_fields rmp hs))" if "hs = fs \<or> hs = gs" for hs
    using that by (simp add: comp_def cong: map_cong)
  have "map (\<lambda>f. set_len (flen f)) (var_fields rmp fs) = map (\<lambda>f. set_len (flen f)) (var_fields rmp gs)"
    using lens[of fs] lens[of gs] v by metis
  then show "x = y" unfolding xy(2,4) encode_def 1 v by simp
qed

text \<open>A new map is empty and well-formed.\<close>

lemma RDB_create_tree_recmap_wf:
  assumes run: "RDB_create_tree_recmap fis kfc cs flags m = (Inr rm, m')"
    and fis: "kfc \<le> length fis" "\<forall>fi \<in> set fis. fi_len fi = RDB_VARIABLE_LEN \<or> 0 \<le> fi_len fi \<and> fi_len fi < 2 ^ 31"
    and F: "\<forall>fs \<in> F. full_rec (desc rm) fs"
    and ord: "key_order (Some (recmap_comparison (desc rm))) (rec_key (desc rm) ` F)"
  shows "map_wf F m' rm" "records rm = {}" "indexes rm = []" "cmpv (desc rm) = cs"
    "comparison_fp (treep rm) = Some (recmap_comparison (desc rm))" "fieldinfos (desc rm) = fis"
proof -
  obtain rmp m1 where r1: "RDB_new_recmap None None fis kfc flags m = (Inr rmp, m1)"
    using run by (auto simp: RDB_create_tree_recmap_def split: prod.splits sum.splits)
  note ok = new_recmap_ok[OF r1 fis]
  obtain tr m2 where r2: "RDB_create_tree (Some (recmap_comparison (rmp\<lparr>cmpv := cs\<rparr>))) m1 = (Inr tr, m2)"
    using run r1 by (auto simp: RDB_create_tree_recmap_def Let_def split: prod.splits sum.splits)
  have rm: "rm = \<lparr>desc = rmp\<lparr>cmpv := cs\<rparr>, treep = tr, indexes = []\<rparr>"
    using run r1 r2 by (auto simp: RDB_create_tree_recmap_def Let_def split: prod.splits if_splits)
  have tr: "tr = \<lparr>root = Null, comparison_fp = Some (recmap_comparison (rmp\<lparr>cmpv := cs\<rparr>))\<rparr>"
    using r2 by (auto simp: RDB_create_tree_def split: prod.splits option.splits)
  have "recmap_ok (rmp\<lparr>cmpv := cs\<rparr>)" using ok(1) by (simp add: recmap_ok_def)
  then show "map_wf F m' rm"
    using F ord by (auto simp: map_wf_def recmap_inv_def rm tr bt_wf_def records_def enc_def image_image)
  show "records rm = {}" "indexes rm = []" "cmpv (desc rm) = cs" "fieldinfos (desc rm) = fis"
    "comparison_fp (treep rm) = Some (recmap_comparison (desc rm))"
    using ok by (simp_all add: rm tr records_def)
qed

end
