(* ===== verification/Tree_Cursor.thy ===== *)
theory Tree_Cursor
  imports Recmap_Order
begin

text \<open>
  Cursors over a record map, \<^verbatim>\<open>treerec/treecursor.c\<close>.  A cursor holds the address of a
  tree node; it moves along child pointers downwards and along parent pointers upwards.
  Following a pointer to a node that is not in the tree (any more) is a fault.
\<close>

section \<open>Nodes by address\<close>

text \<open>The node at an address; \<open>Null\<close> when no node of the tree is there.\<close>

fun node_at :: "nat \<Rightarrow> tree \<Rightarrow> tree" where
  "node_at a Null = Null"
| "node_at a (Node i p b k v l r) =
     (if i = a then Node i p b k v l r
      else if node_at a l \<noteq> Null then node_at a l else node_at a r)"

record tree_cursor =
  cur_nodep :: "nat option"

section \<open>Moving\<close>

fun leftmost :: "tree \<Rightarrow> tree" where
  "leftmost Null = Null"
| "leftmost (Node i p b k v l r) = (if l \<noteq> Null then leftmost l else Node i p b k v l r)"

fun rightmost :: "tree \<Rightarrow> tree" where
  "rightmost Null = Null"
| "rightmost (Node i p b k v l r) = (if r \<noteq> Null then rightmost r else Node i p b k v l r)"

text \<open>
  The loops that follow parent pointers while the node is not the left (right) child of its
  parent; the result is the parent of the node they stop at.  \<open>None\<close>: the loop is never
  left.
\<close>

partial_function (option) climb_next :: "tree \<Rightarrow> nat \<Rightarrow> nat option result option" where
  "climb_next t a =
     (let n = node_at a t in
      if n = Null then Some (Inl Segfault)
      else case nparent n of
        None \<Rightarrow> Some (Inr None)
      | Some q \<Rightarrow>
          (let pn = node_at q t in
           if pn = Null then Some (Inl Segfault)
           else if nleft pn \<noteq> Null \<and> nid (nleft pn) = a then Some (Inr (Some q))
           else climb_next t q))"

partial_function (option) climb_prev :: "tree \<Rightarrow> nat \<Rightarrow> nat option result option" where
  "climb_prev t a =
     (let n = node_at a t in
      if n = Null then Some (Inl Segfault)
      else case nparent n of
        None \<Rightarrow> Some (Inr None)
      | Some q \<Rightarrow>
          (let pn = node_at q t in
           if pn = Null then Some (Inl Segfault)
           else if nright pn \<noteq> Null \<and> nid (nright pn) = a then Some (Inr (Some q))
           else climb_prev t q))"

definition RDB_tree_recmap_cursor :: "mem \<Rightarrow> tree_cursor result \<times> mem" where
  "RDB_tree_recmap_cursor m =
     (case malloc m of
        (None, m') \<Rightarrow> (raise_err NO_MEMORY_ERROR '''', m')
      | (Some _, m') \<Rightarrow> (Inr \<lparr>cur_nodep = None\<rparr>, m'))"

definition RDB_tree_cursor_first :: "tree_recmap \<Rightarrow> tree_cursor \<Rightarrow> unit result \<times> tree_cursor" where
  "RDB_tree_cursor_first rm cur =
     (let t = root (treep rm) in
      if t = Null then (raise_err NOT_FOUND_ERROR '''', cur)
      else (Inr (), cur\<lparr>cur_nodep := Some (nid (leftmost t))\<rparr>))"

definition arrive :: "tree_cursor \<Rightarrow> nat option result \<Rightarrow> unit result \<times> tree_cursor" where
  "arrive cur res =
     (case res of
        Inl e \<Rightarrow> (Inl e, cur)
      | Inr None \<Rightarrow> (raise_err NOT_FOUND_ERROR '''', cur\<lparr>cur_nodep := None\<rparr>)
      | Inr (Some q) \<Rightarrow> (Inr (), cur\<lparr>cur_nodep := Some q\<rparr>))"

definition RDB_tree_cursor_next ::
  "tree_recmap \<Rightarrow> tree_cursor \<Rightarrow> (unit result \<times> tree_cursor) option" where
  "RDB_tree_cursor_next rm cur =
     (case cur_nodep cur of
        None \<Rightarrow> Some (raise_err NOT_FOUND_ERROR '''', cur)
      | Some a \<Rightarrow>
          (let t = root (treep rm); n = node_at a t in
           if n = Null then Some (Inl Segfault, cur)
           else if nright n \<noteq> Null then
             Some (Inr (), cur\<lparr>cur_nodep := Some (nid (leftmost (nright n)))\<rparr>)
           else map_option (arrive cur) (climb_next t a)))"

definition RDB_tree_cursor_prev ::
  "tree_recmap \<Rightarrow> tree_cursor \<Rightarrow> (unit result \<times> tree_cursor) option" where
  "RDB_tree_cursor_prev rm cur =
     (case cur_nodep cur of
        None \<Rightarrow> Some (raise_err NOT_FOUND_ERROR '''', cur)
      | Some a \<Rightarrow>
          (let t = root (treep rm); n = node_at a t in
           if n = Null then Some (Inl Segfault, cur)
           else if nleft n \<noteq> Null then
             Some (Inr (), cur\<lparr>cur_nodep := Some (nid (rightmost (nleft n)))\<rparr>)
           else map_option (arrive cur) (climb_prev t a)))"

section \<open>Reading and changing the record\<close>

text \<open>The result is the data from the offset of the field on, and the length of the field.\<close>

definition RDB_tree_cursor_get :: "tree_recmap \<Rightarrow> tree_cursor \<Rightarrow> nat \<Rightarrow> (bytes \<times> nat) result" where
  "RDB_tree_cursor_get rm cur fno =
     (case cur_nodep cur of
        None \<Rightarrow> raise_err NOT_FOUND_ERROR ''invalid cursor''
      | Some a \<Rightarrow>
          (let n = node_at a (root (treep rm)) in
           if n = Null then Inl Segfault
           else
             (let block = (if fno < keyfieldcount (desc rm) then nkey n else nvalue n) in
              case RDB_get_field (desc rm) fno block of
                Inl e \<Rightarrow> Inl e
              | Inr (Inl c) \<Rightarrow> RDB_errcode_to_error c
              | Inr (Inr (offs, l, vp)) \<Rightarrow> Inr (drop (nat offs) block, l))))"

definition RDB_tree_cursor_set ::
  "tree_recmap \<Rightarrow> tree_cursor \<Rightarrow> rdb_field list \<Rightarrow> mem \<Rightarrow> unit result \<times> tree_recmap \<times> mem" where
  "RDB_tree_cursor_set rm cur fldv m =
     (case cur_nodep cur of
        None \<Rightarrow> (raise_err NOT_FOUND_ERROR ''invalid cursor'', rm, m)
      | Some a \<Rightarrow>
          if RDB_recmap_is_key_update rm fldv then
            (raise_err INVALID_ARGUMENT_ERROR ''Modifiying the key is not supported'', rm, m)
          else
            (let n = node_at a (root (treep rm)) in
             if n = Null then (Inl Segfault, rm, m)
             else
               (case set_value_fields (desc rm) (nvalue n) fldv m of
                  (Inl e, m1) \<Rightarrow> (Inl e, rm, m1)
                | (Inr (c, val'), m1) \<Rightarrow>
                    (if c \<noteq> RDB_OK then RDB_errcode_to_error c else Inr (),
                     rm\<lparr>treep := (treep rm)\<lparr>root := write_value a val' (root (treep rm))\<rparr>\<rparr>, m1))))"

definition RDB_tree_cursor_delete ::
  "tree_recmap \<Rightarrow> tree_cursor \<Rightarrow> mem \<Rightarrow> (unit result \<times> tree_recmap \<times> tree_cursor \<times> mem) option" where
  "RDB_tree_cursor_delete rm cur m =
     (case RDB_tree_cursor_next rm cur of
        None \<Rightarrow> None
      | Some (ret, cur') \<Rightarrow>
          if (case ret of Inl e \<Rightarrow> \<not> has_type NOT_FOUND_ERROR e | Inr _ \<Rightarrow> False)
          then Some (ret, rm, cur', m)
          else
            (case cur_nodep cur of
               None \<Rightarrow> Some (Inl Segfault, rm, cur', m)
             | Some a \<Rightarrow>
                 (let n = node_at a (root (treep rm)) in
                  if n = Null then Some (Inl Segfault, rm, cur', m)
                  else
                    (case RDB_delete_from_tree_indexes rm n m of
                       (Inl e, rm1, m1) \<Rightarrow> Some (Inl e, rm1, cur', m1)
                     | (Inr _, rm1, m1) \<Rightarrow>
                         (case delete_tree_node rm1 (nkey n) of
                            (r, rm2) \<Rightarrow> Some (r, rm2, cur', m1))))))"

text \<open>The search for a key on the primary index.\<close>

definition RDB_tree_cursor_seek ::
  "tree_recmap \<Rightarrow> tree_cursor \<Rightarrow> rdb_field list \<Rightarrow> mem \<Rightarrow> unit result \<times> tree_cursor \<times> mem" where
  "RDB_tree_cursor_seek rm cur keyv m =
     (case key_to_mem (desc rm) keyv m of
        (Inl e, m1) \<Rightarrow> (Inl e, cur, m1)
      | (Inr (Inl c), m1) \<Rightarrow> (RDB_errcode_to_error c, cur, m1)
      | (Inr (Inr key), m1) \<Rightarrow>
          (let n = RDB_tree_find (treep rm) key in
           if n = Null then (raise_err NOT_FOUND_ERROR '''', cur\<lparr>cur_nodep := None\<rparr>, m1)
           else (Inr (), cur\<lparr>cur_nodep := Some (nid n)\<rparr>, m1)))"

section \<open>Subtrees\<close>

fun subtrees :: "tree \<Rightarrow> tree set" where
  "subtrees Null = {Null}"
| "subtrees (Node i p b k v l r) = insert (Node i p b k v l r) (subtrees l \<union> subtrees r)"

lemma subtrees_self [simp]: "t \<in> subtrees t"
  by (cases t) auto

lemma subtrees_trans: "s \<in> subtrees t \<Longrightarrow> t \<in> subtrees u \<Longrightarrow> s \<in> subtrees u"
  by (induction u) auto

lemma subtrees_children:
  "Node i p b k v l r \<in> subtrees t \<Longrightarrow> l \<in> subtrees t \<and> r \<in> subtrees t"
  using subtrees_trans[of l "Node i p b k v l r" t] subtrees_trans[of r "Node i p b k v l r" t] by simp

lemma subtrees_ids: "s \<in> subtrees t \<Longrightarrow> set (ids s) \<subseteq> set (ids t)"
  by (induction t) auto

lemma node_at_absent: "a \<notin> set (ids t) \<Longrightarrow> node_at a t = Null"
  by (induction t) auto

lemma node_at_subtree:
  "s \<in> subtrees t \<Longrightarrow> s \<noteq> Null \<Longrightarrow> distinct (ids t) \<Longrightarrow> node_at (nid s) t = s"
proof (induction t)
  case (Node i p b k v l r)
  show ?case
  proof (cases "s = Node i p b k v l r")
    case False
    then consider "s \<in> subtrees l" | "s \<in> subtrees r" using Node.prems(1) by auto
    then show ?thesis
    proof cases
      case 1
      then have "nid s \<in> set (ids l)" using subtrees_ids[of s l] nid_in_ids[OF Node.prems(2)] by blast
      then show ?thesis using 1 Node by auto
    next
      case 2
      then have "nid s \<in> set (ids r)" using subtrees_ids[of s r] nid_in_ids[OF Node.prems(2)] by blast
      then show ?thesis using 2 Node node_at_absent[of "nid s" l] by auto
    qed
  qed (use Node in simp)
qed simp

lemma node_at_in:
  "a \<in> set (ids t) \<Longrightarrow> distinct (ids t) \<Longrightarrow>
    node_at a t \<in> subtrees t \<and> node_at a t \<noteq> Null \<and> nid (node_at a t) = a"
proof (induction t)
  case (Node i p b k v l r)
  then show ?case using node_at_absent[of a l] by (cases "a \<in> set (ids l)") auto
qed simp

lemma ids_Null [simp]: "ids t = [] \<longleftrightarrow> t = Null"
  by (cases t) auto

lemma leftmost_items: "t \<noteq> Null \<Longrightarrow> nid (leftmost t) = hd (ids t)"
  by (induction t) (auto simp: hd_append)

lemma rightmost_items: "t \<noteq> Null \<Longrightarrow> nid (rightmost t) = last (ids t)"
  by (induction t) auto

section \<open>Climbing\<close>

text \<open>
  Climbing from a subtree \<open>s\<close> of \<open>u\<close> leads to the node that comes next after \<open>s\<close> in \<open>u\<close>,
  or, if \<open>s\<close> is at the end of \<open>u\<close>, to wherever climbing from \<open>u\<close> leads.
\<close>

lemma climb_next_step:
  assumes "distinct (ids t)" "par_ok None t" "s \<in> subtrees t" "s \<noteq> Null"
  shows "climb_next t (nid s) = (case nparent s of
      None \<Rightarrow> Some (Inr None)
    | Some q \<Rightarrow> (let pn = node_at q t in
        if pn = Null then Some (Inl Segfault)
        else if nleft pn \<noteq> Null \<and> nid (nleft pn) = nid s then Some (Inr (Some q))
        else climb_next t q))"
  using assms node_at_subtree by (subst climb_next.simps) (simp add: Let_def)

lemma par_ok_subtree: "par_ok q t \<Longrightarrow> Node i p b k v l r \<in> subtrees t \<Longrightarrow>
    par_ok (Some i) l \<and> par_ok (Some i) r"
  by (induction t arbitrary: q) auto

lemma climb_prev_step:
  assumes "distinct (ids t)" "par_ok None t" "s \<in> subtrees t" "s \<noteq> Null"
  shows "climb_prev t (nid s) = (case nparent s of
      None \<Rightarrow> Some (Inr None)
    | Some q \<Rightarrow> (let pn = node_at q t in
        if pn = Null then Some (Inl Segfault)
        else if nright pn \<noteq> Null \<and> nid (nright pn) = nid s then Some (Inr (Some q))
        else climb_prev t q))"
  using assms node_at_subtree by (subst climb_prev.simps) (simp add: Let_def)

lemma distinct_subtree: "s \<in> subtrees t \<Longrightarrow> distinct (ids t) \<Longrightarrow> distinct (ids s)"
  by (induction t) auto

lemma child_climbs:
  assumes t: "distinct (ids t)" "par_ok None t" and u: "Node i p b k v l r \<in> subtrees t"
  shows "l \<noteq> Null \<Longrightarrow> climb_next t (nid l) = Some (Inr (Some i)) \<and> climb_prev t (nid l) = climb_prev t i"
    "r \<noteq> Null \<Longrightarrow> climb_next t (nid r) = climb_next t i \<and> climb_prev t (nid r) = Some (Inr (Some i))"
proof -
  have lr: "l \<in> subtrees t" "r \<in> subtrees t" using u subtrees_children by blast+
  have par: "par_ok (Some i) l" "par_ok (Some i) r" using par_ok_subtree[OF t(2) u] by auto
  have at_u: "node_at i t = Node i p b k v l r" using node_at_subtree[OF u _ t(1)] by simp
  have du: "distinct (ids (Node i p b k v l r))" using distinct_subtree[OF u t(1)] .
  have ne: "nid l \<noteq> nid r" if "l \<noteq> Null" "r \<noteq> Null"
    using du nid_in_ids[OF that(1)] nid_in_ids[OF that(2)] by auto
  show "climb_next t (nid l) = Some (Inr (Some i)) \<and> climb_prev t (nid l) = climb_prev t i" if "l \<noteq> Null"
    using climb_next_step[OF t lr(1) that] climb_prev_step[OF t lr(1) that] par(1) that at_u ne
    by (cases l) auto
  show "climb_next t (nid r) = climb_next t i \<and> climb_prev t (nid r) = Some (Inr (Some i))" if "r \<noteq> Null"
    using climb_next_step[OF t lr(2) that] climb_prev_step[OF t lr(2) that] par(2) that at_u ne
    by (cases r) auto
qed

definition next_or :: "nat list \<Rightarrow> nat option result option \<Rightarrow> nat option result option" where
  "next_or ys e = (if ys = [] then e else Some (Inr (Some (hd ys))))"

definition prev_or :: "nat list \<Rightarrow> nat option result option \<Rightarrow> nat option result option" where
  "prev_or xs e = (if xs = [] then e else Some (Inr (Some (last xs))))"

lemma climb_sub:
  assumes t: "distinct (ids t)" "par_ok None t"
  shows "u \<in> subtrees t \<Longrightarrow> s \<in> subtrees u \<Longrightarrow> s \<noteq> Null \<Longrightarrow>
    \<exists>xs ys. ids u = xs @ ids s @ ys \<and> climb_next t (nid s) = next_or ys (climb_next t (nid u))
      \<and> climb_prev t (nid s) = prev_or xs (climb_prev t (nid u))"
proof (induction u)
  case (Node i p b k v l r)
  let ?u = "Node i p b k v l r"
  have lr: "l \<in> subtrees t" "r \<in> subtrees t" using Node.prems(1) subtrees_children by blast+
  note up = child_climbs[OF t Node.prems(1)]
  consider "s = ?u" | "s \<in> subtrees l" | "s \<in> subtrees r" using Node.prems(2) by auto
  then show ?case
  proof cases
    case 1
    then show ?thesis by (intro exI[of _ "[]"]) (simp add: next_or_def prev_or_def)
  next
    case 2
    then have l: "l \<noteq> Null" using Node.prems(3) by auto
    obtain xs ys where "ids l = xs @ ids s @ ys" "climb_next t (nid s) = next_or ys (climb_next t (nid l))"
      "climb_prev t (nid s) = prev_or xs (climb_prev t (nid l))"
      using Node.IH(1)[OF lr(1) 2 Node.prems(3)] by blast
    then show ?thesis using up(1)[OF l]
      by (intro exI[of _ xs] exI[of _ "ys @ i # ids r"]) (auto simp: next_or_def prev_or_def)
  next
    case 3
    then have r: "r \<noteq> Null" using Node.prems(3) by auto
    obtain xs ys where "ids r = xs @ ids s @ ys" "climb_next t (nid s) = next_or ys (climb_next t (nid r))"
      "climb_prev t (nid s) = prev_or xs (climb_prev t (nid r))"
      using Node.IH(2)[OF lr(2) 3 Node.prems(3)] by blast
    then show ?thesis using up(2)[OF r]
      by (intro exI[of _ "ids l @ i # xs"] exI[of _ ys]) (auto simp: next_or_def prev_or_def)
  qed
qed simp

lemma climb_all:
  assumes t: "distinct (ids t)" "par_ok None t" and s: "s \<in> subtrees t" "s \<noteq> Null"
  shows "\<exists>xs ys. ids t = xs @ ids s @ ys
    \<and> climb_next t (nid s) = Some (Inr (if ys = [] then None else Some (hd ys)))
    \<and> climb_prev t (nid s) = Some (Inr (if xs = [] then None else Some (last xs)))"
proof -
  have ne: "t \<noteq> Null" using s by auto
  then have "nparent t = None" using t(2) by (cases t) auto
  then have "climb_next t (nid t) = Some (Inr None)" "climb_prev t (nid t) = Some (Inr None)"
    using climb_next_step[OF t _ ne] climb_prev_step[OF t _ ne] by auto
  moreover obtain xs ys where "ids t = xs @ ids s @ ys" "climb_next t (nid s) = next_or ys (climb_next t (nid t))"
    "climb_prev t (nid s) = prev_or xs (climb_prev t (nid t))"
    using climb_sub[OF t subtrees_self s] by blast
  ultimately show ?thesis by (intro exI[of _ xs] exI[of _ ys]) (auto simp: next_or_def prev_or_def)
qed

section \<open>Moving a cursor\<close>

lemma split_at_unique:
  assumes "distinct (xs @ a # ys)" "xs @ a # ys = xs' @ a # ys'"
  shows "xs' = xs \<and> ys' = ys"
proof -
  have "a \<notin> set xs" "a \<notin> set ys" using assms(1) by auto
  then show ?thesis using assms(2) append_Cons_eq_iff[of a xs ys xs' ys'] by blast
qed

text \<open>
  The neighbours of a node in the order of the keys; \<open>ids\<close> lists the addresses in that
  order.
\<close>

lemma cursor_moves:
  assumes wf: "distinct (ids (root (treep rm)))" "par_ok None (root (treep rm))"
    and a: "ids (root (treep rm)) = xs @ a # ys"
  shows "RDB_tree_cursor_next rm \<lparr>cur_nodep = Some a\<rparr> = Some
      (if ys = [] then (NOT_FOUND, \<lparr>cur_nodep = None\<rparr>) else (Inr (), \<lparr>cur_nodep = Some (hd ys)\<rparr>))"
    "RDB_tree_cursor_prev rm \<lparr>cur_nodep = Some a\<rparr> = Some
      (if xs = [] then (NOT_FOUND, \<lparr>cur_nodep = None\<rparr>) else (Inr (), \<lparr>cur_nodep = Some (last xs)\<rparr>))"
proof -
  let ?t = "root (treep rm)" and ?n = "node_at a (root (treep rm))"
  have n: "?n \<in> subtrees ?t" "?n \<noteq> Null" "nid ?n = a" using node_at_in[of a ?t] wf(1) a by auto
  then obtain i p b k v l r where node: "?n = Node i p b k v l r" by (cases ?n) auto
  obtain us vs where climb: "ids ?t = us @ ids ?n @ vs"
    "climb_next ?t a = Some (Inr (if vs = [] then None else Some (hd vs)))"
    "climb_prev ?t a = Some (Inr (if us = [] then None else Some (last us)))"
    using climb_all[OF wf n(1,2)] n(3) by auto
  have "ids ?t = (us @ ids l) @ a # (ids r @ vs)" using climb(1) node n(3) by simp
  then have "xs = us @ ids l" "ys = ids r @ vs" using split_at_unique wf(1) a by metis+
  then show "RDB_tree_cursor_next rm \<lparr>cur_nodep = Some a\<rparr> = Some
      (if ys = [] then (NOT_FOUND, \<lparr>cur_nodep = None\<rparr>) else (Inr (), \<lparr>cur_nodep = Some (hd ys)\<rparr>))"
    "RDB_tree_cursor_prev rm \<lparr>cur_nodep = Some a\<rparr> = Some
      (if xs = [] then (NOT_FOUND, \<lparr>cur_nodep = None\<rparr>) else (Inr (), \<lparr>cur_nodep = Some (last xs)\<rparr>))"
    using node climb(2,3) leftmost_items[of r] rightmost_items[of l]
    by (auto simp: RDB_tree_cursor_next_def RDB_tree_cursor_prev_def arrive_def Let_def hd_append)
qed

section \<open>Visiting all records\<close>

text \<open>
  The loop of the users of a cursor: go to the first record, then to the next one until
  there is none.  The result lists the records visited; \<open>None\<close> is a fault, or more than
  \<open>n\<close> records.
\<close>

fun visit :: "nat \<Rightarrow> tree_recmap \<Rightarrow> unit result \<times> tree_cursor \<Rightarrow> (bytes \<times> bytes) list option" where
  "visit n rm (Inl e, cur) = (if e = Raised (RdbError NOT_FOUND_ERROR '''') then Some [] else None)"
| "visit 0 rm (Inr u, cur) = None"
| "visit (Suc n) rm (Inr u, cur) =
     (case cur_nodep cur of
        None \<Rightarrow> None
      | Some a \<Rightarrow>
          (case RDB_tree_cursor_next rm cur of
             None \<Rightarrow> None
           | Some res \<Rightarrow> map_option ((#) (nkey (node_at a (root (treep rm))), nvalue (node_at a (root (treep rm)))))
                           (visit n rm res)))"

lemma node_at_items:
  "distinct (ids t) \<Longrightarrow> (a, k, v) \<in> set (items t) \<Longrightarrow>
    nkey (node_at a t) = k \<and> nvalue (node_at a t) = v \<and> node_at a t \<noteq> Null"
proof (induction t)
  case (Node i p b k' v' l r)
  have mem: "(a, k, v) \<in> set (items t) \<Longrightarrow> a \<in> set (ids t)" for t
    by (force simp: ids_def)
  consider "(a, k, v) = (i, k', v')" | "(a, k, v) \<in> set (items l)" | "(a, k, v) \<in> set (items r)"
    using Node.prems(2) by auto
  then show ?case
  proof cases
    case 2
    then show ?thesis using Node mem[of l] by auto
  next
    case 3
    then show ?thesis using Node mem[of r] node_at_absent[of a l] by auto
  qed simp
qed simp

lemma visit_from:
  assumes wf: "distinct (ids (root (treep rm)))" "par_ok None (root (treep rm))"
  shows "items (root (treep rm)) = xs @ ys \<Longrightarrow> ys \<noteq> [] \<Longrightarrow> length ys \<le> n \<Longrightarrow>
    visit n rm (Inr (), \<lparr>cur_nodep = Some (fst (hd ys))\<rparr>) = Some (map snd ys)"
proof (induction ys arbitrary: xs n)
  case (Cons y ys)
  obtain m where n: "n = Suc m" using Cons.prems(3) by (cases n) auto
  let ?t = "root (treep rm)"
  have ids: "ids ?t = map fst xs @ fst y # map fst ys" using Cons.prems(1) by (simp add: ids_def)
  have node: "(nkey (node_at (fst y) ?t), nvalue (node_at (fst y) ?t)) = snd y"
    using node_at_items[OF wf(1), of "fst y" "fst (snd y)" "snd (snd y)"] Cons.prems(1) by simp
  note move = cursor_moves(1)[OF wf ids]
  show ?case
  proof (cases "ys = []")
    case True
    then show ?thesis using move node n by simp
  next
    case False
    then have "visit m rm (Inr (), \<lparr>cur_nodep = Some (fst (hd ys))\<rparr>) = Some (map snd ys)"
      using Cons.IH[of "xs @ [y]" m] Cons.prems n by simp
    then show ?thesis using move node n False by (simp add: hd_map)
  qed
qed simp

lemma visit_all:
  assumes wf: "distinct (ids (root (treep rm)))" "par_ok None (root (treep rm))"
  shows "visit (length (items (root (treep rm)))) rm (RDB_tree_cursor_first rm cur)
    = Some (recs (root (treep rm)))"
proof (cases "root (treep rm) = Null")
  case False
  then have "hd (ids (root (treep rm))) = fst (hd (items (root (treep rm))))"
    by (simp add: ids_def hd_map)
  then show ?thesis
    using visit_from[OF wf, of "[]" "items (root (treep rm))"] leftmost_items[OF False] False
    by (cases cur) (simp add: RDB_tree_cursor_first_def Let_def recs_def)
qed (simp add: RDB_tree_cursor_first_def)

section \<open>Deleting at a cursor\<close>

lemma item_split_unique:
  assumes "distinct (map item_key (xs @ x # ys))" "xs @ x # ys = xs' @ x' # ys'" "item_key x = item_key x'"
  shows "xs' = xs \<and> x' = x \<and> ys' = ys"
proof -
  have "map item_key xs @ item_key x # map item_key ys = map item_key xs' @ item_key x # map item_key ys'"
    using arg_cong[OF assms(2), of "map item_key"] assms(3) by simp
  then have "map item_key xs' = map item_key xs"
    using split_at_unique[of "map item_key xs" "item_key x" "map item_key ys"] assms(1) by auto
  then have "length xs' = length xs" by (metis length_map)
  then show ?thesis using assms(2) by auto
qed

text \<open>Deleting at the cursor is deleting by the key of the record there.\<close>

lemma cursor_delete_by_key:
  assumes inv: "recmap_inv R m rm" and K: "k \<in> fst ` R" and found: "find_rec rm k = Some (k, v)"
    and node: "nkey (node_at a (root (treep rm))) = k" "nvalue (node_at a (root (treep rm))) = v"
      "node_at a (root (treep rm)) \<noteq> Null"
    and d: "delete_tree_rec_by_key rm k m = (r, rm', m')"
    and nxt: "RDB_tree_cursor_next rm \<lparr>cur_nodep = Some a\<rparr> = Some (e, cur')" "e = Inr () \<or> e = NOT_FOUND"
  shows "RDB_tree_cursor_delete rm \<lparr>cur_nodep = Some a\<rparr> m = Some (r, rm', cur', m')"
proof -
  let ?n = "RDB_tree_find (treep rm) k"
  have n: "?n \<noteq> Null" "nkey ?n = k" "nvalue ?n = v"
    using find_rec_node[OF inv K] found by (auto simp: node_rec_def split: if_splits)
  have same: "RDB_delete_from_tree_indexes rm (node_at a (root (treep rm))) m
      = RDB_delete_from_tree_indexes rm ?n m"
    using n node by (simp add: RDB_delete_from_tree_indexes_def)
  have none: "indexes rm = [] \<Longrightarrow> RDB_delete_from_tree_indexes rm ?n m = (Inr (), rm, m)"
    by (simp add: RDB_delete_from_tree_indexes_def)
  show ?thesis
    using d nxt n node same none
    by (cases "indexes rm = []")
      (auto simp: RDB_tree_cursor_delete_def delete_tree_rec_by_key_def Let_def split: prod.splits sum.splits)
qed

lemma cursor_delete_result:
  assumes wf: "map_wf F m rm" and cur: "items (root (treep rm)) = us @ (a, k, v) # ws"
    and run: "RDB_tree_cursor_delete rm \<lparr>cur_nodep = Some a\<rparr> m = out"
  shows "\<exists>r rm' m'. out = Some (r, rm', \<lparr>cur_nodep = if ws = [] then None else Some (fst (hd ws))\<rparr>, m')
    \<and> (r = NO_MEM \<and> fails m \<noteq> []
       \<or> r = Inr () \<and> map_wf F m' rm' \<and> records rm' = records rm - {(k, v)}
         \<and> (\<exists>us'. items (root (treep rm')) = us' @ ws))"
proof -
  let ?t = "root (treep rm)"
  note inv = map_wfD(3)[OF wf]
  note D = recmap_invD[OF inv]
  have tw: "distinct (ids ?t)" "par_ok None ?t" using D(3) by (auto simp: bt_wf_def tree_wf_def)
  have ids: "ids ?t = map fst us @ a # map fst ws" using cur by (simp add: ids_def)
  have kv: "(k, v) \<in> records rm" using cur by (force simp: records_def recs_def)
  then have R: "(k, v) \<in> enc (desc rm) ` F" using D(4) by blast
  have node: "nkey (node_at a ?t) = k" "nvalue (node_at a ?t) = v" "node_at a ?t \<noteq> Null"
    using node_at_items[OF tw(1), of a k v] cur by auto
  have nxt: "\<exists>e. RDB_tree_cursor_next rm \<lparr>cur_nodep = Some a\<rparr>
      = Some (e, \<lparr>cur_nodep = if ws = [] then None else Some (fst (hd ws))\<rparr>)
      \<and> (e = Inr () \<or> e = NOT_FOUND)"
    using cursor_moves(1)[OF tw ids] by (cases ws) auto
  have K: "k \<in> fst ` enc (desc rm) ` F" using imageI[OF R, of fst] by simp
  have found: "find_rec rm k = Some (k, v)" using find_rec_self[OF inv kv] by simp
  obtain r rm' m' where d: "delete_tree_rec_by_key rm k m = (r, rm', m')" by (metis prod_cases3)
  have out: "out = Some (r, rm', \<lparr>cur_nodep = if ws = [] then None else Some (fst (hd ws))\<rparr>, m')"
    using nxt run node cursor_delete_by_key[OF inv K found node d] by auto
  have res: "delete_result (enc (desc rm) ` F) m rm k r rm' m'"
    by (rule delete_tree_rec_by_key_result[OF inv K d])
  have tail: "\<exists>us'. items (root (treep rm')) = us' @ ws"
    if gone: "deleted (comparison_fp (treep rm)) k ?t (root (treep rm'))"
  proof -
    obtain us2 i k2 v2 ws2 where del: "items ?t = us2 @ (i, k2, v2) # ws2"
      "compare_key (comparison_fp (treep rm)) k k2 = 0"
      "items (root (treep rm')) = us2 @ ws2
        \<or> (\<exists>us' d. us2 = us' @ [d] \<and> items (root (treep rm')) = us' @ (i, snd d) # ws2)"
      using gone unfolding deleted_def by blast
    have "(k2, v2) \<in> records rm" using del(1) by (force simp: records_def recs_def)
    then have "(k2, v2) = (k, v)" using find_rec_Some[OF inv K, of "(k2, v2)"] del(2) found by simp
    then have same: "item_key (a, k, v) = item_key (i, k2, v2)" by simp
    have "distinct (map fst (recs ?t))"
      using key_order.sorted_distinct[OF D(2) recmap_sorted(1)[OF inv]] recmap_sorted(2)[OF inv]
      by (simp only: set_map)
    then have dist: "distinct (map item_key (us @ (a, k, v) # ws))"
      unfolding recs_def cur [symmetric] by (simp add: comp_def)
    have "us @ (a, k, v) # ws = us2 @ (i, k2, v2) # ws2" using cur del(1) by simp
    from item_split_unique[OF dist this same] have "us2 = us" "ws2 = ws" by blast+
    then show ?thesis using del(3) by (metis append.assoc append_Cons append_Nil)
  qed
  show ?thesis
    using res found out tail map_wfI[OF wf, of m' rm'] unfolding delete_result_def by auto
qed

end
