(* ===== verification/Tree_Index.thy ===== *)
theory Tree_Index
  imports Recmap_Order
begin

text \<open>
  Secondary indexes of a record map, \<^verbatim>\<open>treerec/treeindex.c\<close>.  An index is identified by
  its position in the list of the map's indexes, where C code has its address.
\<close>

section \<open>Locating a field in an index key\<close>

text \<open>
  The loop over the fields before field \<open>fi\<close> of the index when that one has variable
  length: the length of a fixed-length field is taken from \<^verbatim>\<open>fieldinfos[i]\<close>, where \<open>i\<close> is
  the number of the field within the index.
\<close>

fun index_var_offset ::
  "recmap \<Rightarrow> nat list \<Rightarrow> bytes \<Rightarrow> nat \<Rightarrow> nat list \<Rightarrow> int \<Rightarrow> nat \<Rightarrow> (int \<times> nat) result" where
  "index_var_offset rmp fieldv databp vfcnt [] offs vpos = Inr (offs, vpos)"
| "index_var_offset rmp fieldv databp vfcnt (i # is) offs vpos =
     (if \<not> is_var rmp (fieldv ! i) then
        (if length (fieldinfos rmp) \<le> i then Inl Segfault
         else index_var_offset rmp fieldv databp vfcnt is
                (to_int (offs + fi_len (fieldinfos rmp ! i))) vpos)
      else
        rbind (RDB_get_vflen databp vfcnt vpos)
          (\<lambda>l. index_var_offset rmp fieldv databp vfcnt is (to_int (offs + int l)) (Suc vpos)))"

definition RDB_index_get_field ::
  "recmap \<Rightarrow> nat list \<Rightarrow> nat \<Rightarrow> bytes \<Rightarrow> (int \<times> nat \<times> nat option) result" where
  "RDB_index_get_field rmp fieldv fi databp =
     (if length fieldv \<le> fi \<or> (\<exists>i \<in> set fieldv. length (fieldinfos rmp) \<le> i) then Inl Segfault
      else if \<not> is_var rmp (fieldv ! fi) then
        Inr (add_fixed rmp (take fi fieldv) 0, to_size (fi_len (fieldinfos rmp ! (fieldv ! fi))), None)
      else
        (let vfcnt = length (filter (is_var rmp) fieldv) in
         rbind (index_var_offset rmp fieldv databp vfcnt [0 ..< fi] 0 0)
           (\<lambda>(offs, vpos). rbind (RDB_get_vflen databp vfcnt vpos) (\<lambda>l. Inr (offs, l, Some vpos)))))"

section \<open>Comparing index keys\<close>

fun index_compare_fields ::
  "recmap \<Rightarrow> nat list \<Rightarrow> nat \<Rightarrow> compare_field list \<Rightarrow> bytes \<Rightarrow> bytes \<Rightarrow> int result" where
  "index_compare_fields rmp fieldv i [] d1 d2 = Inr 0"
| "index_compare_fields rmp fieldv i (c # cs) d1 d2 =
     rbind (RDB_index_get_field rmp fieldv i d1) (\<lambda>(offs1, len1, vp1).
     rbind (RDB_index_get_field rmp fieldv i d2) (\<lambda>(offs2, len2, vp2).
     rbind (read_at d1 offs1 len1) (\<lambda>b1.
     rbind (read_at d2 offs2 len2) (\<lambda>b2.
       let res = comparep c b1 b2 in
       if res \<noteq> 0 then Inr (if \<not> cf_asc c then - res else res)
       else index_compare_fields rmp fieldv (Suc i) cs d1 d2))))"

definition index_compare_key ::
  "recmap \<Rightarrow> nat list \<Rightarrow> compare_field list option \<Rightarrow> bytes \<Rightarrow> bytes \<Rightarrow> int result" where
  "index_compare_key rmp fieldv cmpv' d1 d2 =
     (case cmpv' of
        None \<Rightarrow>
          (let res = memcmp d1 d2 (if length d1 \<le> length d2 then length d1 else length d2) in
           Inr (if res \<noteq> 0 then res else abs_size_diff (length d1) (length d2)))
      | Some cs \<Rightarrow> index_compare_fields rmp fieldv 0 cs d1 d2)"

definition index_comparison :: "recmap \<Rightarrow> nat list \<Rightarrow> compare_field list option \<Rightarrow> comparison_func" where
  "index_comparison rmp fieldv cs d1 d2 =
     (case index_compare_key rmp fieldv cs d1 d2 of Inr x \<Rightarrow> x | Inl _ \<Rightarrow> 0)"

section \<open>Creating and deleting an index\<close>

text \<open>
  A comparison function may be missing for some fields (\<open>None\<close>); the tree then compares the
  bytes of the keys.  The first array of field numbers is the caller's copy.
\<close>

record compare_field_opt =
  cfo_comparep :: "(bytes \<Rightarrow> bytes \<Rightarrow> int) option"
  cfo_asc :: bool

definition to_compare_field :: "compare_field_opt \<Rightarrow> compare_field" where
  "to_compare_field c = \<lparr>cf_fno = 0, comparep = the (cfo_comparep c), cf_asc = cfo_asc c\<rparr>"

definition new_tree_index ::
  "recmap \<Rightarrow> nat list \<Rightarrow> compare_field_opt list option \<Rightarrow> int \<Rightarrow> mem \<Rightarrow> tree_index result \<times> mem" where
  "new_tree_index rmp fieldv cs flags m =
     (if flags mod 2 = 0 then (raise_err INVALID_ARGUMENT_ERROR ''non-unique index not supported'', m)
      else case malloc m of
        (None, m1) \<Rightarrow> (raise_err NO_MEMORY_ERROR '''', m1)
      | (Some _, m1) \<Rightarrow>
     (case malloc m1 of
        (None, m2) \<Rightarrow> (raise_err NO_MEMORY_ERROR '''', m2)
      | (Some _, m2) \<Rightarrow>
     (case malloc_if (cs \<noteq> None) m2 of (ok, m3) \<Rightarrow>
        if \<not> ok then (raise_err NO_MEMORY_ERROR '''', m3)
        else
          (let all_cmpfn = (case cs of None \<Rightarrow> True | Some l \<Rightarrow> \<forall>c \<in> set l. cfo_comparep c \<noteq> None);
               cmpv' = map_option (map to_compare_field) cs in
           case RDB_create_tree (if all_cmpfn then Some (index_comparison rmp fieldv cmpv') else None) m3 of
             (Inl e, m4) \<Rightarrow> (Inl e, m4)
           | (Inr tr, m4) \<Rightarrow> (Inr \<lparr>ix_fieldv = fieldv, ix_cmpv = cmpv', ix_treep = tr\<rparr>, m4)))))"

definition RDB_create_tree_index ::
  "tree_recmap \<Rightarrow> nat list \<Rightarrow> compare_field_opt list option \<Rightarrow> int \<Rightarrow> mem
     \<Rightarrow> unit result \<times> tree_recmap \<times> mem" where
  "RDB_create_tree_index rm fieldv cs flags m =
     (case malloc m of
        (None, m1) \<Rightarrow> (raise_err NO_MEMORY_ERROR '''', rm, m1)
      | (Some _, m1) \<Rightarrow>
          (case new_tree_index (desc rm) fieldv cs flags m1 of
             (Inl e, m2) \<Rightarrow> (Inl e, rm, m2)
           | (Inr ixp, m2) \<Rightarrow> (Inr (), rm\<lparr>indexes := ixp # indexes rm\<rparr>, m2)))"

definition find_prev_index :: "nat \<Rightarrow> nat option" where
  "find_prev_index n = (if n = 0 then None else Some (n - 1))"

definition RDB_delete_tree_index :: "tree_recmap \<Rightarrow> nat \<Rightarrow> tree_recmap" where
  "RDB_delete_tree_index rm n =
     (case find_prev_index n of
        Some pr \<Rightarrow> rm\<lparr>indexes := take (Suc pr) (indexes rm) @ drop (Suc n) (indexes rm)\<rparr>
      | None \<Rightarrow> rm\<lparr>indexes := tl (indexes rm)\<rparr>)"

section \<open>Access by an index\<close>

text \<open>
  The search key is built from as many fields as the primary key has, and with the numbers of
  the primary key fields: the first loop sets the numbers of the index fields, the second one
  overwrites them.
\<close>

definition index_search_key ::
  "recmap \<Rightarrow> tree_index \<Rightarrow> rdb_field list \<Rightarrow> mem \<Rightarrow> (errcode + bytes) result \<times> mem" where
  "index_search_key rmp ixp keyv m =
     (if length keyv < length (ix_fieldv ixp) \<or> length keyv < keyfieldcount rmp then (Inl Segfault, m)
      else RDB_fields_to_mem rmp (number_fields 0 (take (keyfieldcount rmp) keyv)) m)"

definition RDB_tree_index_get_fields ::
  "tree_recmap \<Rightarrow> nat \<Rightarrow> rdb_field list \<Rightarrow> rdb_field list \<Rightarrow> mem
     \<Rightarrow> (errcode \<times> rdb_field list) result \<times> mem" where
  "RDB_tree_index_get_fields rm n keyv retfieldv m =
     (let ixp = indexes rm ! n in
      case index_search_key (desc rm) ixp keyv m of
        (Inl e, m1) \<Rightarrow> (Inl e, m1)
      | (Inr (Inl c), m1) \<Rightarrow> (RDB_errcode_to_error c, m1)
      | (Inr (Inr key), m1) \<Rightarrow>
          (let nodep = RDB_tree_find (ix_treep ixp) key in
           if nodep = Null then (raise_err NOT_FOUND_ERROR '''', m1)
           else
             (let rmnodep = RDB_tree_find (treep rm) (nvalue nodep) in
              if rmnodep = Null then (raise_err INTERNAL_ERROR ''index node not found'', m1)
              else (RDB_get_mem_fields (desc rm) (nkey rmnodep) (nvalue rmnodep) retfieldv, m1))))"

definition RDB_tree_index_delete_rec ::
  "tree_recmap \<Rightarrow> nat \<Rightarrow> rdb_field list \<Rightarrow> mem \<Rightarrow> unit result \<times> tree_recmap \<times> mem" where
  "RDB_tree_index_delete_rec rm n keyv m =
     (let ixp = indexes rm ! n in
      case index_search_key (desc rm) ixp keyv m of
        (Inl e, m1) \<Rightarrow> (Inl e, rm, m1)
      | (Inr (Inl c), m1) \<Rightarrow> (RDB_errcode_to_error c, rm, m1)
      | (Inr (Inr key), m1) \<Rightarrow>
          (let pnodep = RDB_tree_find (ix_treep ixp) key in
           if pnodep = Null then (raise_err NOT_FOUND_ERROR '''', rm, m1)
           else
             (let rmnodep = RDB_tree_find (treep rm) (nvalue pnodep) in
              if rmnodep = Null then (raise_err NOT_FOUND_ERROR '''', rm, m1)
              else
                (case RDB_delete_from_tree_indexes rm rmnodep m1 of
                   (Inl e, rm1, m2) \<Rightarrow> (Inl e, rm1, m2)
                 | (Inr _, rm1, m2) \<Rightarrow>
                     (case delete_tree_node rm1 (nkey rmnodep) of (r, rm2) \<Rightarrow> (r, rm2, m2))))))"

section \<open>A new index\<close>

text \<open>
  An index that is added to an empty map is well-formed, so that the operations of the map
  keep it up to date from then on.
\<close>

lemma create_tree_mem: "RDB_create_tree cf m = (r, m') \<Longrightarrow> mem_le m m'"
  by (auto simp: RDB_create_tree_def malloc_mem_le split: prod.splits option.splits)

lemma new_tree_index_mem:
  assumes "new_tree_index rmp fieldv cs flags m = (r, m')"
  shows "mem_le m m'"
proof -
  obtain k1 m1 where m1: "malloc m = (k1, m1)" by fastforce
  obtain k2 m2 where m2: "malloc m1 = (k2, m2)" by fastforce
  obtain k3 m3 where m3: "malloc_if (cs \<noteq> None) m2 = (k3, m3)" by fastforce
  have "mem_le m m1" "mem_le m m2" "mem_le m m3"
    using malloc_mem_le[OF m1] malloc_mem_le[OF m2] malloc_if_mem[OF m3] mem_le_trans by blast+
  then show ?thesis using assms m1 m2 m3
    by (auto simp: new_tree_index_def Let_def split: if_splits option.splits prod.splits sum.splits
        dest!: create_tree_mem intro: mem_le_trans)
qed

lemma create_index_mem: "RDB_create_tree_index rm fieldv cs flags m = (r, rm', m') \<Longrightarrow> mem_le m m'"
  by (auto simp: RDB_create_tree_index_def split: option.splits prod.splits sum.splits
      dest!: malloc_mem_le new_tree_index_mem intro: mem_le_trans)

lemma RDB_create_tree_index_wf:
  assumes wf: "map_wf F m rm" and empty: "records rm = {}"
    and run: "RDB_create_tree_index rm fieldv cs flags m = (Inr u, rm', m')"
    and fieldv: "\<forall>i \<in> set fieldv. i < fieldcount (desc rm)"
      "\<forall>fs \<in> F. rec_ok (desc rm) (map ((!) fs) fieldv)"
    and ord: "key_order (comparison_fp (ix_treep (hd (indexes rm'))))
      ((\<lambda>fs. encode (desc rm) (map ((!) fs) fieldv)) ` F)"
  shows "map_wf F m' rm' \<and> records rm' = {} \<and> desc rm' = desc rm"
proof -
  let ?rmp = "desc rm"
  obtain a m1 where m1: "malloc m = (Some a, m1)"
    using run by (auto simp: RDB_create_tree_index_def split: prod.splits option.splits)
  then obtain ixp where ixp: "new_tree_index ?rmp fieldv cs flags m1 = (Inr ixp, m')"
    "rm' = rm\<lparr>indexes := ixp # indexes rm\<rparr>"
    using run by (auto simp: RDB_create_tree_index_def split: prod.splits sum.splits)
  have ix: "ix_fieldv ixp = fieldv" "root (ix_treep ixp) = Null"
    using ixp(1)
    by (auto simp: new_tree_index_def Let_def RDB_create_tree_def split: if_splits prod.splits option.splits sum.splits)
  have le: "mem_le m m'" using run by (rule create_index_mem)
  have sk: "skey_of ?rmp ixp (enc ?rmp fs) = encode ?rmp (map ((!) fs) fieldv)" "skey_ok ?rmp ixp (enc ?rmp fs)"
    if "fs \<in> F" for fs
    using skey_full[OF map_wfD(1)[OF wf] map_wfD(2)[OF wf that], of ixp] fieldv that ix(1)
    by (auto simp: enc_def index_rec_def)
  have "skey_of ?rmp ixp ` enc ?rmp ` F = (\<lambda>fs. encode ?rmp (map ((!) fs) fieldv)) ` F"
    using sk by (auto simp: image_iff)
  then have "index_inv ?rmp (enc ?rmp ` F) m' {} ixp"
    using ord sk ix ixp(2) by (auto simp: index_inv_def index_ok_def bt_wf_def)
  moreover have "index_inv ?rmp (enc ?rmp ` F) m' {} ixp'" if "ixp' \<in> set (indexes rm)" for ixp'
    using index_inv_mono[OF recmap_invD(5)[OF map_wfD(3)[OF wf] that] le] empty by simp
  ultimately have "recmap_inv (enc ?rmp ` F) m' rm'"
    using recmap_inv_mono[OF map_wfD(3)[OF wf] le] empty ixp(2)
    by (simp add: recmap_inv_def records_def)
  then show ?thesis using wf fieldv ix ixp(2) empty
    by (auto simp: map_wf_def records_def index_sig_def)
qed

section \<open>Properties\<close>

text \<open>
  C36: the comparison function of a record map orders the encoded keys when the functions
  given for its fields are orders and the variable-length key fields are terminated by a
  zero byte, as strings are.  This is the condition under which the balanced tree is a map.
\<close>

theorem record_map_key_order:
  assumes "recmap_ok rmp" "\<forall>ks \<in> F. key_rec rmp ks" "\<forall>ks \<in> F. encode rmp ks \<noteq> []"
    and "\<forall>c \<in> set (cmpv rmp). cf_fno c < keyfieldcount rmp
      \<and> total_preorder_on ((\<lambda>ks. field_bytes (ks ! cf_fno c)) ` F) (comparep c)"
    and "\<forall>ks \<in> F. \<forall>f \<in> set ks. is_var rmp (no f) \<longrightarrow> nul_terminated (field_bytes f)"
  shows "key_order (Some (recmap_comparison rmp)) (encode rmp ` F)"
proof (rule recmap_key_order)
  have "\<forall>ks \<in> F. \<forall>f \<in> set (var_fields rmp ks). nul_terminated (field_bytes f)"
    using assms(5) by (auto simp: var_fields_def)
  then show "length (cmpv rmp) = fieldcount rmp \<or> prefix_free (encode rmp ` F)"
    using encode_prefix_free[OF assms(2)] by blast
qed (use assms in force)+

text \<open>Keys of one byte, in descending order.\<close>

definition descending :: recmap where
  "descending = two_fields\<lparr>cmpv := [\<lparr>cf_fno = 0, comparep = \<lambda>a b. int (unat (hd a)) - int (unat (hd b)), cf_asc = False\<rparr>]\<rparr>"

definition byte_keys :: "(rdb_field list) set" where
  "byte_keys = {[bytes_field 0 [k]] | k. True}"

theorem record_map_key_order_witness:
  "key_order (Some (recmap_comparison descending)) (encode descending ` byte_keys)
     \<and> recmap_comparison descending [7] [8] > 0"
proof (rule conjI)
  show "key_order (Some (recmap_comparison descending)) (encode descending ` byte_keys)"
  proof (rule record_map_key_order)
    show "recmap_ok descending"
      using two_fields_ok(1) by (simp add: descending_def recmap_ok_def)
    show "\<forall>ks \<in> byte_keys. key_rec descending ks"
      by (auto simp: byte_keys_def key_rec_def rec_ok_def field_ok_def descending_def two_fields_def bytes_field_def
          memcpy_def is_var_def rec_size_def var_fields_def RDB_VARIABLE_LEN_def RECLEN_SIZE_def)
    show "\<forall>ks \<in> byte_keys. encode descending ks \<noteq> []"
      by (auto simp: byte_keys_def encode_def fixed_fields_def descending_def two_fields_def bytes_field_def
          memcpy_def is_var_def RDB_VARIABLE_LEN_def)
    show "\<forall>c \<in> set (cmpv descending). cf_fno c < keyfieldcount descending
      \<and> total_preorder_on ((\<lambda>ks. field_bytes (ks ! cf_fno c)) ` byte_keys) (comparep c)"
      by (auto simp: descending_def two_fields_def intro!: total_preorder_onI)
    show "\<forall>ks \<in> byte_keys. \<forall>f \<in> set ks. is_var descending (no f) \<longrightarrow> nul_terminated (field_bytes f)"
      by (auto simp: byte_keys_def bytes_field_def descending_def two_fields_def is_var_def RDB_VARIABLE_LEN_def)
  qed
  show "recmap_comparison descending [7] [8] > 0" by code_simp
qed

text \<open>
  No entry is made for the records a map already has: the new index is empty, whatever
  the map holds.
\<close>

theorem create_index_ignores_records:
  assumes "RDB_create_tree_index rm fieldv cs flags m = (Inr u, rm', m')"
  shows "records rm' = records rm \<and> recs (root (ix_treep (hd (indexes rm')))) = []"
  using assms
  by (auto simp: RDB_create_tree_index_def new_tree_index_def RDB_create_tree_def records_def recs_def Let_def
      split: prod.splits option.splits sum.splits if_splits)

theorem create_index_ignores_records_witness:
  "\<exists>rm rm' m'. RDB_create_tree_index rm [2] None 1 mem_ok = (Inr (), rm', m')
     \<and> records rm' \<noteq> {} \<and> recs (root (ix_treep (hd (indexes rm')))) = []"
proof -
  let ?rm = "\<lparr>desc = two_fields, treep = \<lparr>root = Node 1 None 0 [7] [5, 1, 1, 0, 0, 0] Null Null, comparison_fp = None\<rparr>, indexes = []\<rparr>"
  obtain u rm' m' where run: "RDB_create_tree_index ?rm [2] None 1 mem_ok = (Inr u, rm', m')"
    by (simp add: RDB_create_tree_index_def new_tree_index_def RDB_create_tree_def malloc_def malloc_if_def mem_ok_def Let_def)
  have "records ?rm \<noteq> {}" by (simp add: records_def recs_def)
  then have "records rm' \<noteq> {} \<and> recs (root (ix_treep (hd (indexes rm')))) = []"
    using create_index_ignores_records[OF run] by simp
  then show ?thesis using run by auto
qed

definition four_bytes :: recmap where
  "four_bytes = \<lparr>namp = None, filenamp = None, fieldcount = 3, keyfieldcount = 1,
     fieldinfos = [\<lparr>fi_len = 1, fi_attrname = None, fi_flags = 0\<rparr>, \<lparr>fi_len = 4, fi_attrname = None, fi_flags = 0\<rparr>,
       \<lparr>fi_len = RDB_VARIABLE_LEN, fi_attrname = None, fi_flags = 0\<rparr>],
     varkeyfieldcount = 0, vardatafieldcount = 1, cmpv = [], dup_keys = False, delayed_deletion = False\<rparr>"

text \<open>
  \<^verbatim>\<open>RDB_index_get_field\<close> takes the length of a fixed-length field from the wrong entry of
  \<^verbatim>\<open>fieldinfos\<close>: in the index over a field of four bytes and a string, the string is looked for
  at offset 1.
\<close>

theorem index_field_wrong_offset:
  "encode four_bytes [bytes_field 1 [9, 9, 9, 9], bytes_field 2 [65, 0]] = [9, 9, 9, 9, 65, 0, 2, 0, 0, 0]
   \<and> RDB_index_get_field four_bytes [1, 2] 1 [9, 9, 9, 9, 65, 0, 2, 0, 0, 0] = Inr (1, 2, Some 0)"
  by (simp add: encode_def four_bytes_def bytes_field_def fixed_fields_def var_fields_def is_var_def memcpy_def
      RDB_VARIABLE_LEN_def set_len_small RDB_index_get_field_def Let_def RDB_get_vflen_def read_at_def get_len_def
      RECLEN_SIZE_def to_int_def)

definition three_bytes :: recmap where
  "three_bytes = \<lparr>namp = None, filenamp = None, fieldcount = 3, keyfieldcount = 1,
     fieldinfos = replicate 3 \<lparr>fi_len = 1, fi_attrname = None, fi_flags = 0\<rparr>,
     varkeyfieldcount = 0, vardatafieldcount = 0, cmpv = [], dup_keys = False, delayed_deletion = False\<rparr>"

text \<open>
  A search by an index of two fields in a map with a primary key of one field uses only the
  first of the two values, and does not find the record.
\<close>

theorem index_search_uses_wrong_key:
  "let rm0 = \<lparr>desc = three_bytes, treep = \<lparr>root = Null, comparison_fp = Some (recmap_comparison three_bytes)\<rparr>, indexes = []\<rparr>;
       (r1, rm1, m1) = RDB_create_tree_index rm0 [1, 2] None 1 mem_ok;
       (r2, rm2, m2) = RDB_insert_tree_rec rm1 [bytes_field 0 [1], bytes_field 1 [10], bytes_field 2 [20]] m1
   in r2 = Inr () \<and> recs (root (ix_treep (hd (indexes rm2)))) = [([10, 20], [1])]
      \<and> (case fst (RDB_tree_index_get_fields rm2 0 [bytes_field 1 [10], bytes_field 2 [20]] [] m2) of
           Inl e \<Rightarrow> has_type NOT_FOUND_ERROR e | Inr _ \<Rightarrow> False)"
  by code_simp

end
