(* ===== verification/Recmap_Refinement.thy ===== *)
theory Recmap_Refinement
  imports Tree_Cursor Tree_Index
begin

text \<open>
  What a record map promises to the table layer above it: it is a set of rows, in which no
  two rows have the same key or the same value for a unique index.  The functions of
  \<^verbatim>\<open>treerec/treerecmap.c\<close> are shown to refine this table, request by request.
\<close>

section \<open>Rows\<close>

text \<open>A row is the list of the byte strings of its fields.\<close>

type_synonym row = "bytes list"

definition row_of :: "rdb_field list \<Rightarrow> row" where
  "row_of fs = map field_bytes fs"

definition row_fields :: "row \<Rightarrow> rdb_field list" where
  "row_fields r = map (\<lambda>(i, b). \<lparr>no = i, datap = b, flen = length b, copyfp = memcpy\<rparr>) (enumerate 0 r)"

definition enc_row :: "recmap \<Rightarrow> row \<Rightarrow> bytes \<times> bytes" where
  "enc_row rmp r = enc rmp (row_fields r)"

lemma enc_row_of:
  assumes "recmap_ok rmp" "full_rec rmp fs"
  shows "enc_row rmp (row_of fs) = enc rmp fs"
proof -
  have ok: "\<forall>f \<in> set fs. length (field_bytes f) = flen f"
    using assms(2) unfolding full_rec_def rec_ok_def field_ok_def
    by (metis (no_types, lifting) Un_iff append_take_drop_id set_append)
  have "list_all2 (\<lambda>f g. no f = no g \<and> flen f = flen g \<and> field_bytes f = field_bytes g)
      (row_fields (row_of fs)) fs"
    unfolding list_all2_conv_all_nth
  proof (intro conjI allI impI)
    fix i assume i: "i < length (row_fields (row_of fs))"
    then have i: "i < length fs" by (simp add: row_fields_def row_of_def)
    moreover have "no (fs ! i) = i" using full_rec_parts(3,4)[OF assms] i by simp
    ultimately show "no (row_fields (row_of fs) ! i) = no (fs ! i)"
      "flen (row_fields (row_of fs) ! i) = flen (fs ! i)"
      "field_bytes (row_fields (row_of fs) ! i) = field_bytes (fs ! i)"
      using ok by (simp_all add: row_fields_def row_of_def nth_enumerate_eq memcpy_def)
  qed (simp add: row_fields_def row_of_def)
  then show ?thesis
    unfolding enc_row_def enc_def rec_key_def rec_val_def
    by (simp add: encode_cong list_all2_takeI list_all2_dropI)
qed

lemma enc_row_inj:
  assumes rmp: "recmap_ok rmp" and fs: "full_rec rmp fs" "full_rec rmp fs'"
    and eq: "enc rmp fs = enc rmp fs'"
  shows "row_of fs = row_of fs'"
proof -
  let ?is = "map index_field [0 ..< fieldcount rmp]"
  have no: "\<forall>g \<in> set ?is. no g < fieldcount rmp" by (auto simp: index_field_def)
  have keys: "rec_key rmp fs' = rec_key rmp fs" "rec_val rmp fs' = rec_val rmp fs"
    using eq by (simp_all add: enc_def)
  obtain gs where gs: "list_all2 (fetched fs) ?is gs" "list_all2 (fetched fs') ?is gs"
    using get_mem_fields_full[OF rmp fs(1) no] get_mem_fields_full[OF rmp fs(2) no] keys by auto
  have len: "length fs = fieldcount rmp" "length fs' = fieldcount rmp"
    using full_rec_parts(3)[OF rmp] fs by blast+
  have "field_bytes (fs ! i) = field_bytes (fs' ! i)" if "i < fieldcount rmp" for i
    using list_all2_nthD[OF gs(1), of i] list_all2_nthD[OF gs(2), of i] that
    by (simp add: fetched_def index_field_def) metis
  then show ?thesis using len by (auto simp: row_of_def intro!: nth_equalityI)
qed


section \<open>Requests\<close>

datatype request =
    Insert "rdb_field list"
  | Delete "rdb_field list"
  | Contains "rdb_field list"
  | Update "rdb_field list" "rdb_field list"

fun serve :: "request \<Rightarrow> tree_recmap \<Rightarrow> mem \<Rightarrow> unit result \<times> tree_recmap \<times> mem" where
  "serve (Insert fs) rm m = RDB_insert_tree_rec rm fs m"
| "serve (Delete fs) rm m = RDB_delete_tree_rec rm fs m"
| "serve (Contains fs) rm m = (case RDB_contains_tree_rec rm fs m of (r, m1) \<Rightarrow> (r, rm, m1))"
| "serve (Update fs gs) rm m = RDB_update_tree_rec rm fs gs m"

fun serve_all :: "request list \<Rightarrow> tree_recmap \<Rightarrow> mem \<Rightarrow> unit result list \<times> tree_recmap \<times> mem" where
  "serve_all [] rm m = ([], rm, m)"
| "serve_all (q # qs) rm m =
     (case serve q rm m of (r, rm1, m1) \<Rightarrow>
        (case serve_all qs rm1 m1 of (rs, rm2, m2) \<Rightarrow> (r # rs, rm2, m2)))"

section \<open>What a record map promises\<close>

text \<open>
  The abstract table is a set of rows.  The map given as an argument stands only for the
  layout of the records and the order of the keys and of the indexes, which no request changes.
\<close>

definition same_key :: "tree_recmap \<Rightarrow> row \<Rightarrow> row \<Rightarrow> bool" where
  "same_key rm r r' \<longleftrightarrow>
     compare_key (comparison_fp (treep rm)) (fst (enc_row (desc rm) r)) (fst (enc_row (desc rm) r')) = 0"

definition clash :: "tree_recmap \<Rightarrow> row \<Rightarrow> row \<Rightarrow> bool" where
  "clash rm r r' \<longleftrightarrow> conflict_with rm (enc_row (desc rm) r) (enc_row (desc rm) r')"

definition set_row :: "rdb_field list \<Rightarrow> row \<Rightarrow> row" where
  "set_row gs r = foldl (\<lambda>r g. r[no g := field_bytes g]) r gs"

fun table_serve :: "tree_recmap \<Rightarrow> request \<Rightarrow> row set \<Rightarrow> unit result \<times> row set" where
  "table_serve rm (Insert fs) S =
     (if \<exists>r \<in> S. clash rm (row_of fs) r then (KEY_VIOL, S) else (Inr (), insert (row_of fs) S))"
| "table_serve rm (Delete fs) S =
     (let hit = {r \<in> S. same_key rm (row_of fs) r} in
      if hit = {} then (NOT_FOUND, S) else (Inr (), S - hit))"
| "table_serve rm (Contains fs) S =
     (if \<exists>r \<in> S. same_key rm (row_of fs) r
           \<and> snd (enc_row (desc rm) r) = snd (enc_row (desc rm) (row_of fs))
      then (Inr (), S) else (NOT_FOUND, S))"
| "table_serve rm (Update fs gs) S =
     (let hit = {r \<in> S. same_key rm (row_of fs) r}; new = set_row gs ` hit in
      if hit = {} then (NOT_FOUND, S)
      else if \<exists>r \<in> new. \<exists>r' \<in> S - hit. clash rm r r' then (KEY_VIOL, S)
      else (Inr (), (S - hit) \<union> new))"

fun table_serve_all :: "tree_recmap \<Rightarrow> request list \<Rightarrow> row set \<Rightarrow> unit result list \<times> row set" where
  "table_serve_all rm [] S = ([], S)"
| "table_serve_all rm (q # qs) S =
     (case table_serve rm q S of (r, S1) \<Rightarrow>
        (case table_serve_all rm qs S1 of (rs, S2) \<Rightarrow> (r # rs, S2)))"

text \<open>Requests over the records \<open>F\<close> of a map.\<close>

fun request_ok :: "recmap \<Rightarrow> (rdb_field list) set \<Rightarrow> request \<Rightarrow> bool" where
  "request_ok rmp F (Update fs gs) \<longleftrightarrow> fs \<in> F \<and> updates_ok rmp F gs"
| "request_ok rmp F (Insert fs) \<longleftrightarrow> fs \<in> F"
| "request_ok rmp F (Delete fs) \<longleftrightarrow> fs \<in> F"
| "request_ok rmp F (Contains fs) \<longleftrightarrow> fs \<in> F"

definition represents :: "(rdb_field list) set \<Rightarrow> mem \<Rightarrow> tree_recmap \<Rightarrow> row set \<Rightarrow> bool" where
  "represents F m rm S \<longleftrightarrow>
     map_wf F m rm \<and> S \<subseteq> row_of ` F \<and> records rm = enc_row (desc rm) ` S"

definition same_layout :: "tree_recmap \<Rightarrow> tree_recmap \<Rightarrow> bool" where
  "same_layout rm rm' \<longleftrightarrow>
     desc rm' = desc rm \<and> map index_sig (indexes rm') = map index_sig (indexes rm)
     \<and> comparison_fp (treep rm') = comparison_fp (treep rm)"

lemma same_layout_refl [simp]: "same_layout rm rm"
  by (simp add: same_layout_def)

lemma same_layout_trans [trans]: "same_layout a b \<Longrightarrow> same_layout b c \<Longrightarrow> same_layout a c"
  by (simp add: same_layout_def)

lemma same_layout_wf:
  "map_wf F m rm \<Longrightarrow> map_wf F m' rm' \<Longrightarrow> desc rm' = desc rm
    \<Longrightarrow> map index_sig (indexes rm') = map index_sig (indexes rm) \<Longrightarrow> same_layout rm rm'"
  by (simp add: same_layout_def map_wfD(6))

lemma clash_layout: "same_layout rm rm' \<Longrightarrow> clash rm' = clash rm"
  using conflict_with_cong[of rm' rm] by (simp add: clash_def[abs_def] same_layout_def)

lemma same_key_layout: "same_layout rm rm' \<Longrightarrow> same_key rm' = same_key rm"
  by (simp add: fun_eq_iff same_key_def same_layout_def)

lemma table_serve_layout: "same_layout rm rm' \<Longrightarrow> table_serve rm' q S = table_serve rm q S"
  using clash_layout[of rm rm'] same_key_layout[of rm rm']
  by (cases q) (simp_all add: same_layout_def Let_def)


lemma table_serve_all_layout: "same_layout rm rm' \<Longrightarrow> table_serve_all rm' qs S = table_serve_all rm qs S"
  using table_serve_layout[of rm rm'] by (induction qs arbitrary: S) simp_all

section \<open>Refinement\<close>

lemma representsD:
  assumes "represents F m rm S"
  shows "map_wf F m rm" "records rm = enc_row (desc rm) ` S"
    "\<And>fs. fs \<in> F \<Longrightarrow> enc_row (desc rm) (row_of fs) = enc (desc rm) fs"
    "\<And>r. r \<in> S \<Longrightarrow> \<exists>fs \<in> F. r = row_of fs"
  using assms enc_row_of map_wfD(1,2) by (auto simp: represents_def)

lemma conflicts_rows:
  assumes rep: "represents F m rm S" and fs: "fs \<in> F"
  shows "conflicts rm (enc (desc rm) fs) \<longleftrightarrow> (\<exists>r \<in> S. clash rm (row_of fs) r)"
  using conflicts_iff[OF map_wfD(3)[OF representsD(1)[OF rep]]] representsD(2,3)[OF rep] fs
  by (simp add: clash_def)

lemma find_rows:
  assumes rep: "represents F m rm S" and fs: "fs \<in> F"
  defines "hit \<equiv> {r \<in> S. same_key rm (row_of fs) r}"
  shows "find_rec rm (rec_key (desc rm) fs) = None \<longleftrightarrow> hit = {}"
    "find_rec rm (rec_key (desc rm) fs) = Some kv \<Longrightarrow>
      hit \<noteq> {} \<and> (\<forall>r \<in> hit. enc_row (desc rm) r = kv) \<and> enc_row (desc rm) ` (S - hit) = records rm - {kv}"
proof -
  note wf = representsD(1)[OF rep]
  note iff = find_rec_Some[OF map_wfD(3)[OF wf] map_wfD(5)[OF wf fs]]
  have key: "rec_key (desc rm) fs = fst (enc_row (desc rm) (row_of fs))"
    using representsD(3)[OF rep fs] by (simp add: enc_def)
  have hit: "r \<in> hit \<longleftrightarrow> r \<in> S \<and> find_rec rm (rec_key (desc rm) fs) = Some (enc_row (desc rm) r)" for r
    using iff[of "enc_row (desc rm) r"] representsD(2)[OF rep] key
    by (auto simp: hit_def same_key_def)
  have found: "\<exists>r \<in> S. kv = enc_row (desc rm) r" if "find_rec rm (rec_key (desc rm) fs) = Some kv" for kv
    using that iff representsD(2)[OF rep] by auto
  show "find_rec rm (rec_key (desc rm) fs) = None \<longleftrightarrow> hit = {}"
    using hit found by (cases "find_rec rm (rec_key (desc rm) fs)") auto
  assume kv: "find_rec rm (rec_key (desc rm) fs) = Some kv"
  show "hit \<noteq> {} \<and> (\<forall>r \<in> hit. enc_row (desc rm) r = kv) \<and> enc_row (desc rm) ` (S - hit) = records rm - {kv}"
  proof (intro conjI)
    show "hit \<noteq> {}" using hit found[OF kv] kv by auto
    show "\<forall>r \<in> hit. enc_row (desc rm) r = kv" using hit kv by auto
    show "enc_row (desc rm) ` (S - hit) = records rm - {kv}"
      unfolding representsD(2)[OF rep] using hit kv by auto
  qed
qed

lemma set_row_of: "set_row gs (row_of fs) = row_of (set_fields fs gs)"
  by (induction gs arbitrary: fs) (simp_all add: set_row_def row_of_def set_field_def map_update[of field_bytes, symmetric])

definition refines :: "(rdb_field list) set \<Rightarrow> tree_recmap \<Rightarrow> row set \<Rightarrow> request
    \<Rightarrow> unit result \<times> tree_recmap \<times> mem \<Rightarrow> bool" where
  "refines F rm S q out \<longleftrightarrow>
     (case out of (r, rm', m') \<Rightarrow> \<exists>S'. table_serve rm q S = (r, S') \<and> represents F m' rm' S'
        \<and> same_layout rm rm' \<and> fails m' = [])"

lemma insert_refines:
  assumes rep: "represents F m rm S" and fs: "fs \<in> F" and mem: "fails m = []"
  shows "refines F rm S (Insert fs) (RDB_insert_tree_rec rm fs m)"
proof -
  note wf = representsD(1)[OF rep]
  obtain r rm' m' where run: "RDB_insert_tree_rec rm fs m = (r, rm', m')" by (metis prod_cases3)
  note res = RDB_insert_tree_rec_result[OF wf fs run]
  have mem': "mem_le m m'" using res by blast
  from res mem consider
      "r = Inr ()" "\<not> conflicts rm (enc (desc rm) fs)" "map_wf F m' rm'" "desc rm' = desc rm"
      "records rm' = insert (enc (desc rm) fs) (records rm)"
      "map index_sig (indexes rm') = map index_sig (indexes rm)"
    | "r = KEY_VIOL" "conflicts rm (enc (desc rm) fs)" "rm' = rm" by blast
  then show ?thesis
  proof cases
    case 1
    have "represents F m' rm' (insert (row_of fs) S)"
      using 1 rep fs representsD(2,3)[OF rep] by (auto simp: represents_def)
    then show ?thesis
      using 1 run conflicts_rows[OF rep fs] same_layout_wf[OF wf 1(3,4,6)] mem mem'
      by (auto simp: refines_def mem_le_def)
  next
    case 2
    have "represents F m' rm S" using rep map_wf_mono[OF wf mem'] by (simp add: represents_def)
    then show ?thesis
      using 2 run conflicts_rows[OF rep fs] mem mem' by (auto simp: refines_def mem_le_def)
  qed
qed

lemma delete_refines:
  assumes rep: "represents F m rm S" and fs: "fs \<in> F" and mem: "fails m = []"
  shows "refines F rm S (Delete fs) (RDB_delete_tree_rec rm fs m)"
proof -
  note wf = representsD(1)[OF rep]
  obtain r rm' m' where run: "RDB_delete_tree_rec rm fs m = (r, rm', m')" by (metis prod_cases3)
  note res = RDB_delete_tree_rec_result[OF wf fs run]
  have mem': "mem_le m m'" using res by blast
  let ?hit = "{r \<in> S. same_key rm (row_of fs) r}"
  show ?thesis
  proof (cases "find_rec rm (rec_key (desc rm) fs)")
    case None
    then have "r = NOT_FOUND" "rm' = rm" "?hit = {}" using res mem find_rows(1)[OF rep fs] by auto
    then show ?thesis
      using run mem mem' rep map_wf_mono[OF wf mem']
      by (auto simp: refines_def mem_le_def represents_def Let_def)
  next
    case (Some kv)
    then have ok: "r = Inr ()" "map_wf F m' rm'" "records rm' = records rm - {kv}" "desc rm' = desc rm"
      "map index_sig (indexes rm') = map index_sig (indexes rm)"
      using res mem by auto
    note hit = find_rows(2)[OF rep fs Some]
    have "represents F m' rm' (S - ?hit)" using ok rep hit by (auto simp: represents_def)
    moreover have "table_serve rm (Delete fs) S = (r, S - ?hit)" using hit ok(1) by (simp add: Let_def)
    ultimately show ?thesis
      using run same_layout_wf[OF wf ok(2,4,5)] mem mem' by (auto simp: refines_def mem_le_def)
  qed
qed

lemma contains_refines:
  assumes rep: "represents F m rm S" and fs: "fs \<in> F" and mem: "fails m = []"
  shows "refines F rm S (Contains fs) (serve (Contains fs) rm m)"
proof -
  note wf = representsD(1)[OF rep]
  obtain r m' where run: "RDB_contains_tree_rec rm fs m = (r, m')" by fastforce
  note res = RDB_contains_tree_rec_result[OF wf fs run]
  have mem': "mem_le m m'" using res by blast
  have val: "rec_val (desc rm) fs = snd (enc_row (desc rm) (row_of fs))"
    using representsD(3)[OF rep fs] by (simp add: enc_def)
  have "table_serve rm (Contains fs) S = (r, S)"
  proof (cases "find_rec rm (rec_key (desc rm) fs)")
    case None
    then show ?thesis using res mem find_rows(1)[OF rep fs] by auto
  next
    case (Some kv)
    then have r: "r = (if snd kv = rec_val (desc rm) fs then Inr () else NOT_FOUND)" using res mem by auto
    note hit = find_rows(2)[OF rep fs Some]
    then show ?thesis using r val by auto
  qed
  moreover have "represents F m' rm S" using rep map_wf_mono[OF wf mem'] by (simp add: represents_def)
  ultimately show ?thesis using run mem mem' by (auto simp: refines_def mem_le_def)
qed

lemma update_refines:
  assumes rep: "represents F m rm S" and fs: "fs \<in> F" and gs: "updates_ok (desc rm) F gs" and mem: "fails m = []"
  shows "refines F rm S (Update fs gs) (RDB_update_tree_rec rm fs gs m)"
proof -
  note wf = representsD(1)[OF rep]
  obtain r rm' m' where run: "RDB_update_tree_rec rm fs gs m = (r, rm', m')" by (metis prod_cases3)
  let ?hit = "{r \<in> S. same_key rm (row_of fs) r}"
  show ?thesis
  proof (cases "find_rec rm (rec_key (desc rm) fs)")
    case None
    have mem': "mem_le m m'" "r = NOT_FOUND" "rm' = rm"
      using RDB_update_tree_rec_result[OF wf fs gs run] mem None by auto
    then show ?thesis
      using run mem rep map_wf_mono[OF wf mem'(1)] find_rows(1)[OF rep fs] None
      by (auto simp: refines_def mem_le_def represents_def Let_def)
  next
    case (Some kv)
    then obtain fs2 where fs2: "fs2 \<in> F" "kv = enc (desc rm) fs2"
      and res: "update_result F m rm kv (enc (desc rm) (set_fields fs2 gs)) r rm' m'"
      using RDB_update_tree_rec_result[OF wf fs gs run] mem by auto
    note hit = find_rows(2)[OF rep fs Some]
    let ?new = "row_of (set_fields fs2 gs)"
    have new: "set_fields fs2 gs \<in> F" by (rule set_fields_in[OF gs fs2(1)])
    note enew = representsD(3)[OF rep new]
    have "set_row gs r = ?new" if rh: "r \<in> ?hit" for r
    proof -
      obtain gs2 where gs2: "gs2 \<in> F" "r = row_of gs2" using rh representsD(4)[OF rep] by blast
      then have "enc (desc rm) gs2 = enc (desc rm) fs2"
        using hit rh fs2(2) representsD(3)[OF rep gs2(1)] by auto
      then have "row_of gs2 = row_of fs2"
        using enc_row_inj[OF map_wfD(1)[OF wf] map_wfD(2)[OF wf gs2(1)] map_wfD(2)[OF wf fs2(1)]] by blast
      then show ?thesis using gs2(2) set_row_of by metis
    qed
    then have img: "set_row gs ` ?hit = {?new}" using hit by auto
    have others: "records rm - {kv} = enc_row (desc rm) ` (S - ?hit)" using hit by simp
    have mem': "mem_le m m'" and wf': "map_wf F m' rm'" "desc rm' = desc rm"
      "map index_sig (indexes rm') = map index_sig (indexes rm)"
      and r: "if \<exists>r' \<in> S - ?hit. clash rm ?new r' then r = KEY_VIOL \<and> records rm' = records rm
         else r = Inr () \<and> records rm' = insert (enc (desc rm) (set_fields fs2 gs)) (enc_row (desc rm) ` (S - ?hit))"
      using res mem unfolding update_result_def Let_def others clash_def enew by (auto simp only: bex_simps image_iff)
    note lay = same_layout_wf[OF wf wf']
    have one: "(\<exists>r \<in> {?new}. \<exists>r' \<in> S - ?hit. clash rm r r') = (\<exists>r' \<in> S - ?hit. clash rm ?new r')" by blast
    have serve: "table_serve rm (Update fs gs) S =
        (if \<exists>r' \<in> S - ?hit. clash rm ?new r' then (KEY_VIOL, S) else (Inr (), insert ?new (S - ?hit)))"
      using hit one by (simp only: table_serve.simps Let_def img if_False Un_insert_right Un_empty_right simp_thms)
    show ?thesis
    proof (cases "\<exists>r' \<in> S - ?hit. clash rm ?new r'")
      case True
      then have "represents F m' rm' S" using r rep wf' by (simp add: represents_def)
      then show ?thesis using True r serve run lay mem mem' by (auto simp: refines_def mem_le_def)
    next
      case False
      then have "r = Inr ()" "records rm' = enc_row (desc rm) ` insert ?new (S - ?hit)"
        using r enew by simp_all
      then have "represents F m' rm' (insert ?new (S - ?hit))"
        using rep wf' new by (auto simp: represents_def)
      then show ?thesis
        using False r serve run lay mem mem' by (auto simp: refines_def mem_le_def)
    qed
  qed
qed

lemma serve_refines:
  assumes "represents F m rm S" "request_ok (desc rm) F q" "fails m = []"
  shows "refines F rm S q (serve q rm m)"
proof (cases q)
  case (Contains fs)
  then show ?thesis using contains_refines assms by simp
qed (use assms insert_refines delete_refines update_refines in simp_all)

lemma serve_all_refines:
  assumes "represents F m rm S" "\<forall>q \<in> set qs. request_ok (desc rm) F q" "fails m = []"
    and "serve_all qs rm m = (rs, rm', m')"
  shows "\<exists>S'. table_serve_all rm qs S = (rs, S') \<and> represents F m' rm' S' \<and> same_layout rm rm' \<and> fails m' = []"
  using assms
proof (induction qs arbitrary: rm m S rs)
  case (Cons q qs)
  obtain r rm1 m1 where q: "serve q rm m = (r, rm1, m1)" by (metis prod_cases3)
  obtain rs' where qs: "serve_all qs rm1 m1 = (rs', rm', m')" "rs = r # rs'"
    using Cons.prems(4) q by (auto split: prod.splits)
  obtain S1 where S1: "table_serve rm q S = (r, S1)" "represents F m1 rm1 S1" "same_layout rm rm1" "fails m1 = []"
    using serve_refines[OF Cons.prems(1) _ Cons.prems(3), of q] Cons.prems(2) q by (auto simp: refines_def)
  have ok: "\<forall>q \<in> set qs. request_ok (desc rm1) F q" using Cons.prems(2) S1(3) by (simp add: same_layout_def)
  obtain S2 where S2: "table_serve_all rm1 qs S1 = (rs', S2)" "represents F m' rm' S2" "same_layout rm1 rm'" "fails m' = []"
    using Cons.IH[OF S1(2) ok S1(4) qs(1)] by blast
  have "table_serve_all rm qs S1 = (rs', S2)"
    using S2(1) by (simp add: table_serve_all_layout[OF S1(3)])
  then show ?case using S1 S2 qs(2) same_layout_trans by fastforce
qed simp

end
