(* ===== verification/Recmap_Properties.thy ===== *)
theory Recmap_Properties
  imports Recmap_Refinement
begin

text \<open>
  The properties of record maps, and a concrete map to which they are applied.
\<close>

section \<open>A concrete map\<close>

text \<open>
  A key of one byte, a byte with a unique index, and a value of variable length.  The map
  and its index are made by the functions of the model.
\<close>

definition sample_fields :: "field_info list" where
  "sample_fields = [\<lparr>fi_len = 1, fi_attrname = None, fi_flags = 0\<rparr>, \<lparr>fi_len = 1, fi_attrname = None, fi_flags = 0\<rparr>,
     \<lparr>fi_len = RDB_VARIABLE_LEN, fi_attrname = None, fi_flags = 0\<rparr>]"

definition sample_rec :: "u8 \<Rightarrow> u8 \<Rightarrow> bytes \<Rightarrow> rdb_field list" where
  "sample_rec k d v = row_fields [[k], [d], v]"

definition sample_recs :: "(rdb_field list) set" where
  "sample_recs = {sample_rec k d v | k d v. length v < 1000}"

definition sample_empty :: "tree_recmap \<times> mem" where
  "sample_empty =
     (case RDB_create_tree_recmap sample_fields 1 [] RDB_UNIQUE mem_ok of
        (Inr rm, m) \<Rightarrow> (case RDB_create_tree_index rm [1] None 1 m of (r, rm1, m1) \<Rightarrow> (rm1, m1)))"

definition sample_map :: tree_recmap where "sample_map = fst sample_empty"
definition sample_mem :: mem where "sample_mem = snd sample_empty"

lemma sample_rec_simps [simp]:
  "sample_rec k d v ! 0 = \<lparr>no = 0, datap = [k], flen = 1, copyfp = memcpy\<rparr>"
  "sample_rec k d v ! Suc 0 = \<lparr>no = 1, datap = [d], flen = 1, copyfp = memcpy\<rparr>"
  by (simp_all add: sample_rec_def row_fields_def)

lemmas sample_defs = sample_fields_def RDB_new_recmap_def RDB_UNIQUE_def RDB_VARIABLE_LEN_def
  RDB_create_tree_def malloc_def mem_ok_def dup_opt_def count_var_def malloc_if_def

lemma sample_created:
  "\<exists>rm m. RDB_create_tree_recmap sample_fields 1 [] RDB_UNIQUE mem_ok = (Inr rm, m)"
  by (simp add: RDB_create_tree_recmap_def sample_defs Let_def)

lemma compare_key_memcmp:
  assumes "\<And>d1 d2. f d1 d2 = (let res = memcmp d1 d2 (if length d1 \<le> length d2 then length d1 else length d2) in
    if res \<noteq> 0 then res else abs_size_diff (length d1) (length d2))"
  shows "compare_key (Some f) = compare_key None"
  by (intro ext) (simp add: compare_key_def assms Let_def)

lemma key_order_cong:
  assumes "key_order cf K" "compare_key cf' = compare_key cf" "K' \<subseteq> K"
  shows "key_order cf' K'"
  using key_order.cmp_refl[OF assms(1)] key_order.cmp_sym[OF assms(1)] key_order.cmp_trans[OF assms(1)] assms(3)
  unfolding assms(2)[symmetric] by (intro key_order.intro) blast+

lemma byte_order:
  assumes "compare_key cf = compare_key None" "\<forall>k \<in> K. length k = 1"
  shows "key_order cf K"
  by (rule key_order_cong[OF fixed_length.bytes_key_order[of 1] assms(1)]) (use assms(2) in auto)


lemma sample_recs_ok:
  assumes "recmap_ok rmp" "fieldinfos rmp = sample_fields" "keyfieldcount rmp = 1" "fs \<in> sample_recs"
  shows "full_rec rmp fs" "length (rec_key rmp fs) = 1" "rec_ok rmp (map ((!) fs) [1])"
    "length (encode rmp (map ((!) fs) [1])) = 1"
proof -
  obtain k d v where fs: "fs = sample_rec k d v" "length v < 1000" using assms(4) by (auto simp: sample_recs_def)
  have n: "fieldcount rmp = 3" using assms(1,2) by (simp add: recmap_ok_def sample_fields_def)
  note defs = fs(1) full_rec_def rec_key_def assms(2,3) n sample_rec_def row_fields_def rec_ok_def field_ok_def
    is_var_def sample_fields_def memcpy_def rec_size_def RDB_VARIABLE_LEN_def var_fields_def
    fixed_fields_def RECLEN_SIZE_def encode_def
  show "full_rec rmp fs" using fs(2) by (simp add: defs upt_rec)
  show "length (rec_key rmp fs) = 1" by (simp add: defs)
  show "rec_ok rmp (map ((!) fs) [1])" by (simp add: defs)
  show "length (encode rmp (map ((!) fs) [1])) = 1" by (simp add: defs)
qed

lemma sample_created_steps:
  "\<exists>rm m. map_wf sample_recs m rm \<and> records rm = {} \<and> indexes rm = [] \<and> fails m = []
     \<and> RDB_create_tree_index rm [1] None 1 m = (Inr (), sample_map, sample_mem)
     \<and> (\<forall>i \<in> set [1 :: nat]. i < fieldcount (desc rm)) \<and> (\<forall>fs \<in> sample_recs. rec_ok (desc rm) (map ((!) fs) [1]))
     \<and> key_order (comparison_fp (ix_treep (hd (indexes sample_map)))) ((\<lambda>fs. encode (desc rm) (map ((!) fs) [1])) ` sample_recs)
     \<and> fieldinfos (desc rm) = sample_fields \<and> keyfieldcount (desc rm) = 1 \<and> fieldcount (desc rm) = 3
     \<and> length (indexes sample_map) = 1 \<and> fails sample_mem = []"
proof -
  obtain rm m where rm: "RDB_create_tree_recmap sample_fields 1 [] RDB_UNIQUE mem_ok = (Inr rm, m)"
    using sample_created by blast
  obtain r rm1 m1 where rm1: "RDB_create_tree_index rm [1] None 1 m = (r, rm1, m1)" by (metis prod_cases3)
  have fis: "1 \<le> length sample_fields"
    "\<forall>fi \<in> set sample_fields. fi_len fi = RDB_VARIABLE_LEN \<or> 0 \<le> fi_len fi \<and> fi_len fi < 2 ^ 31"
    by (simp_all add: sample_fields_def)
  have d: "recmap_ok (desc rm)" "fieldinfos (desc rm) = sample_fields" "keyfieldcount (desc rm) = 1" "cmpv (desc rm) = []"
    "indexes rm = []" "fails m = []" "fieldcount (desc rm) = 3"
    using rm by (auto simp: RDB_create_tree_recmap_def sample_defs Let_def recmap_ok_def)
  have "compare_key (Some (recmap_comparison (desc rm))) = compare_key None"
    by (rule compare_key_memcmp) (simp add: recmap_comparison_def recmap_compare_key_def d Let_def)
  then have "key_order (Some (recmap_comparison (desc rm))) (rec_key (desc rm) ` sample_recs)"
    by (rule byte_order) (use sample_recs_ok(2)[OF d(1-3)] in auto)
  note wf = RDB_create_tree_recmap_wf[OF rm fis _ this]
  have wf0: "map_wf sample_recs m rm" "records rm = {}" using wf(1,2) sample_recs_ok(1)[OF d(1-3)] by blast+
  have r: "r = Inr ()"
    and cmp: "comparison_fp (ix_treep (hd (indexes rm1))) = Some (index_comparison (desc rm) [1] None)"
    and ix: "length (indexes rm1) = 1" "fails m1 = []"
    using rm1 d by (auto simp: RDB_create_tree_index_def new_tree_index_def RDB_create_tree_def malloc_def malloc_if_def Let_def)
  have "compare_key (Some (index_comparison (desc rm) [1] None)) = compare_key None"
    by (rule compare_key_memcmp) (simp add: index_comparison_def index_compare_key_def Let_def)
  then have ord: "key_order (comparison_fp (ix_treep (hd (indexes rm1)))) ((\<lambda>fs. encode (desc rm) (map ((!) fs) [1])) ` sample_recs)"
    unfolding cmp by (rule byte_order) (use sample_recs_ok(4)[OF d(1-3)] in auto)
  have "sample_map = rm1" "sample_mem = m1"
    by (simp_all add: sample_map_def sample_mem_def sample_empty_def rm rm1 del: One_nat_def)
  then show ?thesis using wf0 d(5-7) rm1[unfolded r] ord d(2,3) ix sample_recs_ok(3)[OF d(1-3)]
    by (intro exI[of _ rm] exI[of _ m]) auto
qed

lemma sample_wf: "map_wf sample_recs sample_mem sample_map" "records sample_map = {}"
  "length (indexes sample_map) = 1" "fails sample_mem = []"
  "fieldinfos (desc sample_map) = sample_fields" "keyfieldcount (desc sample_map) = 1" "fieldcount (desc sample_map) = 3"
proof -
  obtain rm m where rm: "map_wf sample_recs m rm" "records rm = {}" "indexes rm = []" "fails m = []"
    "RDB_create_tree_index rm [1] None 1 m = (Inr (), sample_map, sample_mem)"
    "\<forall>i \<in> set [1 :: nat]. i < fieldcount (desc rm)" "\<forall>fs \<in> sample_recs. rec_ok (desc rm) (map ((!) fs) [1])"
    "key_order (comparison_fp (ix_treep (hd (indexes sample_map)))) ((\<lambda>fs. encode (desc rm) (map ((!) fs) [1])) ` sample_recs)"
    "fieldinfos (desc rm) = sample_fields" "keyfieldcount (desc rm) = 1" "fieldcount (desc rm) = 3"
    "length (indexes sample_map) = 1" "fails sample_mem = []"
    using sample_created_steps by blast
  have "map_wf sample_recs sample_mem sample_map \<and> records sample_map = {} \<and> desc sample_map = desc rm"
    by (rule RDB_create_tree_index_wf[OF rm(1,2,5-8)])
  moreover note rm(12,13)
  ultimately show "map_wf sample_recs sample_mem sample_map" "records sample_map = {}"
    "length (indexes sample_map) = 1" "fails sample_mem = []"
    "fieldinfos (desc sample_map) = sample_fields" "keyfieldcount (desc sample_map) = 1" "fieldcount (desc sample_map) = 3"
    using rm(9-11) by simp_all
qed

lemma sample_represents: "represents sample_recs sample_mem sample_map {}"
  by (simp add: represents_def sample_wf)

lemma sample_recs_intro [intro]: "length v < 1000 \<Longrightarrow> sample_rec k d v \<in> sample_recs"
  by (auto simp: sample_recs_def)

lemma sample_update_ok:
  assumes "length v < 1000" "n = length v"
  shows "updates_ok (desc sample_map) sample_recs [\<lparr>no = 2, datap = v, flen = n, copyfp = memcpy\<rparr>]"
proof -
  have "set_field fs \<lparr>no = 2, datap = v, flen = n, copyfp = memcpy\<rparr> \<in> sample_recs" if "fs \<in> sample_recs" for fs
    using that assms
    by (auto simp: sample_recs_def set_field_def sample_rec_def row_fields_def)
  then show ?thesis
    using assms by (simp add: field_ok_def sample_wf sample_fields_def memcpy_def is_var_def updates_ok_def)
qed

lemma sample_desc: "desc sample_map = \<lparr>namp = None, filenamp = None, fieldcount = 3, keyfieldcount = 1,
      fieldinfos = sample_fields, varkeyfieldcount = 0, vardatafieldcount = 1, cmpv = [], dup_keys = False,
      delayed_deletion = False\<rparr>"
  by (simp add: sample_map_def sample_empty_def RDB_create_tree_recmap_def sample_defs Let_def RDB_create_tree_index_def new_tree_index_def)
lemma sample_indexes: "indexes sample_map = [\<lparr>ix_fieldv = [1], ix_cmpv = None, ix_treep = \<lparr>root = Null, comparison_fp = Some (index_comparison (desc sample_map) [1] None)\<rparr>\<rparr>]"
  by (simp add: sample_map_def sample_empty_def RDB_create_tree_recmap_def sample_defs Let_def RDB_create_tree_index_def new_tree_index_def)

lemma sample_treep: "treep sample_map = \<lparr>root = Null, comparison_fp = Some (recmap_comparison (desc sample_map))\<rparr>"
  by (simp add: sample_map_def sample_empty_def RDB_create_tree_recmap_def sample_defs Let_def RDB_create_tree_index_def new_tree_index_def)

lemmas sample_eval = sample_desc sample_fields_def key_to_mem_def value_to_mem_def sample_rec_def row_fields_def
  RDB_fields_to_mem_def is_var_def write_at_def memcpy_def RECLEN_SIZE_def malloc_def malloc_if_def Let_def
  RDB_VARIABLE_LEN_def set_len_def check_in_indexes.simps RDB_make_skey_def RDB_get_field_def index_field_def read_at_def
  RDB_tree_insert_def create_node_def sample_indexes sample_treep RDB_tree_find_def to_size_def to_int_def

lemma sample_key_to_mem: "key_to_mem (desc sample_map) (sample_rec 1 10 [7]) \<lparr>fails = False # False # xs, next_addr = n\<rparr>
    = (Inr (Inr [1]), \<lparr>fails = xs, next_addr = n + 2\<rparr>)"
  by (simp add: sample_eval)
lemma sample_value_to_mem: "value_to_mem (desc sample_map) (sample_rec 1 10 [7]) \<lparr>fails = False # False # False # xs, next_addr = n\<rparr>
    = (Inr (Inr [10, 7, 1, 0, 0, 0]), \<lparr>fails = xs, next_addr = n + 3\<rparr>)"
  by (simp add: sample_eval)
lemma sample_check: "check_in_indexes (desc sample_map) (indexes sample_map) [1] [10, 7, 1, 0, 0, 0]
      \<lparr>fails = False # False # False # xs, next_addr = n\<rparr> = (Inr (), \<lparr>fails = xs, next_addr = n + 3\<rparr>)"
  by (simp add: sample_eval)

lemma sample_mem_eval: "sample_mem = \<lparr>fails = [], next_addr = 8\<rparr>"
  by (simp add: sample_mem_def sample_empty_def RDB_create_tree_recmap_def sample_defs Let_def RDB_create_tree_index_def new_tree_index_def)

section \<open>Properties\<close>


definition sample_requests :: "request list" where
  "sample_requests =
     [Insert (sample_rec 1 10 [7]), Insert (sample_rec 2 10 [8]), Insert (sample_rec 2 20 [9]),
      Update (sample_rec 2 0 []) [\<lparr>no = 2, datap = [1, 2, 3], flen = 3, copyfp = memcpy\<rparr>],
      Contains (sample_rec 2 20 [1, 2, 3]), Delete (sample_rec 1 10 [])]"

lemma sample_requests_ok: "\<forall>q \<in> set sample_requests. request_ok (desc sample_map) sample_recs q"
  using sample_update_ok[of "[1, 2, 3]" 3] by (auto simp: sample_requests_def)




text \<open>
  C2: reading a map with a cursor from the first record on, until the end is reported,
  gives every row once, in the order of the keys.
\<close>

theorem cursor_scan_complete:
  assumes "represents F m rm S"
  shows "\<exists>kvs. visit (length (items (root (treep rm)))) rm (RDB_tree_cursor_first rm cur) = Some kvs
    \<and> set kvs = enc_row (desc rm) ` S
    \<and> sorted_wrt (key_less (comparison_fp (treep rm))) (map fst kvs) \<and> distinct kvs"
proof -
  note wf = representsD(1)[OF assms]
  note inv = map_wfD(3)[OF wf]
  have "distinct (ids (root (treep rm)))" "par_ok None (root (treep rm))"
    using recmap_invD(3)[OF inv] by (auto simp: bt_wf_def tree_wf_def)
  moreover have "distinct (recs (root (treep rm)))"
    using key_order.sorted_distinct[OF recmap_invD(2)[OF inv]] recmap_sorted[OF inv] by (metis distinct_map set_map)
  ultimately show ?thesis
    using visit_all[of rm cur] recmap_sorted(1)[OF inv] representsD(2)[OF assms]
    by (simp add: records_def)
qed

text \<open>The map after the requests of the first property.\<close>

definition sample_later :: "tree_recmap \<times> mem" where
  "sample_later = snd (serve_all sample_requests sample_map sample_mem)"

lemma sample_later_represents: "\<exists>S. represents sample_recs (snd sample_later) (fst sample_later) S"
  using serve_all_refines[OF sample_represents sample_requests_ok sample_wf(4)]
  unfolding sample_later_def by (metis prod.collapse)

theorem cursor_scan_complete_witness:
  "\<exists>S kvs cur. visit (length (items (root (treep (fst sample_later))))) (fst sample_later)
       (RDB_tree_cursor_first (fst sample_later) cur) = Some kvs
     \<and> set kvs = enc_row (desc (fst sample_later)) ` S"
  using sample_later_represents cursor_scan_complete by blast


lemma sample_key: "rec_key (desc sample_map) (sample_rec k d v) = [k]"
  by (simp add: rec_key_def encode_def sample_rec_def row_fields_def sample_wf sample_fields_def memcpy_def
      fixed_fields_def var_fields_def is_var_def RDB_VARIABLE_LEN_def)

definition short_mem :: "nat \<Rightarrow> mem" where
  "short_mem n = sample_mem\<lparr>fails := replicate n False @ [True]\<rparr>"

lemma map_wf_fails: "map_wf F (m\<lparr>fails := fs\<rparr>) rm = map_wf F m rm"
  by (simp add: map_wf_def recmap_inv_def bt_wf_def index_inv_def tree_wf_def)

lemma short_mem_wf: "map_wf sample_recs (short_mem n) sample_map"
  using sample_wf(1) by (simp add: short_mem_def map_wf_fails)





text \<open>The fields fetched for a stored record are those it was stored with.\<close>

theorem get_stored_fields:
  assumes "map_wf F m rm" "fs \<in> F" "enc (desc rm) fs \<in> records rm" "fails m = []"
    and "\<forall>g \<in> set gs. keyfieldcount (desc rm) \<le> no g \<and> no g < fieldcount (desc rm)"
    and "RDB_get_tree_fields rm fs gs m = (r, m')"
  shows "\<exists>gs'. r = Inr gs' \<and> map (\<lambda>g. take (flen g) (datap g)) gs' = map (\<lambda>g. field_bytes (fs ! no g)) gs"
proof -
  have "find_rec rm (rec_key (desc rm) fs) = Some (enc (desc rm) fs)"
    using find_rec_self[OF map_wfD(3)[OF assms(1)] assms(3)] by (simp add: enc_def)
  then obtain fs2 gs' where fs2: "fs2 \<in> F" "enc (desc rm) fs = enc (desc rm) fs2" "r = Inr gs'"
      "list_all2 (fetched fs2) gs gs'"
    using RDB_get_tree_fields_result[OF assms(1,2,5,6)] assms(4) by auto
  have rows: "row_of fs = row_of fs2"
    using enc_row_inj map_wfD(1,2)[OF assms(1)] assms(2) fs2(1,2) by blast
  have len: "length fs = fieldcount (desc rm)"
    using full_rec_parts(3) map_wfD(1,2)[OF assms(1)] assms(2) by blast
  have "map (\<lambda>g. take (flen g) (datap g)) gs' = map (\<lambda>g. field_bytes (fs2 ! no g)) gs"
    using fs2(4) by (induction rule: list_all2_induct) (auto simp: fetched_def)
  also have "\<dots> = map (\<lambda>g. row_of fs2 ! no g) gs"
    using assms(5) len arg_cong[OF rows, of length] by (simp add: row_of_def)
  also have "\<dots> = map (\<lambda>g. field_bytes (fs ! no g)) gs"
    unfolding rows[symmetric] using assms(5) len by (simp add: row_of_def)
  finally show ?thesis using fs2(3) by blast
qed

text \<open>The record of the fifth request is stored.\<close>

theorem get_stored_fields_witness:
  "\<exists>rm m gs' m'. RDB_get_tree_fields rm (sample_rec 1 10 [7]) [\<lparr>no = 2, datap = [], flen = 0, copyfp = memcpy\<rparr>] m = (Inr gs', m')
     \<and> map (\<lambda>g. take (flen g) (datap g)) gs' = [[7]]"
proof -
  have F: "sample_rec 1 10 [7] \<in> sample_recs" by auto
  obtain r rm m where run: "RDB_insert_tree_rec sample_map (sample_rec 1 10 [7]) sample_mem = (r, rm, m)"
    by (metis prod_cases3)
  have ins: "map_wf sample_recs m rm" "desc rm = desc sample_map" "fails m = []"
    "enc (desc rm) (sample_rec 1 10 [7]) \<in> records rm"
    using RDB_insert_tree_rec_result[OF sample_wf(1) F run] sample_wf(2,4) conflicts_iff[OF map_wfD(3)[OF sample_wf(1)]]
    by (auto simp: mem_le_def)
  obtain q m' where get: "RDB_get_tree_fields rm (sample_rec 1 10 [7])
      [\<lparr>no = 2, datap = [], flen = 0, copyfp = memcpy\<rparr>] m = (q, m')" by fastforce
  have "field_bytes (sample_rec 1 10 [7] ! 2) = [7]" by (simp add: sample_rec_def row_fields_def memcpy_def)
  then obtain gs' where "q = Inr gs'" "map (\<lambda>g. take (flen g) (datap g)) gs' = [[7]]"
    using get_stored_fields[OF ins(1) F ins(4,3) _ get] ins(2) sample_wf(6,7) by auto
  then show ?thesis using get by (intro exI conjI) auto
qed

text \<open>
  C30: deleting a record, whichever allocations fail: the call runs out of memory, or it
  removes exactly the record with the key, or it reports that there is none.
\<close>

theorem delete_any_memory:
  assumes "map_wf F m rm" "fs \<in> F" "RDB_delete_tree_rec rm fs m = (r, rm', m')"
  shows "r = NO_MEM \<and> fails m \<noteq> []
     \<or> r = NOT_FOUND \<and> rm' = rm \<and> (\<forall>kv \<in> records rm. fst kv \<noteq> rec_key (desc rm) fs)
     \<or> r = Inr () \<and> map_wf F m' rm'
        \<and> (\<exists>kv \<in> records rm. compare_key (comparison_fp (treep rm)) (rec_key (desc rm) fs) (fst kv) = 0
             \<and> records rm' = records rm - {kv})"
proof -
  note inv = map_wfD(3)[OF assms(1)] and K = map_wfD(5)[OF assms(1,2)]
  show ?thesis
  proof (cases "find_rec rm (rec_key (desc rm) fs)")
    case None
    then have "fst kv \<noteq> rec_key (desc rm) fs" if "kv \<in> records rm" for kv
      using find_rec_self[OF inv that] by auto
    then show ?thesis using RDB_delete_tree_rec_result[OF assms] None by auto
  next
    case (Some kv)
    then show ?thesis
      using RDB_delete_tree_rec_result[OF assms] find_rec_Some[OF inv K, of kv] by auto
  qed
qed

theorem delete_any_memory_witness:
  "\<exists>r rm' m'. RDB_delete_tree_rec sample_map (sample_rec 1 10 [7]) (short_mem 0) = (r, rm', m')
     \<and> (r = NO_MEM \<or> r = NOT_FOUND \<and> rm' = sample_map)"
proof -
  obtain r rm' m' where run: "RDB_delete_tree_rec sample_map (sample_rec 1 10 [7]) (short_mem 0) = (r, rm', m')"
    by (metis prod_cases3)
  have "sample_rec 1 10 [7] \<in> sample_recs" by auto
  from delete_any_memory[OF short_mem_wf this run] show ?thesis using run sample_wf(2) by auto
qed


text \<open>A map with one record.\<close>

lemma sample_one:
  obtains rm m a where "map_wf sample_recs m rm" "desc rm = desc sample_map" "fails m = []"
    "items (root (treep rm)) = [(a, enc (desc sample_map) (sample_rec 1 10 [7]))]"
    "records rm = {enc (desc rm) (sample_rec 1 10 [7])}"
proof -
  have F: "sample_rec 1 10 [7] \<in> sample_recs" by auto
  obtain r rm m where run: "RDB_insert_tree_rec sample_map (sample_rec 1 10 [7]) sample_mem = (r, rm, m)"
    by (metis prod_cases3)
  have ins: "map_wf sample_recs m rm" "desc rm = desc sample_map" "fails m = []"
    "records rm = {enc (desc rm) (sample_rec 1 10 [7])}"
    using RDB_insert_tree_rec_result[OF sample_wf(1) F run] sample_wf(2,4) conflicts_iff[OF map_wfD(3)[OF sample_wf(1)]]
    by (auto simp: mem_le_def)
  note inv = map_wfD(3)[OF ins(1)]
  have "distinct (recs (root (treep rm)))"
    using key_order.sorted_distinct[OF recmap_invD(2)[OF inv]] recmap_sorted[OF inv] by (metis distinct_map set_map)
  then have "length (recs (root (treep rm))) = 1" "set (recs (root (treep rm))) = {enc (desc rm) (sample_rec 1 10 [7])}"
    using distinct_card[of "recs (root (treep rm))"] ins(4) by (auto simp: records_def)
  then have "recs (root (treep rm)) = [enc (desc rm) (sample_rec 1 10 [7])]"
    by (cases "recs (root (treep rm))") auto
  then obtain a where "items (root (treep rm)) = [(a, enc (desc sample_map) (sample_rec 1 10 [7]))]"
    using ins(2) by (auto simp: recs_def)
  then show ?thesis using that ins by blast
qed

text \<open>
  An update of a key field or of an indexed field deletes the record before it has the
  memory for the new one.  When an allocation fails after the deletion, the record is lost.
\<close>

theorem update_loses_record:
  assumes "map_wf F m rm" "fs \<in> F" "enc (desc rm) fs \<in> records rm"
    and "nkey n = rec_key (desc rm) fs" "nvalue n = rec_val (desc rm) fs" "rec_key (desc rm) fs \<noteq> []"
    and "RDB_recmap_is_key_update rm gs"
    and "malloc_if True m = (True, m1)" "malloc_if (rec_val (desc rm) fs \<noteq> []) m1 = (True, m2)"
    and "delete_tree_rec_by_key rm (rec_key (desc rm) fs) m2 = (Inr (), rm1, m3)"
    and "malloc_if True m3 = (False, m4)"
  shows "\<exists>rm'. RDB_update_tree_node rm n gs m = (NO_MEM, rm', m4) \<and> map_wf F m4 rm'
    \<and> records rm' = records rm - {enc (desc rm) fs}"
proof -
  have run: "RDB_update_tree_node rm n gs m = (NO_MEM, rm1, m4)"
    using assms(4-) by (simp add: RDB_update_tree_node_def delete_update_reinsert_tree_node_def)
  have "mem_le m m1" "mem_le m1 m2" using malloc_if_mem[OF assms(8)] malloc_if_mem[OF assms(9)] by simp_all
  then have "mem_le m m2" by (rule mem_le_trans)
  then have "map_wf F m3 rm1" "records rm1 = records rm - {enc (desc rm) fs}"
    using delete_old[OF map_wf_mono[OF assms(1)] assms(2,3,10)] by auto
  then show ?thesis using run map_wf_mono malloc_if_mem[OF assms(11)] by blast
qed

theorem update_loses_record_witness:
  "\<exists>rm n gs m rm' m'. records rm \<noteq> {} \<and> RDB_update_tree_node rm n gs m = (NO_MEM, rm', m') \<and> records rm' = {}"
proof -
  let ?fs = "sample_rec 1 10 [7]" and ?gs = "[\<lparr>no = 0, datap = [2], flen = 1, copyfp = memcpy\<rparr>]"
  obtain rm0 m where one: "map_wf sample_recs m rm0" "desc rm0 = desc sample_map" "fails m = []"
    "records rm0 = {enc (desc rm0) ?fs}" by (rule sample_one)
  define rm where "rm = rm0\<lparr>indexes := []\<rparr>"
  have wf: "map_wf sample_recs (m\<lparr>fails := fl\<rparr>) rm" for fl
    using one(1) unfolding map_wf_fails by (auto simp: rm_def map_wf_def recmap_inv_def records_def)
  have st: "?fs \<in> sample_recs" "enc (desc rm) ?fs \<in> records rm" "records rm = {enc (desc rm) ?fs}"
    using one(4) by (auto simp: rm_def records_def)
  have key: "rec_key (desc rm) ?fs = [1]" using sample_key[of 1 10 "[7]"] by (simp add: rm_def one(2))
  let ?m = "m\<lparr>fails := [False, False, True]\<rparr>"
  obtain b1 m1 where m1: "malloc_if True ?m = (b1, m1)" by fastforce
  obtain b2 m2 where m2: "malloc_if (rec_val (desc rm) ?fs \<noteq> []) m1 = (b2, m2)" by fastforce
  have "rec_val (desc rm) ?fs \<noteq> []"
    by (simp add: rm_def one(2) rec_val_def encode_def sample_eval fixed_fields_def)
  then have b: "b1" "b2" "fails m2 = [True]" using m1 m2 by (auto simp: malloc_if_def malloc_def)
  obtain r rm1 where del: "delete_tree_rec_by_key rm [1] x = (r, rm1, x)" for x
    by (cases "delete_tree_node (rm0\<lparr>indexes := []\<rparr>) [1]")
      (auto simp: delete_tree_rec_by_key_def rm_def Let_def)
  have "r = Inr ()"
    using delete_old[OF wf[of "[]"] st(1,2)] del key by fastforce
  moreover obtain m4 where "malloc_if True m2 = (False, m4)" using b(3) by (auto simp: malloc_if_def malloc_def)
  moreover define n where "n = Node 0 None 0 [1] (rec_val (desc rm) ?fs) Null Null"
  ultimately obtain rm' m4 where "RDB_update_tree_node rm n ?gs ?m = (NO_MEM, rm', m4)"
    "records rm' = records rm - {enc (desc rm) ?fs}"
    using update_loses_record[OF wf st(1,2), of n ?gs "[False, False, True]" m1 m2 rm1 m2] key m1 m2 b(1,2) del[of m2]
    by (auto simp: RDB_recmap_is_key_update_def rm_def one(2) sample_wf(6))
  then show ?thesis
    using st(3) by (intro exI[of _ rm] exI[of _ n] exI[of _ ?gs] exI[of _ ?m] exI[of _ rm'] exI[of _ m4]) auto
qed

text \<open>
  C31: a cursor on a record moves to the next or the previous record in the order of the
  tree; beyond the last one it reports that there is none and loses its position.
\<close>

theorem cursor_steps:
  assumes "map_wf F m rm" and "ids (root (treep rm)) = xs @ a # ys"
  shows "RDB_tree_cursor_next rm \<lparr>cur_nodep = Some a\<rparr> = Some
      (if ys = [] then (NOT_FOUND, \<lparr>cur_nodep = None\<rparr>) else (Inr (), \<lparr>cur_nodep = Some (hd ys)\<rparr>))
    \<and> RDB_tree_cursor_prev rm \<lparr>cur_nodep = Some a\<rparr> = Some
      (if xs = [] then (NOT_FOUND, \<lparr>cur_nodep = None\<rparr>) else (Inr (), \<lparr>cur_nodep = Some (last xs)\<rparr>))"
proof -
  have "distinct (ids (root (treep rm)))" "par_ok None (root (treep rm))"
    using recmap_invD(3)[OF map_wfD(3)[OF assms(1)]] by (auto simp: bt_wf_def tree_wf_def)
  then show ?thesis using cursor_moves[OF _ _ assms(2)] by blast
qed

theorem cursor_steps_witness:
  "\<exists>rm a. a \<in> set (ids (root (treep rm)))
     \<and> RDB_tree_cursor_next rm \<lparr>cur_nodep = Some a\<rparr> = Some (NOT_FOUND, \<lparr>cur_nodep = None\<rparr>)"
proof -
  obtain rm m a where one: "map_wf sample_recs m rm"
    "items (root (treep rm)) = [(a, enc (desc sample_map) (sample_rec 1 10 [7]))]" by (rule sample_one)
  then have "ids (root (treep rm)) = [] @ a # []" by (simp add: ids_def)
  from cursor_steps[OF one(1) this] this show ?thesis by (intro exI[of _ rm] exI[of _ a]) simp
qed

text \<open>
  C32: deleting at a cursor removes the record at it, leaves the map consistent, and puts the
  cursor on the record that followed; the rest of the scan is not affected.
\<close>

theorem cursor_delete_current:
  assumes "map_wf F m rm" and "items (root (treep rm)) = us @ (a, k, v) # ws" and "fails m = []"
  shows "\<exists>rm' m' us'. RDB_tree_cursor_delete rm \<lparr>cur_nodep = Some a\<rparr> m
      = Some (Inr (), rm', \<lparr>cur_nodep = if ws = [] then None else Some (fst (hd ws))\<rparr>, m')
    \<and> map_wf F m' rm' \<and> records rm' = records rm - {(k, v)} \<and> items (root (treep rm')) = us' @ ws"
  using cursor_delete_result[OF assms(1,2) refl] assms(3) by blast

theorem cursor_delete_current_witness:
  "\<exists>rm m a rm' m'. RDB_tree_cursor_delete rm \<lparr>cur_nodep = Some a\<rparr> m = Some (Inr (), rm', \<lparr>cur_nodep = None\<rparr>, m')
     \<and> records rm \<noteq> {} \<and> records rm' = {}"
proof -
  obtain rm m a where one: "map_wf sample_recs m rm" "desc rm = desc sample_map" "fails m = []"
    "items (root (treep rm)) = [(a, enc (desc sample_map) (sample_rec 1 10 [7]))]"
    "records rm = {enc (desc rm) (sample_rec 1 10 [7])}" by (rule sample_one)
  then have "items (root (treep rm)) = [] @ (a, enc (desc sample_map) (sample_rec 1 10 [7])) # []" by simp
  from cursor_delete_current[OF one(1) this[unfolded enc_def] one(3)] show ?thesis
    using one(2,5) unfolding enc_def by fastforce
qed

end
