(* ===== verification/Spec2Isabelle.thy ===== *)
theory Spec2Isabelle
  imports Subtypes Keys Expression_Round_Trip Tuple_Properties Op_Laws Exec_Context Recmap_Properties
begin

text \<open>
  DuroDBMS is a relational database library in C.  Below its relational layer (\<^verbatim>\<open>duro/rel\<close>)
  lie the values, types and operators of the language (\<^verbatim>\<open>duro/obj\<close>), generic containers
  (\<^verbatim>\<open>duro/gen\<close>) and record maps, the storage abstraction of \<^verbatim>\<open>duro/rec\<close>, of which
  \<^verbatim>\<open>duro/treerec\<close> is the one implementation that does not rest on an external database.  This
  library models the containers, the tree storage, the type system, the values with the built-in
  scalar operators, tuples and arrays, and the conversion between values and stored records.

  \<^bold>\<open>How the code is modelled\<close>

  \<^item> A C function is a function of the same name; a \<^verbatim>\<open>struct\<close> is a record, a tagged union a
    datatype, and integers have their width where it matters (\<open>i32\<close> is \<^verbatim>\<open>RDB_int\<close>, a
    \<open>32 word\<close> read with \<open>sint\<close>; \<open>to_int\<close> and \<open>to_size\<close> are the conversions to \<^verbatim>\<open>int\<close> and
    \<^verbatim>\<open>size_t\<close>).  \<open>Floats\<close> has IEEE 754 arithmetic on 64 bits.
  \<^item> Memory (\<open>Duro_Prelude\<close>): the state \<open>mem\<close> holds the outcomes of the allocations to come, so that every
    failing allocation of the code is a branch of the model, and addresses where the code compares or
    follows them.  A function that allocates is an \<open>action\<close> (\<open>Actions\<close>), one that changes an object
    in place a \<open>change\<close> (\<open>Tuples\<close>): on failure the object has the state in which the code leaves it.
  \<^item> Errors: \<open>Inl (Raised e)\<close> is a failure with error \<open>e\<close> in the execution context, \<open>Inl Silent\<close> one
    that forgets to raise an error, \<open>Inl Segfault\<close> an access outside an object or through a null
    pointer, \<open>Inl Diverges\<close> an endless loop, and \<open>Inl Unmodelled\<close> a branch that leads into the part
    that is not modelled (tables as values).
  \<^item> Parameters: \<open>platform\<close> is what the C library leaves to the implementation or the locale (bytes of
    new memory, multibyte characters, transcendental functions, conversion of text to floats);
    its laws are \<open>platform_ok\<close>, and \<open>c_locale\<close> is an instance.  \<open>same\<close> is the equality of types that
    copying asks for, and \<open>subtype\<close> the search in the lists of subtypes; the theorems hold for every choice.
    Hash, equality and comparison functions are fields of the tables, as in the code.

  \<^bold>\<open>Containers and storage\<close>

  \<^item> \<open>Hashtable\<close> (\<^verbatim>\<open>gen/hashtable.c\<close>, \<^verbatim>\<open>hashtabit.c\<close>), \<open>Hashmap\<close> (\<^verbatim>\<open>hashmap.c\<close>, \<^verbatim>\<open>hashmapit.c\<close>), \<open>C_Strings\<close>
    (\<^verbatim>\<open>strfns.c\<close>): probing, growing, iteration.  The locale \<open>hash_key\<close> states what the functions
    of a table must obey; it is interpreted for maps with string keys and for tuples.  The invariant
    \<open>hashtable_inv\<close> is kept, and a map behaves like a finite map.
  \<^item> \<open>Avl_Tree\<close> (\<^verbatim>\<open>treerec/tree.c\<close>): the balanced tree with its parent pointers.  Its locale \<open>key_order\<close>
    is the contract of a comparison function; insertion and deletion keep order, balance
    and parent pointers, and search is logarithmic.
  \<^item> \<open>Record_Fields\<close> (\<^verbatim>\<open>treerec/field.c\<close>, \<^verbatim>\<open>rec/recmap.c\<close>): the layout of records.  \<open>Tree_Recmap\<close>,
    \<open>Recmap_Order\<close> (\<^verbatim>\<open>treerecmap.c\<close>), \<open>Tree_Index\<close> (\<^verbatim>\<open>treeindex.c\<close>), \<open>Tree_Cursor\<close> (\<^verbatim>\<open>treecursor.c\<close>):
    record maps, indexes and cursors.  \<open>Recmap_Refinement\<close> and \<open>Recmap_Properties\<close> show that a record
    map refines a table of rows with unique keys, that errors leave it as it was except where the
    findings show otherwise, and that a scan visits every record once, in order, and ends.

  \<^bold>\<open>Types, values and operators\<close>

  \<^item> \<open>Exec_Context\<close> (\<^verbatim>\<open>obj/excontext.c\<close>): the error state.
  \<^item> \<open>Rdb_Types\<close>, \<open>Subtypes\<close> (\<^verbatim>\<open>obj/type.c\<close>): tests, comparison and construction of types.  \<open>Type_Specs\<close>
    gives a type its meaning, a finite map from attribute names, and shows that equality decides
    equality of meanings and that the types of join, rename, project, wrap, group and so on refine operations on
    maps; \<open>Subtypes\<close> that the subtype test is an order.
  \<^item> \<open>Objects\<close> (\<^verbatim>\<open>obj/object.c\<close>): values.  \<open>Tuples\<close> (\<^verbatim>\<open>obj/tuple.c\<close>, \<^verbatim>\<open>array.c\<close>, \<^verbatim>\<open>objmatch.c\<close>, and the
    copying functions of \<^verbatim>\<open>rel/assign.c\<close> and \<^verbatim>\<open>rel/objectx.c\<close>), \<open>Tuple_Laws\<close>, \<open>Copying\<close>, \<open>Tuple_Ops\<close>,
    \<open>Tuple_Properties\<close>: a tuple refines a finite map, and copying keeps the value (\<open>obj_abs\<close>).
  \<^item> \<open>Scalar_Ops\<close>, \<open>String_Ops\<close>, \<open>Op_Map\<close>, \<open>Builtin_Ops\<close> (\<^verbatim>\<open>obj/builtinscops.c\<close>, \<^verbatim>\<open>operator.c\<close>, \<^verbatim>\<open>opmap.c\<close>): the
    built-in operators, their registration and their resolution.  \<open>Op_Soundness\<close> and \<open>Op_Laws\<close>: calls respect the
    declared types; arithmetic is exact or raises an overflow.
  \<^item> \<open>Attr_Order\<close> (\<^verbatim>\<open>RDB_next_attr_sorted\<close>), \<open>Value_Storage\<close> (\<^verbatim>\<open>rel/objectx.c\<close>), \<open>Storage_Laws\<close>,
    \<open>Expressions\<close>: the stored form of values.  The computed length is the length of
    what is written, and reading gives the value back, whatever the order of the attributes.

  \<^bold>\<open>Bounds\<close>

  Loops are structural or come with a termination proof.  The number of steps that a cursor or a
  search in a tree makes is bounded by the size of the tree, and the bounds are shown
  to suffice for trees that satisfy the invariant.  \<^verbatim>\<open>RDB_irep_to_obj\<close> recurs on nested values with a bound; any bound
  above the size of the value is enough (\<open>irep_to_obj_gives\<close>), so that the outcome \<open>Diverges\<close> is excluded.
  Lengths of stored values are below \<open>2 ^ 31\<close>, because the code returns them as \<^verbatim>\<open>int\<close>.

  \<^bold>\<open>What is not modelled\<close>

  The relational layer: tables as values, expressions, query evaluation and optimization, assignment,
  constraints, transactions and the catalog, which work on expression trees and open tables; the back
  ends for Berkeley DB, FoundationDB and PostgreSQL and the dispatching functions above them,
  which are calls into libraries that are not part of the repository; the parser (generated) and
  interpreter of Duro D/T; bindings, server, tests.  Functions that only free memory have no effect
  in the model.  Cursors over an index read a pointer that is never set, and are left out.
\<close>

end
